(* ===== verification/Bask_Prelude.thy ===== *)
theory Bask_Prelude
  imports Main "HOL-Library.Word"
begin

text \<open>
  Shared ground of the development: the result type of code that may stop or fail, the
  machine-integer widths of the C sources, and the generic facts on options, maps, lists and
  rounding-up division that the component theories use.
\<close>

section \<open>Machine types\<close>

type_synonym u8 = "8 word"
type_synonym u16 = "16 word"
type_synonym u32 = "32 word"
type_synonym u64 = "64 word"

text \<open>
  A pointer to an allocated object is a number; a C pointer that may be \<open>NULL\<close> is an
  \<open>addr option\<close>.
\<close>

type_synonym addr = nat

section \<open>Results of code that may stop\<close>

text \<open>
  \<^descr> \<open>Stopped msg\<close> is \<open>ERR_LOG_AND_STOP\<close> (\<open>server.h\<close>) or \<open>DEBUG_ERR\<close> (\<open>ksm.h\<close>): the
  message is printed and \<open>debug_stop\<close> spins for ever.
  \<^descr> \<open>Null_Deref\<close> is a read or write through a pointer to no live object.
  \<^descr> \<open>Diverged\<close> is a loop over linked objects that never ends.
\<close>

datatype fault = Stopped string | Null_Deref | Diverged

type_synonym 'a res = "fault + 'a"

definition rbind :: "'a res \<Rightarrow> ('a \<Rightarrow> 'b res) \<Rightarrow> 'b res" where
  "rbind m f = (case m of Inl e \<Rightarrow> Inl e | Inr x \<Rightarrow> f x)"

definition guard_stop :: "string \<Rightarrow> bool \<Rightarrow> unit res" where
  "guard_stop msg ok = (if ok then Inr () else Inl (Stopped msg))"

text \<open>Reading through a pointer into a heap of objects.\<close>

definition deref :: "(addr \<Rightarrow> 'a option) \<Rightarrow> addr \<Rightarrow> 'a res" where
  "deref h a = (case h a of None \<Rightarrow> Inl Null_Deref | Some x \<Rightarrow> Inr x)"

text \<open>The result of a loop that may not end: \<open>None\<close> is a loop that does not.\<close>

definition loop_result :: "'a res option \<Rightarrow> 'a res" where
  "loop_result m = (case m of None \<Rightarrow> Inl Diverged | Some r \<Rightarrow> r)"

named_theorems res_simps "evaluation and inversion of results"

lemma rbind_Inl [simp, res_simps]: "rbind (Inl e) f = Inl e"
  by (simp add: rbind_def)

lemma rbind_Inr [simp, res_simps]: "rbind (Inr x) f = f x"
  by (simp add: rbind_def)

lemma rbind_eq_Inr [res_simps]: "rbind m f = Inr y \<longleftrightarrow> (\<exists>x. m = Inr x \<and> f x = Inr y)"
  by (auto simp: rbind_def split: sum.splits)

lemma rbind_assoc: "rbind (rbind m f) g = rbind m (\<lambda>x. rbind (f x) g)"
  by (simp add: rbind_def split: sum.splits)

lemma guard_stop_True [simp, res_simps]: "ok \<Longrightarrow> guard_stop msg ok = Inr ()"
  by (simp add: guard_stop_def)

lemma guard_stop_False [simp, res_simps]: "\<not> ok \<Longrightarrow> guard_stop msg ok = Inl (Stopped msg)"
  by (simp add: guard_stop_def)

lemma guard_stop_eq_Inr [res_simps]: "guard_stop msg ok = Inr u \<longleftrightarrow> ok"
  by (simp add: guard_stop_def)

lemma deref_Some [simp, res_simps]: "h a = Some x \<Longrightarrow> deref h a = Inr x"
  by (simp add: deref_def)

lemma deref_eq_Inr [res_simps]: "deref h a = Inr x \<longleftrightarrow> h a = Some x"
  by (auto simp: deref_def split: option.splits)

lemma loop_result_Some [simp, res_simps]: "loop_result (Some r) = r"
  by (simp add: loop_result_def)

section \<open>A loop over a list of elements that may stop\<close>

fun rfold :: "('a \<Rightarrow> 's \<Rightarrow> 's res) \<Rightarrow> 'a list \<Rightarrow> 's \<Rightarrow> 's res" where
  "rfold f [] s = Inr s"
| "rfold f (x # xs) s = rbind (f x s) (rfold f xs)"

lemma rfold_append: "rfold f (xs @ ys) s = rbind (rfold f xs s) (rfold f ys)"
proof (induction xs arbitrary: s)
  case (Cons x xs)
  then have "rfold f (xs @ ys) = (\<lambda>s. rbind (rfold f xs s) (rfold f ys))" by blast
  then show ?case by (simp add: rbind_assoc)
qed simp

text \<open>
  The rule for such a loop: an invariant that every iteration keeps, with the iteration known
  not to stop, holds at the end of a loop that does not stop.
\<close>

lemma rfold_invariant:
  assumes "P s"
    and "\<And>x s. x \<in> set xs \<Longrightarrow> P s \<Longrightarrow> \<exists>s'. f x s = Inr s' \<and> P s'"
  shows "\<exists>s'. rfold f xs s = Inr s' \<and> P s'"
  using assms
proof (induction xs arbitrary: s)
  case Nil
  then show ?case by simp
next
  case (Cons x xs)
  from Cons.prems obtain s1 where "f x s = Inr s1" "P s1"
    by (meson list.set_intros(1))
  moreover have "\<exists>s'. rfold f xs s1 = Inr s' \<and> P s'"
    using Cons.IH [OF \<open>P s1\<close>] Cons.prems(2) by simp
  ultimately show ?case by simp
qed

section \<open>Rounding-up division\<close>

text \<open>\<open>DIV_ROUND_UP(n, d)\<close> of \<open>server.h\<close> and of the kernel.\<close>

definition DIV_ROUND_UP :: "nat \<Rightarrow> nat \<Rightarrow> nat" where
  "DIV_ROUND_UP n d = (n + d - 1) div d"

lemma DIV_ROUND_UP_0 [simp]: "DIV_ROUND_UP 0 d = 0"
  by (cases d) (simp_all add: DIV_ROUND_UP_def)

lemma DIV_ROUND_UP_le_iff: "0 < d \<Longrightarrow> DIV_ROUND_UP n d \<le> k \<longleftrightarrow> n \<le> k * d"
proof -
  assume d: "0 < d"
  have "(n + d - 1) div d \<le> k \<longleftrightarrow> (n + d - 1) div d < Suc k" by auto
  also have "\<dots> \<longleftrightarrow> n + d - 1 < Suc k * d"
    using d by (rule div_less_iff_less_mult)
  also have "\<dots> \<longleftrightarrow> n \<le> k * d" using d by auto
  finally show ?thesis by (simp add: DIV_ROUND_UP_def)
qed

lemma DIV_ROUND_UP_covers: "0 < d \<Longrightarrow> n \<le> DIV_ROUND_UP n d * d"
  using DIV_ROUND_UP_le_iff [of d n "DIV_ROUND_UP n d"] by simp

lemma DIV_ROUND_UP_tight: "0 < d \<Longrightarrow> k < DIV_ROUND_UP n d \<Longrightarrow> k * d < n"
  using DIV_ROUND_UP_le_iff [of d n k] by simp

lemma DIV_ROUND_UP_pos: "0 < d \<Longrightarrow> 0 < n \<Longrightarrow> 0 < DIV_ROUND_UP n d"
  using DIV_ROUND_UP_le_iff [of d n 0] by (cases "DIV_ROUND_UP n d") auto

section \<open>Lists\<close>

lemma take_Suc_update: "n < length xs \<Longrightarrow> take (Suc n) (xs[n := x]) = take n xs @ [x]"
  by (simp add: take_Suc_conv_app_nth)

section \<open>Words\<close>

lemma Suc_unat_dec: "0 < x \<Longrightarrow> Suc (unat (x - 1)) = unat x" for x :: "'a::len word"
proof -
  assume "0 < x"
  then have "x \<noteq> 0" by auto
  then have "unat (x - 1) = unat x - 1" "0 < unat x" by (simp_all add: unat_minus_one unat_gt_0)
  then show ?thesis by simp
qed

section \<open>Maps\<close>

lemma map_of_eq_fun_updI: "(\<And>k. m k = m' k) \<Longrightarrow> m = m'"
  by (rule ext)

lemma finite_card_dom_upd:
  "finite (dom m) \<Longrightarrow> m k = None \<Longrightarrow> card (dom (m(k \<mapsto> v))) = Suc (card (dom m))"
  by (simp add: domIff)

lemma finite_card_dom_del:
  "finite (dom m) \<Longrightarrow> m k = Some v \<Longrightarrow> card (dom (m(k := None))) = card (dom m) - 1"
  by (simp add: domIff card_Diff_singleton)

end
