(* ===== verification/Wire_Types.thy ===== *)
theory Wire_Types
  imports Bask_Prelude
begin

text \<open>
  The structures host and server exchange (\<open>bask/rdma_common.h\<close>; \<open>mm/ksm_rdma.h\<close> repeats
  them for the kernel side): event logs, page-table and error-table descriptors, the result
  descriptor, single-operation requests, work-request tags and offload modes. C \<open>int\<close> fields
  that are only stored and compared are \<open>int\<close>; counts and sizes are \<open>nat\<close>; addresses, keys
  and hashes keep their width.
\<close>

definition PAGE_SIZE :: nat where "PAGE_SIZE = 4096"

definition MAX_MM_DESCS :: nat where "MAX_MM_DESCS = 32"

definition MAX_PAGES_DESCS :: nat where "MAX_PAGES_DESCS = 512"

definition MAX_PAGES_IN_SGL :: nat where "MAX_PAGES_IN_SGL = 65536"

section \<open>Page tables and descriptors\<close>

record shadow_pte =
  pte_va :: u64
  pte_kpfn :: u64

record desc_entry =
  pages_rkey :: u32
  pages_base_addr :: u64

record shadow_pt_descriptor =
  sd_mm_id :: int
  sd_map_rkey :: u32
  sd_pt_base_addr :: u64
  sd_desc_entries :: "desc_entry list"
  sd_entry_cnt :: nat

record error_table_desc_entry =
  et_rkey :: u64
  et_base_addr :: u64

record error_table_descriptor =
  et_total_cnt :: nat
  et_desc_cnt :: nat
  et_entries :: "error_table_desc_entry list"

record metadata_descriptor =
  md_pt_cnt :: nat
  md_pt_descs :: "shadow_pt_descriptor list"
  md_et_descs :: error_table_descriptor

record result_desc =
  rd_total_scanned_cnt :: int
  rd_log_cnt :: nat
  rd_rkey :: u64
  rd_result_table_addr :: u64

section \<open>Event logs\<close>

datatype event_tag =
    DPU_STABLE_MERGE
  | DPU_UNSTABLE_MERGE
  | DPU_STALE_STABLE_NODE
  | DPU_ITEM_STATE_CHANGE
  | HOST_STALE_STABLE_NODE
  | HOST_NO_STABLE_NODE
  | HOST_MERGE_ONE_FAILED
  | HOST_MERGE_TWO_FAILED

text \<open>
  \<open>struct ksm_event_log\<close> is a tag and a union of three structs. The three agree on their
  layout: two 64-bit words followed by two \<open>int\<close>s (the last one unused by \<open>stale_node\<close>), so
  the union is these four words and the struct members are names for them. Reading an entry
  through another member of the union than the one it was written through is then defined as it
  is in C.
\<close>

record ksm_event_log =
  ev_type :: event_tag
  ev_w0 :: u64
  ev_w1 :: u64
  ev_i0 :: int
  ev_i1 :: int

abbreviation unstable_merge_from_va :: "ksm_event_log \<Rightarrow> u64" where
  "unstable_merge_from_va \<equiv> ev_w0"

abbreviation unstable_merge_to_va :: "ksm_event_log \<Rightarrow> u64" where
  "unstable_merge_to_va \<equiv> ev_w1"

abbreviation unstable_merge_from_mm_id :: "ksm_event_log \<Rightarrow> int" where
  "unstable_merge_from_mm_id \<equiv> ev_i0"

abbreviation unstable_merge_to_mm_id :: "ksm_event_log \<Rightarrow> int" where
  "unstable_merge_to_mm_id \<equiv> ev_i1"

abbreviation stable_merge_from_va :: "ksm_event_log \<Rightarrow> u64" where
  "stable_merge_from_va \<equiv> ev_w0"

abbreviation stable_merge_kpfn :: "ksm_event_log \<Rightarrow> u64" where
  "stable_merge_kpfn \<equiv> ev_w1"

abbreviation stable_merge_from_mm_id :: "ksm_event_log \<Rightarrow> int" where
  "stable_merge_from_mm_id \<equiv> ev_i0"

abbreviation stable_merge_shared_cnt :: "ksm_event_log \<Rightarrow> int" where
  "stable_merge_shared_cnt \<equiv> ev_i1"

abbreviation stale_node_last_va :: "ksm_event_log \<Rightarrow> u64" where
  "stale_node_last_va \<equiv> ev_w0"

abbreviation stale_node_kpfn :: "ksm_event_log \<Rightarrow> u64" where
  "stale_node_kpfn \<equiv> ev_w1"

abbreviation stale_node_last_mm_id :: "ksm_event_log \<Rightarrow> int" where
  "stale_node_last_mm_id \<equiv> ev_i0"

text \<open>
  The size of an entry: the tag and its padding, two 64-bit words, two \<open>int\<close>s. The header
  asks for 32 bytes, so that a page holds a whole number of entries.
\<close>

definition sizeof_ksm_event_log :: nat where
  "sizeof_ksm_event_log = (4 + 4) + 8 + 8 + 4 + 4"

lemma sizeof_ksm_event_log_32 [simp]: "sizeof_ksm_event_log = 32"
  by (simp add: sizeof_ksm_event_log_def)

definition MAX_RESULT_TABLE_ENTRIES :: nat where
  "MAX_RESULT_TABLE_ENTRIES = 4096 * 1024 div sizeof_ksm_event_log"

section \<open>Single-operation requests and modes\<close>

datatype operation_cmd = PAGE_COMPARE | PAGE_HASH

record operation_descriptor =
  od_cmd :: operation_cmd
  od_id :: u32
  od_rkey :: u64
  od_iova :: u64
  od_page_num :: nat

text \<open>
  \<open>struct operation_result\<close> ends in a union of \<open>uint64_t xxhash\<close> and \<open>int value\<close>: the model
  keeps its 64 bits; \<open>value\<close> is their low half, read as a signed number (little endian).
\<close>

record operation_result =
  or_cmd :: operation_cmd
  or_id :: u32
  or_xxhash :: u64

definition or_value :: "operation_result \<Rightarrow> int" where
  "or_value r = sint (ucast (or_xxhash r) :: u32)"

datatype offload_mode = NO_OFFLOAD | SINGLE_OPERATION_OFFLOAD | KSM_OFFLOAD

section \<open>Work-request tags\<close>

datatype ksm_wr_tag =
    WR_SEND_METADATA
  | WR_RECV_METADATA
  | WR_SEND_RESULT
  | WR_RECV_RESULT
  | WR_REG_MR
  | WR_READ_MAP
  | WR_READ_PAGE
  | WR_READ_RESULT
  | WR_SEND_SINGLE_OP
  | WR_RECV_SINGLE_OP
  | WR_SEND_SINGLE_RESULT
  | WR_RECV_SINGLE_RESULT
  | WR_INVALIDATE_MR

end
