(* ===== verification/Host_Tables.thy ===== *)
theory Host_Tables
  imports Wire_Types
begin

text \<open>
  The two-level tables of the host (\<open>mm/ksm_shadow.c\<close>): the page table of a process that is sent to
  the server (\<open>struct address_to_page_map\<close>) and the table of failed merges
  (\<open>struct error_table\<close>). Both are an array of arrays; every array but the last has the largest
  size \<open>kmalloc\<close> can serve, the last one starts at a page and doubles. The theorems show that such
  a table is the list of the elements inserted.
\<close>

section \<open>Sizes\<close>

text \<open>The kernel's \<open>KMALLOC_MAX_SIZE\<close>, for pages of 4 KB.\<close>

definition KMALLOC_MAX_SIZE :: nat where "KMALLOC_MAX_SIZE = 4096 * 1024"

definition sizeof_shadow_pte :: nat where "sizeof_shadow_pte = 8 + 8"

definition MAX_CAPACITY_PER_TABLE :: nat where
  "MAX_CAPACITY_PER_TABLE = KMALLOC_MAX_SIZE div sizeof_shadow_pte div 2"

definition MAX_VA_ARRAYS :: nat where
  "MAX_VA_ARRAYS = MAX_PAGES_IN_SGL * PAGE_SIZE div KMALLOC_MAX_SIZE"

definition GROWTH_FACTOR :: nat where "GROWTH_FACTOR = 2"

section \<open>Two-level tables\<close>

text \<open>
  \<open>ht_arrays\<close> is \<open>None\<close> when the pointer to the array of arrays is \<open>NULL\<close>. The outcomes of the
  allocations of one call are parameters: \<open>al_block\<close> for the block of elements, \<open>al_ptrs\<close> for the
  array of pointers; new memory holds \<open>junk\<close>.
\<close>

record 'a host_table =
  ht_arrays :: "'a list list option"
  ht_array_cnt :: nat
  ht_cnt :: nat
  ht_capacity :: nat

record alloc =
  al_block :: bool
  al_ptrs :: bool

definition grow_table ::
  "nat \<Rightarrow> nat \<Rightarrow> ('a host_table \<Rightarrow> 'a host_table res) \<Rightarrow> alloc \<Rightarrow> 'a \<Rightarrow> 'a host_table \<Rightarrow>
   'a host_table res" where
  "grow_table max_per_table per_page no_ptrs al junk t =
     (case ht_arrays t of
        None \<Rightarrow> Inl Null_Deref
      | Some arrays \<Rightarrow>
          (let curr_capacity = ht_capacity t - max_per_table * (ht_array_cnt t - 1);
               new_capacity = curr_capacity * GROWTH_FACTOR
           in if new_capacity > max_per_table then
                (if \<not> al_block al then Inr t
                 else if \<not> al_ptrs al then no_ptrs (t\<lparr>ht_arrays := None\<rparr>)
                 else Inr (t\<lparr>ht_arrays := Some (arrays @ [replicate per_page junk]),
                             ht_array_cnt := ht_array_cnt t + 1,
                             ht_capacity := ht_capacity t + per_page\<rparr>))
              else
                (if \<not> al_block al then Inr t
                 else
                   (let last = ht_array_cnt t - 1
                    in if last < length arrays then
                         Inr (t\<lparr>ht_arrays := Some (arrays[last := arrays ! last @
                                  replicate (new_capacity - length (arrays ! last)) junk]),
                                ht_capacity := ht_capacity t + (new_capacity - curr_capacity)\<rparr>)
                       else Inl Null_Deref))))"

definition store_entry :: "nat \<Rightarrow> 'a \<Rightarrow> 'a host_table \<Rightarrow> 'a host_table res" where
  "store_entry max_per_table x t =
     (let array_idx = ht_cnt t div max_per_table;
          idx = ht_cnt t mod max_per_table
      in case ht_arrays t of
           None \<Rightarrow> Inl Null_Deref
         | Some arrays \<Rightarrow>
             if array_idx < length arrays \<and> idx < length (arrays ! array_idx)
             then Inr (t\<lparr>ht_arrays := Some (arrays[array_idx := (arrays ! array_idx)[idx := x]])\<rparr>)
             else Inl Null_Deref)"

definition insert_entry ::
  "nat \<Rightarrow> ('a host_table \<Rightarrow> 'a host_table res) \<Rightarrow> 'a \<Rightarrow> 'a host_table \<Rightarrow> (int \<times> 'a host_table) res" where
  "insert_entry max_per_table grow x t =
     rbind (if ht_cnt t \<ge> ht_capacity t then grow t else Inr t) (\<lambda>t.
       if ht_cnt t \<ge> ht_capacity t then Inr (- 1, t)
       else rbind (store_entry max_per_table x t) (\<lambda>t. Inr (0, t)))"

definition read_entry :: "nat \<Rightarrow> nat \<Rightarrow> 'a host_table \<Rightarrow> 'a res" where
  "read_entry max_per_table i t =
     (let array_idx = i div max_per_table;
          idx = i - array_idx * max_per_table
      in case ht_arrays t of
           None \<Rightarrow> Inl Null_Deref
         | Some arrays \<Rightarrow>
             if i < ht_cnt t \<and> array_idx < length arrays \<and> idx < length (arrays ! array_idx)
             then Inr (arrays ! array_idx ! idx) else Inl Null_Deref)"

definition contents :: "'a host_table \<Rightarrow> 'a list" where
  "contents t = take (ht_cnt t) (concat (case ht_arrays t of None \<Rightarrow> [] | Some as \<Rightarrow> as))"

section \<open>Arrays of arrays\<close>

definition packed :: "nat \<Rightarrow> 'a list list \<Rightarrow> bool" where
  "packed m as \<longleftrightarrow> as \<noteq> [] \<and> (\<forall>a \<in> set (butlast as). length a = m) \<and> length (last as) \<le> m"

lemma packed_Cons: "packed m (a # as) \<longleftrightarrow> (if as = [] then length a \<le> m else length a = m \<and> packed m as)"
  by (auto simp: packed_def)

lemma length_packed:
  "packed m as \<Longrightarrow> length (concat as) = m * (length as - 1) + length (last as)"
proof (induction as)
  case (Cons a as)
  then show ?case by (cases as) (auto simp: packed_Cons)
qed (simp add: packed_def)

lemma packed_index:
  assumes "packed m as" "i < length (concat as)" "0 < m"
  shows "i div m < length as \<and> i mod m < length (as ! (i div m)) \<and> concat as ! i = as ! (i div m) ! (i mod m) \<and>
    concat (as[i div m := (as ! (i div m))[i mod m := x]]) = (concat as)[i := x]"
  using assms
proof (induction as arbitrary: i)
  case (Cons a as)
  show ?case
  proof (cases "i < length a")
    case True
    then have "i < m" using Cons.prems(1) by (cases "as = []") (auto simp: packed_Cons)
    then show ?thesis using True by (simp add: nth_append list_update_append)
  next
    case False
    then have ne: "as \<noteq> []" using Cons.prems(2) by auto
    then have a: "length a = m" "packed m as" using Cons.prems(1) by (simp_all add: packed_Cons)
    then obtain j where j: "i = m + j" using False le_Suc_ex by fastforce
    have "j < length (concat as)" using Cons.prems(2) a j by simp
    moreover have "i div m = Suc (j div m)" "i mod m = j mod m" using j Cons.prems(3) by (simp_all add: div_add_self1)
    ultimately show ?thesis using Cons.IH [OF a(2) _ Cons.prems(3), of j] j a False
      by (simp add: nth_append list_update_append)
  qed
qed simp

lemma packed_update:
  assumes "packed m as" "i < length as" "length a = length (as ! i)"
  shows "packed m (as[i := a])"
  using assms
proof (induction as arbitrary: i)
  case (Cons b as)
  then show ?case by (cases i) (auto simp: packed_Cons split: if_splits)
qed (simp add: packed_def)

section \<open>Well-formed tables\<close>

definition table_wf :: "nat \<Rightarrow> nat \<Rightarrow> 'a host_table \<Rightarrow> bool" where
  "table_wf m p t \<longleftrightarrow>
     (\<exists>as. ht_arrays t = Some as \<and> packed m as \<and> ht_array_cnt t = length as \<and>
        (\<exists>j. length (last as) = p * 2 ^ j) \<and> ht_capacity t = length (concat as) \<and> ht_cnt t \<le> ht_capacity t)"

text \<open>The shape both tables have: doubling a page reaches the largest array exactly.\<close>

locale table_shape =
  fixes m p :: nat and k :: nat
  assumes p_pos: "0 < p" and m_eq: "m = p * 2 ^ k"
begin

lemma m_pos: "0 < m"
  using p_pos by (simp add: m_eq)

lemma double_fits:
  assumes "l = p * 2 ^ j" "l \<le> m" "\<not> l * 2 \<le> m"
  shows "l = m"
proof -
  have "2 ^ j \<le> (2::nat) ^ k" "\<not> 2 ^ Suc j \<le> (2::nat) ^ k"
    using assms p_pos by (auto simp: m_eq)
  then have "j = k" using power_le_imp_le_exp [of 2 j k] power_increasing [of "Suc j" k "2::nat"] by fastforce
  then show ?thesis using assms by (simp add: m_eq)
qed

lemma grow_ok:
  assumes wf: "table_wf m p t" and full: "ht_cnt t = ht_capacity t" and al: "al_block al" "al_ptrs al"
  shows "\<exists>t'. grow_table m p no_ptrs al junk t = Inr t' \<and> table_wf m p t' \<and> contents t' = contents t \<and>
    ht_cnt t' = ht_cnt t \<and> ht_cnt t' < ht_capacity t'"
proof -
  from wf obtain as j where as: "ht_arrays t = Some as" "packed m as" "ht_array_cnt t = length as"
    "length (last as) = p * 2 ^ j" "ht_capacity t = length (concat as)" by (auto simp: table_wf_def)
  have ne: "as \<noteq> []" using as(2) by (simp add: packed_def)
  have curr: "ht_capacity t - m * (ht_array_cnt t - 1) = length (last as)"
    using length_packed [OF as(2)] as by simp
  show ?thesis
  proof (cases "length (last as) * 2 \<le> m")
    case False
    then have full_last: "length (last as) = m"
      using double_fits [OF as(4)] as(2) by (simp add: packed_def)
    let ?as = "as @ [replicate p junk]"
    have "p \<le> m" by (simp add: m_eq)
    moreover have "\<forall>a \<in> set as. length a = m"
      using as(2) ne full_last unfolding packed_def by (metis append_butlast_last_id in_set_conv_decomp_last Un_iff set_append empty_iff set_ConsD empty_set)
    ultimately have "packed m ?as" by (simp add: packed_def)
    moreover have "length (last ?as) = p * 2 ^ 0" by simp
    ultimately show ?thesis
      using False as curr p_pos full al unfolding table_wf_def grow_table_def contents_def GROWTH_FACTOR_def
      by (auto simp: Let_def intro: exI [of _ 0])
  next
    case True
    let ?new = "last as @ replicate (length (last as)) junk"
    obtain bs b where bs: "as = bs @ [b]" using ne by (metis append_butlast_last_id)
    have "length ?new = p * 2 ^ Suc j" using as(4) by simp
    moreover have "packed m (bs @ [?new])" using as(2) True by (simp add: packed_def bs)
    moreover have "length b * 2 - length b = length b" by simp
    moreover have "0 < length b" using as(4) p_pos bs by (auto intro: Nat.gr0I)
    ultimately show ?thesis
      using True as curr full al p_pos unfolding table_wf_def grow_table_def contents_def GROWTH_FACTOR_def
      by (auto simp: Let_def bs nth_append list_update_append simp del: power_Suc)
  qed
qed

lemma store_ok:
  assumes wf: "table_wf m p t" and room: "ht_cnt t < ht_capacity t"
  shows "\<exists>t'. store_entry m x t = Inr t' \<and> table_wf m p (t'\<lparr>ht_cnt := ht_cnt t + 1\<rparr>) \<and>
    contents (t'\<lparr>ht_cnt := ht_cnt t + 1\<rparr>) = contents t @ [x] \<and> ht_cnt t' = ht_cnt t"
proof -
  from wf obtain as j where as: "ht_arrays t = Some as" "packed m as" "ht_array_cnt t = length as"
    "length (last as) = p * 2 ^ j" "ht_capacity t = length (concat as)" by (auto simp: table_wf_def)
  let ?a = "ht_cnt t div m" and ?i = "ht_cnt t mod m"
  let ?as = "as[?a := (as ! ?a)[?i := x]]"
  note i = packed_index [OF as(2) room [unfolded as(5)] m_pos, of x]
  have "packed m ?as" by (rule packed_update [OF as(2)]) (use i in simp_all)
  moreover have "length (last ?as) = p * 2 ^ j"
    using as(2,4) i by (auto simp: packed_def last_conv_nth nth_list_update)
  moreover have c: "concat ?as = (concat as)[ht_cnt t := x]" using i by simp
  moreover have "take (Suc (ht_cnt t)) (concat ?as) = take (ht_cnt t) (concat as) @ [x]"
    unfolding c using room as(5) by (simp add: take_Suc_update)
  ultimately show ?thesis
    using as room i unfolding store_entry_def table_wf_def contents_def
    by (intro exI [of _ "t\<lparr>ht_arrays := Some ?as\<rparr>"]) (auto simp: Let_def)
qed

text \<open>
  An insertion stores the element behind the others, or returns \<open>- 1\<close> and changes nothing when
  the table is full and no block can be allocated.
\<close>

lemma insert_ok:
  assumes wf: "table_wf m p t" and al: "al_block al \<longrightarrow> al_ptrs al"
  shows "(\<exists>t'. insert_entry m (grow_table m p no_ptrs al junk) x t = Inr (0, t') \<and>
      table_wf m p (t'\<lparr>ht_cnt := ht_cnt t + 1\<rparr>) \<and> contents (t'\<lparr>ht_cnt := ht_cnt t + 1\<rparr>) = contents t @ [x] \<and>
      ht_cnt t' = ht_cnt t) \<or>
    ht_cnt t = ht_capacity t \<and> \<not> al_block al \<and>
      insert_entry m (grow_table m p no_ptrs al junk) x t = Inr (- 1, t)"
proof (cases "ht_cnt t < ht_capacity t")
  case True
  then show ?thesis using store_ok [OF wf True, of x] by (auto simp: insert_entry_def)
next
  case False
  then have full: "ht_cnt t = ht_capacity t" using wf by (auto simp: table_wf_def)
  show ?thesis
  proof (cases "al_block al")
    case True
    from grow_ok [OF wf full True, of no_ptrs junk] al True obtain t' where
      1: "grow_table m p no_ptrs al junk t = Inr t'" "table_wf m p t'" "contents t' = contents t"
        "ht_cnt t' = ht_cnt t" "ht_cnt t' < ht_capacity t'" by auto
    from store_ok [OF 1(2,5), of x] 1 full show ?thesis by (auto simp: insert_entry_def)
  next
    case no: False
    have "grow_table m p no_ptrs al junk t = Inr t"
      using wf no by (auto simp: grow_table_def table_wf_def Let_def packed_def)
    then show ?thesis using full no by (simp add: insert_entry_def)
  qed
qed

text \<open>All arrays but the last one are full.\<close>

lemma grow_tight:
  assumes wf: "table_wf m p t" and tight: "m * (ht_array_cnt t - 1) \<le> ht_cnt t" and full: "ht_cnt t = ht_capacity t" and al: "al_block al \<longrightarrow> al_ptrs al"
    and g: "grow_table m p no_ptrs al junk t = Inr t'"
  shows "m * (ht_array_cnt t' - 1) \<le> ht_cnt t' \<and> ht_cnt t' = ht_cnt t"
proof -
  from wf obtain as j where as: "ht_arrays t = Some as" "packed m as" "ht_array_cnt t = length as"
    "length (last as) = p * 2 ^ j" "ht_capacity t = length (concat as)" by (auto simp: table_wf_def)
  have cap: "ht_capacity t = m * (length as - 1) + length (last as)" using length_packed [OF as(2)] as(5) by simp
  show ?thesis
  proof (cases "length (last as) * 2 \<le> m")
    case True
    then show ?thesis using g tight as(1,3) cap by (auto simp: grow_table_def GROWTH_FACTOR_def Let_def split: if_splits)
  next
    case False
    then have "length (last as) = m" using double_fits [OF as(4)] as(2) by (simp add: packed_def)
    moreover have "as \<noteq> []" using as(2) by (simp add: packed_def)
    ultimately have "ht_cnt t = m * length as" using full cap by (cases as) simp_all
    then show ?thesis using False g tight as(1,3) cap al by (auto simp: grow_table_def GROWTH_FACTOR_def Let_def split: if_splits)
  qed
qed

lemma insert_tight:
  assumes wf: "table_wf m p t" and tight: "m * (ht_array_cnt t - 1) \<le> ht_cnt t" and al: "al_block al \<longrightarrow> al_ptrs al"
    and ins: "insert_entry m (grow_table m p no_ptrs al junk) x t = Inr (r, t')"
  shows "m * (ht_array_cnt t' - 1) \<le> ht_cnt t'"
proof -
  from ins [unfolded insert_entry_def rbind_eq_Inr] obtain t1 where
    t1: "(if ht_cnt t \<ge> ht_capacity t then grow_table m p no_ptrs al junk t else Inr t) = Inr t1"
      "t' = t1 \<or> store_entry m x t1 = Inr t'"
    by (auto simp: rbind_eq_Inr split: if_splits)
  have "m * (ht_array_cnt t1 - 1) \<le> ht_cnt t1"
  proof (cases "ht_cnt t \<ge> ht_capacity t")
    case True
    then have "ht_cnt t = ht_capacity t" using wf by (auto simp: table_wf_def)
    moreover have "grow_table m p no_ptrs al junk t = Inr t1" using t1(1) True by simp
    ultimately show ?thesis using grow_tight [OF wf tight _ al] by blast
  qed (use t1(1) tight in simp)
  then show ?thesis using t1(2) by (auto simp: store_entry_def Let_def split: option.splits if_splits)
qed

lemma read_ok:
  assumes wf: "table_wf m p t" and i: "i < ht_cnt t"
  shows "read_entry m i t = Inr (contents t ! i)"
proof -
  from wf obtain as where as: "ht_arrays t = Some as" "packed m as" "ht_cnt t \<le> length (concat as)"
    by (auto simp: table_wf_def)
  have "i - i div m * m = i mod m" by (simp add: minus_div_mult_eq_mod)
  then show ?thesis using packed_index [OF as(2) _ m_pos, of i] as i
    by (auto simp: read_entry_def contents_def Let_def)
qed

end

end
