(* ===== verification/Host_Shadow.thy ===== *)
theory Host_Shadow
  imports Host_Tables "HOL-Library.RBT"
begin

text \<open>
  The shadow page tables and the error table of the host (\<open>mm/ksm_shadow.c\<close>). A shadow page
  table lists the pages of a process in the order of the walk and indexes the reverse-mapping
  items by page number in an xarray; the error table collects the merges that failed, for the
  server to undo.
\<close>

section \<open>Xarrays\<close>

text \<open>
  The kernel's xarray is not part of the repository: its operations are parameters, and the
  locale states what their documentation promises. \<open>xa_insert\<close> gives \<open>None\<close> for an error
  (\<open>-EBUSY\<close> for an index that is taken, \<open>-ENOMEM\<close>); \<open>xa_entries\<close> are the entries in the order
  \<open>xa_for_each\<close> and \<open>xas_next_entry\<close> visit them.
\<close>

record 'x xa_ops =
  xa_init :: 'x
  xa_load :: "'x \<Rightarrow> u64 \<Rightarrow> addr option"
  xa_insert :: "'x \<Rightarrow> u64 \<Rightarrow> addr \<Rightarrow> 'x option"
  xa_entries :: "'x \<Rightarrow> (u64 \<times> addr) list"
  xa_wf :: "'x \<Rightarrow> bool"

locale xarray =
  fixes XA :: "'x xa_ops"
  assumes xa_wf_init: "xa_wf XA (xa_init XA)"
    and xa_load_init: "xa_load XA (xa_init XA) k = None"
    and xa_wf_insert: "xa_wf XA x \<Longrightarrow> xa_insert XA x k v = Some x' \<Longrightarrow> xa_wf XA x'"
    and xa_load_insert: "xa_wf XA x \<Longrightarrow> xa_insert XA x k v = Some x' \<Longrightarrow>
      xa_load XA x' = (xa_load XA x)(k \<mapsto> v) \<and> xa_load XA x k = None"
    and xa_sorted: "xa_wf XA x \<Longrightarrow> sorted_wrt (<) (map fst (xa_entries XA x))"
    and xa_map_of: "xa_wf XA x \<Longrightarrow> map_of (xa_entries XA x) = xa_load XA x"
begin

lemma xa_entries_eqI:
  assumes "xa_wf XA x" "sorted_wrt (<) (map fst es)" "map_of es = xa_load XA x"
  shows "xa_entries XA x = es"
proof -
  have dom: "set (map fst (xa_entries XA x)) = set (map fst es)"
    using assms xa_map_of [OF assms(1)] dom_map_of_conv_image_fst [of es]
      dom_map_of_conv_image_fst [of "xa_entries XA x"] by simp
  have s: "sorted_wrt (<) (map fst (xa_entries XA x))" using xa_sorted [OF assms(1)] .
  have keys: "map fst (xa_entries XA x) = map fst es"
    using strict_sorted_equal [OF assms(2) s] dom by simp
  show ?thesis
  proof (rule nth_equalityI)
    show len: "length (xa_entries XA x) = length es" using keys by (metis length_map)
    fix i assume i: "i < length (xa_entries XA x)"
    have d: "distinct (map fst es)" "distinct (map fst (xa_entries XA x))"
      using assms(2) s by (simp_all add: strict_sorted_iff)
    have k: "fst (xa_entries XA x ! i) = fst (es ! i)" using keys i len by (metis nth_map)
    have "map_of es (fst (es ! i)) = Some (snd (es ! i))"
      using d(1) i len by (metis map_of_is_SomeI nth_mem prod.collapse)
    moreover have "map_of (xa_entries XA x) (fst (xa_entries XA x ! i)) = Some (snd (xa_entries XA x ! i))"
      using d(2) i by (metis map_of_is_SomeI nth_mem prod.collapse)
    ultimately show "xa_entries XA x ! i = es ! i"
      using k assms(3) xa_map_of [OF assms(1)] by (simp add: prod_eq_iff)
  qed
qed

end

text \<open>A provider: red-black trees, with room for every index.\<close>

definition rbt_xa :: "(u64, addr) rbt xa_ops" where
  "rbt_xa = \<lparr>xa_init = RBT.empty, xa_load = RBT.lookup,
     xa_insert = (\<lambda>x k v. if RBT.lookup x k = None then Some (RBT.insert k v x) else None),
     xa_entries = RBT.entries, xa_wf = (\<lambda>_. True)\<rparr>"

interpretation rbt_xa: xarray rbt_xa
proof
  fix x :: "(u64, addr) rbt"
  show "sorted_wrt (<) (map fst (xa_entries rbt_xa x))"
    using sorted_entries [of x] distinct_entries [of x] by (simp add: rbt_xa_def strict_sorted_iff)
qed (auto simp: rbt_xa_def map_of_entries split: if_splits)

section \<open>Shadow page tables\<close>

record 'x shadow_mm =
  sm_mm_id :: int
  sm_pt_map :: "shadow_pte host_table"
  sm_page_xa :: 'x

definition ptes_per_page :: nat where "ptes_per_page = PAGE_SIZE div sizeof_shadow_pte"

definition page_number :: "u64 \<Rightarrow> u64" where "page_number va = drop_bit 12 va"

text \<open>
  \<open>create_empty\<close>: the three allocations, any of which may fail. The process id is set by the
  caller.
\<close>

definition create_empty ::
  "'x xa_ops \<Rightarrow> bool \<Rightarrow> bool \<times> bool \<times> bool \<Rightarrow> shadow_pte \<Rightarrow> int \<Rightarrow> 'x shadow_mm option" where
  "create_empty XA cb allocs junk mm_id =
     (case allocs of (a_mm, a_arrays, a_array) \<Rightarrow>
        if \<not> cb then None
        else if \<not> a_mm then None
        else if \<not> a_arrays then None
        else if \<not> a_array then None
        else Some \<lparr>sm_mm_id = mm_id,
          sm_pt_map = \<lparr>ht_arrays = Some [replicate ptes_per_page junk], ht_array_cnt = 1, ht_cnt = 0,
            ht_capacity = ptes_per_page\<rparr>,
          sm_page_xa = xa_init XA\<rparr>)"

definition grow_shadow_page_table ::
  "alloc \<Rightarrow> shadow_pte \<Rightarrow> shadow_pte host_table \<Rightarrow> shadow_pte host_table res" where
  "grow_shadow_page_table = grow_table MAX_CAPACITY_PER_TABLE ptes_per_page (\<lambda>_. Inl Null_Deref)"

definition insert_entry_to_shadow_mm ::
  "'x xa_ops \<Rightarrow> alloc \<Rightarrow> shadow_pte \<Rightarrow> u64 \<Rightarrow> u64 \<Rightarrow> addr \<Rightarrow> 'x shadow_mm \<Rightarrow> (int \<times> 'x shadow_mm) res" where
  "insert_entry_to_shadow_mm XA al junk va kpfn rmap_item shadow_mm =
     rbind (insert_entry MAX_CAPACITY_PER_TABLE (grow_shadow_page_table al junk)
              \<lparr>pte_va = va, pte_kpfn = kpfn\<rparr> (sm_pt_map shadow_mm)) (\<lambda>(err, t).
       (let shadow_mm = shadow_mm\<lparr>sm_pt_map := t\<rparr>
        in if err \<noteq> 0 then Inr (- 1, shadow_mm)
           else
             (case xa_insert XA (sm_page_xa shadow_mm) (page_number va) rmap_item of
                None \<Rightarrow> Inr (- 1, shadow_mm)
              | Some xa \<Rightarrow> Inr (0, shadow_mm\<lparr>sm_page_xa := xa, sm_pt_map := t\<lparr>ht_cnt := ht_cnt t + 1\<rparr>\<rparr>))))"

definition get_va_at :: "'x shadow_mm \<Rightarrow> nat \<Rightarrow> u64 res" where
  "get_va_at shadow_mm idx =
     rbind (guard_stop ''BUG_ON'' (\<not> idx \<ge> ht_cnt (sm_pt_map shadow_mm))) (\<lambda>_.
     rbind (read_entry MAX_CAPACITY_PER_TABLE idx (sm_pt_map shadow_mm)) (\<lambda>pte. Inr (pte_va pte)))"

definition shadow_mm_lookup :: "'x xa_ops \<Rightarrow> 'x shadow_mm \<Rightarrow> u64 \<Rightarrow> addr option" where
  "shadow_mm_lookup XA shadow_mm va = xa_load XA (sm_page_xa shadow_mm) (page_number va)"

text \<open>\<open>get_shadow_mm\<close>: the first table of the list with the process id.\<close>

fun get_shadow_mm :: "'x shadow_mm list \<Rightarrow> int \<Rightarrow> 'x shadow_mm option" where
  "get_shadow_mm [] mm_id = None"
| "get_shadow_mm (entry # entries) mm_id =
     (if sm_mm_id entry = mm_id then Some entry else get_shadow_mm entries mm_id)"

section \<open>The error table\<close>

record error_table =
  er_entries :: "ksm_event_log host_table"
  er_registered :: nat

definition logs_per_page :: nat where "logs_per_page = PAGE_SIZE div sizeof_ksm_event_log"

text \<open>\<open>registered\<close> keeps what the memory held.\<close>

definition create_error_table ::
  "bool \<times> bool \<times> bool \<Rightarrow> ksm_event_log \<Rightarrow> nat \<Rightarrow> error_table option" where
  "create_error_table allocs junk registered =
     (case allocs of (a_table, a_tables, a_entries) \<Rightarrow>
        if \<not> a_table then None
        else if \<not> a_tables then None
        else if \<not> a_entries then None
        else Some \<lparr>er_entries = \<lparr>ht_arrays = Some [replicate logs_per_page junk], ht_array_cnt = 1,
          ht_cnt = 0, ht_capacity = logs_per_page\<rparr>, er_registered = registered\<rparr>)"

definition clear_error_table :: "error_table \<Rightarrow> error_table res" where
  "clear_error_table tbl =
     (if er_registered tbl = ht_cnt (er_entries tbl)
      then Inr \<lparr>er_entries = (er_entries tbl)\<lparr>ht_cnt := 0\<rparr>, er_registered = 0\<rparr>
      else Inl (Stopped ''Error table not fully registered''))"

text \<open>\<open>free_error_table\<close>: the arrays it frees, in order.\<close>

definition free_error_table :: "error_table \<Rightarrow> ksm_event_log list list res" where
  "free_error_table tbl =
     (case ht_arrays (er_entries tbl) of
        None \<Rightarrow> Inl Null_Deref
      | Some arrays \<Rightarrow>
          rfold (\<lambda>i freed. if i < length arrays then Inr (freed @ [arrays ! i]) else Inl Null_Deref)
            [0..<ht_array_cnt (er_entries tbl)] [])"

definition grow_error_table ::
  "alloc \<Rightarrow> ksm_event_log \<Rightarrow> ksm_event_log host_table \<Rightarrow> ksm_event_log host_table res" where
  "grow_error_table = grow_table MAX_RESULT_TABLE_ENTRIES logs_per_page Inr"

text \<open>
  \<open>insert_error_log\<close>. The test for a \<open>NULL\<close> table comes after its first use, so it never
  succeeds.
\<close>

definition insert_error_log ::
  "alloc \<Rightarrow> ksm_event_log \<Rightarrow> event_tag \<Rightarrow> ksm_event_log \<Rightarrow> error_table \<Rightarrow> (int \<times> error_table) res" where
  "insert_error_log al junk tag log tbl =
     rbind (insert_entry MAX_RESULT_TABLE_ENTRIES (grow_error_table al junk) (log\<lparr>ev_type := tag\<rparr>)
              (er_entries tbl)) (\<lambda>(err, t).
       if err \<noteq> 0 then Inr (- 1, tbl\<lparr>er_entries := t\<rparr>)
       else Inr (0, tbl\<lparr>er_entries := t\<lparr>ht_cnt := ht_cnt t + 1\<rparr>\<rparr>))"

section \<open>Both tables have the shape\<close>

lemmas host_sizes = MAX_CAPACITY_PER_TABLE_def MAX_RESULT_TABLE_ENTRIES_def KMALLOC_MAX_SIZE_def
  sizeof_shadow_pte_def ptes_per_page_def logs_per_page_def PAGE_SIZE_def

interpretation va_table: table_shape MAX_CAPACITY_PER_TABLE ptes_per_page 9
  by unfold_locales (simp_all add: host_sizes)

interpretation err_table: table_shape MAX_RESULT_TABLE_ENTRIES logs_per_page 10
  by unfold_locales (simp_all add: host_sizes)

abbreviation va_table_wf :: "shadow_pte host_table \<Rightarrow> bool" where
  "va_table_wf \<equiv> table_wf MAX_CAPACITY_PER_TABLE ptes_per_page"

abbreviation err_table_wf :: "ksm_event_log host_table \<Rightarrow> bool" where
  "err_table_wf \<equiv> table_wf MAX_RESULT_TABLE_ENTRIES logs_per_page"

definition shadow_wf :: "'x xa_ops \<Rightarrow> 'x shadow_mm \<Rightarrow> bool" where
  "shadow_wf XA sm \<longleftrightarrow> va_table_wf (sm_pt_map sm) \<and> xa_wf XA (sm_page_xa sm) \<and>
     MAX_CAPACITY_PER_TABLE * (ht_array_cnt (sm_pt_map sm) - 1) \<le> ht_cnt (sm_pt_map sm) \<and>
     dom (xa_load XA (sm_page_xa sm)) = (\<lambda>pte. page_number (pte_va pte)) ` set (contents (sm_pt_map sm))"

lemma insert_error_log_ok:
  assumes "err_table_wf (er_entries tbl)" "al_block al \<longrightarrow> al_ptrs al"
  shows "(\<exists>tbl'. insert_error_log al junk tag log tbl = Inr (0, tbl') \<and> err_table_wf (er_entries tbl') \<and>
      contents (er_entries tbl') = contents (er_entries tbl) @ [log\<lparr>ev_type := tag\<rparr>] \<and>
      er_registered tbl' = er_registered tbl) \<or>
    \<not> al_block al \<and> ht_cnt (er_entries tbl) = ht_capacity (er_entries tbl) \<and>
      insert_error_log al junk tag log tbl = Inr (- 1, tbl)"
  using err_table.insert_ok [OF assms, of Inr junk "log\<lparr>ev_type := tag\<rparr>"]
  unfolding insert_error_log_def grow_error_table_def by auto

lemma err_table_clear:
  assumes "err_table_wf (er_entries tbl)" "er_registered tbl = ht_cnt (er_entries tbl)"
  shows "\<exists>tbl'. clear_error_table tbl = Inr tbl' \<and> err_table_wf (er_entries tbl') \<and> contents (er_entries tbl') = []"
  using assms by (auto simp: clear_error_table_def table_wf_def contents_def)

lemma free_error_table_all:
  assumes "err_table_wf (er_entries tbl)"
  shows "\<exists>arrays. ht_arrays (er_entries tbl) = Some arrays \<and> free_error_table tbl = Inr arrays"
proof -
  obtain as where as: "ht_arrays (er_entries tbl) = Some as" "ht_array_cnt (er_entries tbl) = length as"
    using assms by (auto simp: table_wf_def)
  have "n \<le> length as \<Longrightarrow>
      rfold (\<lambda>i freed. if i < length as then Inr (freed @ [as ! i]) else Inl Null_Deref) [0..<n] [] = Inr (take n as)" for n
    by (induction n) (simp_all add: rfold_append take_Suc_conv_app_nth)
  from this [of "length as"] show ?thesis using as by (simp add: free_error_table_def)
qed

lemma length_contents: "table_wf m p t \<Longrightarrow> length (contents t) = ht_cnt t"
  by (auto simp: table_wf_def contents_def)

lemma table_wf_unused:
  assumes "table_wf m p (t\<lparr>ht_cnt := ht_cnt t + 1\<rparr>)" "contents (t\<lparr>ht_cnt := ht_cnt t + 1\<rparr>) = xs @ [x]"
  shows "table_wf m p t \<and> contents t = xs"
proof -
  have wf: "table_wf m p t" using assms(1) by (auto simp: table_wf_def)
  have "contents t = take (ht_cnt t) (contents (t\<lparr>ht_cnt := ht_cnt t + 1\<rparr>))"
    by (simp add: contents_def min_def)
  moreover have "length xs = ht_cnt t" using length_contents [OF assms(1)] assms(2) by simp
  ultimately show ?thesis using wf assms(2) by simp
qed

context xarray
begin

lemma create_empty_ok:
  assumes "create_empty XA cb allocs junk mm_id = Some sm"
  shows "shadow_wf XA sm \<and> contents (sm_pt_map sm) = [] \<and> sm_mm_id sm = mm_id"
proof -
  have "packed MAX_CAPACITY_PER_TABLE [replicate ptes_per_page junk]"
    by (simp add: packed_def host_sizes)
  moreover have "\<exists>j. ptes_per_page = ptes_per_page * 2 ^ j" by (rule exI [of _ 0]) simp
  ultimately show ?thesis using assms
    by (auto simp: create_empty_def shadow_wf_def table_wf_def contents_def xa_wf_init xa_load_init dom_def
        split: if_splits prod.splits)
qed

lemma shadow_insert_ok:
  assumes wf: "shadow_wf XA sm" and al: "al_block al \<longrightarrow> al_ptrs al"
  shows "(\<exists>sm'. insert_entry_to_shadow_mm XA al junk va kpfn item sm = Inr (0, sm') \<and> shadow_wf XA sm' \<and>
      contents (sm_pt_map sm') = contents (sm_pt_map sm) @ [\<lparr>pte_va = va, pte_kpfn = kpfn\<rparr>] \<and>
      xa_load XA (sm_page_xa sm') = (xa_load XA (sm_page_xa sm))(page_number va \<mapsto> item) \<and>
      xa_load XA (sm_page_xa sm) (page_number va) = None \<and> sm_mm_id sm' = sm_mm_id sm) \<or>
    (\<exists>sm'. insert_entry_to_shadow_mm XA al junk va kpfn item sm = Inr (- 1, sm') \<and> shadow_wf XA sm' \<and>
      contents (sm_pt_map sm') = contents (sm_pt_map sm) \<and> sm_page_xa sm' = sm_page_xa sm \<and> sm_mm_id sm' = sm_mm_id sm \<and>
      (\<not> al_block al \<or> xa_insert XA (sm_page_xa sm) (page_number va) item = None))"
proof -
  let ?pte = "\<lparr>pte_va = va, pte_kpfn = kpfn\<rparr>" and ?t = "sm_pt_map sm" and ?x = "sm_page_xa sm"
  have t: "va_table_wf ?t" and x: "xa_wf XA ?x" and d: "dom (xa_load XA ?x) = (\<lambda>pte. page_number (pte_va pte)) ` set (contents ?t)"
    using wf by (simp_all add: shadow_wf_def)
  consider t' where "insert_entry MAX_CAPACITY_PER_TABLE (grow_shadow_page_table al junk) ?pte ?t = Inr (0, t')"
      "va_table_wf (t'\<lparr>ht_cnt := ht_cnt t' + 1\<rparr>)" "contents (t'\<lparr>ht_cnt := ht_cnt t' + 1\<rparr>) = contents ?t @ [?pte]"
    | "insert_entry MAX_CAPACITY_PER_TABLE (grow_shadow_page_table al junk) ?pte ?t = Inr (- 1, ?t)" "\<not> al_block al"
    using va_table.insert_ok [OF t al, of "\<lambda>_. Inl Null_Deref" junk ?pte] unfolding grow_shadow_page_table_def by metis
  moreover have tight: "MAX_CAPACITY_PER_TABLE * (ht_array_cnt t' - 1) \<le> ht_cnt t'"
    if "insert_entry MAX_CAPACITY_PER_TABLE (grow_shadow_page_table al junk) ?pte ?t = Inr (r, t')" for r t'
    using va_table.insert_tight [OF t _ al that [unfolded grow_shadow_page_table_def]] wf by (simp add: shadow_wf_def)
  ultimately show ?thesis
  proof cases
    case 2
    then show ?thesis using wf by (simp add: insert_entry_to_shadow_mm_def)
  next
    case (1 t')
    show ?thesis
    proof (cases "xa_insert XA ?x (page_number va) item")
      case None
      have "va_table_wf t'" "contents t' = contents ?t" using table_wf_unused [OF 1(2,3)] by simp_all
      then show ?thesis using 1(1) None x d tight [OF 1(1)] by (simp add: insert_entry_to_shadow_mm_def shadow_wf_def)
    next
      case (Some x')
      then show ?thesis using 1 xa_load_insert [OF x Some] xa_wf_insert [OF x Some] d tight [OF 1(1)]
        by (simp add: insert_entry_to_shadow_mm_def shadow_wf_def)
    qed
  qed
qed

end

end
