(* ===== verification/Host_Items.thy ===== *)
theory Host_Items
  imports Host_Shadow
begin

text \<open>
  The data of the kernel side (\<open>mm/ksm.h\<close>, \<open>mm/ksm_rdma.c\<close>): reverse-mapping items with their
  flags and their union of page pointer and scan data, stable nodes, and the offload mode.
\<close>

unbundle bit_operations_syntax

section \<open>Offload modes\<close>

datatype remote_status = UNINITIALIZED | INITIALIZED | DISCONNECTED

datatype merge_fail_reason =
    No_mergeable_vma_found
  | Failed_to_lock_page
  | Pages_are_not_identical
  | Page_address_in_vma_failed
  | page_vma_mapped_walk_failed
  | Pvmw_pte_is_null
  | Page_mapcount_unequal
  | Page_is_shared
  | Not_an_anonymous_page
  | Failed_to_split_page
  | But_same_hash

text \<open>
  The state of the connection. \<open>current_mode\<close> points to a variable of the client module and is
  \<open>NULL\<close> until its symbol is found; \<open>rs_cb\<close> tells whether \<open>ksm_cb\<close> is set.
\<close>

record rdma_state =
  rs_status :: remote_status
  rs_mode :: "offload_mode option"
  rs_decided :: bool
  rs_cb :: bool
  rs_error_table :: "error_table option"

definition is_rdma_initialized :: "rdma_state \<Rightarrow> bool" where
  "is_rdma_initialized s \<longleftrightarrow> rs_status s = INITIALIZED"

text \<open>\<open>OFFLOAD_MODE\<close> dereferences \<open>current_mode\<close>, after the test of the status.\<close>

definition is_ksm_offload :: "rdma_state \<Rightarrow> bool res" where
  "is_ksm_offload s =
     (if rs_status s = DISCONNECTED then Inr False
      else (case rs_mode s of None \<Rightarrow> Inl Null_Deref | Some m \<Rightarrow> Inr (m = KSM_OFFLOAD)))"

definition is_styx_offload :: "rdma_state \<Rightarrow> bool res" where
  "is_styx_offload s =
     (if rs_status s \<noteq> INITIALIZED then Inr False
      else (case rs_mode s of None \<Rightarrow> Inl Null_Deref | Some m \<Rightarrow> Inr (m = SINGLE_OPERATION_OFFLOAD)))"

text \<open>
  \<open>try_update_api_function\<close> looks up every symbol it needs, also after one was not found;
  \<open>lookup\<close> is \<open>kallsyms_lookup_name\<close>. The symbols of the client module and of the mlx driver
  share one table; the mode is the value behind the last one.
\<close>

definition api_symbols :: "string list" where
  "api_symbols =
     [''ksm_rdma_create_connection'', ''ksm_rdma_meta_send'', ''ksm_rdma_result_recv'', ''ksm_rdma_reg_mr'',
      ''ksm_rdma_print_timer'', ''ksm_rdma_styx_memcmp'', ''ksm_rdma_styx_hash'',
      ''ksm_rdma_huge_alloc_init'', ''ksm_rdma_huge_alloc'', ''ksm_rdma_huge_dealloc'',
      ''mlx_ib_alloc_mr'', ''mlx_ib_dereg_mr'', ''mlx_ib_map_mr_sg'', ''mlx_ib_dma_map_page'',
      ''mlx_ib_dma_unmap_page'', ''mlx_ib_dma_map_sg'', ''mlx_ib_dma_unmap_sg'', ''mlx_ib_dma_map_single'',
      ''mlx_ib_dma_unmap_single'', ''mlx_ib_dma_sync_single_for_cpu'',
      ''mlx_ib_dma_sync_single_for_device'']"

definition try_update_api_function ::
  "(string \<Rightarrow> bool) \<Rightarrow> offload_mode option \<Rightarrow> rdma_state \<Rightarrow> bool \<times> rdma_state" where
  "try_update_api_function lookup mode s =
     (list_all lookup api_symbols \<and> mode \<noteq> None, s\<lparr>rs_mode := mode\<rparr>)"

text \<open>\<open>init_cb\<close>: a failed allocation leaves the pointers \<open>NULL\<close>.\<close>

definition init_cb :: "bool \<Rightarrow> error_table option \<Rightarrow> rdma_state \<Rightarrow> rdma_state" where
  "init_cb kmalloc_cb table s =
     (if \<not> kmalloc_cb then s\<lparr>rs_cb := False\<rparr>
      else s\<lparr>rs_cb := True, rs_error_table := table\<rparr>)"

definition init_ksm_rdma ::
  "(string \<Rightarrow> bool) \<Rightarrow> offload_mode option \<Rightarrow> bool \<Rightarrow> error_table option \<Rightarrow> rdma_state \<Rightarrow> rdma_state" where
  "init_ksm_rdma lookup mode kmalloc_cb table s =
     (if is_rdma_initialized s then s
      else
        (let (found, s) = try_update_api_function lookup mode s
         in if found then
              (let s = s\<lparr>rs_decided := True\<rparr>
               in if rs_mode s = Some NO_OFFLOAD then s
                  else init_cb kmalloc_cb table (s\<lparr>rs_status := INITIALIZED\<rparr>))
            else s))"

definition get_ksm_cb :: "rdma_state \<Rightarrow> bool" where
  "get_ksm_cb s \<longleftrightarrow> rs_cb s \<and> is_rdma_initialized s"

text \<open>
  The scan thread waits until the mode is decided, trying \<open>init_ksm_rdma\<close> every ten seconds
  (\<open>ksm_scan_thread\<close>); \<open>tries\<close> are the outcomes of the lookups.
\<close>

fun await_decision ::
  "((string \<Rightarrow> bool) \<times> offload_mode option) list \<Rightarrow> bool \<Rightarrow> error_table option \<Rightarrow> rdma_state \<Rightarrow>
   rdma_state option" where
  "await_decision tries kmalloc_cb table s =
     (if rs_decided s then Some s
      else
        (case tries of
           [] \<Rightarrow> None
         | (lookup, mode) # tries \<Rightarrow>
             await_decision tries kmalloc_cb table (init_ksm_rdma lookup mode kmalloc_cb table s)))"

declare await_decision.simps [simp del]

definition initial_rdma_state :: rdma_state where
  "initial_rdma_state = \<lparr>rs_status = UNINITIALIZED, rs_mode = None, rs_decided = False, rs_cb = False,
     rs_error_table = None\<rparr>"

section \<open>Items\<close>

definition PAGE_MASK :: u64 where "PAGE_MASK = NOT 0xFFF"

definition SEQNR_MASK :: u64 where "SEQNR_MASK = 0x0FF"

definition UNSTABLE_FLAG :: u64 where "UNSTABLE_FLAG = 0x100"

definition STABLE_FLAG :: u64 where "STABLE_FLAG = 0x200"

text \<open>
  \<open>struct ksm_rmap_item\<close> keeps in one word either the page (offload) or checksum, age and
  remaining skips (local scan). A page is its frame number; \<open>Page_Ptr None\<close> is \<open>NULL\<close>. Writing a
  member makes it the current one; reading the scan data of a page pointer gives the bytes of the
  pointer, a parameter \<open>ptr_bytes\<close>.
\<close>

datatype item_data = Page_Ptr "u64 option" | Scan_Data u32 u8 u8

type_synonym ptr_bytes = "u64 \<Rightarrow> u32 \<times> u8 \<times> u8"

fun scan_bytes :: "ptr_bytes \<Rightarrow> item_data \<Rightarrow> u32 \<times> u8 \<times> u8" where
  "scan_bytes bytes (Page_Ptr None) = (0, 0, 0)"
| "scan_bytes bytes (Page_Ptr (Some p)) = bytes p"
| "scan_bytes bytes (Scan_Data oldchecksum age remaining_skips) = (oldchecksum, age, remaining_skips)"

text \<open>The page of an item; scan data that is not all zero is no valid pointer.\<close>

fun item_page :: "item_data \<Rightarrow> u64 option res" where
  "item_page (Page_Ptr p) = Inr p"
| "item_page (Scan_Data oldchecksum age remaining_skips) =
     (if oldchecksum = 0 \<and> age = 0 \<and> remaining_skips = 0 then Inr None else Inl Null_Deref)"

record ksm_rmap_item =
  hi_rmap_list :: "addr option"
  hi_anon_vma :: "addr option"
  hi_mm :: int
  hi_address :: u64
  hi_data :: item_data
  hi_head :: "addr option"

definition item_va :: "ksm_rmap_item \<Rightarrow> u64" where
  "item_va it = hi_address it AND PAGE_MASK"

definition is_stable :: "ksm_rmap_item \<Rightarrow> bool" where
  "is_stable it \<longleftrightarrow> hi_address it AND STABLE_FLAG \<noteq> 0"

definition is_unstable :: "ksm_rmap_item \<Rightarrow> bool" where
  "is_unstable it \<longleftrightarrow> hi_address it AND UNSTABLE_FLAG \<noteq> 0"

section \<open>The mode is decided\<close>

definition api_found :: "(string \<Rightarrow> bool) \<times> offload_mode option \<Rightarrow> bool" where
  "api_found t \<longleftrightarrow> list_all (fst t) api_symbols \<and> snd t \<noteq> None"

definition decided_state :: "offload_mode \<Rightarrow> bool \<Rightarrow> error_table option \<Rightarrow> rdma_state" where
  "decided_state m kmalloc_cb table =
     \<lparr>rs_status = (if m = NO_OFFLOAD then UNINITIALIZED else INITIALIZED), rs_mode = Some m, rs_decided = True,
      rs_cb = (m \<noteq> NO_OFFLOAD \<and> kmalloc_cb),
      rs_error_table = (if m \<noteq> NO_OFFLOAD \<and> kmalloc_cb then table else None)\<rparr>"

lemma await_decision_from:
  "await_decision tries kmalloc_cb table (initial_rdma_state\<lparr>rs_mode := mode\<rparr>) =
     map_option (\<lambda>t. decided_state (the (snd t)) kmalloc_cb table) (find api_found tries)"
proof (induction tries arbitrary: mode)
  case Nil
  then show ?case by (simp add: await_decision.simps initial_rdma_state_def)
next
  case (Cons t tries)
  obtain lookup m where t: "t = (lookup, m)" by (cases t)
  let ?s = "init_ksm_rdma lookup m kmalloc_cb table (initial_rdma_state\<lparr>rs_mode := mode\<rparr>)"
  have step: "await_decision (t # tries) kmalloc_cb table (initial_rdma_state\<lparr>rs_mode := mode\<rparr>) =
      await_decision tries kmalloc_cb table ?s"
    by (subst await_decision.simps) (simp add: initial_rdma_state_def t)
  show ?case
  proof (cases "api_found t")
    case True
    then obtain m' where m: "m = Some m'" "list_all lookup api_symbols" by (auto simp: api_found_def t)
    then have "?s = decided_state m' kmalloc_cb table"
      by (simp add: init_ksm_rdma_def try_update_api_function_def initial_rdma_state_def decided_state_def
          is_rdma_initialized_def init_cb_def)
    then show ?thesis using step True
      by (simp add: await_decision.simps [of tries] decided_state_def t m(1))
  next
    case False
    then have "?s = initial_rdma_state\<lparr>rs_mode := m\<rparr>"
      by (auto simp: init_ksm_rdma_def try_update_api_function_def initial_rdma_state_def is_rdma_initialized_def
          api_found_def t)
    then show ?thesis using step Cons.IH [of m] False by simp
  qed
qed


section \<open>Addresses and flags\<close>

lemma mask_bits: "bit PAGE_MASK n \<longleftrightarrow> 12 \<le> n \<and> n < 64" "bit STABLE_FLAG n \<longleftrightarrow> n = 9" "bit UNSTABLE_FLAG n \<longleftrightarrow> n = 8"
proof -
  have pm: "PAGE_MASK = NOT (mask 12)" by (simp add: PAGE_MASK_def mask_eq_exp_minus_1)
  show "bit PAGE_MASK n \<longleftrightarrow> 12 \<le> n \<and> n < 64" unfolding pm by (auto simp only: bit_simps) auto
  have f9: "STABLE_FLAG = push_bit 9 1" by (simp add: STABLE_FLAG_def push_bit_eq_mult)
  show "bit STABLE_FLAG n \<longleftrightarrow> n = 9" unfolding f9 by (auto simp only: bit_simps) auto
  have f8: "UNSTABLE_FLAG = push_bit 8 1" by (simp add: UNSTABLE_FLAG_def push_bit_eq_mult)
  show "bit UNSTABLE_FLAG n \<longleftrightarrow> n = 8" unfolding f8 by (auto simp only: bit_simps) auto
qed

lemma page_mask_flags:
  "(x AND PAGE_MASK) AND STABLE_FLAG = 0" "(x AND PAGE_MASK) AND UNSTABLE_FLAG = 0"
  "(x OR STABLE_FLAG) AND PAGE_MASK = x AND PAGE_MASK" "(x OR STABLE_FLAG) AND STABLE_FLAG \<noteq> 0"
  "(x AND PAGE_MASK) AND PAGE_MASK = x AND PAGE_MASK"
proof -
  show "(x AND PAGE_MASK) AND STABLE_FLAG = 0" "(x AND PAGE_MASK) AND UNSTABLE_FLAG = 0"
    "(x OR STABLE_FLAG) AND PAGE_MASK = x AND PAGE_MASK"
    "(x AND PAGE_MASK) AND PAGE_MASK = x AND PAGE_MASK"
    by (rule bit_eqI, auto simp: bit_simps mask_bits)+
  have "bit ((x OR STABLE_FLAG) AND STABLE_FLAG) 9" by (simp add: bit_simps mask_bits)
  then show "(x OR STABLE_FLAG) AND STABLE_FLAG \<noteq> 0" by force
qed

end
