(* ===== verification/Host_Sgl.thy ===== *)
theory Host_Sgl
  imports Wire_Types
begin

text \<open>
  The chained scatter lists of the host (\<open>mm/ksm_rdma.c\<close>, \<open>mm/ksm_shadow.c\<close>). The pages to be
  registered with the NIC are listed in arrays of at most \<open>SG_CHUNK_SIZE\<close> entries; the last
  entry of a full array points to the next array. The same loop builds the list in
  \<open>rdma_register_shadow_mms\<close> and \<open>rdma_register_error_table\<close>, and the same loop frees it in
  \<open>free_shadow_mm\<close> and \<open>rdma_unregister_error_table\<close>. \<open>SG_CHUNK_SIZE\<close> is a constant of the
  kernel's headers: a parameter \<open>C\<close>.
\<close>

section \<open>Scatter lists\<close>

text \<open>
  An array of a list is its entries; the arrays of a list are numbered in the order of their
  allocation, and a chain entry names the number of the next one.
\<close>

datatype 'p sg = Sg_Unset | Sg_Page 'p | Sg_Last 'p | Sg_Chain nat

type_synonym 'p sgl = "'p sg list list"

definition sg_iters :: "nat \<Rightarrow> nat \<Rightarrow> nat" where
  "sg_iters C this_sgl_size =
     (if this_sgl_size \<le> C then 1
      else (let remaining_size = this_sgl_size - C in (remaining_size + (C - 1) - 1) div (C - 1) + 1))"

text \<open>The pages of one array, \<open>page_at\<close> giving the page for an index and moving on its iterator.\<close>

fun fill_pages :: "(nat \<Rightarrow> 's \<Rightarrow> ('p \<times> 's) res) \<Rightarrow> nat list \<Rightarrow> 's \<Rightarrow> ('p list \<times> 's) res" where
  "fill_pages page_at [] st = Inr ([], st)"
| "fill_pages page_at (i # is) st =
     rbind (page_at i st) (\<lambda>(page, st).
     rbind (fill_pages page_at is st) (\<lambda>(pages, st). Inr (page # pages, st)))"

text \<open>
  The loop over the arrays, with \<open>registered\<close>, the arrays so far and the last \<open>this_size\<close>.
  \<open>kz\<close> tells whether \<open>kzalloc\<close> succeeds; when it does not, the code prints a message and writes
  through \<open>NULL\<close>.
\<close>

primrec build_iters ::
  "(nat \<Rightarrow> 's \<Rightarrow> ('p \<times> 's) res) \<Rightarrow> (nat \<Rightarrow> bool) \<Rightarrow> nat \<Rightarrow> nat \<Rightarrow> nat \<Rightarrow> nat \<Rightarrow> nat list \<Rightarrow>
   nat \<Rightarrow> 'p sgl \<Rightarrow> nat \<Rightarrow> 's \<Rightarrow> ('p sgl \<times> nat \<times> 's) res" where
  "build_iters page_at kz C base this_sgl_size iters [] registered chunks this_size st =
     Inr (chunks, this_size, st)"
| "build_iters page_at kz C base this_sgl_size iters (iter_cnt # is) registered chunks this_size st =
     (let final = (iter_cnt = iters - 1);
          this_size = (if final then this_sgl_size - registered else C - 1);
          len = (if final then this_size else C)
      in if \<not> kz iter_cnt \<and> this_size > 0 then Inl Null_Deref
         else
           rbind (fill_pages page_at [base + registered..<base + registered + this_size] st) (\<lambda>(pages, st).
             (let curr_sgt = map Sg_Page pages @ replicate (len - this_size) Sg_Unset;
                  chunks = (if iter_cnt = 0 then chunks
                            else chunks[length chunks - 1 :=
                              (last chunks)[C - 1 := Sg_Chain (length chunks)]])
              in build_iters page_at kz C base this_sgl_size iters is (registered + this_size)
                   (chunks @ [curr_sgt]) this_size st)))"

fun sg_mark_end :: "'p sg \<Rightarrow> 'p sg" where
  "sg_mark_end (Sg_Page p) = Sg_Last p"
| "sg_mark_end e = e"

definition build_sgl ::
  "(nat \<Rightarrow> 's \<Rightarrow> ('p \<times> 's) res) \<Rightarrow> (nat \<Rightarrow> bool) \<Rightarrow> nat \<Rightarrow> nat \<Rightarrow> nat \<Rightarrow> 's \<Rightarrow> ('p sgl \<times> 's) res" where
  "build_sgl page_at kz C base this_sgl_size st =
     (let iters = sg_iters C this_sgl_size
      in rbind (build_iters page_at kz C base this_sgl_size iters [0..<iters] 0 [] 0 st)
           (\<lambda>(chunks, this_size, st).
             Inr (if this_size > 0
                  then chunks[length chunks - 1 := (last chunks)[this_size - 1 :=
                         sg_mark_end (last chunks ! (this_size - 1))]]
                  else chunks, st)))"

text \<open>
  How the kernel reads a list (\<open>for_each_sg\<close>, \<open>sg_next\<close>): it stops at the entry marked as the
  end, and follows a chain entry behind the current one.
\<close>

primrec sg_walk :: "nat \<Rightarrow> 'p sgl \<Rightarrow> nat \<Rightarrow> nat \<Rightarrow> 'p list" where
  "sg_walk 0 chunks c i = []"
| "sg_walk (Suc n) chunks c i =
     (case chunks ! c ! i of
        Sg_Page p \<Rightarrow> p #
          (case chunks ! c ! Suc i of Sg_Chain c' \<Rightarrow> sg_walk n chunks c' 0 | _ \<Rightarrow> sg_walk n chunks c (Suc i))
      | Sg_Last p \<Rightarrow> [p]
      | _ \<Rightarrow> [])"

text \<open>
  The loop that frees a list; the result lists the arrays it frees. An entry that is neither a
  chain nor the end is reported; \<open>rdma_unregister_error_table\<close> (\<open>strict\<close>) then stops and
  \<open>free_shadow_mm\<close> goes on with the same array.
\<close>

primrec free_iters ::
  "bool \<Rightarrow> 'p sgl \<Rightarrow> nat \<Rightarrow> nat \<Rightarrow> nat \<Rightarrow> nat list \<Rightarrow> nat \<Rightarrow> nat \<Rightarrow> nat list \<Rightarrow> nat list res" where
  "free_iters strict chunks C this_sgl_size iters [] sgt freed dead = Inr dead"
| "free_iters strict chunks C this_sgl_size iters (i # is) sgt freed dead =
     (let this_size = (if i = iters - 1 then this_sgl_size - freed else C)
      in if this_size = 0 then Inr dead
         else if sgt \<in> set dead \<or> \<not> sgt < length chunks \<or> \<not> this_size - 1 < length (chunks ! sgt)
         then Inl Null_Deref
         else
           (case chunks ! sgt ! (this_size - 1) of
              Sg_Chain next_sgt \<Rightarrow>
                free_iters strict chunks C this_sgl_size iters is next_sgt (freed + (this_size - 1)) (dead @ [sgt])
            | Sg_Last p \<Rightarrow> Inr (dead @ [sgt])
            | _ \<Rightarrow> if strict then Inl (Stopped ''Invalid scatterlist'')
                   else free_iters strict chunks C this_sgl_size iters is sgt (freed + (this_size - 1)) dead))"

definition free_sgl :: "bool \<Rightarrow> nat \<Rightarrow> nat \<Rightarrow> 'p sgl \<Rightarrow> nat list res" where
  "free_sgl strict C this_sgl_size chunks =
     (let iters = sg_iters C this_sgl_size
      in free_iters strict chunks C this_sgl_size iters [0..<iters] 0 0 [])"

section \<open>The list the loop builds\<close>

lemma sg_iters_bounds:
  assumes "2 \<le> C" "0 < n"
  shows "0 < sg_iters C n" "(sg_iters C n - 1) * (C - 1) < n" "n \<le> (sg_iters C n - 1) * (C - 1) + C"
proof -
  have "(sg_iters C n - 1) * (C - 1) < n \<and> n \<le> (sg_iters C n - 1) * (C - 1) + C"
  proof (cases "n \<le> C")
    case False
    let ?r = "n - C" and ?d = "C - 1"
    have i: "sg_iters C n = DIV_ROUND_UP ?r ?d + 1" using False by (simp add: sg_iters_def DIV_ROUND_UP_def)
    have d: "0 < ?d" using assms by simp
    then have "0 < DIV_ROUND_UP ?r ?d" using False by (intro DIV_ROUND_UP_pos) auto
    then have "(DIV_ROUND_UP ?r ?d - 1) * ?d < ?r" using d by (intro DIV_ROUND_UP_tight) auto
    then have "DIV_ROUND_UP ?r ?d * ?d < ?r + ?d" using \<open>0 < DIV_ROUND_UP ?r ?d\<close>
      by (cases "DIV_ROUND_UP ?r ?d") auto
    moreover have "?r \<le> DIV_ROUND_UP ?r ?d * ?d" using DIV_ROUND_UP_covers [OF d] .
    moreover have "sg_iters C n - 1 = DIV_ROUND_UP ?r ?d" using i by simp
    ultimately show ?thesis using False assms(1) by (intro conjI) (simp_all only:, linarith+)
  qed (use assms in \<open>simp add: sg_iters_def\<close>)
  then show "(sg_iters C n - 1) * (C - 1) < n" "n \<le> (sg_iters C n - 1) * (C - 1) + C" by simp_all
  show "0 < sg_iters C n" by (simp add: sg_iters_def Let_def)
qed

definition pages_between :: "(nat \<Rightarrow> 'p) \<Rightarrow> nat \<Rightarrow> nat \<Rightarrow> 'p sg list" where
  "pages_between pg a b = map (\<lambda>j. Sg_Page (pg j)) [a..<b]"

lemma length_pages_between [simp]: "length (pages_between pg a b) = b - a"
  by (simp add: pages_between_def)

lemma nth_pages_between [simp]: "a + i < b \<Longrightarrow> pages_between pg a b ! i = Sg_Page (pg (a + i))"
  unfolding pages_between_def using nth_upt [of a i b] by simp

definition full_chunk :: "nat \<Rightarrow> (nat \<Rightarrow> 'p) \<Rightarrow> nat \<Rightarrow> 'p sg \<Rightarrow> 'p sg list" where
  "full_chunk C pg i e = pages_between pg (i * (C - 1)) (Suc i * (C - 1)) @ [e]"

definition chained :: "nat \<Rightarrow> (nat \<Rightarrow> 'p) \<Rightarrow> nat \<Rightarrow> 'p sgl" where
  "chained C pg n = map (\<lambda>i. full_chunk C pg i (Sg_Chain (Suc i))) [0..<n]"

definition sgl_of :: "nat \<Rightarrow> (nat \<Rightarrow> 'p) \<Rightarrow> nat \<Rightarrow> 'p sgl" where
  "sgl_of C pg n =
     (let k = sg_iters C n - 1
      in chained C pg k @ [pages_between pg (k * (C - 1)) (n - 1) @ [Sg_Last (pg (n - 1))]])"

lemma length_chained [simp]: "length (chained C pg n) = n"
  by (simp add: chained_def)

lemma nth_chained [simp]: "i < n \<Longrightarrow> chained C pg n ! i = full_chunk C pg i (Sg_Chain (Suc i))"
  by (simp add: chained_def)

lemma chained_Suc [simp]: "chained C pg (Suc n) = chained C pg n @ [full_chunk C pg n (Sg_Chain (Suc n))]"
  by (simp add: chained_def)

lemma length_full_chunk: "2 \<le> C \<Longrightarrow> length (full_chunk C pg i e) = C"
  by (simp add: full_chunk_def)

lemma full_chunk_nth:
  assumes "2 \<le> C"
  shows "full_chunk C pg i e ! (C - 1) = e" "j < C - 1 \<Longrightarrow> full_chunk C pg i e ! j = Sg_Page (pg (i * (C - 1) + j))"
  by (simp_all add: full_chunk_def nth_append)

lemma full_chunk_upd: "2 \<le> C \<Longrightarrow> (full_chunk C pg i e)[C - 1 := e'] = full_chunk C pg i e'"
  by (simp add: full_chunk_def list_update_append)

lemma fill_pages_ok:
  assumes "\<And>j. a \<le> j \<Longrightarrow> j < b \<Longrightarrow> page_at (base + j) (st j) = Inr (pg j, st (Suc j))" "a \<le> b"
  shows "fill_pages page_at [base + a..<base + b] (st a) = Inr (map pg [a..<b], st b)"
  using assms
proof (induction "b - a" arbitrary: a)
  case (Suc k)
  then have "fill_pages page_at [base + Suc a..<base + b] (st (Suc a)) = Inr (map pg [Suc a..<b], st b)"
    by (intro Suc.hyps(1)) simp_all
  then show ?case using Suc by (simp add: upt_conv_Cons)
qed simp

text \<open>One array that is not the last.\<close>

definition open_chunks :: "nat \<Rightarrow> (nat \<Rightarrow> 'p) \<Rightarrow> nat \<Rightarrow> 'p sgl" where
  "open_chunks C pg n = (if n = 0 then [] else chained C pg (n - 1) @ [full_chunk C pg (n - 1) Sg_Unset])"

lemma open_chunks_link:
  assumes "2 \<le> C"
  shows "(if n = 0 then open_chunks C pg n else (open_chunks C pg n)[length (open_chunks C pg n) - 1 :=
      (last (open_chunks C pg n))[C - 1 := Sg_Chain (length (open_chunks C pg n))]]) = chained C pg n"
  using assms by (cases n) (simp_all add: open_chunks_def full_chunk_upd list_update_append chained_def
    del: One_nat_def)

lemma build_iters_full:
  assumes C: "2 \<le> C" and kz: "\<And>i. kz i" and n: "n < iters" and fits: "n * (C - 1) \<le> N"
    and page_at: "\<And>j. j < N \<Longrightarrow> page_at (base + j) (st j) = Inr (pg j, st (Suc j))"
  shows "build_iters page_at kz C base N iters ([0..<n] @ is) 0 [] 0 (st 0) =
    build_iters page_at kz C base N iters is (n * (C - 1)) (open_chunks C pg n) (if n = 0 then 0 else C - 1)
      (st (n * (C - 1)))"
  using n fits
proof (induction n arbitrary: "is")
  case (Suc n)
  let ?a = "n * (C - 1)"
  have le: "?a + (C - 1) \<le> N" using Suc.prems(2) by simp
  have ne: "n \<noteq> iters - 1" "n < iters" and le': "?a \<le> N" using Suc.prems(1) le by simp_all
  have fill: "fill_pages page_at [base + ?a..<base + ?a + (C - 1)] (st ?a) =
      Inr (map pg [?a..<?a + (C - 1)], st (?a + (C - 1)))"
    using fill_pages_ok [of ?a "?a + (C - 1)" page_at base st pg, OF page_at] le by (simp add: add.assoc)
  have "map Sg_Page (map pg [?a..<?a + (C - 1)]) @ replicate (C - (C - 1)) Sg_Unset = full_chunk C pg n Sg_Unset"
    using C by (simp add: full_chunk_def pages_between_def add.commute)
  moreover have "(if n = 0 then chained C pg n else chained C pg n) @ [full_chunk C pg n Sg_Unset] = open_chunks C pg (Suc n)"
    by (simp add: open_chunks_def)
  ultimately show ?case
    using Suc.IH [of "n # is"] ne le' fill open_chunks_link [OF C, of n pg] kz C
    by (simp add: Let_def add.commute [of "C - 1"] del: One_nat_def)
qed (simp add: open_chunks_def)

lemma build_sgl_ok:
  assumes C: "2 \<le> C" and N: "0 < N" and kz: "\<And>i. kz i"
    and page_at: "\<And>j. j < N \<Longrightarrow> page_at (base + j) (st j) = Inr (pg j, st (Suc j))"
  shows "build_sgl page_at kz C base N (st 0) = Inr (sgl_of C pg N, st N)"
proof -
  let ?n = "sg_iters C N" and ?k = "sg_iters C N - 1"
  let ?a = "?k * (C - 1)"
  note b = sg_iters_bounds [OF C N]
  have n: "[0..<?n] = [0..<?k] @ [?k]" using b(1) by (metis Suc_diff_1 upt_Suc_append zero_le)
  have 1: "build_iters page_at kz C base N ?n ([0..<?k] @ [?k]) 0 [] 0 (st 0) =
      build_iters page_at kz C base N ?n [?k] ?a (open_chunks C pg ?k) (if ?k = 0 then 0 else C - 1) (st ?a)"
    by (rule build_iters_full [where pg = pg, OF C kz _ _ page_at]) (use b in simp_all)
  have 2: "fill_pages page_at [base + ?a..<base + ?a + (N - ?a)] (st ?a) = Inr (map pg [?a..<N], st N)"
    using fill_pages_ok [of ?a N page_at base st pg] page_at b(2) by simp
  have 3: "[?a..<N] = [?a..<N - 1] @ [N - 1]" using b(2) N
    by (metis Suc_diff_1 less_Suc_eq_le upt_Suc_append)
  have 4: "build_iters page_at kz C base N ?n [0..<?n] 0 [] 0 (st 0) =
      Inr (chained C pg ?k @ [map Sg_Page (map pg [?a..<N])], N - ?a, st N)"
    unfolding n 1 using 2 kz open_chunks_link [OF C, of ?k pg] by (simp add: Let_def del: One_nat_def)
  have "(map Sg_Page (map pg [?a..<N]))[N - ?a - 1 := sg_mark_end (map Sg_Page (map pg [?a..<N]) ! (N - ?a - 1))] =
      pages_between pg ?a (N - 1) @ [Sg_Last (pg (N - 1))]"
    unfolding 3 using b(2) by (simp add: pages_between_def nth_append list_update_append)
  then show ?thesis using 4 b(2) by (simp add: build_sgl_def sgl_of_def Let_def list_update_append del: One_nat_def)
qed

section \<open>Reading and freeing it\<close>

lemma sgl_of_nth:
  assumes C: "2 \<le> C" and N: "0 < N" and k: "k = sg_iters C N - 1"
  shows "c < k \<Longrightarrow> sgl_of C pg N ! c = full_chunk C pg c (Sg_Chain (Suc c))"
    and "sgl_of C pg N ! k = pages_between pg (k * (C - 1)) (N - 1) @ [Sg_Last (pg (N - 1))]"
    and "length (sgl_of C pg N) = Suc k"
  by (simp_all add: sgl_of_def Let_def nth_append k)


lemma last_chunk_nth:
  assumes "a < N" "a + j < N"
  shows "(pages_between pg a (N - 1) @ [Sg_Last (pg (N - 1))]) ! j =
    (if Suc (a + j) = N then Sg_Last (pg (a + j)) else Sg_Page (pg (a + j)))"
  using assms by (cases "j = N - 1 - a") (auto simp: nth_append)

lemma sg_walk_from:
  assumes C: "2 \<le> C" and N: "0 < N" and k: "k = sg_iters C N - 1"
    and pos: "c < k \<and> i < C - 1 \<or> c = k" "c * (C - 1) + i < N" and n: "n = N - (c * (C - 1) + i)"
  shows "sg_walk n (sgl_of C pg N) c i = map pg [c * (C - 1) + i..<N]"
  using pos n
proof (induction n arbitrary: c i)
  case (Suc n)
  let ?p = "c * (C - 1) + i" and ?l = "sgl_of C pg N"
  note nth = sgl_of_nth [OF C N k, where pg = pg]
  have kb: "k * (C - 1) < N" using sg_iters_bounds [OF C N] k by simp
  have n': "n = N - Suc ?p" using Suc.prems(3) by simp
  have p: "[?p..<N] = ?p # [Suc ?p..<N]" using Suc.prems(2) by (simp add: upt_conv_Cons)
  show ?case
  proof (cases "c = k")
    case True
    have e: "?l ! c ! j = (if Suc (k * (C - 1) + j) = N then Sg_Last (pg (k * (C - 1) + j)) else Sg_Page (pg (k * (C - 1) + j)))"
      if "k * (C - 1) + j < N" for j
      using that nth(2) last_chunk_nth [OF kb, of j pg] True by simp
    show ?thesis
    proof (cases "Suc ?p = N")
      case True
      then show ?thesis using e [of i] \<open>c = k\<close> p by simp
    next
      case False
      then have "Suc ?p < N" using Suc.prems(2) by simp
      then have "sg_walk n ?l c (Suc i) = map pg [Suc ?p..<N]" using Suc.IH [of c "Suc i"] \<open>c = k\<close> n' by simp
      moreover have "?l ! c ! i = Sg_Page (pg ?p)" using e [of i] \<open>c = k\<close> False Suc.prems(2) by simp
      moreover have "?l ! c ! Suc i \<noteq> Sg_Chain d" for d using e [of "Suc i"] \<open>c = k\<close> \<open>Suc ?p < N\<close> by simp
      ultimately show ?thesis using p by (simp split: sg.split)
    qed
  next
    case False
    then have c: "c < k" "i < C - 1" using Suc.prems(1) by auto
    have e: "?l ! c = full_chunk C pg c (Sg_Chain (Suc c))" using nth(1) c(1) by simp
    have "Suc c * (C - 1) \<le> k * (C - 1)" using c(1) by (intro mult_le_mono1) simp
    then have lt: "Suc c * (C - 1) < N" using kb by simp
    show ?thesis
    proof (cases "Suc i = C - 1")
      case True
      have c': "Suc c < k \<and> 0 < C - 1 \<or> Suc c = k" using c by auto
      have q: "Suc c * (C - 1) = Suc ?p" using True by (simp del: One_nat_def)
      have "sg_walk n ?l (Suc c) 0 = map pg [Suc ?p..<N]"
        using Suc.IH [of "Suc c" 0] c' lt n' unfolding q by simp
      then show ?thesis using full_chunk_nth [OF C, where pg = pg and i = c and e = "Sg_Chain (Suc c)"] c e p True by simp
    next
      case no: False
      then have i: "Suc i < C - 1" using c(2) by simp
      then have "Suc ?p < N" using lt by simp
      then have "sg_walk n ?l c (Suc i) = map pg [Suc ?p..<N]"
        using Suc.IH [of c "Suc i"] c i n' by simp
      then show ?thesis using full_chunk_nth(2) [OF C, where pg = pg and i = c and e = "Sg_Chain (Suc c)"] c e p i by simp
    qed
  qed
qed simp

text \<open>The kernel finds in the list exactly the pages that were put in, in order.\<close>

lemma sg_walk_sgl_of: "2 \<le> C \<Longrightarrow> 0 < N \<Longrightarrow> sg_walk N (sgl_of C pg N) 0 0 = map pg [0..<N]"
  by (rule sg_walk_from [where c = 0 and i = 0, simplified]) auto

text \<open>Freeing the list frees every array once.\<close>

lemma free_iters_chained:
  assumes C: "2 \<le> C" and N: "0 < N" and k: "k = sg_iters C N - 1" and "c \<le> k"
  shows "free_iters strict (sgl_of C pg N) C N (sg_iters C N) [c..<sg_iters C N] c (c * (C - 1)) [0..<c] =
    Inr [0..<sg_iters C N]"
  using assms(4)
proof (induction "k - c" arbitrary: c)
  case 0
  then have c: "c = k" "sg_iters C N = Suc c" using sg_iters_bounds(1) [OF C N] k by simp_all
  note nth = sgl_of_nth [OF C N k, where pg = pg]
  have b: "c * (C - 1) < N" using sg_iters_bounds [OF C N] c by simp
  then have "(pages_between pg (c * (C - 1)) (N - 1) @ [Sg_Last (pg (N - 1))]) ! (N - c * (C - 1) - 1) = Sg_Last (pg (N - 1))"
    by (subst last_chunk_nth) simp_all
  then show ?case using b nth(2,3) c by (simp add: Let_def del: One_nat_def)
next
  case (Suc d)
  then have c: "c < k" "d = k - Suc c" by simp_all
  note nth = sgl_of_nth [OF C N k, where pg = pg]
  have "[c..<sg_iters C N] = c # [Suc c..<sg_iters C N]" using c k by (simp add: upt_conv_Cons)
  moreover have "free_iters strict (sgl_of C pg N) C N (sg_iters C N) [Suc c..<sg_iters C N] (Suc c)
      (Suc c * (C - 1)) [0..<Suc c] = Inr [0..<sg_iters C N]" using Suc.hyps(1) [of "Suc c"] c by simp
  ultimately show ?case
    using nth(1) [OF c(1)] nth(3) full_chunk_nth(1) [OF C, of pg c "Sg_Chain (Suc c)"]
      length_full_chunk [OF C, of pg c "Sg_Chain (Suc c)"] C c k by (simp add: Let_def add.commute)
qed

lemma free_sgl_of:
  assumes "2 \<le> C" "0 < N"
  shows "free_sgl strict C N (sgl_of C pg N) = Inr [0..<length (sgl_of C pg N)]"
  using free_iters_chained [OF assms refl, of 0 strict pg] sgl_of_nth(3) [OF assms refl, of pg] sg_iters_bounds(1) [OF assms]
  by (simp add: free_sgl_def)

end
