(* ===== verification/Glib_Tables.thy ===== *)
theory Glib_Tables
  imports Bask_Prelude "HOL-Library.AList" "HOL-Library.RBT"
begin

text \<open>
  The GLib containers the server keeps its metadata in. GLib is not part of the repository, so
  its containers are parameters of the model: \<open>gops\<close> is the record of the operations the
  server calls and the locale \<open>gtable\<close> states what their documentation promises.

  A \<open>GTree\<close> and a \<open>GHashTable\<close> both store pointers under the contents of a key object, read
  through the comparison (\<open>GCompareFunc\<close>) or the hash and equality functions (\<open>GHashFunc\<close>,
  \<open>GEqualFunc\<close>) given at creation. The locales \<open>gcompare\<close> and \<open>ghash_key\<close> state what GLib
  asks of these client functions; the theory of the server's types interprets them on the
  server's own functions, which is what makes a table keyed by key contents well defined. That a
  key is not modified while it is stored is part of the server's invariant.
\<close>

section \<open>What GLib asks of its client\<close>

locale gcompare =
  fixes cmp :: "'a \<Rightarrow> 'a \<Rightarrow> int" and key :: "'a \<Rightarrow> 'k"
  assumes cmp_zero: "cmp a b = 0 \<longleftrightarrow> key a = key b"
    and cmp_swap: "0 < cmp a b \<longleftrightarrow> cmp b a < 0"
    and cmp_trans: "cmp a b < 0 \<Longrightarrow> cmp b c < 0 \<Longrightarrow> cmp a c < 0"
begin

lemma cmp_total: "cmp a b < 0 \<or> cmp b a < 0 \<or> key a = key b"
  using cmp_zero [of a b] cmp_swap [of a b] by linarith

lemma cmp_irrefl: "\<not> cmp a a < 0"
  using cmp_zero [of a a] by simp

lemma cmp_key_cong: "key a = key a' \<Longrightarrow> cmp a b < 0 \<Longrightarrow> cmp a' b < 0"
  using cmp_zero [of a a'] cmp_zero [of a' b] cmp_swap [of a' b] cmp_zero [of a b]
    cmp_trans [of a b a'] by fastforce

end

locale ghash_key =
  fixes hash :: "'a \<Rightarrow> u32" and eq :: "'a \<Rightarrow> 'a \<Rightarrow> bool" and key :: "'a \<Rightarrow> 'k"
  assumes eq_key: "eq a b \<longleftrightarrow> key a = key b"
    and hash_key: "key a = key b \<Longrightarrow> hash a = hash b"
begin

lemma eq_equivp: "equivp eq"
  by (rule equivpI) (simp_all add: reflp_def symp_def transp_def eq_key)

lemma eq_imp_hash: "eq a b \<Longrightarrow> hash a = hash b"
  by (rule hash_key) (simp add: eq_key)

end

section \<open>What GLib promises\<close>

text \<open>
  \<open>g_entries\<close> lists the entries in the order \<open>g_tree_foreach\<close> or \<open>g_hash_table_foreach\<close>
  visits them, so its length is \<open>g_tree_nnodes\<close> or \<open>g_hash_table_size\<close>. \<open>g_wf\<close> is the
  library's own representation invariant, which no client can look into.
\<close>

record ('k, 't) gops =
  g_new :: 't
  g_lookup :: "'t \<Rightarrow> 'k \<Rightarrow> addr option"
  g_insert :: "'t \<Rightarrow> 'k \<Rightarrow> addr \<Rightarrow> 't"
  g_remove :: "'t \<Rightarrow> 'k \<Rightarrow> 't"
  g_remove_all :: "'t \<Rightarrow> 't"
  g_entries :: "'t \<Rightarrow> ('k \<times> addr) list"
  g_wf :: "'t \<Rightarrow> bool"

locale gtable =
  fixes G :: "('k, 't) gops"
  assumes wf_new: "g_wf G (g_new G)"
    and lookup_new: "g_lookup G (g_new G) k = None"
    and wf_insert: "g_wf G t \<Longrightarrow> g_wf G (g_insert G t k v)"
    and lookup_insert: "g_wf G t \<Longrightarrow> g_lookup G (g_insert G t k v) = (g_lookup G t)(k \<mapsto> v)"
    and wf_remove: "g_wf G t \<Longrightarrow> g_wf G (g_remove G t k)"
    and lookup_remove: "g_wf G t \<Longrightarrow> g_lookup G (g_remove G t k) = (g_lookup G t)(k := None)"
    and wf_remove_all: "g_wf G t \<Longrightarrow> g_wf G (g_remove_all G t)"
    and lookup_remove_all: "g_wf G t \<Longrightarrow> g_lookup G (g_remove_all G t) k = None"
    and entries_distinct: "g_wf G t \<Longrightarrow> distinct (map fst (g_entries G t))"
    and map_of_entries: "g_wf G t \<Longrightarrow> map_of (g_entries G t) = g_lookup G t"
begin

lemmas table_simps = wf_new lookup_new wf_insert lookup_insert wf_remove lookup_remove
  wf_remove_all lookup_remove_all

lemma dom_lookup: "g_wf G t \<Longrightarrow> dom (g_lookup G t) = fst ` set (g_entries G t)"
  using dom_map_of_conv_image_fst [of "g_entries G t"] by (simp add: map_of_entries)

lemma finite_dom_lookup: "g_wf G t \<Longrightarrow> finite (dom (g_lookup G t))"
  by (simp add: dom_lookup)

lemma entries_iff: "g_wf G t \<Longrightarrow> (k, v) \<in> set (g_entries G t) \<longleftrightarrow> g_lookup G t k = Some v"
  using map_of_eq_Some_iff [OF entries_distinct] map_of_entries by metis

lemma length_entries: "g_wf G t \<Longrightarrow> length (g_entries G t) = card (dom (g_lookup G t))"
  using entries_distinct distinct_card [of "map fst (g_entries G t)"] by (simp add: dom_lookup)

lemma values_iff: "g_wf G t \<Longrightarrow> v \<in> snd ` set (g_entries G t) \<longleftrightarrow> (\<exists>k. g_lookup G t k = Some v)"
  by (force simp: entries_iff [symmetric])

lemma dom_remove: "g_wf G t \<Longrightarrow> dom (g_lookup G (g_remove G t k)) = dom (g_lookup G t) - {k}"
  by (simp add: lookup_remove)

lemma card_insert_new:
  "g_wf G t \<Longrightarrow> g_lookup G t k = None \<Longrightarrow>
   card (dom (g_lookup G (g_insert G t k v))) = Suc (card (dom (g_lookup G t)))"
  by (simp add: lookup_insert finite_card_dom_upd finite_dom_lookup del: fun_upd_apply dom_fun_upd)

lemma card_remove_stored:
  "g_wf G t \<Longrightarrow> g_lookup G t k = Some v \<Longrightarrow>
   Suc (card (dom (g_lookup G (g_remove G t k)))) = card (dom (g_lookup G t))"
  using card_Suc_Diff1 [OF finite_dom_lookup, of t k] by (simp add: dom_remove domI del: card_Diff_insert)

end

section \<open>Two providers\<close>

text \<open>
  The laws are those of a finite map with a stable iteration order. The red-black trees of the
  HOL library satisfy them for any ordered key (a \<open>GTree\<close> is a balanced search tree as well),
  and so do association lists, on which concrete runs of the server are evaluated.
\<close>

definition rbt_gops :: "('k::linorder, ('k, addr) rbt) gops" where
  "rbt_gops = \<lparr>g_new = RBT.empty, g_lookup = RBT.lookup, g_insert = (\<lambda>t k v. RBT.insert k v t),
     g_remove = (\<lambda>t k. RBT.delete k t), g_remove_all = (\<lambda>_. RBT.empty),
     g_entries = RBT.entries, g_wf = (\<lambda>_. True)\<rparr>"

definition alist_gops :: "('k, ('k \<times> addr) list) gops" where
  "alist_gops = \<lparr>g_new = [], g_lookup = map_of, g_insert = (\<lambda>t k v. AList.update k v t),
     g_remove = (\<lambda>t k. AList.delete k t), g_remove_all = (\<lambda>_. []),
     g_entries = (\<lambda>t. t), g_wf = (\<lambda>t. distinct (map fst t))\<rparr>"

interpretation rbt: gtable "rbt_gops :: ('k::linorder, ('k, addr) rbt) gops"
  by unfold_locales (simp_all add: rbt_gops_def map_of_entries distinct_entries)

lemma alist_gtable: "gtable (alist_gops :: ('k, ('k \<times> addr) list) gops)"
  by unfold_locales
    (simp_all add: alist_gops_def update_conv' delete_conv' distinct_update distinct_delete fun_eq_iff)

interpretation alist: gtable "alist_gops :: ('k, ('k \<times> addr) list) gops"
  by (rule alist_gtable)

end
