(* ===== verification/Server_Types.thy ===== *)
theory Server_Types
  imports Glib_Tables Wire_Types
begin

unbundle bit_operations_syntax

text \<open>
  The data of the SmartNIC server (\<open>bask/server.h\<close>): page hashes, reverse-mapping items, stable
  nodes, the log table and the metadata that ties them together, and the environment the server
  runs in (the GLib containers, the XXH3 hash, \<open>malloc\<close> and \<open>realloc\<close>).
\<close>

section \<open>Hash pairs\<close>

text \<open>\<open>XXH128_hash_t\<close> of xxHash, and the pair of hashes of the two halves of a page.\<close>

record xxh128_hash =
  low64 :: u64
  high64 :: u64

record hash_pair =
  first_hash :: xxh128_hash
  second_hash :: xxh128_hash

definition null_hash :: hash_pair where
  "null_hash = \<lparr>first_hash = \<lparr>low64 = 0, high64 = 0\<rparr>, second_hash = \<lparr>low64 = 0, high64 = 0\<rparr>\<rparr>"

definition compare_hash_pair_equal :: "hash_pair \<Rightarrow> hash_pair \<Rightarrow> bool" where
  "compare_hash_pair_equal hash1 hash2 \<longleftrightarrow>
     high64 (first_hash hash1) = high64 (first_hash hash2) \<and>
     low64 (first_hash hash1) = low64 (first_hash hash2) \<and>
     high64 (second_hash hash1) = high64 (second_hash hash2) \<and>
     low64 (second_hash hash1) = low64 (second_hash hash2)"

section \<open>Items and nodes\<close>

text \<open>\<open>enum item_state\<close>; its \<open>None\<close> is written \<open>Item_None\<close>.\<close>

datatype item_state = Item_None | Volatile | Unstable | Stable

record rmap_item =
  ri_mm_id :: int
  ri_last_access :: u16
  ri_age :: u16
  ri_va :: u64
  ri_pfn :: u64
  ri_old_pfn :: u64
  ri_old_hash :: hash_pair
  ri_state :: item_state
  ri_volatility_score :: u16
  ri_skip_cnt :: u16
  ri_stable_node :: "addr option"

type_synonym item_key = "int \<times> u64"

text \<open>The key objects of the reverse-mapping trees are items, compared by these two fields.\<close>

definition item_key :: "rmap_item \<Rightarrow> item_key" where
  "item_key it = (ri_mm_id it, ri_va it)"

datatype node_chain_type = HEAD | CHAIN

record 't stable_node =
  sn_page_hash :: hash_pair
  sn_shared_cnt :: int
  sn_pfn :: u64
  sn_sharing_item_tree :: 't
  sn_type :: node_chain_type
  sn_next :: "addr option"
  sn_prev :: "addr option"

definition MAX_PAGE_SHARING :: int where "MAX_PAGE_SHARING = 256"

section \<open>The functions handed to GLib\<close>

definition rmap_item_compare :: "rmap_item \<Rightarrow> rmap_item \<Rightarrow> int" where
  "rmap_item_compare item1 item2 =
     (if ri_mm_id item1 < ri_mm_id item2 then - 1
      else if ri_mm_id item1 > ri_mm_id item2 then 1
      else if ri_va item1 < ri_va item2 then - 1
      else if ri_va item1 > ri_va item2 then 1
      else 0)"

text \<open>
  The exclusive or of the four halves is computed on \<open>unsigned long\<close> and returned as \<open>guint\<close>,
  which keeps the low 32 bits.
\<close>

definition hash_pair_fold :: "hash_pair \<Rightarrow> u32" where
  "hash_pair_fold h = ucast (high64 (first_hash h) XOR low64 (first_hash h) XOR
     high64 (second_hash h) XOR low64 (second_hash h))"

definition stable_node_hash :: "'t stable_node \<Rightarrow> u32" where
  "stable_node_hash node = hash_pair_fold (sn_page_hash node)"

definition stable_node_equal :: "'t stable_node \<Rightarrow> 't stable_node \<Rightarrow> bool" where
  "stable_node_equal node_a node_b = compare_hash_pair_equal (sn_page_hash node_a) (sn_page_hash node_b)"

definition unstable_node_hash :: "rmap_item \<Rightarrow> u32" where
  "unstable_node_hash node = hash_pair_fold (ri_old_hash node)"

definition unstable_node_equal :: "rmap_item \<Rightarrow> rmap_item \<Rightarrow> bool" where
  "unstable_node_equal node_a node_b = compare_hash_pair_equal (ri_old_hash node_a) (ri_old_hash node_b)"

text \<open>
  \<open>rmap_hash\<close> and \<open>rmap_equal\<close>, the functions of the hash table the reverse-mapping tree
  replaced: the hash of a key that is not page aligned is an error.
\<close>

definition rmap_hash :: "rmap_item \<Rightarrow> u32 res" where
  "rmap_hash item =
     (let hash_target = ri_va item OR (word_of_int (ri_mm_id item) AND 0xFFF)
      in rbind (guard_stop ''Invalid item'' (ri_va item AND 0xFFF = 0))
           (\<lambda>_. Inr (ucast hash_target)))"

definition rmap_equal :: "rmap_item \<Rightarrow> rmap_item \<Rightarrow> bool" where
  "rmap_equal item_a item_b \<longleftrightarrow> ri_va item_a = ri_va item_b \<and> ri_mm_id item_a = ri_mm_id item_b"

section \<open>The server's state and environment\<close>

record ksm_log_table =
  lt_entries :: "ksm_event_log list"
  lt_cnt :: nat
  lt_capacity :: nat

text \<open>
  \<open>struct ksm_metadata\<close> with the objects its pointers lead to: \<open>items\<close> and \<open>nodes\<close> are the
  live objects allocated for items and stable nodes. The file-level counters and switches of
  \<open>server.h\<close> that the scan reads or writes follow.
\<close>

record ('t, 'h) server =
  items :: "addr \<Rightarrow> rmap_item option"
  nodes :: "addr \<Rightarrow> 't stable_node option"
  rmap_tree :: 't
  stable_hash_table :: 'h
  unstable_hash_table :: 'h
  log_table :: ksm_log_table
  iteration :: int
  skipped_cnt :: u64
  volatile_items_cnt :: u64
  highly_volatile_but_stable_merged_cnt :: u64
  highly_volatile_but_unstable_merged_cnt :: u64
  broken_merges :: u64
  total_accessed_cnt :: u64
  smart_scan_opt :: bool

text \<open>
  What the server is built on and the repository does not hold:
  \<^item> \<open>tree_ops\<close>, \<open>hash_ops\<close>: GLib's \<open>GTree\<close> (keyed by an item's process and address) and
    \<open>GHashTable\<close> (keyed by a page hash);
  \<^item> \<open>XXH3_128bits_withSeed\<close>: the hash of a byte string with a seed;
  \<^item> \<open>malloc_item\<close>, \<open>malloc_node\<close>: the address \<open>malloc\<close> returns, given the live objects, with the
    indeterminate contents of the new item; \<open>None\<close> is \<open>NULL\<close>. The new node is cleared by
    \<open>memset\<close>, so its contents need no parameter;
  \<^item> \<open>realloc_log\<close>: the array \<open>realloc\<close> returns for an array and a new length.
\<close>

record ('t, 'h) server_env =
  tree_ops :: "(item_key, 't) gops"
  hash_ops :: "(hash_pair, 'h) gops"
  XXH3_128bits_withSeed :: "u8 list \<Rightarrow> u64 \<Rightarrow> xxh128_hash"
  malloc_item :: "(addr \<Rightarrow> rmap_item option) \<Rightarrow> (addr \<times> rmap_item) option"
  malloc_node :: "(addr \<Rightarrow> 't stable_node option) \<Rightarrow> addr option"
  realloc_log :: "ksm_event_log list \<Rightarrow> nat \<Rightarrow> ksm_event_log list option"

text \<open>
  The laws the server relies on: the containers are tables, an allocation is not a live object,
  and a reallocation keeps the old elements.
\<close>

locale server_runtime = tree: gtable "tree_ops E" + hash: gtable "hash_ops E"
  for E :: "('t, 'h) server_env" +
  assumes malloc_item_fresh: "malloc_item E h = Some (a, junk) \<Longrightarrow> h a = None"
    and malloc_node_fresh: "malloc_node E h' = Some n \<Longrightarrow> h' n = None"
    and realloc_length: "realloc_log E es m = Some es' \<Longrightarrow> length es' = m"
    and realloc_keeps: "realloc_log E es m = Some es' \<Longrightarrow> length es \<le> m \<Longrightarrow> take (length es) es' = es"

abbreviation rmap_lookup :: "('t, 'h) server_env \<Rightarrow> ('t, 'h) server \<Rightarrow> item_key \<Rightarrow> addr option" where
  "rmap_lookup E s \<equiv> g_lookup (tree_ops E) (rmap_tree s)"

abbreviation stable_lookup :: "('t, 'h) server_env \<Rightarrow> ('t, 'h) server \<Rightarrow> hash_pair \<Rightarrow> addr option" where
  "stable_lookup E s \<equiv> g_lookup (hash_ops E) (stable_hash_table s)"

abbreviation unstable_lookup :: "('t, 'h) server_env \<Rightarrow> ('t, 'h) server \<Rightarrow> hash_pair \<Rightarrow> addr option" where
  "unstable_lookup E s \<equiv> g_lookup (hash_ops E) (unstable_hash_table s)"

abbreviation sharing_lookup :: "('t, 'h) server_env \<Rightarrow> 't stable_node \<Rightarrow> item_key \<Rightarrow> addr option" where
  "sharing_lookup E nd \<equiv> g_lookup (tree_ops E) (sn_sharing_item_tree nd)"

section \<open>The contracts of the comparison and hash functions\<close>

lemma compare_hash_pair_equal_iff [simp]: "compare_hash_pair_equal h1 h2 \<longleftrightarrow> h1 = h2"
  by (auto simp: compare_hash_pair_equal_def intro!: hash_pair.equality xxh128_hash.equality)

interpretation item_cmp: gcompare rmap_item_compare item_key
proof
  fix a b c :: rmap_item
  show "rmap_item_compare a b = 0 \<longleftrightarrow> item_key a = item_key b"
    by (auto simp: rmap_item_compare_def item_key_def)
  show "0 < rmap_item_compare a b \<longleftrightarrow> rmap_item_compare b a < 0"
    by (auto simp: rmap_item_compare_def)
  show "rmap_item_compare a b < 0 \<Longrightarrow> rmap_item_compare b c < 0 \<Longrightarrow> rmap_item_compare a c < 0"
    by (auto simp: rmap_item_compare_def split: if_splits)
qed

interpretation stable_key: ghash_key stable_node_hash stable_node_equal sn_page_hash
  by unfold_locales (auto simp: stable_node_hash_def stable_node_equal_def)

interpretation unstable_key: ghash_key unstable_node_hash unstable_node_equal ri_old_hash
  by unfold_locales (auto simp: unstable_node_hash_def unstable_node_equal_def)

text \<open>
  C12. The functions the server gives to GLib are what GLib requires: \<open>rmap_item_compare\<close> is a
  total order that identifies exactly the items of one process and one address, and the hash and
  equality functions of both hash tables agree (equal keys have equal hashes) and identify
  exactly the keys with the same page hash.
\<close>

theorem glib_callbacks_sound:
  "(rmap_item_compare a b = 0 \<longleftrightarrow> ri_mm_id a = ri_mm_id b \<and> ri_va a = ri_va b) \<and>
   (rmap_item_compare a b < 0 \<or> rmap_item_compare b a < 0 \<or> rmap_item_compare a b = 0) \<and>
   (rmap_item_compare a b < 0 \<and> rmap_item_compare b c < 0 \<longrightarrow> rmap_item_compare a c < 0) \<and>
   (stable_node_equal m n = (sn_page_hash m = sn_page_hash n)) \<and>
   (stable_node_equal m n \<longrightarrow> stable_node_hash m = stable_node_hash n) \<and>
   (unstable_node_equal a b = (ri_old_hash a = ri_old_hash b)) \<and>
   (unstable_node_equal a b \<longrightarrow> unstable_node_hash a = unstable_node_hash b)"
  using item_cmp.cmp_zero [of a b] item_cmp.cmp_total [of a b] item_cmp.cmp_trans [of a b c]
    stable_key.eq_key [of m n] stable_key.eq_imp_hash [of m n]
    unstable_key.eq_key [of a b] unstable_key.eq_imp_hash [of a b]
  by (auto simp: item_key_def)

definition sample_item :: "int \<Rightarrow> u64 \<Rightarrow> rmap_item" where
  "sample_item mm v = \<lparr>ri_mm_id = mm, ri_last_access = 0, ri_age = 0, ri_va = v, ri_pfn = 0,
     ri_old_pfn = 0, ri_old_hash = null_hash, ri_state = Volatile, ri_volatility_score = 0,
     ri_skip_cnt = 0, ri_stable_node = None\<rparr>"

definition sample_node :: "'t \<Rightarrow> u64 \<Rightarrow> 't stable_node" where
  "sample_node t pfn = \<lparr>sn_page_hash = null_hash, sn_shared_cnt = 0, sn_pfn = pfn,
     sn_sharing_item_tree = t, sn_type = HEAD, sn_next = None, sn_prev = None\<rparr>"

theorem glib_callbacks_sound_witness:
  "rmap_item_compare (sample_item 7 0x1000) (sample_item 7 0x2000) < 0 \<and>
   rmap_item_compare (sample_item 7 0x2000) (sample_item 8 0x1000) < 0 \<and>
   rmap_item_compare (sample_item 7 0x1000) (sample_item 8 0x1000) < 0 \<and>
   stable_node_equal (sample_node () 1) (sample_node () 2) \<and>
   stable_node_hash (sample_node () 1) = stable_node_hash (sample_node () 2) \<and>
   unstable_node_equal (sample_item 7 0x1000) (sample_item 7 0x2000) \<and>
   unstable_node_hash (sample_item 7 0x1000) = unstable_node_hash (sample_item 7 0x2000)"
proof -
  have o: "rmap_item_compare (sample_item 7 0x1000) (sample_item 7 0x2000) < 0"
    "rmap_item_compare (sample_item 7 0x2000) (sample_item 8 0x1000) < 0"
    by (simp_all add: rmap_item_compare_def sample_item_def)
  have e: "stable_node_equal (sample_node () 1) (sample_node () 2)"
    "unstable_node_equal (sample_item 7 0x1000) (sample_item 7 0x2000)"
    by (simp_all add: stable_node_equal_def unstable_node_equal_def sample_node_def sample_item_def)
  show ?thesis
    using o e glib_callbacks_sound [of "sample_item 7 0x1000" "sample_item 7 0x2000"
        "sample_item 8 0x1000" "sample_node () 1" "sample_node () 2"] by blast
qed

end
