(* ===== verification/Server_Log.thy ===== *)
theory Server_Log
  imports Server_Types
begin

text \<open>
  The log table of the server (\<open>server.h\<close>, ``Log Table Related Functions''): an array of event
  logs that grows by doubling, filled by the merge and prune operations and read by the host.
\<close>

definition GROW_FACTOR :: nat where "GROW_FACTOR = 2"

text \<open>
  \<open>insert_ksm_log\<close>: a full table is reallocated at twice its capacity; if that fails the entry
  is dropped. An entry that is not one of the four DPU events stops the server (after it was
  stored).
\<close>

definition insert_ksm_log ::
  "('t, 'h) server_env \<Rightarrow> ksm_log_table \<Rightarrow> ksm_event_log \<Rightarrow> ksm_log_table res" where
  "insert_ksm_log E table entry =
     (let store = (\<lambda>table.
        (let table = table\<lparr>lt_entries := (lt_entries table)[lt_cnt table := entry]\<rparr>
         in rbind (guard_stop ''Invalid log type''
                (ev_type entry \<in> {DPU_STABLE_MERGE, DPU_UNSTABLE_MERGE, DPU_STALE_STABLE_NODE,
                   DPU_ITEM_STATE_CHANGE}))
              (\<lambda>_. Inr (table\<lparr>lt_cnt := lt_cnt table + 1\<rparr>))))
      in if lt_cnt table \<ge> lt_capacity table then
           (let new_capacity = lt_capacity table * GROW_FACTOR
            in case realloc_log E (lt_entries table) new_capacity of
                 None \<Rightarrow> Inr table
               | Some new_table \<Rightarrow>
                   store (table\<lparr>lt_entries := new_table, lt_capacity := new_capacity\<rparr>))
         else store table)"

text \<open>\<open>memset(entry, 0, ...)\<close>: every word of the entry is zero; no event has tag zero.\<close>

definition zero_event_log :: "event_tag \<Rightarrow> ksm_event_log" where
  "zero_event_log tag = \<lparr>ev_type = tag, ev_w0 = 0, ev_w1 = 0, ev_i0 = 0, ev_i1 = 0\<rparr>"

text \<open>\<open>clear_log_table\<close>: the entries beyond \<open>cnt\<close> are never read, so their zeroed tag is immaterial.\<close>

definition clear_log_table :: "ksm_log_table \<Rightarrow> ksm_log_table" where
  "clear_log_table table =
     table\<lparr>lt_entries := replicate (lt_capacity table) (zero_event_log DPU_STABLE_MERGE), lt_cnt := 0\<rparr>"

definition log_stable_merge ::
  "('t, 'h) server_env \<Rightarrow> ksm_log_table \<Rightarrow> rmap_item \<Rightarrow> 't stable_node \<Rightarrow> ksm_log_table res" where
  "log_stable_merge E table item node =
     insert_ksm_log E table ((zero_event_log DPU_STABLE_MERGE)
       \<lparr>ev_i0 := ri_mm_id item, ev_w0 := ri_va item, ev_w1 := sn_pfn node, ev_i1 := sn_shared_cnt node\<rparr>)"

definition log_item_state_change ::
  "('t, 'h) server_env \<Rightarrow> ksm_log_table \<Rightarrow> rmap_item \<Rightarrow> 't stable_node \<Rightarrow> ksm_log_table res" where
  "log_item_state_change E table item node =
     insert_ksm_log E table ((zero_event_log DPU_ITEM_STATE_CHANGE)
       \<lparr>ev_i0 := ri_mm_id item, ev_w0 := ri_va item, ev_w1 := sn_pfn node, ev_i1 := sn_shared_cnt node\<rparr>)"

definition log_unstable_merge ::
  "('t, 'h) server_env \<Rightarrow> ksm_log_table \<Rightarrow> rmap_item \<Rightarrow> rmap_item \<Rightarrow> ksm_log_table res" where
  "log_unstable_merge E table from_item to_item =
     insert_ksm_log E table ((zero_event_log DPU_UNSTABLE_MERGE)
       \<lparr>ev_i0 := ri_mm_id from_item, ev_w0 := ri_va from_item, ev_i1 := ri_mm_id to_item,
        ev_w1 := ri_va to_item\<rparr>)"

text \<open>The entry \<open>remove_stale_node_and_log\<close> writes.\<close>

definition log_stale_node ::
  "('t, 'h) server_env \<Rightarrow> ksm_log_table \<Rightarrow> 't stable_node \<Rightarrow> rmap_item \<Rightarrow> ksm_log_table res" where
  "log_stale_node E table node last_item =
     insert_ksm_log E table ((zero_event_log DPU_STALE_STABLE_NODE)
       \<lparr>ev_i0 := ri_mm_id last_item, ev_w0 := ri_va last_item, ev_w1 := sn_pfn node\<rparr>)"

section \<open>The table as a list of events\<close>

text \<open>What the host reads: the first \<open>cnt\<close> entries.\<close>

definition logged :: "ksm_log_table \<Rightarrow> ksm_event_log list" where
  "logged table = take (lt_cnt table) (lt_entries table)"

definition log_wf :: "ksm_log_table \<Rightarrow> bool" where
  "log_wf table \<longleftrightarrow> length (lt_entries table) = lt_capacity table \<and>
     lt_cnt table \<le> lt_capacity table \<and> 0 < lt_capacity table"

definition dpu_event :: "event_tag \<Rightarrow> bool" where
  "dpu_event t \<longleftrightarrow> t \<in> {DPU_STABLE_MERGE, DPU_UNSTABLE_MERGE, DPU_STALE_STABLE_NODE,
     DPU_ITEM_STATE_CHANGE}"

lemma dpu_event_simps [simp]:
  "dpu_event DPU_STABLE_MERGE" "dpu_event DPU_UNSTABLE_MERGE"
  "dpu_event DPU_STALE_STABLE_NODE" "dpu_event DPU_ITEM_STATE_CHANGE"
  by (simp_all add: dpu_event_def)

lemma zero_event_log_simps [simp]:
  "ev_type (zero_event_log t) = t" "ev_w0 (zero_event_log t) = 0" "ev_w1 (zero_event_log t) = 0"
  "ev_i0 (zero_event_log t) = 0" "ev_i1 (zero_event_log t) = 0"
  by (simp_all add: zero_event_log_def)

lemma clear_log_table_wf: "log_wf t \<Longrightarrow> log_wf (clear_log_table t) \<and> logged (clear_log_table t) = []"
  by (simp add: log_wf_def clear_log_table_def logged_def)

context server_runtime
begin

text \<open>
  An insertion either appends the event or, when \<open>realloc\<close> fails on a full table, leaves the
  table as it is; it keeps the table well formed and stops only on an event that is no DPU event.
\<close>

lemma insert_ksm_log_cases:
  assumes "log_wf t" and "dpu_event (ev_type e)"
  shows "\<exists>t'. insert_ksm_log E t e = Inr t' \<and> log_wf t' \<and>
    (logged t' = logged t @ [e] \<or>
     logged t' = logged t \<and> realloc_log E (lt_entries t) (lt_capacity t * GROW_FACTOR) = None \<and>
       lt_cnt t = lt_capacity t)"
proof (cases "lt_cnt t \<ge> lt_capacity t")
  case False
  with assms show ?thesis
    by (simp add: insert_ksm_log_def dpu_event_def log_wf_def logged_def take_Suc_update Let_def)
next
  case True
  with assms have full: "lt_cnt t = lt_capacity t" "length (lt_entries t) = lt_capacity t"
    "0 < lt_capacity t"
    by (auto simp: log_wf_def)
  show ?thesis
  proof (cases "realloc_log E (lt_entries t) (lt_capacity t * GROW_FACTOR)")
    case None
    with True full assms show ?thesis by (simp add: insert_ksm_log_def)
  next
    case (Some es)
    then have len: "length es = lt_capacity t * GROW_FACTOR"
      by (rule realloc_length)
    moreover from Some have "take (lt_capacity t) es = lt_entries t"
      using realloc_keeps [OF Some] full by (simp add: GROW_FACTOR_def)
    ultimately show ?thesis
      using True Some full assms(2)
      by (simp add: insert_ksm_log_def dpu_event_def log_wf_def logged_def take_Suc_update Let_def
          GROW_FACTOR_def)
  qed
qed

lemma insert_ksm_log_appends:
  assumes "log_wf t" and "dpu_event (ev_type e)"
    and "\<And>es m. realloc_log E es m \<noteq> None"
  shows "\<exists>t'. insert_ksm_log E t e = Inr t' \<and> log_wf t' \<and> logged t' = logged t @ [e]"
  using insert_ksm_log_cases [OF assms(1,2)] assms(3) by blast

end

end
