(* ===== verification/Server_Nodes.thy ===== *)
theory Server_Nodes
  imports Server_Log
begin

text \<open>
  Items and stable nodes of the server (\<open>server.h\<close>, ``Item State Related'', ``GTree Function
  Arguments related'' and ``Stable Tree Related''): linking items to nodes, the chains of nodes
  that share a page hash, and the two hash tables. Chains are doubly linked lists through the
  node heap; the loops over them are partial functions, with \<open>None\<close> for a loop that never ends.
\<close>

section \<open>Updating the heaps\<close>

abbreviation (input) set_item :: "addr \<Rightarrow> rmap_item \<Rightarrow> ('t, 'h) server \<Rightarrow> ('t, 'h) server" where
  "set_item a it s \<equiv> s\<lparr>items := (items s)(a \<mapsto> it)\<rparr>"

abbreviation (input) set_node :: "addr \<Rightarrow> 't stable_node \<Rightarrow> ('t, 'h) server \<Rightarrow> ('t, 'h) server" where
  "set_node n nd s \<equiv> s\<lparr>nodes := (nodes s)(n \<mapsto> nd)\<rparr>"

section \<open>Items\<close>

definition insert_item_to_node ::
  "('t, 'h) server_env \<Rightarrow> addr \<Rightarrow> addr \<Rightarrow> ('t, 'h) server \<Rightarrow> ('t, 'h) server res" where
  "insert_item_to_node E node item s =
     rbind (deref (items s) item) (\<lambda>it.
     rbind (guard_stop ''Cannot insert to stable node'' (ri_state it \<notin> {Item_None, Stable})) (\<lambda>_.
     rbind (deref (nodes s) node) (\<lambda>nd.
       (let it' = it\<lparr>ri_state := Stable, ri_old_hash := sn_page_hash nd, ri_old_pfn := ri_pfn it,
                     ri_pfn := sn_pfn nd, ri_stable_node := Some node\<rparr>;
            nd' = nd\<lparr>sn_shared_cnt := sn_shared_cnt nd + 1,
                     sn_sharing_item_tree :=
                       g_insert (tree_ops E) (sn_sharing_item_tree nd) (item_key it) item\<rparr>
        in Inr (set_node node nd' (set_item item it' s))))))"

definition remove_item_from_node ::
  "('t, 'h) server_env \<Rightarrow> addr \<Rightarrow> addr \<Rightarrow> ('t, 'h) server \<Rightarrow> ('t, 'h) server res" where
  "remove_item_from_node E node item s =
     rbind (deref (nodes s) node) (\<lambda>nd.
     rbind (deref (items s) item) (\<lambda>it.
       Inr (set_node node (nd\<lparr>sn_shared_cnt := sn_shared_cnt nd - 1,
                     sn_sharing_item_tree :=
                       g_remove (tree_ops E) (sn_sharing_item_tree nd) (item_key it)\<rparr>) s)))"

definition reset_item :: "rmap_item \<Rightarrow> rmap_item" where
  "reset_item it = it\<lparr>ri_state := Volatile, ri_pfn := ri_old_pfn it, ri_old_pfn := 0,
     ri_old_hash := null_hash, ri_stable_node := None\<rparr>"

definition reset_item_state :: "addr \<Rightarrow> ('t, 'h) server \<Rightarrow> ('t, 'h) server res" where
  "reset_item_state item s =
     rbind (deref (items s) item) (\<lambda>it. Inr (set_item item (reset_item it) s))"

text \<open>
  \<open>reset_each_item_state\<close>, the callback of a \<open>g_tree_foreach\<close>: a non-zero result ends the
  traversal. The result is the new state and whether to go on; \<open>undo_cnt\<close> counts the items.
\<close>

definition reset_each_item_state ::
  "addr \<Rightarrow> nat \<times> ('t, 'h) server \<Rightarrow> (bool \<times> nat \<times> ('t, 'h) server) res" where
  "reset_each_item_state item us =
     (case us of (undo_cnt, s) \<Rightarrow>
       rbind (deref (items s) item) (\<lambda>it.
         if ri_state it \<noteq> Stable then Inr (False, undo_cnt, s)
         else
           rbind (reset_item_state item s) (\<lambda>s.
           rbind (deref (items s) item) (\<lambda>it.
             Inr (True, undo_cnt + 1,
                  set_item item (it\<lparr>ri_volatility_score := ri_volatility_score it + 1\<rparr>) s)))))"

fun reset_items ::
  "addr list \<Rightarrow> nat \<times> ('t, 'h) server \<Rightarrow> (nat \<times> ('t, 'h) server) res" where
  "reset_items [] us = Inr us"
| "reset_items (a # as) us =
     rbind (reset_each_item_state a us)
       (\<lambda>(go_on, us'). if go_on then reset_items as us' else Inr us')"

text \<open>\<open>update_item_checksum\<close>, the callback that gives every sharer of a node its new hash.\<close>

definition update_item_checksum ::
  "hash_pair \<Rightarrow> addr \<Rightarrow> ('t, 'h) server \<Rightarrow> ('t, 'h) server res" where
  "update_item_checksum hash item s =
     rbind (deref (items s) item) (\<lambda>it.
     rbind (guard_stop ''Invalid item state during checksum update'' (ri_state it = Stable)) (\<lambda>_.
       Inr (set_item item (it\<lparr>ri_old_hash := hash\<rparr>) s)))"

section \<open>Chains of stable nodes\<close>

text \<open>The first node of a chain, from a pointer on, that satisfies a condition.\<close>

partial_function (option) chain_find ::
  "(addr \<Rightarrow> 't stable_node option) \<Rightarrow> ('t stable_node \<Rightarrow> bool) \<Rightarrow> addr option \<Rightarrow>
   addr option res option" where
  "chain_find h P p =
     (case p of
        None \<Rightarrow> Some (Inr None)
      | Some n \<Rightarrow>
          (case h n of
             None \<Rightarrow> Some (Inl Null_Deref)
           | Some nd \<Rightarrow> if P nd then Some (Inr (Some n)) else chain_find h P (sn_next nd)))"

definition cmp_with_stable ::
  "('t, 'h) server_env \<Rightarrow> hash_pair \<Rightarrow> ('t, 'h) server \<Rightarrow> addr option res" where
  "cmp_with_stable E hash s =
     (case stable_lookup E s hash of
        None \<Rightarrow> Inr None
      | Some n \<Rightarrow>
          rbind (deref (nodes s) n) (\<lambda>nd.
            if sn_shared_cnt nd < MAX_PAGE_SHARING then Inr (Some n)
            else loop_result (chain_find (nodes s) (\<lambda>nd. sn_shared_cnt nd < MAX_PAGE_SHARING)
                   (sn_next nd))))"

text \<open>\<open>while (existing_node->chain.next) existing_node = existing_node->chain.next;\<close>\<close>

partial_function (option) chain_last ::
  "(addr \<Rightarrow> 't stable_node option) \<Rightarrow> addr \<Rightarrow> addr res option" where
  "chain_last h n =
     (case h n of
        None \<Rightarrow> Some (Inl Null_Deref)
      | Some nd \<Rightarrow>
          (case sn_next nd of None \<Rightarrow> Some (Inr n) | Some m \<Rightarrow> chain_last h m))"

text \<open>\<open>while (curr_node->chain.prev) curr_node = curr_node->chain.prev;\<close>\<close>

partial_function (option) chain_head ::
  "(addr \<Rightarrow> 't stable_node option) \<Rightarrow> addr \<Rightarrow> addr res option" where
  "chain_head h n =
     (case h n of
        None \<Rightarrow> Some (Inl Null_Deref)
      | Some nd \<Rightarrow>
          (case sn_prev nd of None \<Rightarrow> Some (Inr n) | Some m \<Rightarrow> chain_head h m))"

definition insert_stable_node ::
  "('t, 'h) server_env \<Rightarrow> addr \<Rightarrow> ('t, 'h) server \<Rightarrow> ('t, 'h) server res" where
  "insert_stable_node E new_node s =
     rbind (deref (nodes s) new_node) (\<lambda>new.
       case stable_lookup E s (sn_page_hash new) of
         Some existing_node \<Rightarrow>
           rbind (loop_result (chain_last (nodes s) existing_node)) (\<lambda>last_node.
           rbind (deref (nodes s) last_node) (\<lambda>nd.
             Inr (set_node new_node (new\<lparr>sn_type := CHAIN, sn_next := None, sn_prev := Some last_node\<rparr>)
                   (set_node last_node (nd\<lparr>sn_next := Some new_node\<rparr>) s))))
       | None \<Rightarrow>
           Inr ((set_node new_node (new\<lparr>sn_type := HEAD, sn_next := None, sn_prev := None\<rparr>) s)
                \<lparr>stable_hash_table :=
                   g_insert (hash_ops E) (stable_hash_table s) (sn_page_hash new) new_node\<rparr>))"

text \<open>\<open>free(node)\<close>: the node is no longer live.\<close>

abbreviation (input) free_node :: "addr \<Rightarrow> ('t, 'h) server \<Rightarrow> ('t, 'h) server" where
  "free_node n s \<equiv> s\<lparr>nodes := (nodes s)(n := None)\<rparr>"

definition remove_stable_node_no_item ::
  "('t, 'h) server_env \<Rightarrow> addr \<Rightarrow> ('t, 'h) server \<Rightarrow> ('t, 'h) server res" where
  "remove_stable_node_no_item E node s =
     rbind (deref (nodes s) node) (\<lambda>nd.
       case sn_type nd of
         HEAD \<Rightarrow>
           (case sn_next nd of
              Some next_node \<Rightarrow>
                rbind (guard_stop ''Invalid chain type for stable node'' (sn_prev nd = None)) (\<lambda>_.
                rbind (deref (nodes s) next_node) (\<lambda>next.
                  (let s = set_node next_node (next\<lparr>sn_type := HEAD, sn_prev := None\<rparr>) s;
                       tbl = g_remove (hash_ops E) (stable_hash_table s) (sn_page_hash nd);
                       tbl = g_insert (hash_ops E) tbl (sn_page_hash next) next_node
                   in Inr (free_node node (s\<lparr>stable_hash_table := tbl\<rparr>)))))
            | None \<Rightarrow>
                Inr (free_node node
                      (s\<lparr>stable_hash_table :=
                           g_remove (hash_ops E) (stable_hash_table s) (sn_page_hash nd)\<rparr>)))
       | CHAIN \<Rightarrow>
           (case sn_prev nd of
              Some prev_node \<Rightarrow>
                rbind (deref (nodes s) prev_node) (\<lambda>prev.
                  (let s = set_node prev_node (prev\<lparr>sn_next := sn_next nd\<rparr>) s
                   in case sn_next nd of
                        Some next_node \<Rightarrow>
                          rbind (deref (nodes s) next_node) (\<lambda>next.
                            Inr (free_node node
                                  (set_node next_node (next\<lparr>sn_prev := Some prev_node\<rparr>) s)))
                      | None \<Rightarrow> Inr (free_node node s)))
            | None \<Rightarrow> Inl (Stopped ''Invalid chain type for stable node'')))"

definition remove_stale_node_and_log ::
  "('t, 'h) server_env \<Rightarrow> addr \<Rightarrow> addr \<Rightarrow> ('t, 'h) server \<Rightarrow> ('t, 'h) server res" where
  "remove_stale_node_and_log E node last_item s =
     rbind (deref (nodes s) node) (\<lambda>nd.
     rbind (deref (items s) last_item) (\<lambda>it.
     rbind (log_stale_node E (log_table s) nd it) (\<lambda>lt.
       remove_stable_node_no_item E node (s\<lparr>log_table := lt\<rparr>))))"

text \<open>
  The loop that gives a chain its new hash: the head (or any node it starts at), then every node
  behind it, each with all its sharers.
\<close>

partial_function (option) rehash_loop ::
  "('t, 'h) server_env \<Rightarrow> hash_pair \<Rightarrow> addr option \<Rightarrow> ('t, 'h) server \<Rightarrow>
   ('t, 'h) server res option" where
  "rehash_loop E hash p s =
     (case p of
        None \<Rightarrow> Some (Inr s)
      | Some n \<Rightarrow>
          (case nodes s n of
             None \<Rightarrow> Some (Inl Null_Deref)
           | Some nd \<Rightarrow>
               (case rfold (update_item_checksum hash)
                       (map snd (g_entries (tree_ops E) (sn_sharing_item_tree nd)))
                       (set_node n (nd\<lparr>sn_page_hash := hash\<rparr>) s) of
                  Inl e \<Rightarrow> Some (Inl e)
                | Inr s' \<Rightarrow> rehash_loop E hash (sn_next nd) s')))"

text \<open>
  The re-keying of a chain in \<open>cmp_and_merge_one\<close>: its head leaves the table, the chain gets the
  new hash, the head is stored again.
\<close>

definition rehash_chain ::
  "('t, 'h) server_env \<Rightarrow> hash_pair \<Rightarrow> addr \<Rightarrow> ('t, 'h) server \<Rightarrow> ('t, 'h) server res" where
  "rehash_chain E hash head s =
     rbind (deref (nodes s) head) (\<lambda>nd.
     rbind (loop_result (rehash_loop E hash (Some head)
              (s\<lparr>stable_hash_table := g_remove (hash_ops E) (stable_hash_table s) (sn_page_hash nd)\<rparr>)))
       (\<lambda>s. Inr (s\<lparr>stable_hash_table := g_insert (hash_ops E) (stable_hash_table s) hash head\<rparr>)))"

section \<open>The unstable table\<close>

text \<open>
  \<open>cmp_with_unstable\<close> takes the item with the same hash out of the table;
  \<open>insert_unstable_node\<close> stores one, and stops if there is one already.
\<close>

definition cmp_with_unstable ::
  "('t, 'h) server_env \<Rightarrow> addr \<Rightarrow> ('t, 'h) server \<Rightarrow> (addr option \<times> ('t, 'h) server) res" where
  "cmp_with_unstable E item s =
     rbind (deref (items s) item) (\<lambda>it.
       case unstable_lookup E s (ri_old_hash it) of
         None \<Rightarrow> Inr (None, s)
       | Some node \<Rightarrow>
           rbind (deref (items s) node) (\<lambda>nit.
             Inr (Some node,
                  s\<lparr>unstable_hash_table :=
                      g_remove (hash_ops E) (unstable_hash_table s) (ri_old_hash nit)\<rparr>)))"

definition insert_unstable_node ::
  "('t, 'h) server_env \<Rightarrow> addr \<Rightarrow> ('t, 'h) server \<Rightarrow> ('t, 'h) server res" where
  "insert_unstable_node E new_node s =
     rbind (deref (items s) new_node) (\<lambda>it.
     rbind (guard_stop ''Collision occured Unstable node already exists''
              (unstable_lookup E s (ri_old_hash it) = None)) (\<lambda>_.
       Inr (s\<lparr>unstable_hash_table :=
                g_insert (hash_ops E) (unstable_hash_table s) (ri_old_hash it) new_node\<rparr>)))"

end
