(* ===== verification/Server_Chain.thy ===== *)
theory Server_Chain
  imports Server_Nodes
begin

text \<open>
  Chains of stable nodes as lists of addresses: the shape predicate, its uniqueness (the chains
  of a heap are equal or disjoint), and the facts that the three loops over a chain end, with the
  result they have.
\<close>

section \<open>Chains as lists\<close>

text \<open>
  \<open>dseg h p ns q\<close>: the nodes \<open>ns\<close> are linked in this order, the first one back to \<open>p\<close> and the
  last one on to \<open>q\<close>. A whole chain is a segment from \<open>None\<close> to \<open>None\<close>; its first node, and
  no other, has type \<open>HEAD\<close>.
\<close>

fun first_of :: "addr list \<Rightarrow> addr option \<Rightarrow> addr option" where
  "first_of [] q = q"
| "first_of (n # ns) q = Some n"

fun last_of :: "addr option \<Rightarrow> addr list \<Rightarrow> addr option" where
  "last_of p [] = p"
| "last_of p (n # ns) = last_of (Some n) ns"

definition links :: "'t stable_node \<Rightarrow> node_chain_type \<times> addr option \<times> addr option" where
  "links nd = (sn_type nd, sn_next nd, sn_prev nd)"

definition dnode :: "(addr \<Rightarrow> 't stable_node option) \<Rightarrow> addr option \<Rightarrow> addr \<Rightarrow> addr option \<Rightarrow> bool" where
  "dnode h p n q \<longleftrightarrow> map_option links (h n) = Some (if p = None then HEAD else CHAIN, q, p)"

fun dseg :: "(addr \<Rightarrow> 't stable_node option) \<Rightarrow> addr option \<Rightarrow> addr list \<Rightarrow> addr option \<Rightarrow> bool" where
  "dseg h p [] q \<longleftrightarrow> True"
| "dseg h p (n # ns) q \<longleftrightarrow> dnode h p n (first_of ns q) \<and> dseg h (Some n) ns q"

definition chain :: "(addr \<Rightarrow> 't stable_node option) \<Rightarrow> addr list \<Rightarrow> bool" where
  "chain h ns \<longleftrightarrow> ns \<noteq> [] \<and> distinct ns \<and> dseg h None ns None \<and>
     (\<forall>m \<in> set ns. map_option sn_page_hash (h m) = map_option sn_page_hash (h (hd ns)))"

lemma first_of_append [simp]: "first_of (xs @ ys) q = first_of xs (first_of ys q)"
  by (cases xs) simp_all

lemma last_of_append [simp]: "last_of p (xs @ ys) = last_of (last_of p xs) ys"
  by (induction xs arbitrary: p) simp_all

lemma last_of_ne: "xs \<noteq> [] \<Longrightarrow> last_of p xs = Some (last xs)"
  by (induction xs arbitrary: p) auto

lemma last_of_None_iff [simp]: "last_of None xs = None \<longleftrightarrow> xs = []"
  by (cases "xs = []") (simp_all add: last_of_ne)

lemma dseg_append [simp]:
  "dseg h p (xs @ ys) q \<longleftrightarrow> dseg h p xs (first_of ys q) \<and> dseg h (last_of p xs) ys q"
  by (induction xs arbitrary: p) simp_all

lemma dseg_cong:
  "(\<And>n. n \<in> set ns \<Longrightarrow> map_option links (h n) = map_option links (h' n)) \<Longrightarrow>
   dseg h p ns q \<longleftrightarrow> dseg h' p ns q"
  by (induction ns arbitrary: p) (simp_all add: dnode_def)

lemma dnode_Some: "dnode h p n q \<longleftrightarrow>
    (\<exists>nd. h n = Some nd \<and> sn_type nd = (if p = None then HEAD else CHAIN) \<and> sn_next nd = q \<and> sn_prev nd = p)"
  by (auto simp: dnode_def links_def)

lemma dnode_fun: "dnode h p n q \<Longrightarrow> dnode h p' n q' \<Longrightarrow> p' = p \<and> q' = q"
  by (auto simp: dnode_def)

lemma dseg_live: "dseg h p ns q \<Longrightarrow> n \<in> set ns \<Longrightarrow> \<exists>nd. h n = Some nd"
  by (induction ns arbitrary: p) (auto simp: dnode_Some)

lemma dseg_tail_unique: "dseg h p (n # xs) None \<Longrightarrow> dseg h q (n # ys) None \<Longrightarrow> xs = ys"
proof (induction xs arbitrary: n p q ys)
  case Nil
  then show ?case by (cases ys) (auto dest: dnode_fun)
next
  case (Cons x xs)
  then obtain y ys' where ys: "ys = y # ys'" by (cases ys) (auto dest: dnode_fun)
  with Cons.prems have "y = x" by (auto dest: dnode_fun)
  with Cons.prems ys have "dseg h (Some n) (x # xs) None" "dseg h (Some n) (x # ys') None" by auto
  then have "xs = ys'" by (rule Cons.IH)
  with ys \<open>y = x\<close> show ?case by simp
qed

lemma dseg_front_unique:
  "dseg h None (xs @ n # zs) q \<Longrightarrow> dseg h None (ys @ n # zs') q' \<Longrightarrow> xs = ys"
proof (induction xs arbitrary: n zs zs' ys rule: rev_induct)
  case Nil
  then have "last_of None ys = None" by (auto dest: dnode_fun)
  then show ?case by simp
next
  case (snoc x xs)
  then have px: "last_of None ys = Some x" by (auto dest: dnode_fun)
  then obtain ys' where ys: "ys = ys' @ [x]" by (cases ys rule: rev_cases) auto
  have "dseg h None (xs @ x # n # zs) q" "dseg h None (ys' @ x # n # zs') q'"
    using snoc.prems ys by simp_all
  then have "xs = ys'" by (rule snoc.IH)
  then show ?case using ys by simp
qed

lemma chain_unique:
  assumes "chain h xs" "chain h ys" "n \<in> set xs" "n \<in> set ys"
  shows "xs = ys"
proof -
  obtain as bs where xs: "xs = as @ n # bs" using assms(3) by (meson split_list)
  obtain cs ds where ys: "ys = cs @ n # ds" using assms(4) by (meson split_list)
  have c: "dseg h None (as @ n # bs) None" "dseg h None (cs @ n # ds) None"
    using assms(1,2) by (simp_all add: chain_def xs ys)
  then have "as = cs" by (rule dseg_front_unique)
  moreover have "bs = ds"
    using c dseg_tail_unique [of h "last_of None as" n bs "last_of None cs" ds] by simp
  ultimately show ?thesis by (simp add: xs ys)
qed

definition hashed_links ::
  "'t stable_node \<Rightarrow> (node_chain_type \<times> addr option \<times> addr option) \<times> hash_pair" where
  "hashed_links nd = (links nd, sn_page_hash nd)"

lemma chain_cong:
  assumes "\<And>n. n \<in> set xs \<Longrightarrow> map_option hashed_links (h' n) = map_option hashed_links (h n)"
    and "chain h xs"
  shows "chain h' xs"
proof -
  have l: "map_option links (h n) = map_option links (h' n)"
    and p: "map_option sn_page_hash (h' n) = map_option sn_page_hash (h n)" if "n \<in> set xs" for n
    using assms(1) [OF that] by (auto simp: hashed_links_def map_option_case split: option.splits)
  have "dseg h None xs None" using assms(2) unfolding chain_def by blast
  then have d: "dseg h' None xs None" using dseg_cong [of xs h h' None None] l by blast
  have "map_option sn_page_hash (h' m) = map_option sn_page_hash (h' (hd xs))" if "m \<in> set xs" for m
  proof -
    have "hd xs \<in> set xs" using that by (cases xs) auto
    then show ?thesis using p that assms(2) unfolding chain_def by metis
  qed
  with d assms(2) show ?thesis unfolding chain_def by blast
qed

lemma chain_agree:
  assumes "chain h xs" and "\<And>n. n \<in> set xs \<Longrightarrow> h' n = h n"
  shows "chain h' xs"
  by (rule chain_cong [of xs h' h]) (simp_all add: assms)

lemma chain_mem_live: "chain h xs \<Longrightarrow> n \<in> set xs \<Longrightarrow> \<exists>nd. h n = Some nd"
  by (auto simp: chain_def dest: dseg_live)

lemma chain_at:
  assumes "chain h (as @ n # bs)" and "h n = Some nd"
  shows "sn_prev nd = last_of None as" "sn_next nd = first_of bs None"
    "sn_type nd = (if as = [] then HEAD else CHAIN)"
  using assms by (auto simp: chain_def dnode_Some)

lemma chain_split:
  assumes "chain h xs" and "n \<in> set xs"
  obtains as bs nd where "xs = as @ n # bs" "h n = Some nd" "sn_prev nd = last_of None as"
    "sn_next nd = first_of bs None" "sn_type nd = (if as = [] then HEAD else CHAIN)"
proof -
  obtain as bs where xs: "xs = as @ n # bs" using assms(2) by (meson split_list)
  obtain nd where "h n = Some nd" using chain_mem_live [OF assms] by blast
  then show thesis using that [OF xs] chain_at assms(1) unfolding xs by blast
qed

lemma chain_same_hash:
  "chain h xs \<Longrightarrow> n \<in> set xs \<Longrightarrow> m \<in> set xs \<Longrightarrow> h n = Some nd \<Longrightarrow> h m = Some md \<Longrightarrow>
   sn_page_hash nd = sn_page_hash md"
  unfolding chain_def by (metis option.simps(9) option.inject)

section \<open>The loops over a chain end\<close>

lemma chain_last_dseg:
  "dseg h p (xs @ [n]) None \<Longrightarrow> chain_last h (hd (xs @ [n])) = Some (Inr n)"
proof (induction xs arbitrary: p)
  case Nil
  then show ?case by (subst chain_last.simps) (auto simp: dnode_Some)
next
  case (Cons x xs)
  then have "chain_last h (hd (xs @ [n])) = Some (Inr n)" by (auto intro: Cons.IH)
  moreover from Cons.prems have "\<exists>nd. h x = Some nd \<and> sn_next nd = Some (hd (xs @ [n]))"
    by (cases xs) (auto simp: dnode_Some)
  ultimately show ?case by (subst chain_last.simps) auto
qed

lemma chain_last_chain: "chain h xs \<Longrightarrow> chain_last h (hd xs) = Some (Inr (last xs))"
  using chain_last_dseg [of h None "butlast xs" "last xs"] by (simp add: chain_def)

lemma chain_head_dseg:
  "dseg h None (xs @ n # zs) q \<Longrightarrow> chain_head h n = Some (Inr (hd (xs @ [n])))"
proof (induction xs arbitrary: n zs rule: rev_induct)
  case Nil
  then show ?case by (subst chain_head.simps) (auto simp: dnode_Some)
next
  case (snoc x xs)
  from snoc.prems have "dseg h None (xs @ x # n # zs) q" by simp
  then have "chain_head h x = Some (Inr (hd (xs @ [x])))" by (rule snoc.IH)
  moreover from snoc.prems have "\<exists>nd. h n = Some nd \<and> sn_prev nd = Some x"
    by (auto simp: dnode_Some)
  ultimately show ?case by (subst chain_head.simps) (auto simp: hd_append)
qed

lemma chain_head_chain: "chain h xs \<Longrightarrow> n \<in> set xs \<Longrightarrow> chain_head h n = Some (Inr (hd xs))"
  using chain_head_dseg [of h _ n _ None] unfolding chain_def
  by (metis hd_append2 list.sel(1) split_list append_Cons append_Nil hd_append)

lemma chain_find_dseg:
  "dseg h p xs None \<Longrightarrow>
   \<exists>r. chain_find h P (first_of xs None) = Some (Inr r) \<and>
     (case r of None \<Rightarrow> \<forall>n \<in> set xs. \<forall>nd. h n = Some nd \<longrightarrow> \<not> P nd
      | Some n \<Rightarrow> n \<in> set xs \<and> (\<exists>nd. h n = Some nd \<and> P nd))"
proof (induction xs arbitrary: p)
  case Nil
  then show ?case by (subst chain_find.simps) simp
next
  case (Cons x xs)
  then obtain nd where nd: "h x = Some nd" "sn_next nd = first_of xs None" and
    ds: "dseg h (Some x) xs None"
    by (auto simp: dnode_Some)
  show ?case
  proof (cases "P nd")
    case True
    then show ?thesis using nd by (subst chain_find.simps) simp
  next
    case False
    then show ?thesis
      using nd Cons.IH [OF ds] by (subst chain_find.simps) (auto split: option.splits)
  qed
qed

end
