(* ===== verification/Server_Inv.thy ===== *)
theory Server_Inv
  imports Server_Chain
begin

text \<open>
  The invariant of the server's metadata and its preservation by the operations on items, nodes
  and tables.
\<close>

section \<open>The invariant\<close>

text \<open>Items: the reverse-mapping tree holds exactly the live items, each under its own key.\<close>

definition inv_rmap :: "('t, 'h) server_env \<Rightarrow> ('t, 'h) server \<Rightarrow> bool" where
  "inv_rmap E s \<longleftrightarrow> g_wf (tree_ops E) (rmap_tree s) \<and>
     (\<forall>k a. rmap_lookup E s k = Some a \<longrightarrow> (\<exists>it. items s a = Some it \<and> item_key it = k)) \<and>
     (\<forall>a it. items s a = Some it \<longrightarrow> rmap_lookup E s (item_key it) = Some a \<and> ri_state it \<noteq> Item_None)"

text \<open>
  The unstable table holds exactly the unstable items (those of \<open>Y\<close> apart, which are about to
  be merged), each under the hash it has now: a stored key has not been modified.
\<close>

definition inv_unstable :: "('t, 'h) server_env \<Rightarrow> addr set \<Rightarrow> ('t, 'h) server \<Rightarrow> bool" where
  "inv_unstable E Y s \<longleftrightarrow> g_wf (hash_ops E) (unstable_hash_table s) \<and>
     (\<forall>h a. unstable_lookup E s h = Some a \<longrightarrow>
        a \<notin> Y \<and> (\<exists>it. items s a = Some it \<and> ri_state it = Unstable \<and> ri_old_hash it = h)) \<and>
     (\<forall>a it. items s a = Some it \<and> ri_state it = Unstable \<and> a \<notin> Y \<longrightarrow>
        unstable_lookup E s (ri_old_hash it) = Some a)"

text \<open>
  Sharing: a stable item (those of \<open>X\<close> apart, which are being detached) is stored in the tree of
  the node it points to and carries the node's hash; conversely a node's tree holds exactly the
  stable items that point to it, its counter is their number, at least one (the nodes of \<open>Z\<close>
  apart) and at most \<open>MAX_PAGE_SHARING\<close>.
\<close>

definition inv_items :: "('t, 'h) server_env \<Rightarrow> addr set \<Rightarrow> ('t, 'h) server \<Rightarrow> bool" where
  "inv_items E X s \<longleftrightarrow>
     (\<forall>a it. items s a = Some it \<and> ri_state it = Stable \<and> a \<notin> X \<longrightarrow>
        (\<exists>n nd. ri_stable_node it = Some n \<and> nodes s n = Some nd \<and>
           sharing_lookup E nd (item_key it) = Some a \<and> ri_old_hash it = sn_page_hash nd))"

definition inv_nodes :: "('t, 'h) server_env \<Rightarrow> addr set \<Rightarrow> addr set \<Rightarrow> ('t, 'h) server \<Rightarrow> bool" where
  "inv_nodes E X Z s \<longleftrightarrow>
     (\<forall>n nd. nodes s n = Some nd \<longrightarrow>
        g_wf (tree_ops E) (sn_sharing_item_tree nd) \<and>
        sn_shared_cnt nd = int (card (dom (sharing_lookup E nd))) \<and>
        sn_shared_cnt nd \<le> MAX_PAGE_SHARING \<and> (n \<notin> Z \<longrightarrow> 0 < sn_shared_cnt nd) \<and>
        (\<forall>k a. sharing_lookup E nd k = Some a \<longrightarrow> a \<notin> X \<and>
           (\<exists>it. items s a = Some it \<and> item_key it = k \<and> ri_state it = Stable \<and>
              ri_stable_node it = Some n)))"

text \<open>
  The stable table leads to heads of chains with the hash they are stored under, and every node
  lies on a chain whose nodes have one hash.
\<close>

definition inv_chain :: "('t, 'h) server_env \<Rightarrow> ('t, 'h) server \<Rightarrow> bool" where
  "inv_chain E s \<longleftrightarrow> g_wf (hash_ops E) (stable_hash_table s) \<and>
     (\<forall>h n. stable_lookup E s h = Some n \<longrightarrow>
        (\<exists>nd. nodes s n = Some nd \<and> sn_page_hash nd = h \<and> sn_prev nd = None)) \<and>
     (\<forall>n nd. nodes s n = Some nd \<longrightarrow> (\<exists>xs. chain (nodes s) xs \<and> n \<in> set xs))"

definition meta_inv ::
  "('t, 'h) server_env \<Rightarrow> addr set \<Rightarrow> addr set \<Rightarrow> addr set \<Rightarrow> ('t, 'h) server \<Rightarrow> bool" where
  "meta_inv E X Y Z s \<longleftrightarrow> inv_rmap E s \<and> inv_unstable E Y s \<and> inv_items E X s \<and>
     inv_nodes E X Z s \<and> inv_chain E s \<and> log_wf (log_table s)"

definition server_inv :: "('t, 'h) server_env \<Rightarrow> ('t, 'h) server \<Rightarrow> bool" where
  "server_inv E s \<longleftrightarrow> meta_inv E {} {} {} s"

text \<open>Fields that the invariant does not read.\<close>

lemmas inv_defs = inv_rmap_def inv_unstable_def inv_items_def inv_nodes_def inv_chain_def

lemma meta_inv_cong:
  assumes "meta_inv E X Y Z s" and "items s' = items s" and "nodes s' = nodes s"
    and "rmap_tree s' = rmap_tree s" and "stable_hash_table s' = stable_hash_table s"
    and "unstable_hash_table s' = unstable_hash_table s" and "log_wf (log_table s')"
  shows "meta_inv E X Y Z s'"
  using assms(1,7) unfolding meta_inv_def inv_defs assms(2-6) by blast

lemma meta_invD:
  assumes "meta_inv E X Y Z s"
  shows "inv_rmap E s" "inv_unstable E Y s" "inv_items E X s" "inv_nodes E X Z s" "inv_chain E s"
    "log_wf (log_table s)"
  using assms by (simp_all add: meta_inv_def)

lemma inv_rmap_inj:
  "inv_rmap E s \<Longrightarrow> items s a = Some it \<Longrightarrow> items s b = Some jt \<Longrightarrow> item_key it = item_key jt \<Longrightarrow> a = b"
  unfolding inv_rmap_def by (metis option.inject)

lemma inv_rmap_wf: "inv_rmap E s \<Longrightarrow> g_wf (tree_ops E) (rmap_tree s)"
  by (simp add: inv_rmap_def)

lemma inv_rmap_lookupD:
  "inv_rmap E s \<Longrightarrow> rmap_lookup E s k = Some a \<Longrightarrow> \<exists>it. items s a = Some it \<and> item_key it = k"
  unfolding inv_rmap_def by blast

lemma inv_rmap_itemD:
  "inv_rmap E s \<Longrightarrow> items s a = Some it \<Longrightarrow>
   rmap_lookup E s (item_key it) = Some a \<and> ri_state it \<noteq> Item_None"
  unfolding inv_rmap_def by blast

lemma inv_unstable_wf: "inv_unstable E Y s \<Longrightarrow> g_wf (hash_ops E) (unstable_hash_table s)"
  by (simp add: inv_unstable_def)

lemma inv_unstable_lookupD:
  "inv_unstable E Y s \<Longrightarrow> unstable_lookup E s h = Some a \<Longrightarrow>
   a \<notin> Y \<and> (\<exists>it. items s a = Some it \<and> ri_state it = Unstable \<and> ri_old_hash it = h)"
  unfolding inv_unstable_def by blast

lemma inv_unstable_itemD:
  "inv_unstable E Y s \<Longrightarrow> items s a = Some it \<Longrightarrow> ri_state it = Unstable \<Longrightarrow> a \<notin> Y \<Longrightarrow>
   unstable_lookup E s (ri_old_hash it) = Some a"
  unfolding inv_unstable_def by blast

lemma inv_itemsD:
  "inv_items E X s \<Longrightarrow> items s a = Some it \<Longrightarrow> ri_state it = Stable \<Longrightarrow> a \<notin> X \<Longrightarrow>
   \<exists>n nd. ri_stable_node it = Some n \<and> nodes s n = Some nd \<and>
     sharing_lookup E nd (item_key it) = Some a \<and> ri_old_hash it = sn_page_hash nd"
  unfolding inv_items_def by blast

lemma inv_nodesD:
  assumes "inv_nodes E X Z s" "nodes s n = Some nd"
  shows "g_wf (tree_ops E) (sn_sharing_item_tree nd)"
    "sn_shared_cnt nd = int (card (dom (sharing_lookup E nd)))"
    "sn_shared_cnt nd \<le> MAX_PAGE_SHARING" "n \<notin> Z \<Longrightarrow> 0 < sn_shared_cnt nd"
  using assms unfolding inv_nodes_def by blast+

lemma inv_nodes_entryD:
  "inv_nodes E X Z s \<Longrightarrow> nodes s n = Some nd \<Longrightarrow> sharing_lookup E nd k = Some a \<Longrightarrow>
   a \<notin> X \<and> (\<exists>it. items s a = Some it \<and> item_key it = k \<and> ri_state it = Stable \<and>
     ri_stable_node it = Some n)"
  unfolding inv_nodes_def by blast

lemma inv_chain_wf: "inv_chain E s \<Longrightarrow> g_wf (hash_ops E) (stable_hash_table s)"
  by (simp add: inv_chain_def)

lemma inv_chain_lookupD:
  "inv_chain E s \<Longrightarrow> stable_lookup E s h = Some n \<Longrightarrow>
   \<exists>nd. nodes s n = Some nd \<and> sn_page_hash nd = h \<and> sn_prev nd = None"
  unfolding inv_chain_def by blast

lemma inv_chain_nodeD:
  "inv_chain E s \<Longrightarrow> nodes s n = Some nd \<Longrightarrow> \<exists>xs. chain (nodes s) xs \<and> n \<in> set xs"
  unfolding inv_chain_def by blast

section \<open>Introduction rules\<close>

lemma inv_rmapI:
  assumes "g_wf (tree_ops E) (rmap_tree s)"
    and "\<And>k a. rmap_lookup E s k = Some a \<Longrightarrow> \<exists>it. items s a = Some it \<and> item_key it = k"
    and "\<And>a it. items s a = Some it \<Longrightarrow> rmap_lookup E s (item_key it) = Some a"
    and "\<And>a it. items s a = Some it \<Longrightarrow> ri_state it \<noteq> Item_None"
  shows "inv_rmap E s"
  using assms unfolding inv_rmap_def by blast

lemma inv_unstableI:
  assumes "g_wf (hash_ops E) (unstable_hash_table s)"
    and "\<And>h a. unstable_lookup E s h = Some a \<Longrightarrow>
      a \<notin> Y \<and> (\<exists>it. items s a = Some it \<and> ri_state it = Unstable \<and> ri_old_hash it = h)"
    and "\<And>a it. items s a = Some it \<Longrightarrow> ri_state it = Unstable \<Longrightarrow> a \<notin> Y \<Longrightarrow>
      unstable_lookup E s (ri_old_hash it) = Some a"
  shows "inv_unstable E Y s"
  using assms unfolding inv_unstable_def by blast

lemma inv_itemsI:
  assumes "\<And>a it. items s a = Some it \<Longrightarrow> ri_state it = Stable \<Longrightarrow> a \<notin> X \<Longrightarrow>
      \<exists>n nd. ri_stable_node it = Some n \<and> nodes s n = Some nd \<and>
        sharing_lookup E nd (item_key it) = Some a \<and> ri_old_hash it = sn_page_hash nd"
  shows "inv_items E X s"
  using assms unfolding inv_items_def by blast

lemma inv_nodesI:
  assumes "\<And>n nd. nodes s n = Some nd \<Longrightarrow> g_wf (tree_ops E) (sn_sharing_item_tree nd)"
    and "\<And>n nd. nodes s n = Some nd \<Longrightarrow> sn_shared_cnt nd = int (card (dom (sharing_lookup E nd)))"
    and "\<And>n nd. nodes s n = Some nd \<Longrightarrow> sn_shared_cnt nd \<le> MAX_PAGE_SHARING"
    and "\<And>n nd. nodes s n = Some nd \<Longrightarrow> n \<notin> Z \<Longrightarrow> 0 < sn_shared_cnt nd"
    and "\<And>n nd k a. nodes s n = Some nd \<Longrightarrow> sharing_lookup E nd k = Some a \<Longrightarrow>
      a \<notin> X \<and> (\<exists>it. items s a = Some it \<and> item_key it = k \<and> ri_state it = Stable \<and>
        ri_stable_node it = Some n)"
  shows "inv_nodes E X Z s"
  using assms unfolding inv_nodes_def by blast

section \<open>Changing one item\<close>

text \<open>
  An item may change in everything but its key, its state and its node; its hash may change
  while it is volatile.
\<close>

lemma meta_inv_set_item:
  assumes inv: "meta_inv E X Y Z s" and it: "items s a = Some it"
    and k: "item_key it' = item_key it" and st: "ri_state it' = ri_state it"
    and sn: "ri_stable_node it' = ri_stable_node it"
    and h: "ri_state it = Volatile \<or> ri_old_hash it' = ri_old_hash it"
  shows "meta_inv E X Y Z (set_item a it' s)"
proof -
  note d = meta_invD [OF inv]
  have "inv_rmap E (set_item a it' s)"
  proof (rule inv_rmapI)
    show "g_wf (tree_ops E) (rmap_tree (set_item a it' s))" using inv_rmap_wf [OF d(1)] by simp
  next
    fix k b assume "rmap_lookup E (set_item a it' s) k = Some b"
    then show "\<exists>jt. items (set_item a it' s) b = Some jt \<and> item_key jt = k"
      using inv_rmap_lookupD [OF d(1), of k b] it \<open>item_key it' = item_key it\<close> by auto
  next
    fix b jt assume "items (set_item a it' s) b = Some jt"
    then show "rmap_lookup E (set_item a it' s) (item_key jt) = Some b" "ri_state jt \<noteq> Item_None"
      using inv_rmap_itemD [OF d(1), of b jt] inv_rmap_itemD [OF d(1) it] k st
      by (auto split: if_splits)
  qed
  moreover have "inv_unstable E Y (set_item a it' s)"
  proof (rule inv_unstableI)
    show "g_wf (hash_ops E) (unstable_hash_table (set_item a it' s))"
      using inv_unstable_wf [OF d(2)] by simp
  next
    fix g b assume "unstable_lookup E (set_item a it' s) g = Some b"
    then show "b \<notin> Y \<and> (\<exists>jt. items (set_item a it' s) b = Some jt \<and> ri_state jt = Unstable \<and> ri_old_hash jt = g)"
      using inv_unstable_lookupD [OF d(2), of g b] it st h by auto
  next
    fix b jt assume "items (set_item a it' s) b = Some jt" "ri_state jt = Unstable" "b \<notin> Y"
    then show "unstable_lookup E (set_item a it' s) (ri_old_hash jt) = Some b"
      using inv_unstable_itemD [OF d(2), of b] it st h by (cases "b = a") auto
  qed
  moreover have "inv_items E X (set_item a it' s)"
  proof (rule inv_itemsI)
    fix b jt assume "items (set_item a it' s) b = Some jt" "ri_state jt = Stable" "b \<notin> X"
    then show "\<exists>n nd. ri_stable_node jt = Some n \<and> nodes (set_item a it' s) n = Some nd \<and>
        sharing_lookup E nd (item_key jt) = Some b \<and> ri_old_hash jt = sn_page_hash nd"
      using inv_itemsD [OF d(3), of b] it st h k sn by (cases "b = a") auto
  qed
  moreover have "inv_nodes E X Z (set_item a it' s)"
  proof (rule inv_nodesI)
    fix n nd kk b assume "nodes (set_item a it' s) n = Some nd" "sharing_lookup E nd kk = Some b"
    then show "b \<notin> X \<and> (\<exists>jt. items (set_item a it' s) b = Some jt \<and> item_key jt = kk \<and>
        ri_state jt = Stable \<and> ri_stable_node jt = Some n)"
      using inv_nodes_entryD [OF d(4), of n nd kk b] it st k sn by (cases "b = a") auto
  qed (use inv_nodesD [OF d(4)] in auto)
  moreover have "inv_chain E (set_item a it' s)"
    using d(5) by (simp add: inv_chain_def)
  ultimately show ?thesis using d(6) by (simp add: meta_inv_def)
qed

section \<open>Preservation, one part of the invariant at a time\<close>

lemma inv_rmap_upd:
  assumes "inv_rmap E s" "items s a = Some it" "item_key it' = item_key it" "ri_state it' \<noteq> Item_None"
    and s': "items s' = (items s)(a \<mapsto> it')" "rmap_tree s' = rmap_tree s"
  shows "inv_rmap E s'"
proof (rule inv_rmapI)
  show "g_wf (tree_ops E) (rmap_tree s')" using inv_rmap_wf [OF assms(1)] s' by simp
next
  fix k b assume "rmap_lookup E s' k = Some b"
  then show "\<exists>jt. items s' b = Some jt \<and> item_key jt = k"
    using inv_rmap_lookupD [OF assms(1), of k b] assms(2,3) s' by auto
next
  fix b jt assume "items s' b = Some jt"
  then show "rmap_lookup E s' (item_key jt) = Some b" "ri_state jt \<noteq> Item_None"
    using inv_rmap_itemD [OF assms(1), of b jt] inv_rmap_itemD [OF assms(1,2)] assms(3,4) s'
    by (auto split: if_splits)
qed

lemma inv_unstable_upd:
  assumes "inv_unstable E Y s" "items s a = Some it" "ri_state it \<noteq> Unstable \<or> a \<in> Y"
    and "ri_state it' \<noteq> Unstable"
    and s': "items s' = (items s)(a \<mapsto> it')" "unstable_hash_table s' = unstable_hash_table s"
  shows "inv_unstable E (Y - {a}) s'"
proof (rule inv_unstableI)
  show "g_wf (hash_ops E) (unstable_hash_table s')" using inv_unstable_wf [OF assms(1)] s' by simp
next
  fix g b assume "unstable_lookup E s' g = Some b"
  then have "b \<notin> Y \<and> (\<exists>jt. items s b = Some jt \<and> ri_state jt = Unstable \<and> ri_old_hash jt = g)"
    using inv_unstable_lookupD [OF assms(1), of g b] s' by simp
  moreover from this assms(2,3) have "b \<noteq> a" by auto
  ultimately show "b \<notin> Y - {a} \<and>
      (\<exists>jt. items s' b = Some jt \<and> ri_state jt = Unstable \<and> ri_old_hash jt = g)"
    using s' by simp
next
  fix b jt assume "items s' b = Some jt" "ri_state jt = Unstable" "b \<notin> Y - {a}"
  then show "unstable_lookup E s' (ri_old_hash jt) = Some b"
    using inv_unstable_itemD [OF assms(1), of b jt] assms(4) s' by (auto split: if_splits)
qed

lemma inv_chain_same_links:
  assumes "inv_chain E s" "stable_hash_table s' = stable_hash_table s"
    and l: "\<And>n. map_option hashed_links (nodes s' n) = map_option hashed_links (nodes s n)"
  shows "inv_chain E s'"
proof -
  have ex: "\<exists>nd'. nodes s' n = Some nd' \<and> links nd' = links nd \<and> sn_page_hash nd' = sn_page_hash nd"
    if "nodes s n = Some nd" for n nd
    using l [of n] that by (auto simp: hashed_links_def)
  have ex': "\<exists>nd. nodes s n = Some nd" if "nodes s' n = Some nd'" for n nd'
    using l [of n] that by (auto simp: map_option_case split: option.splits)
  have "\<exists>nd. nodes s' n = Some nd \<and> sn_page_hash nd = h \<and> sn_prev nd = None"
    if "stable_lookup E s' h = Some n" for h n
    using inv_chain_lookupD [OF assms(1), of h n] that assms(2) ex [of n] by (auto simp: links_def)
  moreover have "\<exists>xs. chain (nodes s') xs \<and> n \<in> set xs" if "nodes s' n = Some nd" for n nd
    using ex' [OF that] inv_chain_nodeD [OF assms(1), of n] chain_cong [of _ "nodes s'" "nodes s"] l
    by metis
  ultimately show ?thesis using inv_chain_wf [OF assms(1)] assms(2) unfolding inv_chain_def by simp
qed

text \<open>What \<open>insert_item_to_node\<close> makes of the item, the node and the state.\<close>

definition share_item :: "addr \<Rightarrow> 't stable_node \<Rightarrow> rmap_item \<Rightarrow> rmap_item" where
  "share_item n nd it = it\<lparr>ri_state := Stable, ri_old_hash := sn_page_hash nd,
     ri_old_pfn := ri_pfn it, ri_pfn := sn_pfn nd, ri_stable_node := Some n\<rparr>"

definition share_node ::
  "('t, 'h) server_env \<Rightarrow> rmap_item \<Rightarrow> addr \<Rightarrow> 't stable_node \<Rightarrow> 't stable_node" where
  "share_node E it a nd = nd\<lparr>sn_shared_cnt := sn_shared_cnt nd + 1,
     sn_sharing_item_tree := g_insert (tree_ops E) (sn_sharing_item_tree nd) (item_key it) a\<rparr>"

definition shared_state ::
  "('t, 'h) server_env \<Rightarrow> addr \<Rightarrow> 't stable_node \<Rightarrow> addr \<Rightarrow> rmap_item \<Rightarrow>
   ('t, 'h) server \<Rightarrow> ('t, 'h) server" where
  "shared_state E n nd a it s = set_node n (share_node E it a nd) (set_item a (share_item n nd it) s)"

lemma share_item_simps [simp]:
  "item_key (share_item n nd it) = item_key it" "ri_state (share_item n nd it) = Stable"
  "ri_old_hash (share_item n nd it) = sn_page_hash nd" "ri_pfn (share_item n nd it) = sn_pfn nd"
  "ri_stable_node (share_item n nd it) = Some n"
  "ri_volatility_score (share_item n nd it) = ri_volatility_score it"
  by (simp_all add: share_item_def item_key_def)

lemma share_node_simps [simp]:
  "sn_shared_cnt (share_node E it a nd) = sn_shared_cnt nd + 1"
  "sn_page_hash (share_node E it a nd) = sn_page_hash nd" "sn_pfn (share_node E it a nd) = sn_pfn nd"
  "hashed_links (share_node E it a nd) = hashed_links nd"
  by (simp_all add: share_node_def hashed_links_def links_def)

definition unshare_node :: "('t, 'h) server_env \<Rightarrow> rmap_item \<Rightarrow> 't stable_node \<Rightarrow> 't stable_node" where
  "unshare_node E it nd = nd\<lparr>sn_shared_cnt := sn_shared_cnt nd - 1,
     sn_sharing_item_tree := g_remove (tree_ops E) (sn_sharing_item_tree nd) (item_key it)\<rparr>"

lemma unshare_node_simps [simp]:
  "sn_shared_cnt (unshare_node E it nd) = sn_shared_cnt nd - 1"
  "sn_page_hash (unshare_node E it nd) = sn_page_hash nd" "sn_pfn (unshare_node E it nd) = sn_pfn nd"
  "sn_type (unshare_node E it nd) = sn_type nd" "sn_next (unshare_node E it nd) = sn_next nd"
  "sn_prev (unshare_node E it nd) = sn_prev nd"
  "hashed_links (unshare_node E it nd) = hashed_links nd"
  by (simp_all add: unshare_node_def hashed_links_def links_def)

lemma shared_state_simps [simp]:
  "items (shared_state E n nd a it s) = (items s)(a \<mapsto> share_item n nd it)"
  "nodes (shared_state E n nd a it s) = (nodes s)(n \<mapsto> share_node E it a nd)"
  "rmap_tree (shared_state E n nd a it s) = rmap_tree s"
  "stable_hash_table (shared_state E n nd a it s) = stable_hash_table s"
  "unstable_hash_table (shared_state E n nd a it s) = unstable_hash_table s"
  "log_table (shared_state E n nd a it s) = log_table s"
  by (simp_all add: shared_state_def)

context server_runtime
begin

section \<open>Linking and unlinking items\<close>

lemma item_not_shared:
  assumes inv: "meta_inv E X Y Z s" and it: "items s a = Some it" "ri_state it \<noteq> Stable"
    and nd: "nodes s n = Some nd"
  shows "sharing_lookup E nd (item_key it) = None"
proof (rule ccontr)
  assume "\<not> ?thesis"
  then obtain b where b: "sharing_lookup E nd (item_key it) = Some b" by auto
  from inv_nodes_entryD [OF meta_invD(4) [OF inv] nd b] obtain jt where
    "items s b = Some jt" "item_key jt = item_key it" "ri_state jt = Stable" by blast
  moreover have "b = a"
    using inv_rmap_inj [OF meta_invD(1) [OF inv]] calculation it(1) by metis
  ultimately show False using it by simp
qed

lemma insert_item_to_node_inv:
  assumes inv: "meta_inv E X Y Z s" and it: "items s a = Some it"
    and st: "ri_state it = Volatile \<or> ri_state it = Unstable \<and> a \<in> Y" and X: "a \<notin> X"
    and nd: "nodes s n = Some nd" and cnt: "sn_shared_cnt nd < MAX_PAGE_SHARING"
  shows "insert_item_to_node E n a s = Inr (shared_state E n nd a it s)"
    "meta_inv E X (Y - {a}) (Z - {n}) (shared_state E n nd a it s)"
proof -
  note d = meta_invD [OF inv]
  let ?it = "share_item n nd it"
  let ?nd = "share_node E it a nd"
  let ?s = "shared_state E n nd a it s"
  have key: "item_key ?it = item_key it" by simp
  show "insert_item_to_node E n a s = Inr ?s"
    using it nd st
    by (auto simp: insert_item_to_node_def Let_def shared_state_def share_item_def share_node_def)
  have wf: "g_wf (tree_ops E) (sn_sharing_item_tree nd)" using inv_nodesD(1) [OF d(4) nd] .
  have free: "sharing_lookup E nd (item_key it) = None"
    using item_not_shared [OF inv it _ nd] st by auto
  have look: "sharing_lookup E ?nd = (sharing_lookup E nd)(item_key it \<mapsto> a)"
    using wf by (simp add: tree.lookup_insert share_node_def)
  have "inv_rmap E ?s" by (rule inv_rmap_upd [OF d(1) it key]) simp_all
  moreover have "inv_unstable E (Y - {a}) ?s"
    by (rule inv_unstable_upd [OF d(2) it]) (use st in auto)
  moreover have "inv_items E X ?s"
  proof (rule inv_itemsI)
    fix b jt assume b: "items ?s b = Some jt" "ri_state jt = Stable" "b \<notin> X"
    show "\<exists>m md. ri_stable_node jt = Some m \<and> nodes ?s m = Some md \<and>
        sharing_lookup E md (item_key jt) = Some b \<and> ri_old_hash jt = sn_page_hash md"
    proof (cases "b = a")
      case True
      with b key look show ?thesis by auto
    next
      case False
      with b have jt: "items s b = Some jt" by simp
      have "item_key jt \<noteq> item_key it" using inv_rmap_inj [OF d(1) jt it] False by blast
      then show ?thesis
        using inv_itemsD [OF d(3) jt b(2,3)] nd look by (auto simp: fun_upd_def)
    qed
  qed
  moreover have "inv_nodes E X (Z - {n}) ?s"
  proof (rule inv_nodesI)
    fix m md assume m: "nodes ?s m = Some md"
    have md: "md = ?nd" if "m = n" using m that by simp
    have sz: "sn_shared_cnt ?nd = int (card (dom (sharing_lookup E ?nd)))"
      using tree.card_insert_new [OF wf free] inv_nodesD(2) [OF d(4) nd] by (simp add: share_node_def)
    have "g_wf (tree_ops E) (sn_sharing_item_tree ?nd)"
      using tree.wf_insert [OF wf] by (simp add: share_node_def)
    moreover have "0 < sn_shared_cnt ?nd" "sn_shared_cnt ?nd \<le> MAX_PAGE_SHARING"
      using inv_nodesD(2) [OF d(4) nd] cnt by simp_all
    ultimately have new: "g_wf (tree_ops E) (sn_sharing_item_tree md) \<and>
        sn_shared_cnt md = int (card (dom (sharing_lookup E md))) \<and>
        sn_shared_cnt md \<le> MAX_PAGE_SHARING \<and> 0 < sn_shared_cnt md" if "m = n"
      using md [OF that] sz by blast
    have old: "nodes s m = Some md" if "m \<noteq> n" using m that by simp
    note o = inv_nodesD [OF d(4) old]
    show "g_wf (tree_ops E) (sn_sharing_item_tree md)" using new o(1) by blast
    show "sn_shared_cnt md = int (card (dom (sharing_lookup E md)))" using new o(2) by blast
    show "sn_shared_cnt md \<le> MAX_PAGE_SHARING" using new o(3) by blast
    show "m \<notin> Z - {n} \<Longrightarrow> 0 < sn_shared_cnt md" using new o(4) by blast
  next
    fix m md k b assume m: "nodes ?s m = Some md" "sharing_lookup E md k = Some b"
    have "(m = n \<and> k = item_key it \<and> b = a) \<or>
        (\<exists>md'. nodes s m = Some md' \<and> sharing_lookup E md' k = Some b)"
    proof (cases "m = n")
      case True
      with m have "md = ?nd" by simp
      with m look have "((sharing_lookup E nd)(item_key it \<mapsto> a)) k = Some b" by metis
      then show ?thesis using True nd by (cases "k = item_key it") auto
    next
      case False
      with m show ?thesis by auto
    qed
    then consider "m = n" "k = item_key it" "b = a"
      | md' where "nodes s m = Some md'" "sharing_lookup E md' k = Some b" by blast
    then show "b \<notin> X \<and> (\<exists>jt. items ?s b = Some jt \<and> item_key jt = k \<and>
        ri_state jt = Stable \<and> ri_stable_node jt = Some m)"
    proof cases
      case 1
      then show ?thesis using X key by simp
    next
      case 2
      then obtain jt where "b \<notin> X" "items s b = Some jt" "item_key jt = k" "ri_state jt = Stable"
        "ri_stable_node jt = Some m" using inv_nodes_entryD [OF d(4)] by blast
      moreover from this it st have "b \<noteq> a" by auto
      ultimately show ?thesis by simp
    qed
  qed
  moreover have "inv_chain E ?s"
    by (rule inv_chain_same_links [OF d(5)]) (use nd in simp_all)
  ultimately show "meta_inv E X (Y - {a}) (Z - {n}) ?s" using d(6) by (simp add: meta_inv_def)
qed

lemma stable_item_node:
  assumes "meta_inv E X Y Z s" "items s a = Some it" "ri_state it = Stable" "a \<notin> X"
  obtains n nd where "ri_stable_node it = Some n" "nodes s n = Some nd"
    "sharing_lookup E nd (item_key it) = Some a" "ri_old_hash it = sn_page_hash nd"
  using inv_itemsD [OF meta_invD(3) [OF assms(1)] assms(2-4)] by blast

text \<open>An item is stored in the tree of one node only.\<close>

lemma entry_node_unique:
  assumes inv: "meta_inv E X Y Z s" and "nodes s n = Some nd" "sharing_lookup E nd k = Some a"
    and "nodes s m = Some md" "sharing_lookup E md k' = Some a"
  shows "m = n \<and> k' = k"
  using inv_nodes_entryD [OF meta_invD(4) [OF inv] assms(2,3)]
    inv_nodes_entryD [OF meta_invD(4) [OF inv] assms(4,5)] by auto

lemma remove_item_from_node_inv:
  assumes inv: "meta_inv E X Y Z s" and it: "items s a = Some it" and st: "ri_state it = Stable"
    and X: "a \<notin> X" and n: "ri_stable_node it = Some n" and nd: "nodes s n = Some nd"
  shows "remove_item_from_node E n a s = Inr (set_node n (unshare_node E it nd) s)"
    "meta_inv E (insert a X) Y (insert n Z) (set_node n (unshare_node E it nd) s)"
proof -
  note d = meta_invD [OF inv]
  let ?nd = "unshare_node E it nd"
  let ?s = "set_node n ?nd s"
  show "remove_item_from_node E n a s = Inr ?s"
    using it nd by (simp add: remove_item_from_node_def unshare_node_def)
  have wf: "g_wf (tree_ops E) (sn_sharing_item_tree nd)" using inv_nodesD(1) [OF d(4) nd] .
  have stored: "sharing_lookup E nd (item_key it) = Some a"
    using stable_item_node [OF inv it st X] n nd by (metis option.inject)
  have look: "sharing_lookup E ?nd = (sharing_lookup E nd)(item_key it := None)"
    using wf by (simp add: tree.lookup_remove unshare_node_def)
  have sz: "sn_shared_cnt ?nd = int (card (dom (sharing_lookup E ?nd)))"
    using tree.card_remove_stored [OF wf stored] inv_nodesD(2) [OF d(4) nd]
    by (simp add: unshare_node_def)
  have wf': "g_wf (tree_ops E) (sn_sharing_item_tree ?nd)"
    using tree.wf_remove [OF wf] by (simp add: unshare_node_def)
  have le: "sn_shared_cnt ?nd \<le> MAX_PAGE_SHARING" using inv_nodesD(3) [OF d(4) nd] by simp
  have "inv_rmap E ?s" "inv_unstable E Y ?s"
    using d(1,2) by (simp_all add: inv_rmap_def inv_unstable_def)
  moreover have "inv_items E (insert a X) ?s"
  proof (rule inv_itemsI)
    fix b jt assume b: "items ?s b = Some jt" "ri_state jt = Stable" "b \<notin> insert a X"
    then have jt: "items s b = Some jt" "b \<notin> X" "b \<noteq> a" by simp_all
    then have "item_key jt \<noteq> item_key it" using inv_rmap_inj [OF d(1) jt(1) it] by blast
    then show "\<exists>m md. ri_stable_node jt = Some m \<and> nodes ?s m = Some md \<and>
        sharing_lookup E md (item_key jt) = Some b \<and> ri_old_hash jt = sn_page_hash md"
      using inv_itemsD [OF d(3) jt(1) b(2) jt(2)] nd look by auto
  qed
  moreover have "inv_nodes E (insert a X) (insert n Z) ?s"
  proof (rule inv_nodesI)
    fix m md assume m: "nodes ?s m = Some md"
    have md: "md = ?nd" if "m = n" using m that by simp
    have old: "nodes s m = Some md" if "m \<noteq> n" using m that by simp
    note o = inv_nodesD [OF d(4) old]
    show "g_wf (tree_ops E) (sn_sharing_item_tree md)" using md wf' o(1) by blast
    show "sn_shared_cnt md = int (card (dom (sharing_lookup E md)))" using md sz o(2) by blast
    show "sn_shared_cnt md \<le> MAX_PAGE_SHARING" using md le o(3) by blast
    show "m \<notin> insert n Z \<Longrightarrow> 0 < sn_shared_cnt md" using o(4) by blast
  next
    fix m md k b assume m: "nodes ?s m = Some md" "sharing_lookup E md k = Some b"
    have "\<exists>md'. nodes s m = Some md' \<and> sharing_lookup E md' k = Some b \<and> (m = n \<longrightarrow> k \<noteq> item_key it)"
    proof (cases "m = n")
      case True
      with m have "md = ?nd" by simp
      with m look have "((sharing_lookup E nd)(item_key it := None)) k = Some b" by metis
      then show ?thesis using True nd by (cases "k = item_key it") auto
    next
      case False
      with m show ?thesis by auto
    qed
    then obtain md' where md': "nodes s m = Some md'" "sharing_lookup E md' k = Some b"
      "m = n \<longrightarrow> k \<noteq> item_key it" by blast
    have "b \<noteq> a" using entry_node_unique [OF inv nd stored md'(1)] md' by blast
    then show "b \<notin> insert a X \<and> (\<exists>jt. items ?s b = Some jt \<and> item_key jt = k \<and>
        ri_state jt = Stable \<and> ri_stable_node jt = Some m)"
      using inv_nodes_entryD [OF d(4) md'(1,2)] by simp
  qed
  moreover have "inv_chain E ?s"
    by (rule inv_chain_same_links [OF d(5)]) (use nd in simp_all)
  ultimately show "meta_inv E (insert a X) Y (insert n Z) ?s" using d(6) by (simp add: meta_inv_def)
qed

text \<open>A detached item becomes volatile.\<close>

lemma detached_item_inv:
  assumes inv: "meta_inv E X Y Z s" and it: "items s a = Some it" and X: "a \<in> X"
    and st: "ri_state it \<noteq> Unstable \<or> a \<in> Y"
    and k: "item_key it' = item_key it" and st': "ri_state it' = Volatile"
  shows "meta_inv E (X - {a}) (Y - {a}) Z (set_item a it' s)"
proof -
  note d = meta_invD [OF inv]
  let ?s = "set_item a it' s"
  have "inv_rmap E ?s" by (rule inv_rmap_upd [OF d(1) it k]) (simp_all add: st')
  moreover have "inv_unstable E (Y - {a}) ?s"
    by (rule inv_unstable_upd [OF d(2) it]) (use st st' in auto)
  moreover have "inv_items E (X - {a}) ?s"
  proof (rule inv_itemsI)
    fix b jt assume b: "items ?s b = Some jt" "ri_state jt = Stable" "b \<notin> X - {a}"
    then have "b \<noteq> a" using st' by auto
    with b have "items s b = Some jt" "b \<notin> X" by auto
    then show "\<exists>m md. ri_stable_node jt = Some m \<and> nodes ?s m = Some md \<and>
        sharing_lookup E md (item_key jt) = Some b \<and> ri_old_hash jt = sn_page_hash md"
      using inv_itemsD [OF d(3) _ b(2), of b] by simp
  qed
  moreover have "inv_nodes E (X - {a}) Z ?s"
  proof (rule inv_nodesI)
    fix m md k b assume m: "nodes ?s m = Some md" "sharing_lookup E md k = Some b"
    then have "nodes s m = Some md" by simp
    from inv_nodes_entryD [OF d(4) this m(2)] X show "b \<notin> X - {a} \<and> (\<exists>jt. items ?s b = Some jt \<and>
        item_key jt = k \<and> ri_state jt = Stable \<and> ri_stable_node jt = Some m)" by auto
  next
    fix m md assume "nodes ?s m = Some md"
    then have m: "nodes s m = Some md" by simp
    note o = inv_nodesD [OF d(4) m]
    show "g_wf (tree_ops E) (sn_sharing_item_tree md)"
      "sn_shared_cnt md = int (card (dom (sharing_lookup E md)))"
      "sn_shared_cnt md \<le> MAX_PAGE_SHARING" "m \<notin> Z \<Longrightarrow> 0 < sn_shared_cnt md"
      using o by blast+
  qed
  moreover have "inv_chain E ?s" by (rule inv_chain_same_links [OF d(5)]) simp_all
  ultimately show ?thesis using d(6) by (simp add: meta_inv_def)
qed

end

end
