(* ===== verification/Server_Links.thy ===== *)
theory Server_Links
  imports Server_Inv
begin

text \<open>
  Linking nodes into chains and unlinking them: \<open>insert_stable_node\<close> and
  \<open>remove_stable_node_no_item\<close> keep the invariant and the contents of every other node.
\<close>

section \<open>Segments under a changed end\<close>

lemma dseg_snoc_next:
  assumes "dseg h p (as @ [x]) q" and "\<And>m. m \<in> set as \<Longrightarrow> map_option links (h' m) = map_option links (h m)"
    and "h x = Some xd" "h' x = Some (xd\<lparr>sn_next := q'\<rparr>)"
  shows "dseg h' p (as @ [x]) q'"
proof -
  have "dseg h p as (Some x)" "dnode h (last_of p as) x q" using assms(1) by simp_all
  then have "dseg h' p as (Some x)" "dnode h' (last_of p as) x q'"
    using dseg_cong [of as h h' p "Some x"] assms(2-4) by (simp_all add: dnode_Some)
  then show ?thesis by simp
qed

lemma dseg_cons_prev:
  assumes "dseg h p (m # bs) q" and "\<And>b. b \<in> set bs \<Longrightarrow> map_option links (h' b) = map_option links (h b)"
    and "h m = Some md" "h' m = Some md'" "sn_next md' = sn_next md" "sn_prev md' = p'"
    and "sn_type md' = (if p' = None then HEAD else CHAIN)"
  shows "dseg h' p' (m # bs) q"
proof -
  have "dnode h p m (first_of bs q)" "dseg h (Some m) bs q" using assms(1) by simp_all
  then show ?thesis
    using dseg_cong [of bs h h' "Some m" q] assms(2-) by (simp add: dnode_Some)
qed

text \<open>The rule for a chain in a changed heap whose hashes have not changed.\<close>

lemma chain_relinked:
  assumes "dseg h' None xs None" "xs \<noteq> []" "distinct xs" and ys: "chain h ys" "set xs \<subseteq> set ys"
    and p: "\<And>m. m \<in> set xs \<Longrightarrow> map_option sn_page_hash (h' m) = map_option sn_page_hash (h m)"
  shows "chain h' xs"
proof -
  have "map_option sn_page_hash (h' m) = map_option sn_page_hash (h (hd ys))" if "m \<in> set xs" for m
    using p [OF that] that ys unfolding chain_def by (metis subsetD)
  moreover have "hd xs \<in> set xs" using assms(2) by simp
  ultimately show ?thesis using assms(1-3) unfolding chain_def by (metis hd_in_set)
qed

lemma chain_hashI:
  assumes "dseg h None xs None" "xs \<noteq> []" "distinct xs"
    and p: "\<And>m. m \<in> set xs \<Longrightarrow> map_option sn_page_hash (h m) = Some p"
  shows "chain h xs"
  using assms(1-3) p p [OF hd_in_set [OF assms(2)]] unfolding chain_def by metis

section \<open>Node contents\<close>

definition node_body :: "'t stable_node \<Rightarrow> hash_pair \<times> int \<times> u64 \<times> 't" where
  "node_body nd = (sn_page_hash nd, sn_shared_cnt nd, sn_pfn nd, sn_sharing_item_tree nd)"

lemma body_eqD:
  assumes "map_option node_body x' = map_option node_body x" "x = Some md"
  shows "\<exists>md'. x' = Some md' \<and> sn_page_hash md' = sn_page_hash md \<and>
    sn_shared_cnt md' = sn_shared_cnt md \<and> sn_pfn md' = sn_pfn md \<and>
    sn_sharing_item_tree md' = sn_sharing_item_tree md"
  using assms by (auto simp: node_body_def)

lemma body_eq_hash:
  "map_option node_body (h' m) = map_option node_body (h m) \<Longrightarrow>
   map_option sn_page_hash (h' m) = map_option sn_page_hash (h m)"
  by (cases "h m"; cases "h' m") (auto simp: node_body_def)

lemma inv_nodes_body:
  assumes inv: "inv_nodes E X Z s" and "items s' = items s"
    and b: "\<And>m. m \<noteq> n \<Longrightarrow> map_option node_body (nodes s' m) = map_option node_body (nodes s m)"
    and n: "\<And>nd. nodes s' n = Some nd \<Longrightarrow> n \<in> Z' \<and> g_wf (tree_ops E) (sn_sharing_item_tree nd) \<and>
      sharing_lookup E nd = Map.empty \<and> sn_shared_cnt nd = 0"
    and Z': "Z - {n} \<subseteq> Z'"
  shows "inv_nodes E X Z' s'"
proof (rule inv_nodesI)
  fix m md assume m: "nodes s' m = Some md"
  have old: "\<exists>od. nodes s m = Some od \<and> sn_shared_cnt od = sn_shared_cnt md \<and>
      sn_sharing_item_tree od = sn_sharing_item_tree md" if "m \<noteq> n"
    using body_eqD [OF b [OF that, symmetric] m] by blast
  show "g_wf (tree_ops E) (sn_sharing_item_tree md)"
    using n [of md] m old inv_nodesD(1) [OF inv, of m] by metis
  show "sn_shared_cnt md = int (card (dom (sharing_lookup E md)))"
  proof (cases "m = n")
    case True with n [of md] m show ?thesis by simp
  next
    case False with old inv_nodesD(2) [OF inv, of m] show ?thesis by metis
  qed
  show "sn_shared_cnt md \<le> MAX_PAGE_SHARING"
  proof (cases "m = n")
    case True with n [of md] m show ?thesis by (simp add: MAX_PAGE_SHARING_def)
  next
    case False with old inv_nodesD(3) [OF inv, of m] show ?thesis by metis
  qed
  show "0 < sn_shared_cnt md" if "m \<notin> Z'"
  proof -
    have "m \<noteq> n" using that n m by blast
    then show ?thesis using old inv_nodesD(4) [OF inv, of m] Z' that by (metis DiffI singletonD subsetD)
  qed
next
  fix m md k c assume m: "nodes s' m = Some md" "sharing_lookup E md k = Some c"
  then have "m \<noteq> n" using n [of md] by auto
  from body_eqD [OF b [OF this, symmetric] m(1)] obtain od where
    "nodes s m = Some od" "sn_sharing_item_tree od = sn_sharing_item_tree md" by blast
  then show "c \<notin> X \<and> (\<exists>it. items s' c = Some it \<and> item_key it = k \<and> ri_state it = Stable \<and>
      ri_stable_node it = Some m)"
    using inv_nodes_entryD [OF inv, of m od k c] m(2) assms(2) by simp
qed

lemma inv_items_body:
  assumes inv: "inv_items E X s" and "items s' = items s"
    and b: "\<And>m. m \<noteq> n \<Longrightarrow> map_option node_body (nodes s' m) = map_option node_body (nodes s m)"
    and n: "\<And>nd. nodes s n = Some nd \<Longrightarrow> sharing_lookup E nd = Map.empty"
  shows "inv_items E X s'"
proof (rule inv_itemsI)
  fix a it assume "items s' a = Some it" "ri_state it = Stable" "a \<notin> X"
  then obtain m md where m: "ri_stable_node it = Some m" "nodes s m = Some md"
    "sharing_lookup E md (item_key it) = Some a" "ri_old_hash it = sn_page_hash md"
    using inv_itemsD [OF inv] assms(2) by (metis (no_types))
  have "m \<noteq> n" using n m by auto
  from body_eqD [OF b [OF this] m(2)] m show "\<exists>m md. ri_stable_node it = Some m \<and>
      nodes s' m = Some md \<and> sharing_lookup E md (item_key it) = Some a \<and> ri_old_hash it = sn_page_hash md"
    by auto
qed

section \<open>Removing a node\<close>

lemma inv_chain_removed:
  assumes inv: "inv_chain E s" and xs: "chain (nodes s) (as @ n # bs)"
    and out: "\<And>m. m \<notin> set (as @ n # bs) \<Longrightarrow> nodes s' m = nodes s m" and n: "nodes s' n = None"
    and rest: "as @ bs \<noteq> [] \<Longrightarrow> chain (nodes s') (as @ bs)"
    and wf: "g_wf (hash_ops E) (stable_hash_table s')"
    and tbl: "\<And>h m. stable_lookup E s' h = Some m \<Longrightarrow>
      \<exists>md. nodes s' m = Some md \<and> sn_page_hash md = h \<and> sn_prev md = None"
  shows "inv_chain E s'"
proof -
  have "\<exists>ys. chain (nodes s') ys \<and> m \<in> set ys" if m: "nodes s' m = Some md" for m md
  proof (cases "m \<in> set (as @ n # bs)")
    case True
    with m n have "m \<in> set (as @ bs)" by auto
    with rest show ?thesis by fastforce
  next
    case False
    with m out have "nodes s m = Some md" by metis
    from inv_chain_nodeD [OF inv this] obtain ys where ys: "chain (nodes s) ys" "m \<in> set ys" by blast
    have "set ys \<inter> set (as @ n # bs) = {}"
      using chain_unique [OF ys(1) xs] False ys(2) by blast
    then have "chain (nodes s') ys" using chain_agree [OF ys(1)] out by blast
    with ys(2) show ?thesis by blast
  qed
  with wf tbl show ?thesis unfolding inv_chain_def by blast
qed

text \<open>The three ways a node leaves its chain.\<close>

lemma unlink_head:
  assumes xs: "chain h (n # m # bs)" and md: "h m = Some md"
  shows "chain (h(m \<mapsto> md\<lparr>sn_type := HEAD, sn_prev := None\<rparr>, n := None)) (m # bs)"
proof -
  let ?h = "h(m \<mapsto> md\<lparr>sn_type := HEAD, sn_prev := None\<rparr>, n := None)"
  have d: "dseg h (Some n) (m # bs) None" "distinct (n # m # bs)" using xs by (simp_all add: chain_def)
  then have "dseg ?h None (m # bs) None"
    by (intro dseg_cons_prev [OF d(1) _ md, where md' = "md\<lparr>sn_type := HEAD, sn_prev := None\<rparr>"]) auto
  then show ?thesis
    by (rule chain_relinked [OF _ _ _ xs]) (use d(2) md in auto)
qed

lemma unlink_tail:
  assumes xs: "chain h (as @ [p, n])" and pd: "h p = Some pd"
  shows "chain (h(p \<mapsto> pd\<lparr>sn_next := None\<rparr>, n := None)) (as @ [p])"
proof -
  let ?h = "h(p \<mapsto> pd\<lparr>sn_next := None\<rparr>, n := None)"
  have d: "dseg h None (as @ [p]) (Some n)" "distinct (as @ [p, n])" using xs by (simp_all add: chain_def)
  then have "dseg ?h None (as @ [p]) None"
    by (intro dseg_snoc_next [OF d(1) _ pd]) auto
  then show ?thesis
    by (rule chain_relinked [OF _ _ _ xs]) (use d(2) pd in auto)
qed

lemma unlink_mid:
  assumes xs: "chain h (as @ [p, n, m] @ bs)" and pd: "h p = Some pd" and md: "h m = Some md"
  shows "chain (h(p \<mapsto> pd\<lparr>sn_next := Some m\<rparr>, m \<mapsto> md\<lparr>sn_prev := Some p\<rparr>, n := None)) (as @ p # m # bs)"
proof -
  let ?h = "h(p \<mapsto> pd\<lparr>sn_next := Some m\<rparr>, m \<mapsto> md\<lparr>sn_prev := Some p\<rparr>, n := None)"
  have d: "dseg h None (as @ [p]) (Some n)" "dseg h (Some n) (m # bs) None"
    "distinct (as @ [p, n, m] @ bs)" "sn_type md = CHAIN"
    using xs md by (simp_all add: chain_def dnode_Some)
  have "dseg ?h None (as @ [p]) (Some m)"
    by (rule dseg_snoc_next [OF d(1) _ pd]) (use d(3) in auto)
  moreover have "dseg ?h (Some p) (m # bs) None"
    by (rule dseg_cons_prev [OF d(2) _ md, where md' = "md\<lparr>sn_prev := Some p\<rparr>"]) (use d(3,4) in auto)
  ultimately have "dseg ?h None (as @ p # m # bs) None" by simp
  then show ?thesis
    by (rule chain_relinked [OF _ _ _ xs]) (use d(3) pd md in auto)
qed

definition node_removed ::
  "('t, 'h) server_env \<Rightarrow> addr set \<Rightarrow> addr set \<Rightarrow> addr set \<Rightarrow> addr \<Rightarrow> ('t, 'h) server \<Rightarrow> bool" where
  "node_removed E X Y Z n s \<longleftrightarrow>
     (\<exists>h t. remove_stable_node_no_item E n s = Inr (s\<lparr>nodes := h, stable_hash_table := t\<rparr>) \<and>
    h n = None \<and> (\<forall>m. m \<noteq> n \<longrightarrow> map_option node_body (h m) = map_option node_body (nodes s m)) \<and>
    meta_inv E X Y (Z - {n}) (s\<lparr>nodes := h, stable_hash_table := t\<rparr>))"

context server_runtime
begin

text \<open>
  The table after a head has left it: the other entries lead to heads of other hashes, so to
  nodes outside of the chain.
\<close>

lemma stable_entry_hash:
  assumes "inv_chain E s" "stable_lookup E s h = Some m" "nodes s m = Some md"
  shows "sn_page_hash md = h \<and> sn_prev md = None"
  using inv_chain_lookupD [OF assms(1,2)] assms(3) by auto

lemma empty_node:
  assumes "meta_inv E X Y Z s" "nodes s n = Some nd" "sn_shared_cnt nd = 0"
  shows "sharing_lookup E nd = Map.empty"
proof -
  note d = inv_nodesD [OF meta_invD(4) [OF assms(1)] assms(2)]
  have "finite (dom (sharing_lookup E nd))" using tree.finite_dom_lookup [OF d(1)] .
  moreover have "card (dom (sharing_lookup E nd)) = 0" using d(2) assms(3) by simp
  ultimately have "dom (sharing_lookup E nd) = {}" by (metis card_0_eq)
  then show ?thesis by simp
qed

lemma meta_inv_removed:
  assumes inv: "meta_inv E X Y Z s" and nd: "nodes s n = Some nd" "sn_shared_cnt nd = 0"
    and same: "items s' = items s" "rmap_tree s' = rmap_tree s"
      "unstable_hash_table s' = unstable_hash_table s" "log_table s' = log_table s"
    and b: "\<And>m. m \<noteq> n \<Longrightarrow> map_option node_body (nodes s' m) = map_option node_body (nodes s m)"
    and n: "nodes s' n = None" and c: "inv_chain E s'"
  shows "meta_inv E X Y (Z - {n}) s'"
proof -
  note d = meta_invD [OF inv]
  have "inv_nodes E X (Z - {n}) s'"
    by (rule inv_nodes_body [OF d(4) same(1) b]) (use n in auto)
  moreover have "inv_items E X s'"
    by (rule inv_items_body [OF d(3) same(1) b]) (use empty_node [OF inv nd] nd(1) in auto)
  moreover have "inv_rmap E s'" "inv_unstable E Y s'"
    using d(1,2) by (simp_all add: inv_rmap_def inv_unstable_def same)
  ultimately show ?thesis using c d(6) same(4) by (simp add: meta_inv_def)
qed

text \<open>
  The outcome of removing node \<open>n\<close>: it returns, the node is gone, the contents of the others
  are what they were, and the invariant holds without the exception for \<open>n\<close>.
\<close>

lemma remove_lone_node:
  assumes inv: "meta_inv E X Y Z s" and nd: "nodes s n = Some nd" "sn_shared_cnt nd = 0"
    and xs: "chain (nodes s) ([n])"
  shows "node_removed E X Y Z n s"
proof -
  note c = meta_invD(5) [OF inv]
  note wf = inv_chain_wf [OF c]
  let ?rem = "g_remove (hash_ops E) (stable_hash_table s) (sn_page_hash nd)"
  have rem: "g_lookup (hash_ops E) ?rem = (stable_lookup E s)(sn_page_hash nd := None)"
    "g_wf (hash_ops E) ?rem"
    using wf by (simp_all add: hash.lookup_remove hash.wf_remove)
  have l: "sn_prev nd = last_of None ([])" "sn_next nd = first_of ([]) None"
    "sn_type nd = (if [] = [] then HEAD else CHAIN)"
    using chain_at [of "nodes s" "[]" n "[]" nd] xs nd(1) by simp_all
  let ?s = "s\<lparr>nodes := (nodes s)(n := None), stable_hash_table := ?rem\<rparr>"
  have run: "remove_stable_node_no_item E n s = Inr ?s"
    using nd l by (simp add: remove_stable_node_no_item_def)
  have "inv_chain E ?s"
  proof (rule inv_chain_removed [OF c, of "[]" n "[]"])
    fix h m assume "stable_lookup E ?s h = Some m"
    then have "stable_lookup E s h = Some m" "h \<noteq> sn_page_hash nd" using rem by (auto split: if_splits)
    with inv_chain_lookupD [OF c] nd(1) show "\<exists>md. nodes ?s m = Some md \<and> sn_page_hash md = h \<and> sn_prev md = None"
      by fastforce
  qed (use rem xs in auto)
  then have "meta_inv E X Y (Z - {n}) ?s" by (intro meta_inv_removed [OF inv nd]) simp_all
  with run show ?thesis unfolding node_removed_def by fastforce
qed

lemma remove_head_node:
  assumes inv: "meta_inv E X Y Z s" and nd: "nodes s n = Some nd" "sn_shared_cnt nd = 0"
    and xs: "chain (nodes s) (n # m # bs')"
  shows "node_removed E X Y Z n s"
proof -
  note c = meta_invD(5) [OF inv]
  note wf = inv_chain_wf [OF c]
  let ?rem = "g_remove (hash_ops E) (stable_hash_table s) (sn_page_hash nd)"
  have rem: "g_lookup (hash_ops E) ?rem = (stable_lookup E s)(sn_page_hash nd := None)"
    "g_wf (hash_ops E) ?rem"
    using wf by (simp_all add: hash.lookup_remove hash.wf_remove)
  have l: "sn_prev nd = last_of None ([])" "sn_next nd = first_of (m # bs') None"
    "sn_type nd = (if [] = [] then HEAD else CHAIN)"
    using chain_at [of "nodes s" "[]" n "m # bs'" nd] xs nd(1) by simp_all
  obtain md where md: "nodes s m = Some md" using chain_mem_live [OF xs, of m] by auto
  have mn: "m \<noteq> n" using xs by (simp add: chain_def)
  have hm: "sn_page_hash md = sn_page_hash nd" using chain_same_hash [OF xs _ _ md nd(1)] by simp
  let ?h = "(nodes s)(m \<mapsto> md\<lparr>sn_type := HEAD, sn_prev := None\<rparr>, n := None)"
  let ?s = "s\<lparr>nodes := ?h, stable_hash_table := g_insert (hash_ops E) ?rem (sn_page_hash md) m\<rparr>"
  have run: "remove_stable_node_no_item E n s = Inr ?s"
    using nd l md mn by (simp add: remove_stable_node_no_item_def Let_def)
  have "inv_chain E ?s"
  proof (rule inv_chain_removed [OF c, of "[]" n "m # bs'"])
    show "chain (nodes ?s) ([] @ m # bs')" using unlink_head [OF xs md] by simp
  next
    fix g k assume "stable_lookup E ?s g = Some k"
    then have "(k = m \<and> g = sn_page_hash md) \<or> (stable_lookup E s g = Some k \<and> g \<noteq> sn_page_hash nd)"
      using rem hm by (auto simp: hash.lookup_insert split: if_splits)
    then show "\<exists>kd. nodes ?s k = Some kd \<and> sn_page_hash kd = g \<and> sn_prev kd = None"
      using inv_chain_lookupD [OF c, of g k] mn md hm nd(1) by fastforce
  qed (use rem xs in \<open>auto simp: hash.wf_insert\<close>)
  then have "meta_inv E X Y (Z - {n}) ?s"
    by (intro meta_inv_removed [OF inv nd]) (use md in \<open>simp_all add: node_body_def\<close>)
  with run md show ?thesis unfolding node_removed_def by (fastforce simp: node_body_def)
qed

lemma remove_tail_node:
  assumes inv: "meta_inv E X Y Z s" and nd: "nodes s n = Some nd" "sn_shared_cnt nd = 0"
    and xs: "chain (nodes s) (as' @ [p, n])"
  shows "node_removed E X Y Z n s"
proof -
  note c = meta_invD(5) [OF inv]
  note wf = inv_chain_wf [OF c]
  have l: "sn_prev nd = last_of None (as' @ [p])" "sn_next nd = first_of ([]) None"
    "sn_type nd = (if as' @ [p] = [] then HEAD else CHAIN)"
    using chain_at [of "nodes s" "as' @ [p]" n "[]" nd] xs nd(1) by simp_all
  obtain pd where pd: "nodes s p = Some pd" using chain_mem_live [OF xs, of p] by auto
  have mn: "p \<noteq> n" using xs by (simp add: chain_def)
  let ?h = "(nodes s)(p \<mapsto> pd\<lparr>sn_next := None\<rparr>, n := None)"
  let ?s = "s\<lparr>nodes := ?h, stable_hash_table := stable_hash_table s\<rparr>"
  have run: "remove_stable_node_no_item E n s = Inr ?s"
    using nd l pd by (simp add: remove_stable_node_no_item_def Let_def)
  have "inv_chain E ?s"
  proof (rule inv_chain_removed [OF c, of "as' @ [p]" n "[]"])
    show "chain (nodes ?s) ((as' @ [p]) @ [])" using unlink_tail [OF xs pd] by simp
  next
    fix g k assume "stable_lookup E ?s g = Some k"
    then show "\<exists>kd. nodes ?s k = Some kd \<and> sn_page_hash kd = g \<and> sn_prev kd = None"
      using inv_chain_lookupD [OF c, of g k] pd nd(1) l(1) by auto
  qed (use wf xs in auto)
  then have "meta_inv E X Y (Z - {n}) ?s"
    by (intro meta_inv_removed [OF inv nd]) (use pd in \<open>simp_all add: node_body_def\<close>)
  with run pd show ?thesis unfolding node_removed_def by (fastforce simp: node_body_def)
qed

lemma remove_mid_node:
  assumes inv: "meta_inv E X Y Z s" and nd: "nodes s n = Some nd" "sn_shared_cnt nd = 0"
    and xs: "chain (nodes s) (as' @ [p, n, m] @ bs')"
  shows "node_removed E X Y Z n s"
proof -
  note c = meta_invD(5) [OF inv]
  note wf = inv_chain_wf [OF c]
  have l: "sn_prev nd = last_of None (as' @ [p])" "sn_next nd = first_of (m # bs') None"
    "sn_type nd = (if as' @ [p] = [] then HEAD else CHAIN)"
    using chain_at [of "nodes s" "as' @ [p]" n "m # bs'" nd] xs nd(1) by simp_all
  obtain pd where pd: "nodes s p = Some pd" using chain_mem_live [OF xs, of p] by auto
  obtain md where md: "nodes s m = Some md" using chain_mem_live [OF xs, of m] by auto
  have mn: "p \<noteq> n" "m \<noteq> n" "m \<noteq> p" using xs by (auto simp: chain_def)
  let ?h = "(nodes s)(p \<mapsto> pd\<lparr>sn_next := Some m\<rparr>, m \<mapsto> md\<lparr>sn_prev := Some p\<rparr>, n := None)"
  let ?s = "s\<lparr>nodes := ?h, stable_hash_table := stable_hash_table s\<rparr>"
  have run: "remove_stable_node_no_item E n s = Inr ?s"
    using nd l pd md mn by (simp add: remove_stable_node_no_item_def Let_def)
  have mp: "sn_prev md \<noteq> None"
    using chain_at(1) [of "nodes s" "as' @ [p, n]" m bs' md] xs md by simp
  have "inv_chain E ?s"
  proof (rule inv_chain_removed [OF c, of "as' @ [p]" n "m # bs'"])
    show "chain (nodes ?s) ((as' @ [p]) @ m # bs')" using unlink_mid [OF xs pd md] by simp
  next
    fix g k assume "stable_lookup E ?s g = Some k"
    then show "\<exists>kd. nodes ?s k = Some kd \<and> sn_page_hash kd = g \<and> sn_prev kd = None"
      using inv_chain_lookupD [OF c, of g k] pd md nd(1) l(1) mp by auto
  qed (use wf xs in auto)
  then have "meta_inv E X Y (Z - {n}) ?s"
    by (intro meta_inv_removed [OF inv nd]) (use pd md in \<open>simp_all add: node_body_def\<close>)
  with run pd md show ?thesis unfolding node_removed_def by (fastforce simp: node_body_def)
qed

lemma remove_stable_node_no_item_inv:
  assumes inv: "meta_inv E X Y Z s" and nd: "nodes s n = Some nd" "sn_shared_cnt nd = 0"
  shows "node_removed E X Y Z n s"
proof -
  obtain xs where "chain (nodes s) xs" "n \<in> set xs"
    using inv_chain_nodeD [OF meta_invD(5) [OF inv] nd(1)] by blast
  then obtain as bs where xs: "chain (nodes s) (as @ n # bs)" by (metis split_list)
  consider (lone) "as = []" "bs = []" | (head) m bs' where "as = []" "bs = m # bs'"
    | (tail) as' p where "as = as' @ [p]" "bs = []"
    | (mid) as' p m bs' where "as = as' @ [p]" "bs = m # bs'"
    by (metis list.exhaust rev_exhaust)
  then show ?thesis
  proof cases
    case lone
    with xs show ?thesis by (intro remove_lone_node [OF inv nd]) simp
  next
    case head
    with xs show ?thesis by (intro remove_head_node [OF inv nd]) simp
  next
    case tail
    with xs show ?thesis by (intro remove_tail_node [OF inv nd]) simp
  next
    case mid
    with xs show ?thesis by (intro remove_mid_node [OF inv nd]) simp
  qed
qed

section \<open>Adding a node\<close>

lemma link_last:
  assumes xs: "chain h (as @ [l])" and ld: "h l = Some ld" and n: "h n = None"
    and hash: "sn_page_hash new = sn_page_hash ld"
  shows "chain (h(l \<mapsto> ld\<lparr>sn_next := Some n\<rparr>,
    n \<mapsto> new\<lparr>sn_type := CHAIN, sn_next := None, sn_prev := Some l\<rparr>)) (as @ [l, n])"
proof -
  let ?h = "h(l \<mapsto> ld\<lparr>sn_next := Some n\<rparr>,
    n \<mapsto> new\<lparr>sn_type := CHAIN, sn_next := None, sn_prev := Some l\<rparr>)"
  have d: "dseg h None (as @ [l]) None" "distinct (as @ [l])" using xs by (simp_all add: chain_def)
  have nx: "n \<notin> set (as @ [l])" using chain_mem_live [OF xs, of n] n by auto
  have "dseg ?h None (as @ [l]) (Some n)"
    by (rule dseg_snoc_next [OF d(1) _ ld]) (use d(2) nx in auto)
  then have seg: "dseg ?h None (as @ [l, n]) None" by (simp add: dnode_Some)
  have "map_option sn_page_hash (?h m) = Some (sn_page_hash ld)" if m: "m \<in> set (as @ [l, n])" for m
  proof (cases "m = n")
    case False
    with m have "m \<in> set (as @ [l])" by auto
    moreover from chain_mem_live [OF xs this] obtain md where "h m = Some md" by blast
    ultimately have "sn_page_hash md = sn_page_hash ld" "h m = Some md"
      using chain_same_hash [OF xs _ _ _ ld, of m md] by simp_all
    with False show ?thesis by simp
  qed (simp add: hash)
  then show ?thesis by (rule chain_hashI [OF seg, rotated 2]) (use d(2) nx in simp_all)
qed

lemma inv_chain_added:
  assumes inv: "inv_chain E s" and n: "nodes s n = None"
    and ys: "chain (nodes s') ys" "n \<in> set ys" and keep: "set ys - {n} \<subseteq> set xs"
    and xs: "xs = [] \<or> chain (nodes s) xs" "set xs \<subseteq> set ys"
    and out: "\<And>m. m \<notin> set ys \<Longrightarrow> nodes s' m = nodes s m"
    and wf: "g_wf (hash_ops E) (stable_hash_table s')"
    and tbl: "\<And>h m. stable_lookup E s' h = Some m \<Longrightarrow>
      \<exists>md. nodes s' m = Some md \<and> sn_page_hash md = h \<and> sn_prev md = None"
  shows "inv_chain E s'"
proof -
  have "\<exists>zs. chain (nodes s') zs \<and> m \<in> set zs" if m: "nodes s' m = Some md" for m md
  proof (cases "m \<in> set ys")
    case False
    with m out have "nodes s m = Some md" by metis
    from inv_chain_nodeD [OF inv this] obtain zs where zs: "chain (nodes s) zs" "m \<in> set zs" by blast
    have "n \<notin> set zs" using chain_mem_live [OF zs(1)] n by fastforce
    moreover have "set zs \<inter> set xs = {}"
      using chain_unique [OF zs(1)] xs False zs(2) by (metis disjoint_iff empty_set empty_iff subsetD)
    ultimately have "set zs \<inter> set ys = {}" using keep by auto
    then have "chain (nodes s') zs" using chain_agree [OF zs(1)] out by blast
    with zs(2) show ?thesis by blast
  qed (use ys in blast)
  with wf tbl show ?thesis unfolding inv_chain_def by blast
qed

lemma meta_inv_added:
  assumes inv: "meta_inv E X Y Z s" and nn: "nodes s n = None"
    and same: "items s' = items s" "rmap_tree s' = rmap_tree s"
      "unstable_hash_table s' = unstable_hash_table s" "log_table s' = log_table s"
    and b: "\<And>m. m \<noteq> n \<Longrightarrow> map_option node_body (nodes s' m) = map_option node_body (nodes s m)"
    and n: "nodes s' n = Some nd" "g_wf (tree_ops E) (sn_sharing_item_tree nd)"
      "sharing_lookup E nd = Map.empty" "sn_shared_cnt nd = 0"
    and c: "inv_chain E s'"
  shows "meta_inv E X Y (insert n Z) s'"
proof -
  note d = meta_invD [OF inv]
  have "inv_nodes E X (insert n Z) s'"
    by (rule inv_nodes_body [OF d(4) same(1) b]) (use n in auto)
  moreover have "inv_items E X s'"
    by (rule inv_items_body [OF d(3) same(1) b]) (use nn in auto)
  moreover have "inv_rmap E s'" "inv_unstable E Y s'"
    using d(1,2) by (simp_all add: inv_rmap_def inv_unstable_def same)
  ultimately show ?thesis using c d(6) same(4) by (simp add: meta_inv_def)
qed

lemma insert_stable_node_chain:
  assumes inv: "inv_chain E s" and n: "nodes s n = None"
  shows "\<exists>h t nd. insert_stable_node E n (set_node n new s) = Inr (s\<lparr>nodes := h, stable_hash_table := t\<rparr>) \<and>
    h n = Some nd \<and> node_body nd = node_body new \<and>
    (\<forall>m. m \<noteq> n \<longrightarrow> map_option node_body (h m) = map_option node_body (nodes s m)) \<and>
    inv_chain E (s\<lparr>nodes := h, stable_hash_table := t\<rparr>)"
proof (cases "stable_lookup E s (sn_page_hash new)")
  case None
  let ?nd = "new\<lparr>sn_type := HEAD, sn_next := None, sn_prev := None\<rparr>"
  let ?s = "s\<lparr>nodes := (nodes s)(n \<mapsto> ?nd),
    stable_hash_table := g_insert (hash_ops E) (stable_hash_table s) (sn_page_hash new) n\<rparr>"
  have run: "insert_stable_node E n (set_node n new s) = Inr ?s"
    using None by (simp add: insert_stable_node_def)
  have "inv_chain E ?s"
  proof (rule inv_chain_added [OF inv n, where ys = "[n]" and xs = "[]"])
    fix h m assume "stable_lookup E ?s h = Some m"
    then have "(h = sn_page_hash new \<and> m = n) \<or> stable_lookup E s h = Some m"
      using inv_chain_wf [OF inv] by (auto simp: hash.lookup_insert split: if_splits)
    then show "\<exists>md. nodes ?s m = Some md \<and> sn_page_hash md = h \<and> sn_prev md = None"
      using inv_chain_lookupD [OF inv, of h m] n by auto
  qed (use inv_chain_wf [OF inv] in \<open>auto simp: chain_def dnode_Some hash.wf_insert\<close>)
  with run show ?thesis by (fastforce simp: node_body_def)
next
  case (Some e)
  obtain ed where ed: "nodes s e = Some ed" "sn_page_hash ed = sn_page_hash new" "sn_prev ed = None"
    using inv_chain_lookupD [OF inv Some] by blast
  obtain xs where xs: "chain (nodes s) xs" "e \<in> set xs" using inv_chain_nodeD [OF inv ed(1)] by blast
  have hd: "hd xs = e" using chain_split [OF xs] ed by (metis hd_append last_of_None_iff list.sel(1) option.inject)
  have ne: "xs \<noteq> []" using xs(2) by auto
  define l where "l = last xs"
  have xs': "xs = butlast xs @ [l]" using ne by (simp add: l_def)
  obtain ld where ld: "nodes s l = Some ld" using chain_mem_live [OF xs(1), of l] ne by (auto simp: l_def)
  have nl: "n \<noteq> l" "n \<noteq> e" using n ld ed by auto
  have nx: "n \<notin> set xs" using chain_mem_live [OF xs(1), of n] n by auto
  let ?nd = "new\<lparr>sn_type := CHAIN, sn_next := None, sn_prev := Some l\<rparr>"
  let ?h = "(nodes s)(l \<mapsto> ld\<lparr>sn_next := Some n\<rparr>, n \<mapsto> ?nd)"
  let ?s = "s\<lparr>nodes := ?h, stable_hash_table := stable_hash_table s\<rparr>"
  have "chain ((nodes s)(n \<mapsto> new)) xs" by (rule chain_agree [OF xs(1)]) (use nx in auto)
  then have "chain_last ((nodes s)(n \<mapsto> new)) e = Some (Inr l)"
    using chain_last_chain hd by (fastforce simp: l_def)
  then have run: "insert_stable_node E n (set_node n new s) = Inr ?s"
    using Some ld nl by (simp add: insert_stable_node_def fun_upd_twist)
  have "sn_page_hash new = sn_page_hash ld"
    using chain_same_hash [OF xs _ ed(1) ld] ed(2) ne by (simp add: l_def)
  then have ch: "chain ?h (butlast xs @ [l, n])"
    using link_last [of "nodes s" "butlast xs" l ld n new] xs(1) xs' ld n by simp
  have set: "set (butlast xs @ [l, n]) = insert n (set xs)" by (subst (2) xs') auto
  have "inv_chain E ?s"
  proof (rule inv_chain_added [OF inv n, where ys = "butlast xs @ [l, n]" and xs = xs])
    show "chain (nodes ?s) (butlast xs @ [l, n])" using ch by simp
  next
    fix h m assume "stable_lookup E ?s h = Some m"
    then show "\<exists>md. nodes ?s m = Some md \<and> sn_page_hash md = h \<and> sn_prev md = None"
      using inv_chain_lookupD [OF inv, of h m] n ld by auto
  next
    fix m assume "m \<notin> set (butlast xs @ [l, n])"
    then show "nodes ?s m = nodes s m" by simp
  qed (use xs set inv_chain_wf [OF inv] in auto)
  with run ld show ?thesis by (fastforce simp: node_body_def)
qed

lemma insert_stable_node_inv:
  assumes inv: "meta_inv E X Y Z s" and n: "nodes s n = None"
    and new: "g_wf (tree_ops E) (sn_sharing_item_tree new)" "sharing_lookup E new = Map.empty"
      "sn_shared_cnt new = 0"
  shows "\<exists>h t nd. insert_stable_node E n (set_node n new s) = Inr (s\<lparr>nodes := h, stable_hash_table := t\<rparr>) \<and>
    h n = Some nd \<and> node_body nd = node_body new \<and>
    (\<forall>m. m \<noteq> n \<longrightarrow> map_option node_body (h m) = map_option node_body (nodes s m)) \<and>
    meta_inv E X Y (insert n Z) (s\<lparr>nodes := h, stable_hash_table := t\<rparr>)"
proof -
  obtain h t nd where r: "insert_stable_node E n (set_node n new s) = Inr (s\<lparr>nodes := h, stable_hash_table := t\<rparr>)"
    "h n = Some nd" "node_body nd = node_body new"
    "\<forall>m. m \<noteq> n \<longrightarrow> map_option node_body (h m) = map_option node_body (nodes s m)"
    "inv_chain E (s\<lparr>nodes := h, stable_hash_table := t\<rparr>)"
    using insert_stable_node_chain [OF meta_invD(5) [OF inv] n, of new] by blast
  have "sn_sharing_item_tree nd = sn_sharing_item_tree new" "sn_shared_cnt nd = 0"
    using r(3) new(3) by (simp_all add: node_body_def)
  then have "meta_inv E X Y (insert n Z) (s\<lparr>nodes := h, stable_hash_table := t\<rparr>)"
    by (intro meta_inv_added [OF inv n, where nd = nd]) (use r new in auto)
  with r show ?thesis by blast
qed

end

end
