(* ===== verification/Server_Rehash.thy ===== *)
theory Server_Rehash
  imports Server_Links
begin

text \<open>
  Giving a whole chain of stable nodes a new page hash (\<open>rehash_chain\<close>): the loop ends, changes
  exactly the hashes of the chain's nodes and of their sharers, and keeps the invariant.
\<close>

definition rehash_nodes ::
  "hash_pair \<Rightarrow> addr set \<Rightarrow> (addr \<Rightarrow> 't stable_node option) \<Rightarrow> addr \<Rightarrow> 't stable_node option" where
  "rehash_nodes hash S h = (\<lambda>m. if m \<in> S then map_option (sn_page_hash_update (\<lambda>_. hash)) (h m) else h m)"

definition rehash_items ::
  "hash_pair \<Rightarrow> addr set \<Rightarrow> (addr \<Rightarrow> rmap_item option) \<Rightarrow> addr \<Rightarrow> rmap_item option" where
  "rehash_items hash T h = (\<lambda>a. if a \<in> T then map_option (ri_old_hash_update (\<lambda>_. hash)) (h a) else h a)"

definition sharers ::
  "('t, 'h) server_env \<Rightarrow> (addr \<Rightarrow> 't stable_node option) \<Rightarrow> addr set \<Rightarrow> addr set" where
  "sharers E h S = (\<Union>n \<in> S. case h n of None \<Rightarrow> {} | Some nd \<Rightarrow> ran (sharing_lookup E nd))"

lemma rehash_items_Un: "rehash_items hash T (rehash_items hash U h) = rehash_items hash (T \<union> U) h"
  by (auto simp: rehash_items_def fun_eq_iff option.map_comp comp_def)

lemma rehash_nodes_upd:
  "h n = Some nd \<Longrightarrow> rehash_nodes hash S (h(n \<mapsto> nd\<lparr>sn_page_hash := hash\<rparr>)) = rehash_nodes hash (insert n S) h"
  by (auto simp: rehash_nodes_def fun_eq_iff)

lemma rehash_nodes_links: "map_option links (rehash_nodes hash S h m) = map_option links (h m)"
  by (cases "h m") (simp_all add: rehash_nodes_def links_def)

lemma sharers_upd:
  "h n = Some nd \<Longrightarrow> sharers E (h(n \<mapsto> nd\<lparr>sn_page_hash := hash\<rparr>)) S = sharers E h S"
  unfolding sharers_def by (rule SUP_cong) simp_all

lemma sharers_insert:
  "h n = Some nd \<Longrightarrow> sharers E h (insert n S) = ran (sharing_lookup E nd) \<union> sharers E h S"
  by (simp add: sharers_def)

lemma update_sharers:
  assumes "\<And>a. a \<in> set as \<Longrightarrow> \<exists>it. items s a = Some it \<and> ri_state it = Stable"
  shows "rfold (update_item_checksum hash) as s = Inr (s\<lparr>items := rehash_items hash (set as) (items s)\<rparr>)"
  using assms
proof (induction as arbitrary: s)
  case Nil
  then show ?case by (simp add: rehash_items_def)
next
  case (Cons a as)
  then obtain it where it: "items s a = Some it" "ri_state it = Stable" by auto
  let ?s = "set_item a (it\<lparr>ri_old_hash := hash\<rparr>) s"
  have 1: "update_item_checksum hash a s = Inr ?s" using it by (simp add: update_item_checksum_def)
  have "rfold (update_item_checksum hash) as ?s = Inr (?s\<lparr>items := rehash_items hash (set as) (items ?s)\<rparr>)"
  proof (rule Cons.IH)
    fix b assume "b \<in> set as"
    with Cons.prems [of b] it show "\<exists>jt. items ?s b = Some jt \<and> ri_state jt = Stable" by auto
  qed
  moreover have "items ?s = rehash_items hash {a} (items s)"
    using it by (auto simp: rehash_items_def fun_eq_iff)
  ultimately show ?case using 1 by (simp add: rehash_items_Un)
qed

text \<open>The state after the chain \<open>xs\<close>, headed by \<open>hd xs\<close>, was given the hash.\<close>

definition rehashed :: "('t, 'h) server_env \<Rightarrow> hash_pair \<Rightarrow> addr list \<Rightarrow> hash_pair \<Rightarrow>
    ('t, 'h) server \<Rightarrow> ('t, 'h) server" where
  "rehashed E old xs hash s = s\<lparr>nodes := rehash_nodes hash (set xs) (nodes s),
     items := rehash_items hash (sharers E (nodes s) (set xs)) (items s),
     stable_hash_table := g_insert (hash_ops E)
       (g_remove (hash_ops E) (stable_hash_table s) old) hash (hd xs)\<rparr>"

lemma rehash_items_Some:
  "rehash_items hash T h a = Some it' \<longleftrightarrow>
   (\<exists>it. h a = Some it \<and> it' = (if a \<in> T then it\<lparr>ri_old_hash := hash\<rparr> else it))"
  by (auto simp: rehash_items_def)

lemma rehash_nodes_Some:
  "rehash_nodes hash S h n = Some nd' \<longleftrightarrow>
   (\<exists>nd. h n = Some nd \<and> nd' = (if n \<in> S then nd\<lparr>sn_page_hash := hash\<rparr> else nd))"
  by (auto simp: rehash_nodes_def)

lemma chain_rehash_same:
  assumes "chain h xs" "set ys = set xs \<or> set ys \<inter> set xs = {}" "chain h ys"
  shows "chain (rehash_nodes hash (set xs) h) ys"
proof -
  have "dseg (rehash_nodes hash (set xs) h) None ys None"
    using dseg_cong [of ys h "rehash_nodes hash (set xs) h" None None] assms(3)
    by (simp add: rehash_nodes_links chain_def)
  moreover have "map_option sn_page_hash (rehash_nodes hash (set xs) h m) =
      map_option sn_page_hash (rehash_nodes hash (set xs) h (hd ys))" if m: "m \<in> set ys" for m
  proof -
    have hd: "hd ys \<in> set ys" using m by (cases ys) auto
    obtain md hdd where d: "h m = Some md" "h (hd ys) = Some hdd"
      using chain_mem_live [OF assms(3)] m hd by metis
    then have "sn_page_hash md = sn_page_hash hdd" using chain_same_hash [OF assms(3) m hd] by blast
    then show ?thesis using assms(2) m hd d by (auto simp: rehash_nodes_def)
  qed
  ultimately show ?thesis using assms(3) unfolding chain_def by blast
qed

text \<open>Items and nodes before and after, field by field.\<close>

lemma rehashed_same [simp]:
  "rmap_tree (rehashed E old xs hash s) = rmap_tree s"
  "unstable_hash_table (rehashed E old xs hash s) = unstable_hash_table s"
  "log_table (rehashed E old xs hash s) = log_table s"
  by (simp_all add: rehashed_def)

lemma rehashed_item_old:
  "items (rehashed E old xs hash s) a = Some it' \<Longrightarrow>
   \<exists>it. items s a = Some it \<and> item_key it' = item_key it \<and> ri_state it' = ri_state it \<and>
     ri_stable_node it' = ri_stable_node it \<and>
     ri_old_hash it' = (if a \<in> sharers E (nodes s) (set xs) then hash else ri_old_hash it)"
  by (auto simp: rehashed_def rehash_items_Some item_key_def)

lemma rehashed_item_new:
  "items s a = Some it \<Longrightarrow>
   \<exists>it'. items (rehashed E old xs hash s) a = Some it' \<and> item_key it' = item_key it \<and>
     ri_state it' = ri_state it \<and> ri_stable_node it' = ri_stable_node it \<and>
     ri_old_hash it' = (if a \<in> sharers E (nodes s) (set xs) then hash else ri_old_hash it)"
  by (auto simp: rehashed_def rehash_items_def item_key_def)

lemma rehashed_node_old:
  "nodes (rehashed E old xs hash s) m = Some md' \<Longrightarrow>
   \<exists>md. nodes s m = Some md \<and> sn_sharing_item_tree md' = sn_sharing_item_tree md \<and>
     sn_shared_cnt md' = sn_shared_cnt md \<and> sn_pfn md' = sn_pfn md"
  by (auto simp: rehashed_def rehash_nodes_Some)

lemma rehashed_node_new:
  "nodes s m = Some md \<Longrightarrow>
   \<exists>md'. nodes (rehashed E old xs hash s) m = Some md' \<and>
     sn_sharing_item_tree md' = sn_sharing_item_tree md \<and> sn_pfn md' = sn_pfn md \<and>
     sn_page_hash md' = (if m \<in> set xs then hash else sn_page_hash md)"
  by (auto simp: rehashed_def rehash_nodes_def)

context server_runtime
begin

lemma rehash_loop_dseg:
  assumes "dseg (nodes s) p xs None" "distinct xs"
    and "\<And>n nd. n \<in> set xs \<Longrightarrow> nodes s n = Some nd \<Longrightarrow> g_wf (tree_ops E) (sn_sharing_item_tree nd)"
    and "\<And>a. a \<in> sharers E (nodes s) (set xs) \<Longrightarrow> \<exists>it. items s a = Some it \<and> ri_state it = Stable"
  shows "rehash_loop E hash (first_of xs None) s =
    Some (Inr (s\<lparr>nodes := rehash_nodes hash (set xs) (nodes s),
      items := rehash_items hash (sharers E (nodes s) (set xs)) (items s)\<rparr>))"
  using assms
proof (induction xs arbitrary: p s)
  case Nil
  then show ?case
    by (subst rehash_loop.simps) (simp add: rehash_nodes_def rehash_items_def sharers_def)
next
  case (Cons n xs)
  then obtain nd where nd: "nodes s n = Some nd" "sn_next nd = first_of xs None"
    and ds: "dseg (nodes s) (Some n) xs None"
    by (auto simp: dnode_Some)
  have wf: "g_wf (tree_ops E) (sn_sharing_item_tree nd)" using Cons.prems(3) [of n nd] nd by simp
  let ?as = "map snd (g_entries (tree_ops E) (sn_sharing_item_tree nd))"
  let ?s1 = "set_node n (nd\<lparr>sn_page_hash := hash\<rparr>) s"
  let ?s2 = "?s1\<lparr>items := rehash_items hash (set ?as) (items ?s1)\<rparr>"
  have as: "set ?as = ran (sharing_lookup E nd)"
    using tree.values_iff [OF wf] unfolding ran_def set_map by blast
  have 1: "rfold (update_item_checksum hash) ?as ?s1 = Inr ?s2"
  proof (rule update_sharers)
    fix a assume "a \<in> set ?as"
    then have "a \<in> sharers E (nodes s) (set (n # xs))"
      using as sharers_insert [of "nodes s" n nd E, OF nd(1)] by simp
    then show "\<exists>it. items ?s1 a = Some it \<and> ri_state it = Stable" using Cons.prems(4) by simp
  qed
  have "rehash_loop E hash (first_of xs None) ?s2 =
    Some (Inr (?s2\<lparr>nodes := rehash_nodes hash (set xs) (nodes ?s2),
      items := rehash_items hash (sharers E (nodes ?s2) (set xs)) (items ?s2)\<rparr>))"
  proof (rule Cons.IH)
    show "dseg (nodes ?s2) (Some n) xs None"
      using ds nd(1) dseg_cong [of xs "nodes s" "nodes ?s2"] by (auto simp: links_def)
    show "distinct xs" using Cons.prems(2) by simp
    fix m md assume m: "m \<in> set xs" "nodes ?s2 m = Some md"
    then have "m \<noteq> n" using Cons.prems(2) by auto
    then show "g_wf (tree_ops E) (sn_sharing_item_tree md)" using Cons.prems(3) [of m md] m by simp
  next
    fix a assume "a \<in> sharers E (nodes ?s2) (set xs)"
    then have "a \<in> sharers E (nodes s) (set (n # xs))"
      using sharers_upd [of "nodes s" n nd E, OF nd(1)] sharers_insert [of "nodes s" n nd E, OF nd(1)] by simp
    then obtain it where "items s a = Some it" "ri_state it = Stable" using Cons.prems(4) by blast
    then show "\<exists>it. items ?s2 a = Some it \<and> ri_state it = Stable" by (simp add: rehash_items_def)
  qed
  moreover have "nodes ?s2 = (nodes s)(n \<mapsto> nd\<lparr>sn_page_hash := hash\<rparr>)" by simp
  ultimately show ?case
    using nd 1 as sharers_insert [of "nodes s" n nd E, OF nd(1)] sharers_upd [of "nodes s" n nd E, OF nd(1)] rehash_nodes_upd [of "nodes s", OF nd(1)]
    by (subst rehash_loop.simps) (simp add: rehash_items_Un Un_commute)
qed


lemma sharer_iff:
  assumes inv: "meta_inv E X Y Z s" and it: "items s a = Some it" and X: "a \<notin> X"
  shows "a \<in> sharers E (nodes s) S \<longleftrightarrow>
    ri_state it = Stable \<and> (\<exists>n \<in> S. ri_stable_node it = Some n)"
proof
  assume "a \<in> sharers E (nodes s) S"
  then obtain n nd k where "n \<in> S" "nodes s n = Some nd" "sharing_lookup E nd k = Some a"
    unfolding sharers_def ran_def by (auto split: option.splits)
  with inv_nodes_entryD [OF meta_invD(4) [OF inv], of n nd k a] it
  show "ri_state it = Stable \<and> (\<exists>n \<in> S. ri_stable_node it = Some n)" by auto
next
  assume "ri_state it = Stable \<and> (\<exists>n \<in> S. ri_stable_node it = Some n)"
  with inv_itemsD [OF meta_invD(3) [OF inv] it _ X] obtain n nd where
    "n \<in> S" "nodes s n = Some nd" "sharing_lookup E nd (item_key it) = Some a" by auto
  then show "a \<in> sharers E (nodes s) S" unfolding sharers_def by (force intro: ranI)
qed

lemma rehashed_chain:
  assumes inv: "inv_chain E s" and xs: "chain (nodes s) xs" and nd: "nodes s (hd xs) = Some nd"
  shows "inv_chain E (rehashed E (sn_page_hash nd) xs hash s)"
proof -
  let ?s = "rehashed E (sn_page_hash nd) xs hash s"
  have ne: "hd xs \<in> set xs" using xs by (simp add: chain_def)
  have wf: "g_wf (hash_ops E) (stable_hash_table ?s)"
    using inv_chain_wf [OF inv] by (simp add: rehashed_def hash.table_simps)
  have "\<exists>md. nodes ?s m = Some md \<and> sn_page_hash md = g \<and> sn_prev md = None"
    if "stable_lookup E ?s g = Some m" for g m
  proof -
    have "(g = hash \<and> m = hd xs) \<or> (g \<noteq> sn_page_hash nd \<and> stable_lookup E s g = Some m)"
      using that inv_chain_wf [OF inv]
      by (auto simp: rehashed_def hash.wf_remove hash.lookup_insert hash.lookup_remove split: if_splits)
    then show ?thesis
    proof
      assume "g = hash \<and> m = hd xs"
      moreover have "sn_prev nd = None"
        using chain_at(1) [of "nodes s" "[]" "hd xs" "tl xs" nd] xs nd by (cases xs) (auto simp: chain_def)
      ultimately show ?thesis using nd ne by (simp add: rehashed_def rehash_nodes_def)
    next
      assume g: "g \<noteq> sn_page_hash nd \<and> stable_lookup E s g = Some m"
      with inv_chain_lookupD [OF inv] obtain md where md: "nodes s m = Some md" "sn_page_hash md = g"
        "sn_prev md = None" by blast
      with g chain_same_hash [OF xs _ ne md(1) nd] have "m \<notin> set xs" by blast
      with md show ?thesis by (simp add: rehashed_def rehash_nodes_def)
    qed
  qed
  moreover have "\<exists>ys. chain (nodes ?s) ys \<and> m \<in> set ys" if "nodes ?s m = Some md" for m md
  proof -
    from that obtain od where "nodes s m = Some od" by (auto simp: rehashed_def rehash_nodes_Some)
    from inv_chain_nodeD [OF inv this] obtain ys where ys: "chain (nodes s) ys" "m \<in> set ys" by blast
    have "set ys = set xs \<or> set ys \<inter> set xs = {}" using chain_unique [OF ys(1) xs] by blast
    with ys show ?thesis using chain_rehash_same [OF xs _ ys(1)] by (auto simp: rehashed_def)
  qed
  ultimately show ?thesis using wf unfolding inv_chain_def by blast
qed

lemma rehashed_rmap:
  assumes inv: "meta_inv E {} Y Z s"
  shows "inv_rmap E (rehashed E old xs hash s)"
proof (rule inv_rmapI)
  fix k a assume "rmap_lookup E (rehashed E old xs hash s) k = Some a"
  then have "rmap_lookup E s k = Some a" by simp
  from inv_rmap_lookupD [OF meta_invD(1) [OF inv] this] obtain it where
    it: "items s a = Some it" "item_key it = k" by blast
  show "\<exists>it. items (rehashed E old xs hash s) a = Some it \<and> item_key it = k"
    using rehashed_item_new [OF it(1), of E old xs hash] it(2) by auto
next
  fix a it' assume "items (rehashed E old xs hash s) a = Some it'"
  from rehashed_item_old [OF this] obtain it where "items s a = Some it" "item_key it' = item_key it"
    "ri_state it' = ri_state it" by blast
  with inv_rmap_itemD [OF meta_invD(1) [OF inv], of a it]
  show "rmap_lookup E (rehashed E old xs hash s) (item_key it') = Some a" "ri_state it' \<noteq> Item_None"
    by simp_all
qed (use inv_rmap_wf [OF meta_invD(1) [OF inv]] in simp)

lemma rehashed_unstable:
  assumes inv: "meta_inv E {} Y Z s"
  shows "inv_unstable E Y (rehashed E old xs hash s)"
proof (rule inv_unstableI)
  fix h a assume "unstable_lookup E (rehashed E old xs hash s) h = Some a"
  then have "unstable_lookup E s h = Some a" by simp
  from inv_unstable_lookupD [OF meta_invD(2) [OF inv] this] obtain it where it: "a \<notin> Y"
    "items s a = Some it" "ri_state it = Unstable" "ri_old_hash it = h" by blast
  moreover have "a \<notin> sharers E (nodes s) (set xs)" using sharer_iff [OF inv it(2)] it(3) by simp
  ultimately show "a \<notin> Y \<and> (\<exists>it. items (rehashed E old xs hash s) a = Some it \<and> ri_state it = Unstable \<and> ri_old_hash it = h)"
    using rehashed_item_new [OF it(2), of E old xs hash] by auto
next
  fix a it' assume a: "items (rehashed E old xs hash s) a = Some it'" "ri_state it' = Unstable" "a \<notin> Y"
  from rehashed_item_old [OF a(1)] a(2) obtain it where it: "items s a = Some it" "ri_state it = Unstable"
    "ri_old_hash it' = (if a \<in> sharers E (nodes s) (set xs) then hash else ri_old_hash it)" by auto
  moreover have "a \<notin> sharers E (nodes s) (set xs)" using sharer_iff [OF inv it(1)] it(2) by simp
  ultimately show "unstable_lookup E (rehashed E old xs hash s) (ri_old_hash it') = Some a"
    using inv_unstable_itemD [OF meta_invD(2) [OF inv] it(1,2) a(3)] by simp
qed (use inv_unstable_wf [OF meta_invD(2) [OF inv]] in simp)

lemma rehashed_items:
  assumes inv: "meta_inv E {} Y Z s"
  shows "inv_items E {} (rehashed E old xs hash s)"
proof (rule inv_itemsI)
  fix a it' assume a: "items (rehashed E old xs hash s) a = Some it'" "ri_state it' = Stable"
  from rehashed_item_old [OF a(1)] a(2) obtain it where it: "items s a = Some it"
    "ri_state it = Stable" "item_key it' = item_key it" "ri_stable_node it' = ri_stable_node it"
    "ri_old_hash it' = (if a \<in> sharers E (nodes s) (set xs) then hash else ri_old_hash it)" by auto
  from inv_itemsD [OF meta_invD(3) [OF inv] it(1,2)] obtain n md where n: "ri_stable_node it = Some n"
    "nodes s n = Some md" "sharing_lookup E md (item_key it) = Some a" "ri_old_hash it = sn_page_hash md"
    by blast
  moreover have "a \<in> sharers E (nodes s) (set xs) \<longleftrightarrow> n \<in> set xs"
    using sharer_iff [OF inv it(1)] it(2) n(1) by auto
  ultimately show "\<exists>n nd. ri_stable_node it' = Some n \<and> nodes (rehashed E old xs hash s) n = Some nd \<and>
      sharing_lookup E nd (item_key it') = Some a \<and> ri_old_hash it' = sn_page_hash nd"
    using rehashed_node_new [OF n(2), of E old xs hash] it by auto
qed

lemma rehashed_nodes:
  assumes inv: "meta_inv E {} Y Z s"
  shows "inv_nodes E {} Z (rehashed E old xs hash s)"
proof (rule inv_nodesI)
  fix m md' assume "nodes (rehashed E old xs hash s) m = Some md'"
  with rehashed_node_old obtain md where m: "nodes s m = Some md" "sn_sharing_item_tree md' = sn_sharing_item_tree md"
    "sn_shared_cnt md' = sn_shared_cnt md" by blast
  show "g_wf (tree_ops E) (sn_sharing_item_tree md')"
    "sn_shared_cnt md' = int (card (dom (sharing_lookup E md')))"
    "sn_shared_cnt md' \<le> MAX_PAGE_SHARING" "m \<notin> Z \<Longrightarrow> 0 < sn_shared_cnt md'"
    unfolding m(2,3) using inv_nodesD [OF meta_invD(4) [OF inv] m(1)] by blast+
next
  fix m md' k a assume m': "nodes (rehashed E old xs hash s) m = Some md'" "sharing_lookup E md' k = Some a"
  with rehashed_node_old obtain md where m: "nodes s m = Some md" "sn_sharing_item_tree md' = sn_sharing_item_tree md"
    by blast
  with m' inv_nodes_entryD [OF meta_invD(4) [OF inv] m(1), of k a] obtain it where "items s a = Some it"
    "item_key it = k" "ri_state it = Stable" "ri_stable_node it = Some m" by auto
  then show "a \<notin> {} \<and> (\<exists>it. items (rehashed E old xs hash s) a = Some it \<and> item_key it = k \<and> ri_state it = Stable \<and>
      ri_stable_node it = Some m)" using rehashed_item_new by fastforce
qed

lemma rehash_chain_inv:
  assumes inv: "meta_inv E {} Y Z s" and xs: "chain (nodes s) xs" and nd: "nodes s (hd xs) = Some nd"
  shows "rehash_chain E hash (hd xs) s = Inr (rehashed E (sn_page_hash nd) xs hash s)"
    "meta_inv E {} Y Z (rehashed E (sn_page_hash nd) xs hash s)"
proof -
  note d = meta_invD [OF inv]
  let ?s = "rehashed E (sn_page_hash nd) xs hash s"
  let ?T = "sharers E (nodes s) (set xs)"
  let ?s1 = "s\<lparr>stable_hash_table := g_remove (hash_ops E) (stable_hash_table s) (sn_page_hash nd)\<rparr>"
  have first: "first_of xs None = Some (hd xs)" using xs by (cases xs) (simp_all add: chain_def)
  have live: "\<exists>it. items s a = Some it \<and> ri_state it = Stable" if "a \<in> ?T" for a
    using that inv_nodes_entryD [OF d(4)] unfolding sharers_def ran_def
    by (fastforce split: option.splits)
  have "rehash_loop E hash (first_of xs None) ?s1 =
    Some (Inr (?s1\<lparr>nodes := rehash_nodes hash (set xs) (nodes ?s1),
      items := rehash_items hash (sharers E (nodes ?s1) (set xs)) (items ?s1)\<rparr>))"
    by (rule rehash_loop_dseg [where p = None])
      (use xs live inv_nodesD(1) [OF d(4)] in \<open>auto simp: chain_def\<close>)
  then show "rehash_chain E hash (hd xs) s = Inr ?s"
    using nd first by (simp add: rehash_chain_def rehashed_def)
  show "meta_inv E {} Y Z ?s"
    using rehashed_rmap [OF inv] rehashed_unstable [OF inv] rehashed_items [OF inv]
      rehashed_nodes [OF inv] rehashed_chain [OF d(5) xs nd] d(6)
    by (simp add: meta_inv_def)
qed

end

end
