(* ===== verification/Smart_Scan.thy ===== *)
theory Smart_Scan
  imports Server_Types
begin

text \<open>
  The server's smart scan (\<open>server.h\<close>: \<open>skip_volatile\<close>, \<open>should_skip_item\<close>): an item whose
  page keeps changing is left out of the next scans, for 1, 2, 4 or 8 of them. The fields are 16
  bits wide; \<open>skip_volatile\<close> takes \<open>short\<close>s, so it reads the unsigned score as a signed number.
\<close>

definition skip_volatile :: "u16 \<Rightarrow> u16 \<Rightarrow> u16" where
  "skip_volatile volatility_score age =
     (if 0 < sint volatility_score then
        (let grace_score = sint volatility_score + sint age
         in if grace_score < 3 then 1
            else if grace_score = 3 then 2
            else if grace_score = 4 then 4
            else 8)
      else 0)"

text \<open>\<open>should_skip_item\<close> returns whether to skip, and the item it has updated.\<close>

definition should_skip_item :: "bool \<Rightarrow> rmap_item \<Rightarrow> bool \<times> rmap_item" where
  "should_skip_item SMART_SCAN_ON item =
     (if \<not> SMART_SCAN_ON then (False, item)
      else if ri_state item = Item_None \<or> ri_state item = Stable then (False, item)
      else if ri_skip_cnt item > 0 then (True, item\<lparr>ri_skip_cnt := ri_skip_cnt item - 1\<rparr>)
      else (False, item\<lparr>ri_skip_cnt := skip_volatile (ri_volatility_score item) (ri_age item)\<rparr>))"

section \<open>Bounds\<close>

lemma skip_volatile_range: "skip_volatile v a \<in> {0, 1, 2, 4, 8}"
  by (simp add: skip_volatile_def Let_def)

lemma skip_volatile_le: "unat (skip_volatile v a) \<le> 8"
  using skip_volatile_range [of v a] by auto

lemma skip_volatile_eq_0: "skip_volatile v a = 0 \<longleftrightarrow> sint v \<le> 0"
  by (simp add: skip_volatile_def Let_def)

lemma skip_volatile_mono:
  assumes "sint v \<le> sint v'" "sint a \<le> sint a'"
  shows "skip_volatile v a \<le> skip_volatile v' a'"
  using assms by (simp add: skip_volatile_def Let_def)

text \<open>
  What a caller can rely on: the key, the state and the hash of the item are not touched, a skip
  uses up one of the skips allotted, and a scan allots the number \<open>skip_volatile\<close> gives.
\<close>

lemma should_skip_item_fields:
  assumes "should_skip_item on it = (b, it')"
  shows "item_key it' = item_key it" "ri_state it' = ri_state it" "ri_pfn it' = ri_pfn it"
    "ri_stable_node it' = ri_stable_node it" "ri_old_hash it' = ri_old_hash it"
    "ri_volatility_score it' = ri_volatility_score it" "ri_age it' = ri_age it"
  using assms by (auto simp: should_skip_item_def item_key_def split: if_splits)

lemma should_skip_item_dec:
  "should_skip_item on it = (True, it') \<Longrightarrow> unat (ri_skip_cnt it) = Suc (unat (ri_skip_cnt it'))"
  by (auto simp: should_skip_item_def Suc_unat_dec split: if_splits)

lemma should_skip_item_bound:
  "unat (ri_skip_cnt it) \<le> 8 \<Longrightarrow> unat (ri_skip_cnt (snd (should_skip_item on it))) \<le> 8"
  using should_skip_item_dec [of on it] skip_volatile_le
  by (auto simp: should_skip_item_def split: if_splits)

section \<open>Runs of scans\<close>

text \<open>
  A run of visits of one item: before each visit the rest of the server may have changed
  everything but the skip counter (the functions of the list), then \<open>should_skip_item\<close> is asked.
  The result is the list of its answers.
\<close>

fun visits :: "bool \<Rightarrow> (rmap_item \<Rightarrow> rmap_item) list \<Rightarrow> rmap_item \<Rightarrow> bool list" where
  "visits on [] it = []"
| "visits on (f # fs) it =
     (case should_skip_item on (f it) of (skip, it') \<Rightarrow> skip # visits on fs it')"

definition keeps_skip_cnt :: "(rmap_item \<Rightarrow> rmap_item) \<Rightarrow> bool" where
  "keeps_skip_cnt f \<longleftrightarrow> (\<forall>it. ri_skip_cnt (f it) = ri_skip_cnt it)"

lemma visits_all_skipped:
  "\<forall>f \<in> set fs. keeps_skip_cnt f \<Longrightarrow> False \<notin> set (visits on fs it) \<Longrightarrow>
   length fs \<le> unat (ri_skip_cnt it)"
proof (induction fs arbitrary: it)
  case Nil
  then show ?case by simp
next
  case (Cons f fs)
  obtain b it' where s: "should_skip_item on (f it) = (b, it')" by (cases "should_skip_item on (f it)")
  with Cons.prems have "b" "False \<notin> set (visits on fs it')" by auto
  moreover from this Cons have "length fs \<le> unat (ri_skip_cnt it')" by simp
  ultimately show ?case
    using should_skip_item_dec [of on "f it" it'] s Cons.prems(1) by (simp add: keeps_skip_cnt_def)
qed





end
