(* ===== verification/Cmp_Merge.thy ===== *)
theory Cmp_Merge
  imports Server_Rehash Smart_Scan
begin

text \<open>
  The scan of one page on the server (\<open>server.c\<close>): \<open>lookup_rmap_item\<close> finds or makes the item
  of a page, \<open>cmp_and_merge_one\<close> (its predecessor is in the theory \<open>Cmp_Old\<close>) moves the item
  through the states volatile, unstable and stable. A page is the list of its bytes; \<open>pre\<close> is what
  \<open>lookup_pre_hash_pair\<close> returned for it.
\<close>

section \<open>Hashing a page\<close>

definition hash_page :: "('t, 'h) server_env \<Rightarrow> u8 list \<Rightarrow> hash_pair" where
  "hash_page E page =
     \<lparr>first_hash = XXH3_128bits_withSeed E (take 2048 page) 0,
      second_hash = XXH3_128bits_withSeed E (take 2048 (drop 2048 page)) 0\<rparr>"

definition calculate_hash_pair ::
  "('t, 'h) server_env \<Rightarrow> hash_pair option \<Rightarrow> u8 list \<Rightarrow> hash_pair" where
  "calculate_hash_pair E pre page = (case pre of Some h \<Rightarrow> h | None \<Rightarrow> hash_page E page)"

section \<open>Finding the item of a page\<close>

text \<open>
  The item \<open>malloc\<close> returns has indeterminate contents; five fields are set here, three more
  by the common tail, and \<open>volatility_score\<close>, \<open>skip_cnt\<close>, \<open>old_pfn\<close> and the node pointer keep
  what the memory held.
\<close>

definition init_rmap_item :: "int \<Rightarrow> u64 \<Rightarrow> rmap_item \<Rightarrow> rmap_item" where
  "init_rmap_item mm_id va junk = junk\<lparr>ri_state := Volatile, ri_mm_id := mm_id, ri_va := va,
     ri_old_hash := null_hash, ri_age := 0\<rparr>"

definition touch_item ::
  "shadow_pte \<Rightarrow> addr \<Rightarrow> ('t, 'h) server \<Rightarrow> (addr option \<times> ('t, 'h) server) res" where
  "touch_item pte item s =
     rbind (deref (items s) item) (\<lambda>it.
       Inr (Some item,
         set_item item (it\<lparr>ri_last_access := word_of_int (iteration s), ri_pfn := pte_kpfn pte\<rparr>)
           (s\<lparr>total_accessed_cnt := total_accessed_cnt s + 1\<rparr>)))"

definition lookup_rmap_item ::
  "('t, 'h) server_env \<Rightarrow> int \<Rightarrow> shadow_pte \<Rightarrow> ('t, 'h) server \<Rightarrow>
   (addr option \<times> ('t, 'h) server) res" where
  "lookup_rmap_item E mm_id pte s =
     (case rmap_lookup E s (mm_id, pte_va pte) of
        Some item \<Rightarrow> touch_item pte item s
      | None \<Rightarrow>
          (case malloc_item E (items s) of
             None \<Rightarrow> Inr (None, s)
           | Some (item, junk) \<Rightarrow>
               (let it = init_rmap_item mm_id (pte_va pte) junk
                in touch_item pte item
                     ((set_item item it s)
                        \<lparr>rmap_tree := g_insert (tree_ops E) (rmap_tree s) (item_key it) item\<rparr>))))"

section \<open>A stable item\<close>

text \<open>The page is mapped to another frame than the node's: the merge was broken.\<close>

definition detach_item ::
  "('t, 'h) server_env \<Rightarrow> addr \<Rightarrow> addr \<Rightarrow> ('t, 'h) server \<Rightarrow> ('t, 'h) server res" where
  "detach_item E curr_node curr_item s =
     rbind (remove_item_from_node E curr_node curr_item s) (\<lambda>s.
     rbind (reset_item_state curr_item s) (\<lambda>s.
     rbind (deref (nodes s) curr_node) (\<lambda>nd.
       if sn_shared_cnt nd = 0 then remove_stale_node_and_log E curr_node curr_item s
       else
         rbind (deref (items s) curr_item) (\<lambda>it.
         rbind (log_item_state_change E (log_table s) it nd) (\<lambda>lt.
           Inr (s\<lparr>log_table := lt\<rparr>))))))"

definition break_merge ::
  "('t, 'h) server_env \<Rightarrow> addr \<Rightarrow> addr \<Rightarrow> ('t, 'h) server \<Rightarrow> ('t, 'h) server res" where
  "break_merge E curr_node curr_item s =
     rbind (detach_item E curr_node curr_item s) (\<lambda>s.
     rbind (deref (items s) curr_item) (\<lambda>it.
       Inr ((set_item curr_item (it\<lparr>ri_volatility_score := ri_volatility_score it + 1\<rparr>) s)
              \<lparr>broken_merges := broken_merges s + 1\<rparr>)))"

text \<open>
  The frame is the node's, but the contents may have changed since the hash was taken: then the
  whole chain gets the new hash.
\<close>

definition refresh_stable ::
  "('t, 'h) server_env \<Rightarrow> hash_pair \<Rightarrow> addr \<Rightarrow> addr \<Rightarrow> ('t, 'h) server \<Rightarrow> ('t, 'h) server res" where
  "refresh_stable E curr_hash curr_node curr_item s =
     rbind (deref (items s) curr_item) (\<lambda>it.
     rbind (deref (nodes s) curr_node) (\<lambda>nd.
       if compare_hash_pair_equal curr_hash (ri_old_hash it) then Inr s
       else
         rbind (guard_stop ''Checksum mismatch in Stable item''
                  (compare_hash_pair_equal (ri_old_hash it) (sn_page_hash nd))) (\<lambda>_.
           case sn_type nd of
             HEAD \<Rightarrow> rehash_chain E curr_hash curr_node s
           | CHAIN \<Rightarrow>
               rbind (guard_stop ''Invalid stable node type'' (sn_prev nd \<noteq> None)) (\<lambda>_.
               rbind (loop_result (chain_head (nodes s) curr_node)) (\<lambda>head.
               rbind (deref (nodes s) head) (\<lambda>hd_nd.
               rbind (guard_stop ''Invalid stable node type'' (sn_type hd_nd = HEAD)) (\<lambda>_.
                 rehash_chain E curr_hash head s)))))))"

text \<open>\<open>if (curr_item->volatility_score > 0) curr_item->volatility_score -= 1;\<close>\<close>

definition calm_item :: "rmap_item \<Rightarrow> rmap_item" where
  "calm_item it = (if 0 < ri_volatility_score it
     then it\<lparr>ri_volatility_score := ri_volatility_score it - 1\<rparr> else it)"

section \<open>A volatile item\<close>

definition join_stable ::
  "('t, 'h) server_env \<Rightarrow> addr \<Rightarrow> addr \<Rightarrow> ('t, 'h) server \<Rightarrow> ('t, 'h) server res" where
  "join_stable E stable_node curr_item s =
     rbind (insert_item_to_node E stable_node curr_item s) (\<lambda>s.
     rbind (deref (items s) curr_item) (\<lambda>it.
     rbind (deref (nodes s) stable_node) (\<lambda>nd.
     rbind (log_stable_merge E (log_table s) it nd) (\<lambda>lt.
       Inr (s\<lparr>log_table := lt\<rparr>)))))"

definition new_stable_node ::
  "('t, 'h) server_env \<Rightarrow> hash_pair \<Rightarrow> u64 \<Rightarrow> 't stable_node" where
  "new_stable_node E hash pfn = \<lparr>sn_page_hash = hash, sn_shared_cnt = 0, sn_pfn = pfn,
     sn_sharing_item_tree = g_new (tree_ops E), sn_type = HEAD, sn_next = None, sn_prev = None\<rparr>"

text \<open>Two items with one hash become the sharers of a new node; \<open>- 1\<close> when \<open>malloc\<close> fails.\<close>

definition promote_unstable ::
  "('t, 'h) server_env \<Rightarrow> hash_pair \<Rightarrow> addr \<Rightarrow> addr \<Rightarrow> ('t, 'h) server \<Rightarrow>
   (int \<times> ('t, 'h) server) res" where
  "promote_unstable E curr_hash unstable_node curr_item s =
     (case malloc_node E (nodes s) of
        None \<Rightarrow> Inr (- 1, s)
      | Some stable_node \<Rightarrow>
          rbind (deref (items s) curr_item) (\<lambda>it.
          rbind (insert_stable_node E stable_node
                   (set_node stable_node (new_stable_node E curr_hash (ri_pfn it)) s)) (\<lambda>s.
          rbind (insert_item_to_node E stable_node unstable_node s) (\<lambda>s.
          rbind (insert_item_to_node E stable_node curr_item s) (\<lambda>s.
          rbind (deref (items s) curr_item) (\<lambda>it.
          rbind (deref (items s) unstable_node) (\<lambda>uit.
          rbind (log_unstable_merge E (log_table s) it uit) (\<lambda>lt.
            Inr (0, s\<lparr>log_table := lt\<rparr>)))))))))"

definition count_volatile_unstable_merge ::
  "addr \<Rightarrow> addr \<Rightarrow> int \<times> ('t, 'h) server \<Rightarrow> (int \<times> ('t, 'h) server) res" where
  "count_volatile_unstable_merge curr_item unstable_node rs =
     (case rs of (r, s) \<Rightarrow>
        if r \<noteq> 0 then Inr (r, s)
        else
          rbind (deref (items s) curr_item) (\<lambda>it.
          rbind (deref (items s) unstable_node) (\<lambda>uit.
            Inr (0, if 0 < ri_volatility_score it \<or> 0 < ri_volatility_score uit
                    then s\<lparr>highly_volatile_but_unstable_merged_cnt :=
                             highly_volatile_but_unstable_merged_cnt s + 1\<rparr>
                    else s))))"

definition become_unstable ::
  "('t, 'h) server_env \<Rightarrow> hash_pair \<Rightarrow> addr \<Rightarrow> ('t, 'h) server \<Rightarrow> (int \<times> ('t, 'h) server) res" where
  "become_unstable E curr_hash curr_item s =
     rbind (deref (items s) curr_item) (\<lambda>it.
     rbind (insert_unstable_node E curr_item
              (set_item curr_item (it\<lparr>ri_old_hash := curr_hash, ri_state := Unstable\<rparr>) s)) (\<lambda>s.
       Inr (0, s)))"

definition merge_into_stable ::
  "('t, 'h) server_env \<Rightarrow> addr \<Rightarrow> addr \<Rightarrow> ('t, 'h) server \<Rightarrow> (int \<times> ('t, 'h) server) res" where
  "merge_into_stable E stable_node curr_item s =
     rbind (deref (nodes s) stable_node) (\<lambda>nd.
     rbind (guard_stop ''Invalid shared count for stable node''
              (\<not> sn_shared_cnt nd \<ge> MAX_PAGE_SHARING)) (\<lambda>_.
     rbind (deref (items s) curr_item) (\<lambda>it.
       (let s = (if 0 < ri_volatility_score it
                 then s\<lparr>highly_volatile_but_stable_merged_cnt :=
                          highly_volatile_but_stable_merged_cnt s + 1\<rparr>
                 else s)
        in rbind (join_stable E stable_node curr_item s) (\<lambda>s. Inr (0, s))))))"

definition seek_unstable ::
  "('t, 'h) server_env \<Rightarrow> hash_pair \<Rightarrow> addr \<Rightarrow> ('t, 'h) server \<Rightarrow> (int \<times> ('t, 'h) server) res" where
  "seek_unstable E curr_hash curr_item s =
     rbind (deref (items s) curr_item) (\<lambda>it.
     rbind (cmp_with_unstable E curr_item
              (set_item curr_item (it\<lparr>ri_old_hash := curr_hash\<rparr>) s)) (\<lambda>(partner, s).
       case partner of
         Some unstable_node \<Rightarrow>
           rbind (promote_unstable E curr_hash unstable_node curr_item s)
             (count_volatile_unstable_merge curr_item unstable_node)
       | None \<Rightarrow> become_unstable E curr_hash curr_item s))"

text \<open>The page has not changed since the last scan: look for a partner.\<close>

definition find_partner ::
  "('t, 'h) server_env \<Rightarrow> hash_pair \<Rightarrow> addr \<Rightarrow> ('t, 'h) server \<Rightarrow> (int \<times> ('t, 'h) server) res" where
  "find_partner E curr_hash curr_item s =
     rbind (cmp_with_stable E curr_hash s) (\<lambda>found.
       case found of
         Some stable_node \<Rightarrow> merge_into_stable E stable_node curr_item s
       | None \<Rightarrow> seek_unstable E curr_hash curr_item s)"

definition note_change :: "hash_pair \<Rightarrow> rmap_item \<Rightarrow> rmap_item" where
  "note_change curr_hash it =
     (if compare_hash_pair_equal (ri_old_hash it) null_hash then it
      else it\<lparr>ri_volatility_score := ri_volatility_score it + 1\<rparr>)\<lparr>ri_old_hash := curr_hash\<rparr>"

definition scan_volatile ::
  "('t, 'h) server_env \<Rightarrow> hash_pair option \<Rightarrow> u8 list \<Rightarrow> addr \<Rightarrow> ('t, 'h) server \<Rightarrow>
   (int \<times> ('t, 'h) server) res" where
  "scan_volatile E pre page curr_item s =
     rbind (deref (items s) curr_item) (\<lambda>it.
       (let s = s\<lparr>volatile_items_cnt := volatile_items_cnt s + 1\<rparr>;
            (skip, it) = should_skip_item (smart_scan_opt s) (it\<lparr>ri_age := ri_age it + 1\<rparr>)
        in if skip then Inr (0, (set_item curr_item it s)\<lparr>skipped_cnt := skipped_cnt s + 1\<rparr>)
           else
             (let curr_hash = calculate_hash_pair E pre page
              in if compare_hash_pair_equal (ri_old_hash it) curr_hash
                 then find_partner E curr_hash curr_item (set_item curr_item (calm_item it) s)
                 else Inr (0, set_item curr_item (note_change curr_hash it) s))))"

section \<open>\<open>cmp_and_merge_one\<close>\<close>

text \<open>
  \<open>goto again\<close> is a recursive call; the fuel counts the passes through the label. Two are
  enough, since the first \<open>goto\<close> leaves the item volatile (lemma \<open>cmp_fuel\<close> of \<open>Merge_Steps\<close>).
\<close>

fun cmp_again ::
  "nat \<Rightarrow> ('t, 'h) server_env \<Rightarrow> hash_pair option \<Rightarrow> u8 list \<Rightarrow> addr \<Rightarrow> ('t, 'h) server \<Rightarrow>
   (int \<times> ('t, 'h) server) res" where
  "cmp_again 0 E pre page curr_item s = Inl Diverged"
| "cmp_again (Suc fuel) E pre page curr_item s =
     rbind (deref (items s) curr_item) (\<lambda>it.
       case ri_state it of
         Item_None \<Rightarrow> Inl (Stopped ''Invalid state for item'')
       | Unstable \<Rightarrow> Inl (Stopped ''Invalid state for item'')
       | Stable \<Rightarrow>
           (case ri_stable_node it of
              None \<Rightarrow> Inl Null_Deref
            | Some curr_node \<Rightarrow>
                rbind (deref (nodes s) curr_node) (\<lambda>nd.
                  if sn_pfn nd \<noteq> ri_pfn it then
                    rbind (break_merge E curr_node curr_item s)
                      (cmp_again fuel E pre page curr_item)
                  else
                    rbind (refresh_stable E (calculate_hash_pair E pre page) curr_node curr_item s) (\<lambda>s.
                    rbind (deref (items s) curr_item) (\<lambda>it.
                      Inr (0, set_item curr_item (calm_item it) s)))))
       | Volatile \<Rightarrow> scan_volatile E pre page curr_item s)"

definition cmp_and_merge_one ::
  "('t, 'h) server_env \<Rightarrow> hash_pair option \<Rightarrow> u8 list \<Rightarrow> addr \<Rightarrow> ('t, 'h) server \<Rightarrow>
   (int \<times> ('t, 'h) server) res" where
  "cmp_and_merge_one = cmp_again 2"

end
