(* ===== verification/Merge_Correct.thy ===== *)
theory Merge_Correct
  imports Cmp_Merge
begin

text \<open>
  The scan of one page keeps the invariant of the metadata and never stops, and the events it
  logs describe exactly how the sharing of pages changed.
\<close>

section \<open>The sharing the server believes in\<close>

text \<open>
  The abstract state: for every page of every process, the shared frame it is mapped to, if it
  is. The concrete state represents it by the states of items and their nodes.
\<close>

type_synonym sharing = "item_key \<rightharpoonup> u64"

definition pfn_of :: "('t, 'h) server \<Rightarrow> addr \<rightharpoonup> u64" where
  "pfn_of s n = map_option sn_pfn (nodes s n)"

definition item_frame :: "(addr \<rightharpoonup> u64) \<Rightarrow> rmap_item \<Rightarrow> u64 option" where
  "item_frame pfns it = (if ri_state it = Stable then Option.bind (ri_stable_node it) pfns else None)"

definition frame_of :: "('t, 'h) server \<Rightarrow> addr \<rightharpoonup> u64" where
  "frame_of s a = Option.bind (items s a) (item_frame (pfn_of s))"

definition sharing :: "('t, 'h) server_env \<Rightarrow> ('t, 'h) server \<Rightarrow> sharing" where
  "sharing E s k = Option.bind (rmap_lookup E s k) (frame_of s)"

text \<open>
  What an event says of the sharing. An unstable merge carries no frame: both pages are merged
  into the frame the first one is mapped to, which the reader of the log knows (\<open>frame\<close>).
\<close>

definition apply_event :: "(item_key \<Rightarrow> u64) \<Rightarrow> ksm_event_log \<Rightarrow> sharing \<Rightarrow> sharing" where
  "apply_event frame e m =
     (case ev_type e of
        DPU_STABLE_MERGE \<Rightarrow>
          m((stable_merge_from_mm_id e, stable_merge_from_va e) \<mapsto> stable_merge_kpfn e)
      | DPU_UNSTABLE_MERGE \<Rightarrow>
          (let from = (unstable_merge_from_mm_id e, unstable_merge_from_va e);
               to = (unstable_merge_to_mm_id e, unstable_merge_to_va e)
           in m(from \<mapsto> frame from, to \<mapsto> frame from))
      | DPU_STALE_STABLE_NODE \<Rightarrow> m((stale_node_last_mm_id e, stale_node_last_va e) := None)
      | DPU_ITEM_STATE_CHANGE \<Rightarrow> m((stable_merge_from_mm_id e, stable_merge_from_va e) := None)
      | _ \<Rightarrow> m)"

fun replay :: "(item_key \<Rightarrow> u64) \<Rightarrow> ksm_event_log list \<Rightarrow> sharing \<Rightarrow> sharing" where
  "replay frame [] m = m"
| "replay frame (e # es) m = replay frame es (apply_event frame e m)"

lemma replay_append [simp]: "replay frame (es @ es') m = replay frame es' (replay frame es m)"
  by (induction es arbitrary: m) simp_all

text \<open>
  \<open>told E evs t t'\<close>: from \<open>t\<close> to \<open>t'\<close> the log table has got the events \<open>evs\<close>, unless
  \<open>realloc\<close> can fail, in which case some may be missing.
\<close>

definition realloc_never_fails :: "('t, 'h) server_env \<Rightarrow> bool" where
  "realloc_never_fails E \<longleftrightarrow> (\<forall>es m. realloc_log E es m \<noteq> None)"

definition told ::
  "('t, 'h) server_env \<Rightarrow> ksm_event_log list \<Rightarrow> ksm_log_table \<Rightarrow> ksm_log_table \<Rightarrow> bool" where
  "told E evs t t' \<longleftrightarrow> (log_wf t \<longrightarrow> log_wf t') \<and>
     (realloc_never_fails E \<longrightarrow> log_wf t \<longrightarrow> logged t' = logged t @ evs)"

lemma told_refl [simp]: "told E [] t t"
  by (simp add: told_def)

lemma told_trans: "told E es t t' \<Longrightarrow> told E es' t' t'' \<Longrightarrow> told E (es @ es') t t''"
  by (simp add: told_def)

text \<open>
  The pages that the merges of a log name: the page that is merged is one of \<open>K\<close>, and the page an unstable merge
  joins it with is another one, of \<open>L\<close>. \<open>freed\<close> is \<open>told\<close> for events that only take pages out of sharing.
\<close>

definition merge_within :: "item_key set \<Rightarrow> item_key set \<Rightarrow> ksm_event_log \<Rightarrow> bool" where
  "merge_within K L e \<longleftrightarrow>
     (case ev_type e of
        DPU_STABLE_MERGE \<Rightarrow> (stable_merge_from_mm_id e, stable_merge_from_va e) \<in> K
      | DPU_UNSTABLE_MERGE \<Rightarrow>
          (unstable_merge_from_mm_id e, unstable_merge_from_va e) \<in> K \<and>
          (unstable_merge_to_mm_id e, unstable_merge_to_va e) \<in>
            L - {(unstable_merge_from_mm_id e, unstable_merge_from_va e)}
      | _ \<Rightarrow> True)"

lemma merge_within_mono: "merge_within K L e \<Longrightarrow> K \<subseteq> K' \<Longrightarrow> L \<subseteq> L' \<Longrightarrow> merge_within K' L' e"
  by (auto simp: merge_within_def split: event_tag.splits)

definition freed ::
  "('t, 'h) server_env \<Rightarrow> ksm_event_log list \<Rightarrow> ksm_log_table \<Rightarrow> ksm_log_table \<Rightarrow> bool" where
  "freed E evs t t' \<longleftrightarrow> told E evs t t' \<and> (\<forall>e \<in> set evs. merge_within {} {} e)"

lemma freed_refl [simp]: "freed E [] t t"
  by (simp add: freed_def)

lemma freed_trans: "freed E es t t' \<Longrightarrow> freed E es' t' t'' \<Longrightarrow> freed E (es @ es') t t''"
  using told_trans by (auto simp: freed_def)

lemma frame_of_cong:
  "items s' = items s \<Longrightarrow> pfn_of s' = pfn_of s \<Longrightarrow> frame_of s' = frame_of s"
  by (rule ext) (simp add: frame_of_def)

lemma pfn_of_nodes: "nodes s' = nodes s \<Longrightarrow> pfn_of s' = pfn_of s"
  by (rule ext) (simp add: pfn_of_def)

lemma pfn_of_set_item: "pfn_of (set_item a it' s) = pfn_of s"
  by (rule pfn_of_nodes) simp

lemma frame_of_upd:
  "pfn_of s' = pfn_of s \<Longrightarrow> items s' = (items s)(a \<mapsto> it') \<Longrightarrow>
   frame_of s' = (frame_of s)(a := item_frame (pfn_of s) it')"
  by (rule ext) (simp add: frame_of_def)

lemma sharing_cong:
  "frame_of s' = frame_of s \<Longrightarrow> rmap_tree s' = rmap_tree s \<Longrightarrow> sharing E s' = sharing E s"
  by (rule ext) (simp add: sharing_def)

lemma sharing_upd:
  assumes "inv_rmap E s" "items s a = Some it" "rmap_tree s' = rmap_tree s"
    and "frame_of s' = (frame_of s)(a := v)"
  shows "sharing E s' = (sharing E s)(item_key it := v)"
proof
  fix k
  have a: "rmap_lookup E s (item_key it) = Some a" using inv_rmap_itemD [OF assms(1,2)] by simp
  show "sharing E s' k = ((sharing E s)(item_key it := v)) k"
  proof (cases "k = item_key it")
    case True
    then show ?thesis using a assms(3,4) by (simp add: sharing_def)
  next
    case False
    have "rmap_lookup E s k \<noteq> Some a" using inv_rmap_lookupD [OF assms(1), of k a] assms(2) False by auto
    then show ?thesis using False assms(3,4)
      by (cases "rmap_lookup E s k") (simp_all add: sharing_def)
  qed
qed

lemma frame_of_shared:
  assumes "nodes s n = Some nd"
  shows "frame_of (shared_state E n nd a it s) = (frame_of s)(a \<mapsto> sn_pfn nd)"
proof -
  have p: "pfn_of (shared_state E n nd a it s) = pfn_of s"
    using assms by (auto simp: pfn_of_def fun_eq_iff)
  have "item_frame (pfn_of s) (share_item n nd it) = Some (sn_pfn nd)"
    using assms by (simp add: item_frame_def pfn_of_def)
  with frame_of_upd [OF p, of a "share_item n nd it"] show ?thesis by simp
qed

lemma frame_of_set_volatile:
  assumes "ri_state it' \<noteq> Stable"
  shows "frame_of (set_item a it' s) = (frame_of s)(a := None)"
  using frame_of_upd [OF pfn_of_set_item, of s a it' a it'] assms by (simp add: item_frame_def)

lemma frame_of_set_item:
  assumes "items s a = Some it" "ri_state it' = ri_state it" "ri_stable_node it' = ri_stable_node it"
  shows "frame_of (set_item a it' s) = frame_of s"
proof -
  have "item_frame (pfn_of s) it' = frame_of s a"
    using assms by (simp add: frame_of_def item_frame_def)
  then show ?thesis
    using frame_of_upd [OF pfn_of_set_item, of s a it' a it'] by simp
qed

text \<open>What detaching an item comes to: one event, and the page is not shared any more.\<close>

definition detached ::
  "('t, 'h) server_env \<Rightarrow> addr \<Rightarrow> rmap_item \<Rightarrow> ('t, 'h) server \<Rightarrow> ('t, 'h) server \<Rightarrow> bool" where
  "detached E a it s s' \<longleftrightarrow>
     (\<exists>h t lt e. s' = s\<lparr>items := (items s)(a \<mapsto> reset_item it), nodes := h, stable_hash_table := t,
          log_table := lt\<rparr> \<and>
        server_inv E s' \<and> freed E [e] (log_table s) lt \<and>
        (\<forall>frame. sharing E s' = apply_event frame e (sharing E s)))"

lemma meta_inv_counted:
  assumes "meta_inv E X Y Z s" and "\<And>n nd. n \<in> Z \<Longrightarrow> nodes s n = Some nd \<Longrightarrow> 0 < sn_shared_cnt nd"
  shows "meta_inv E X Y {} s"
proof -
  have "inv_nodes E X {} s"
    using meta_invD(4) [OF assms(1)] assms(2) unfolding inv_nodes_def by blast
  then show ?thesis using assms(1) by (simp add: meta_inv_def)
qed

definition stale_event :: "rmap_item \<Rightarrow> 't stable_node \<Rightarrow> ksm_event_log" where
  "stale_event it nd = (zero_event_log DPU_STALE_STABLE_NODE)
     \<lparr>ev_i0 := ri_mm_id it, ev_w0 := ri_va it, ev_w1 := sn_pfn nd\<rparr>"

context server_runtime
begin

lemma frame_of_nodes:
  assumes inv: "inv_items E {} s" and "items s' = items s"
    and b: "\<And>m. m \<noteq> n \<Longrightarrow> map_option node_body (nodes s' m) = map_option node_body (nodes s m)"
    and n: "\<And>nd. nodes s n = Some nd \<Longrightarrow> sharing_lookup E nd = Map.empty"
  shows "frame_of s' = frame_of s"
proof
  fix a
  show "frame_of s' a = frame_of s a"
  proof (cases "\<exists>it. items s a = Some it \<and> ri_state it = Stable")
    case True
    then obtain it where it: "items s a = Some it" "ri_state it = Stable" by blast
    from inv_itemsD [OF inv it] obtain m md where m: "ri_stable_node it = Some m"
      "nodes s m = Some md" "sharing_lookup E md (item_key it) = Some a" by blast
    then have "m \<noteq> n" using n by auto
    with b [of m] m(2) obtain md' where "nodes s' m = Some md'" "sn_pfn md' = sn_pfn md"
      using body_eqD by blast
    then show ?thesis using it m assms(2) by (simp add: frame_of_def item_frame_def pfn_of_def)
  next
    case False
    then show ?thesis using assms(2) by (cases "items s a") (auto simp: frame_of_def item_frame_def)
  qed
qed

lemma insert_log_told:
  assumes "log_wf t" "dpu_event (ev_type e)"
  obtains t' where "insert_ksm_log E t e = Inr t'" "told E [e] t t'" "log_wf t'"
proof -
  obtain t' where t': "insert_ksm_log E t e = Inr t'" "log_wf t'"
    "logged t' = logged t @ [e] \<or> realloc_log E (lt_entries t) (lt_capacity t * GROW_FACTOR) = None"
    using insert_ksm_log_cases [OF assms] by blast
  then have "told E [e] t t'" unfolding told_def realloc_never_fails_def by blast
  then show thesis using that t' by blast
qed

section \<open>Breaking a merge\<close>

lemma reset_item_simps [simp]:
  "item_key (reset_item it) = item_key it" "ri_state (reset_item it) = Volatile"
  "ri_old_hash (reset_item it) = null_hash" "ri_mm_id (reset_item it) = ri_mm_id it"
  "ri_va (reset_item it) = ri_va it"
  by (simp_all add: reset_item_def item_key_def)

lemma pfn_of_set_node:
  "nodes s n = Some nd \<Longrightarrow> sn_pfn nd' = sn_pfn nd \<Longrightarrow> pfn_of (set_node n nd' s) = pfn_of s"
  by (auto simp: pfn_of_def fun_eq_iff)

text \<open>The item taken out of its node, before the node is looked at again.\<close>

lemma unlink_item:
  assumes inv: "server_inv E s" and it: "items s a = Some it" "ri_state it = Stable"
    and n: "ri_stable_node it = Some n" "nodes s n = Some nd"
    and s1: "s1 = set_item a (reset_item it) (set_node n (unshare_node E it nd) s)"
  shows "remove_item_from_node E n a s = Inr (set_node n (unshare_node E it nd) s)"
    "reset_item_state a (set_node n (unshare_node E it nd) s) = Inr s1"
    "meta_inv E {} {} {n} s1" "frame_of s1 = (frame_of s)(a := None)"
proof -
  have inv': "meta_inv E {} {} {} s" using inv by (simp add: server_inv_def)
  note r = remove_item_from_node_inv [OF inv' it(1,2) _ n]
  show "remove_item_from_node E n a s = Inr (set_node n (unshare_node E it nd) s)" using r(1) by simp
  show "reset_item_state a (set_node n (unshare_node E it nd) s) = Inr s1"
    using it by (simp add: reset_item_state_def s1)
  have "meta_inv E ({a} - {a}) ({} - {a}) {n} s1"
    unfolding s1 by (rule detached_item_inv [OF r(2), where it = it]) (use it in simp_all)
  then show "meta_inv E {} {} {n} s1" by simp
  have "pfn_of (set_node n (unshare_node E it nd) s) = pfn_of s"
    using n(2) by (rule pfn_of_set_node) simp
  then have "frame_of (set_node n (unshare_node E it nd) s) = frame_of s"
    by (intro frame_of_cong) simp_all
  then show "frame_of s1 = (frame_of s)(a := None)"
    unfolding s1
    using frame_of_set_volatile [of "reset_item it" "set_node n (unshare_node E it nd) s" a] by simp
qed

lemma unlink_item_sharing:
  assumes inv: "server_inv E s" and it: "items s a = Some it" "ri_state it = Stable"
    and n: "ri_stable_node it = Some n" "nodes s n = Some nd"
    and s1: "s1 = set_item a (reset_item it) (set_node n (unshare_node E it nd) s)"
  shows "sharing E s1 = (sharing E s)((ri_mm_id it, ri_va it) := None)"
proof -
  have "inv_rmap E s" using inv by (simp add: server_inv_def meta_inv_def)
  from sharing_upd [OF this it(1) _ unlink_item(4) [OF inv it n s1]] show ?thesis
    by (simp add: s1 item_key_def)
qed

text \<open>Logging and freeing a node without sharers.\<close>

lemma remove_stale_ok:
  assumes inv: "meta_inv E {} {} {n} s" and nd: "nodes s n = Some nd" "sn_shared_cnt nd = 0"
    and it: "items s a = Some it"
  shows "\<exists>h t lt. remove_stale_node_and_log E n a s =
      Inr (s\<lparr>nodes := h, stable_hash_table := t, log_table := lt\<rparr>) \<and>
    server_inv E (s\<lparr>nodes := h, stable_hash_table := t, log_table := lt\<rparr>) \<and>
    freed E [stale_event it nd] (log_table s) lt \<and>
    sharing E (s\<lparr>nodes := h, stable_hash_table := t, log_table := lt\<rparr>) = sharing E s"
proof -
  let ?e = "stale_event it nd"
  have "dpu_event (ev_type ?e)" by (simp add: stale_event_def)
  then obtain lt where lt: "insert_ksm_log E (log_table s) ?e = Inr lt" "told E [?e] (log_table s) lt" "log_wf lt"
    using insert_log_told [OF meta_invD(6) [OF inv]] by blast
  let ?s2 = "s\<lparr>log_table := lt\<rparr>"
  have i2: "meta_inv E {} {} {n} ?s2" by (rule meta_inv_cong [OF inv]) (use lt in simp_all)
  have n2: "nodes ?s2 n = Some nd" using nd by simp
  from remove_stable_node_no_item_inv [OF i2 n2 nd(2)] obtain h t where
    r: "remove_stable_node_no_item E n ?s2 = Inr (?s2\<lparr>nodes := h, stable_hash_table := t\<rparr>)"
      "\<forall>m. m \<noteq> n \<longrightarrow> map_option node_body (h m) = map_option node_body (nodes ?s2 m)"
      "meta_inv E {} {} {} (?s2\<lparr>nodes := h, stable_hash_table := t\<rparr>)"
    unfolding node_removed_def by auto
  let ?s3 = "?s2\<lparr>nodes := h, stable_hash_table := t\<rparr>"
  have "frame_of ?s3 = frame_of ?s2"
    by (rule frame_of_nodes [OF meta_invD(3) [OF i2], of _ n])
      (use r(2) empty_node [OF i2 n2 nd(2)] n2 in auto)
  also have "\<dots> = frame_of s" by (intro frame_of_cong pfn_of_nodes) simp_all
  finally have sh: "sharing E ?s3 = sharing E s" by (rule sharing_cong) simp
  have "?s3 = s\<lparr>nodes := h, stable_hash_table := t, log_table := lt\<rparr>" by simp
  moreover have "remove_stale_node_and_log E n a s = Inr ?s3"
    using nd it lt(1) r(1)
    by (simp add: remove_stale_node_and_log_def log_stale_node_def stale_event_def)
  moreover have "freed E [?e] (log_table s) lt" using lt(2) by (simp add: freed_def merge_within_def stale_event_def)
  ultimately show ?thesis using r(3) sh by (metis server_inv_def)
qed

lemma detach_last_item:
  assumes inv: "server_inv E s" and it: "items s a = Some it" "ri_state it = Stable"
    and n: "ri_stable_node it = Some n" "nodes s n = Some nd" and one: "sn_shared_cnt nd = 1"
  shows "\<exists>s'. detach_item E n a s = Inr s' \<and> detached E a it s s'"
proof -
  define s1 where s1: "s1 = set_item a (reset_item it) (set_node n (unshare_node E it nd) s)"
  note u = unlink_item [OF inv it n s1]
  have s1n: "nodes s1 n = Some (unshare_node E it nd)" "items s1 a = Some (reset_item it)"
    "log_table s1 = log_table s" "sn_shared_cnt (unshare_node E it nd) = 0"
    using one by (simp_all add: s1)
  let ?e = "stale_event (reset_item it) (unshare_node E it nd)"
  from remove_stale_ok [OF u(3) s1n(1,4,2)] obtain h t lt where
    r: "remove_stale_node_and_log E n a s1 = Inr (s1\<lparr>nodes := h, stable_hash_table := t, log_table := lt\<rparr>)"
      "server_inv E (s1\<lparr>nodes := h, stable_hash_table := t, log_table := lt\<rparr>)"
      "freed E [?e] (log_table s1) lt"
      "sharing E (s1\<lparr>nodes := h, stable_hash_table := t, log_table := lt\<rparr>) = sharing E s1"
    by blast
  let ?s3 = "s1\<lparr>nodes := h, stable_hash_table := t, log_table := lt\<rparr>"
  have sh: "sharing E ?s3 = apply_event frame ?e (sharing E s)" for frame
    using unlink_item_sharing [OF inv it n s1] r(4) by (simp add: apply_event_def stale_event_def)
  have run: "detach_item E n a s = Inr ?s3" using u(1,2) s1n r(1) by (simp add: detach_item_def)
  have "?s3 = s\<lparr>items := (items s)(a \<mapsto> reset_item it), nodes := h, stable_hash_table := t, log_table := lt\<rparr>"
    by (simp add: s1)
  then have "detached E a it s ?s3"
    unfolding detached_def using r(2,3) sh s1n(3) by metis
  with run show ?thesis by blast
qed

lemma detach_shared_item:
  assumes inv: "server_inv E s" and it: "items s a = Some it" "ri_state it = Stable"
    and n: "ri_stable_node it = Some n" "nodes s n = Some nd" and more: "1 < sn_shared_cnt nd"
  shows "\<exists>s'. detach_item E n a s = Inr s' \<and> detached E a it s s'"
proof -
  define s1 where s1: "s1 = set_item a (reset_item it) (set_node n (unshare_node E it nd) s)"
  note u = unlink_item [OF inv it n s1]
  have s1n: "nodes s1 n = Some (unshare_node E it nd)" "items s1 a = Some (reset_item it)"
    "log_table s1 = log_table s" "sn_shared_cnt (unshare_node E it nd) = sn_shared_cnt nd - 1"
    by (simp_all add: s1)
  let ?e = "(zero_event_log DPU_ITEM_STATE_CHANGE)\<lparr>ev_i0 := ri_mm_id it, ev_w0 := ri_va it,
      ev_w1 := sn_pfn nd, ev_i1 := sn_shared_cnt nd - 1\<rparr>"
  obtain lt where lt: "insert_ksm_log E (log_table s1) ?e = Inr lt" "told E [?e] (log_table s1) lt" "log_wf lt"
    using insert_log_told [OF meta_invD(6) [OF u(3)], of ?e] by auto
  let ?s2 = "s1\<lparr>log_table := lt\<rparr>"
  have "meta_inv E {} {} {} s1"
    by (rule meta_inv_counted [OF u(3)]) (use s1n more in auto)
  then have i2: "meta_inv E {} {} {} ?s2" by (rule meta_inv_cong) (use lt in simp_all)
  have "frame_of ?s2 = frame_of s1" by (intro frame_of_cong pfn_of_nodes) simp_all
  then have "sharing E ?s2 = sharing E s1" by (rule sharing_cong) simp
  then have sh: "sharing E ?s2 = apply_event frame ?e (sharing E s)" for frame
    using unlink_item_sharing [OF inv it n s1] by (simp add: apply_event_def)
  have run: "detach_item E n a s = Inr ?s2"
    using u(1,2) s1n lt(1) more by (simp add: detach_item_def log_item_state_change_def)
  have "?s2 = s\<lparr>items := (items s)(a \<mapsto> reset_item it), nodes := nodes s1,
      stable_hash_table := stable_hash_table s, log_table := lt\<rparr>"
    by (simp add: s1)
  moreover have "freed E [?e] (log_table s) lt" using lt(2) s1n(3) by (simp add: freed_def merge_within_def)
  ultimately have "detached E a it s ?s2"
    unfolding detached_def using i2 sh by (metis server_inv_def)
  with run show ?thesis by blast
qed

lemma detach_item_ok:
  assumes inv: "server_inv E s" and it: "items s a = Some it" "ri_state it = Stable"
    and n: "ri_stable_node it = Some n"
  shows "\<exists>s'. detach_item E n a s = Inr s' \<and> detached E a it s s'"
proof -
  have d: "inv_items E {} s" "inv_nodes E {} {} s" using inv by (simp_all add: server_inv_def meta_inv_def)
  obtain nd where nd: "nodes s n = Some nd" using inv_itemsD [OF d(1) it] n by auto
  have "0 < sn_shared_cnt nd" using inv_nodesD(4) [OF d(2) nd] by simp
  then consider "sn_shared_cnt nd = 1" | "1 < sn_shared_cnt nd" by linarith
  then show ?thesis
    using detach_last_item [OF inv it n nd] detach_shared_item [OF inv it n nd] by cases
qed

end

end
