(* ===== verification/Merge_Steps.thy ===== *)
theory Merge_Steps
  imports Merge_Correct
begin

text \<open>
  Every branch of \<open>cmp_and_merge_one\<close> keeps the invariant and tells the log what it did.
\<close>

text \<open>
  \<open>advance E frame a evs s s'\<close>: the step from \<open>s\<close> to \<open>s'\<close>, made for the item \<open>a\<close>, keeps
  the invariant and the set of items, logs \<open>evs\<close>, changes the sharing as they say, and leaves
  no other item unstable that was not.
\<close>

definition waiting_keys :: "('t, 'h) server_env \<Rightarrow> addr \<Rightarrow> ('t, 'h) server \<Rightarrow> item_key set" where
  "waiting_keys E a s =
     {k. \<exists>b jt. b \<noteq> a \<and> rmap_lookup E s k = Some b \<and> items s b = Some jt \<and> ri_state jt = Unstable}"

definition advance ::
  "('t, 'h) server_env \<Rightarrow> (item_key \<Rightarrow> u64) \<Rightarrow> addr \<Rightarrow> ksm_event_log list \<Rightarrow>
   ('t, 'h) server \<Rightarrow> ('t, 'h) server \<Rightarrow> bool" where
  "advance E frame a evs s s' \<longleftrightarrow>
     server_inv E s' \<and> told E evs (log_table s) (log_table s') \<and>
     sharing E s' = replay frame evs (sharing E s) \<and>
     rmap_tree s' = rmap_tree s \<and> iteration s' = iteration s \<and>
     (\<forall>b jt'. b \<noteq> a \<and> items s' b = Some jt' \<and> ri_state jt' = Unstable \<longrightarrow>
        (\<exists>jt. items s b = Some jt \<and> ri_state jt = Unstable)) \<and>
     (\<forall>e \<in> set evs. merge_within {k. rmap_lookup E s k = Some a} (waiting_keys E a s) e)"

lemma advanceI:
  assumes "server_inv E s'" "told E evs (log_table s) (log_table s')"
    and "sharing E s' = replay frame evs (sharing E s)"
    and "rmap_tree s' = rmap_tree s" "iteration s' = iteration s"
    and "\<And>b jt'. b \<noteq> a \<Longrightarrow> items s' b = Some jt' \<Longrightarrow> ri_state jt' = Unstable \<Longrightarrow>
      \<exists>jt. items s b = Some jt \<and> ri_state jt = Unstable"
    and "\<forall>e \<in> set evs. merge_within {k. rmap_lookup E s k = Some a} (waiting_keys E a s) e"
  shows "advance E frame a evs s s'"
  using assms unfolding advance_def by blast

lemma advanceD:
  assumes "advance E frame a evs s s'"
  shows "server_inv E s'" "told E evs (log_table s) (log_table s')"
    "sharing E s' = replay frame evs (sharing E s)" "rmap_tree s' = rmap_tree s"
    "iteration s' = iteration s"
    "b \<noteq> a \<Longrightarrow> items s' b = Some jt' \<Longrightarrow> ri_state jt' = Unstable \<Longrightarrow>
      \<exists>jt. items s b = Some jt \<and> ri_state jt = Unstable"
    "\<forall>e \<in> set evs. merge_within {k. rmap_lookup E s k = Some a} (waiting_keys E a s) e"
  using assms unfolding advance_def by blast+

lemma advance_trans:
  assumes "advance E frame a es s s'" "advance E frame a es' s' s''"
  shows "advance E frame a (es @ es') s s''"
proof (rule advanceI)
  show "told E (es @ es') (log_table s) (log_table s'')"
    using told_trans [OF advanceD(2) [OF assms(1)] advanceD(2) [OF assms(2)]] .
  fix b jt' assume b: "b \<noteq> a" "items s'' b = Some jt'" "ri_state jt' = Unstable"
  from advanceD(6) [OF assms(2) b] obtain jt where "items s' b = Some jt" "ri_state jt = Unstable" by blast
  from advanceD(6) [OF assms(1) b(1) this] show "\<exists>jt. items s b = Some jt \<and> ri_state jt = Unstable" .
next
  have "waiting_keys E a s' \<subseteq> waiting_keys E a s"
    using advanceD(6) [OF assms(1)] advanceD(4) [OF assms(1)] by (auto simp: waiting_keys_def)
  then show "\<forall>e \<in> set (es @ es'). merge_within {k. rmap_lookup E s k = Some a} (waiting_keys E a s) e"
    using advanceD(7) [OF assms(1)] advanceD(7) [OF assms(2)] advanceD(4) [OF assms(1)]
    by (auto intro: merge_within_mono)
qed (use advanceD [OF assms(1)] advanceD [OF assms(2)] in simp_all)

lemma server_invD: "server_inv E s \<Longrightarrow> meta_inv E {} {} {} s"
  by (simp add: server_inv_def)

lemma advance_same:
  assumes "server_inv E s" and "items s' = items s" and "nodes s' = nodes s"
    and "rmap_tree s' = rmap_tree s" and "stable_hash_table s' = stable_hash_table s"
    and "unstable_hash_table s' = unstable_hash_table s" and "log_table s' = log_table s"
    and "iteration s' = iteration s"
  shows "advance E frame a [] s s'"
proof (rule advanceI)
  show "server_inv E s'" unfolding server_inv_def
    by (rule meta_inv_cong [OF server_invD [OF assms(1)]])
      (use assms meta_invD(6) [OF server_invD [OF assms(1)]] in simp_all)
  have "sharing E s' = sharing E s"
    by (intro sharing_cong frame_of_cong pfn_of_nodes) (use assms in simp_all)
  then show "sharing E s' = replay frame [] (sharing E s)" by simp
qed (use assms in simp_all)

text \<open>The item itself may change in what the invariant does not speak of.\<close>

lemma advance_set_item:
  assumes inv: "server_inv E s" and it: "items s a = Some it"
    and k: "item_key it' = item_key it" and st: "ri_state it' = ri_state it"
    and sn: "ri_stable_node it' = ri_stable_node it"
    and h: "ri_state it = Volatile \<or> ri_old_hash it' = ri_old_hash it"
  shows "advance E frame a [] s (set_item a it' s)"
proof (rule advanceI)
  show "server_inv E (set_item a it' s)" unfolding server_inv_def
    by (rule meta_inv_set_item [OF server_invD [OF inv] it k st sn h])
  have "sharing E (set_item a it' s) = sharing E s"
    by (intro sharing_cong frame_of_set_item [OF it st sn]) simp
  then show "sharing E (set_item a it' s) = replay frame [] (sharing E s)" by simp
qed simp_all

lemma meta_inv_unstable:
  assumes "meta_inv E X Y Z s" and "inv_unstable E Y' s'" and "items s' = items s"
    and "nodes s' = nodes s" and "rmap_tree s' = rmap_tree s"
    and "stable_hash_table s' = stable_hash_table s" and "log_table s' = log_table s"
  shows "meta_inv E X Y' Z s'"
  using assms(1,2) unfolding meta_inv_def inv_rmap_def inv_items_def inv_nodes_def inv_chain_def
    assms(3-7) by blast

lemma inv_nodes_item:
  assumes inv: "inv_nodes E X Z s" and it: "items s a = Some it" "ri_state it \<noteq> Stable"
    and s': "items s' = (items s)(a \<mapsto> it')" "nodes s' = nodes s"
  shows "inv_nodes E X Z s'"
proof (rule inv_nodesI)
  fix n nd k b assume n: "nodes s' n = Some nd" "sharing_lookup E nd k = Some b"
  from inv_nodes_entryD [OF inv _ n(2), of n] n(1) s'(2) obtain jt where
    "b \<notin> X" "items s b = Some jt" "item_key jt = k" "ri_state jt = Stable" "ri_stable_node jt = Some n"
    by auto
  moreover from this it have "b \<noteq> a" by auto
  ultimately show "b \<notin> X \<and> (\<exists>jt. items s' b = Some jt \<and> item_key jt = k \<and> ri_state jt = Stable \<and>
      ri_stable_node jt = Some n)" using s'(1) by simp
qed (use inv_nodesD [OF inv] s'(2) in simp_all)

text \<open>
  The events of a merge, and the one that the scan of an unchanged volatile page logs: it depends
  on the first node with room in the chain of its hash, and on the item that waits in the unstable
  table.
\<close>

definition stable_event :: "rmap_item \<Rightarrow> 't stable_node \<Rightarrow> ksm_event_log" where
  "stable_event it nd = (zero_event_log DPU_STABLE_MERGE)\<lparr>ev_i0 := ri_mm_id it, ev_w0 := ri_va it,
     ev_w1 := sn_pfn nd, ev_i1 := sn_shared_cnt nd + 1\<rparr>"

definition unstable_event :: "rmap_item \<Rightarrow> rmap_item \<Rightarrow> ksm_event_log" where
  "unstable_event it uit = (zero_event_log DPU_UNSTABLE_MERGE)\<lparr>ev_i0 := ri_mm_id it, ev_w0 := ri_va it,
     ev_i1 := ri_mm_id uit, ev_w1 := ri_va uit\<rparr>"

definition waiting_events ::
  "('t, 'h) server_env \<Rightarrow> hash_pair \<Rightarrow> rmap_item \<Rightarrow> ('t, 'h) server \<Rightarrow> ksm_event_log list" where
  "waiting_events E hash it s =
     (case Option.bind (unstable_lookup E s hash) (items s) of
        Some uit \<Rightarrow> [unstable_event it uit] | None \<Rightarrow> [])"

definition partner_events ::
  "('t, 'h) server_env \<Rightarrow> hash_pair \<Rightarrow> rmap_item \<Rightarrow> ('t, 'h) server \<Rightarrow> ksm_event_log list" where
  "partner_events E hash it s =
     (case cmp_with_stable E hash s of
        Inr (Some n) \<Rightarrow> (case nodes s n of Some nd \<Rightarrow> [stable_event it nd] | None \<Rightarrow> [])
      | _ \<Rightarrow> waiting_events E hash it s)"

text \<open>A page is searched for when it is not skipped and has kept its contents.\<close>

definition searches :: "hash_pair \<Rightarrow> rmap_item \<Rightarrow> ('t, 'h) server \<Rightarrow> bool" where
  "searches hash it s \<longleftrightarrow>
     \<not> fst (should_skip_item (smart_scan_opt s) (it\<lparr>ri_age := ri_age it + 1\<rparr>)) \<and> ri_old_hash it = hash"

definition scan_events ::
  "('t, 'h) server_env \<Rightarrow> hash_pair \<Rightarrow> rmap_item \<Rightarrow> ('t, 'h) server \<Rightarrow> ksm_event_log list" where
  "scan_events E hash it s = (if searches hash it s then partner_events E hash it s else [])"

text \<open>An item in the unstable table.\<close>

definition waits :: "('t, 'h) server \<Rightarrow> addr \<Rightarrow> hash_pair \<Rightarrow> bool" where
  "waits s a hash \<longleftrightarrow>
     (\<exists>it. items s a = Some it \<and> ri_state it = Unstable \<and> ri_old_hash it = hash)"

context server_runtime
begin

section \<open>Breaking and refreshing\<close>

lemma detached_advance:
  assumes "detached E a it s s'"
  shows "\<exists>e. advance E frame a [e] s s' \<and> items s' a = Some (reset_item it)"
proof -
  obtain h t lt e where d: "s' = s\<lparr>items := (items s)(a \<mapsto> reset_item it), nodes := h,
      stable_hash_table := t, log_table := lt\<rparr>" "server_inv E s'" "told E [e] (log_table s) lt"
      "sharing E s' = apply_event frame e (sharing E s)" "merge_within {} {} e"
    using assms unfolding detached_def freed_def by auto
  have "advance E frame a [e] s s'"
    by (rule advanceI) (use d merge_within_mono [OF d(5)] in auto)
  with d(1) show ?thesis by auto
qed

lemma break_merge_ok:
  assumes inv: "server_inv E s" and it: "items s a = Some it" "ri_state it = Stable"
    and n: "ri_stable_node it = Some n"
  shows "\<exists>s' e it'. break_merge E n a s = Inr s' \<and> advance E frame a [e] s s' \<and>
    items s' a = Some it' \<and> ri_state it' = Volatile \<and> ri_old_hash it' = null_hash \<and>
    item_key it' = item_key it"
proof -
  obtain s1 where s1: "detach_item E n a s = Inr s1" "detached E a it s s1"
    using detach_item_ok [OF assms] by blast
  from detached_advance [OF s1(2)] obtain e where
    e: "advance E frame a [e] s s1" "items s1 a = Some (reset_item it)" by blast
  let ?it = "(reset_item it)\<lparr>ri_volatility_score := ri_volatility_score (reset_item it) + 1\<rparr>"
  let ?s = "(set_item a ?it s1)\<lparr>broken_merges := broken_merges s1 + 1\<rparr>"
  have 1: "advance E frame a [] s1 (set_item a ?it s1)"
    by (rule advance_set_item [OF advanceD(1) [OF e(1)] e(2)]) (simp_all add: item_key_def)
  have "advance E frame a [] (set_item a ?it s1) ?s"
    by (rule advance_same [OF advanceD(1) [OF 1]]) simp_all
  from advance_trans [OF advance_trans [OF e(1) 1] this] have "advance E frame a [e] s ?s" by simp
  moreover have "break_merge E n a s = Inr ?s" using s1 e by (simp add: break_merge_def)
  moreover have "item_key ?it = item_key it" by (simp add: item_key_def reset_item_def)
  ultimately show ?thesis by (intro exI [of _ ?s] exI [of _ e] exI [of _ ?it]) simp
qed

lemma frame_of_rehashed: "frame_of (rehashed E old xs hash s) = frame_of s"
proof -
  have p: "pfn_of (rehashed E old xs hash s) = pfn_of s"
    by (auto simp: pfn_of_def rehashed_def rehash_nodes_def fun_eq_iff option.map_comp comp_def)
  show ?thesis
  proof
    fix a
    have "items (rehashed E old xs hash s) a = rehash_items hash (sharers E (nodes s) (set xs)) (items s) a"
      by (simp add: rehashed_def)
    then show "frame_of (rehashed E old xs hash s) a = frame_of s a"
      by (cases "items s a") (simp_all add: frame_of_def p rehash_items_def item_frame_def)
  qed
qed

lemma rehash_chain_advance:
  assumes inv: "server_inv E s" and xs: "chain (nodes s) xs" and nd: "nodes s (hd xs) = Some nd"
  shows "rehash_chain E hash (hd xs) s = Inr (rehashed E (sn_page_hash nd) xs hash s)"
    "advance E frame a [] s (rehashed E (sn_page_hash nd) xs hash s)"
proof -
  note r = rehash_chain_inv [OF server_invD [OF inv] xs nd, of hash]
  show "rehash_chain E hash (hd xs) s = Inr (rehashed E (sn_page_hash nd) xs hash s)" by (rule r(1))
  let ?s = "rehashed E (sn_page_hash nd) xs hash s"
  show "advance E frame a [] s ?s"
  proof (rule advanceI)
    show "server_inv E ?s" using r(2) by (simp add: server_inv_def)
    have "sharing E ?s = sharing E s" by (rule sharing_cong [OF frame_of_rehashed]) simp
    then show "sharing E ?s = replay frame [] (sharing E s)" by simp
    show "iteration ?s = iteration s" by (simp add: rehashed_def)
    fix b jt' assume "items ?s b = Some jt'" "ri_state jt' = Unstable"
    with rehashed_item_old show "\<exists>jt. items s b = Some jt \<and> ri_state jt = Unstable" by metis
  qed simp_all
qed

lemma refresh_stable_ok:
  assumes inv: "server_inv E s" and it: "items s a = Some it" "ri_state it = Stable"
    and n: "ri_stable_node it = Some n"
  shows "\<exists>s' it'. refresh_stable E hash n a s = Inr s' \<and> advance E frame a [] s s' \<and>
    items s' a = Some it' \<and> ri_state it' = Stable \<and> ri_old_hash it' = hash \<and>
    ri_stable_node it' = Some n \<and> item_key it' = item_key it"
proof -
  note d = meta_invD [OF server_invD [OF inv]]
  obtain nd where nd: "nodes s n = Some nd" "ri_old_hash it = sn_page_hash nd"
    using inv_itemsD [OF d(3) it] n by auto
  obtain xs where xs: "chain (nodes s) xs" "n \<in> set xs" using inv_chain_nodeD [OF d(5) nd(1)] by blast
  obtain hd_nd where hd: "nodes s (hd xs) = Some hd_nd"
    using chain_mem_live [OF xs(1), of "hd xs"] xs by (auto simp: chain_def)
  show ?thesis
  proof (cases "hash = ri_old_hash it")
    case True
    have "advance E frame a [] s s" by (rule advance_same [OF inv]) simp_all
    moreover have "refresh_stable E hash n a s = Inr s" using it nd True by (simp add: refresh_stable_def)
    ultimately show ?thesis using it n True by auto
  next
    case False
    let ?s = "rehashed E (sn_page_hash hd_nd) xs hash s"
    note r = rehash_chain_advance(1) [OF inv xs(1) hd]
      rehash_chain_advance(2) [OF inv xs(1) hd, where hash = hash and a = a and frame = frame]
    obtain as bs where split: "xs = as @ n # bs" using xs(2) by (meson split_list)
    note l = chain_at [OF xs(1) [unfolded split] nd(1)]
    have "refresh_stable E hash n a s = rehash_chain E hash (hd xs) s"
    proof (cases as)
      case Nil
      then show ?thesis using it nd False l split by (simp add: refresh_stable_def)
    next
      case (Cons x as')
      have "sn_type hd_nd = HEAD"
        using chain_at(3) [of "nodes s" "[]" x "as' @ n # bs" hd_nd] xs(1) hd split Cons by simp
      moreover have "sn_prev nd \<noteq> None" using l(1) last_of_ne [of as None] Cons by simp
      ultimately show ?thesis
        using it nd False l hd chain_head_chain [OF xs] Cons by (simp add: refresh_stable_def)
    qed
    moreover have "a \<in> sharers E (nodes s) (set xs)"
      using sharer_iff [OF server_invD [OF inv] it(1)] it(2) n xs(2) by simp
    ultimately show ?thesis
      using r(1) [of hash] r(2) rehashed_item_new [OF it(1), of E "sn_page_hash hd_nd" xs hash] it n
      by auto
  qed
qed

section \<open>Joining a stable node\<close>

lemma join_stable_ok:
  assumes inv: "server_inv E s" and it: "items s a = Some it" "ri_state it = Volatile"
    and nd: "nodes s n = Some nd" "sn_shared_cnt nd < MAX_PAGE_SHARING"
  shows "\<exists>s' it'. join_stable E n a s = Inr s' \<and> advance E frame a [stable_event it nd] s s' \<and>
    items s' a = Some it' \<and> ri_state it' = Stable \<and> ri_stable_node it' = Some n"
proof -
  note inv' = server_invD [OF inv]
  note i = insert_item_to_node_inv [OF inv' it(1) _ _ nd]
  let ?s1 = "shared_state E n nd a it s"
  have run1: "insert_item_to_node E n a s = Inr ?s1" and inv1: "meta_inv E {} {} {} ?s1"
    using i it(2) by simp_all
  let ?e = "stable_event it nd"
  obtain lt where lt: "insert_ksm_log E (log_table ?s1) ?e = Inr lt" "told E [?e] (log_table ?s1) lt" "log_wf lt"
    using insert_log_told [OF meta_invD(6) [OF inv1], of ?e] by (auto simp: stable_event_def)
  let ?s = "?s1\<lparr>log_table := lt\<rparr>"
  have "item_key (share_item n nd it) = item_key it" by simp
  then have "ri_mm_id (share_item n nd it) = ri_mm_id it" "ri_va (share_item n nd it) = ri_va it"
    by (simp_all add: item_key_def)
  then have run: "join_stable E n a s = Inr ?s"
    using run1 lt(1) by (simp add: join_stable_def log_stable_merge_def stable_event_def)
  have "frame_of ?s = (frame_of s)(a \<mapsto> sn_pfn nd)"
    using frame_of_shared [OF nd(1), of E a it] frame_of_cong [of ?s ?s1] pfn_of_nodes [of ?s ?s1] by simp
  from sharing_upd [OF meta_invD(1) [OF inv'] it(1) _ this]
  have sh: "sharing E ?s = replay frame [?e] (sharing E s)"
    by (simp add: apply_event_def item_key_def stable_event_def)
  have "advance E frame a [?e] s ?s"
  proof (rule advanceI)
    show "server_inv E ?s" unfolding server_inv_def
      by (rule meta_inv_cong [OF inv1]) (use lt in simp_all)
    show "sharing E ?s = replay frame [?e] (sharing E s)" by (rule sh)
    show "\<forall>e \<in> set [?e]. merge_within {k. rmap_lookup E s k = Some a} (waiting_keys E a s) e"
      using inv_rmap_itemD [OF meta_invD(1) [OF inv'] it(1)] by (simp add: merge_within_def stable_event_def item_key_def)
  qed (use lt in \<open>auto simp: shared_state_def\<close>)
  with run show ?thesis by (intro exI [of _ ?s] exI [of _ "share_item n nd it"]) simp
qed

section \<open>The unstable table\<close>

lemma cmp_with_unstable_ok:
  assumes inv: "server_inv E s" and it: "items s a = Some it"
  shows "cmp_with_unstable E a s = Inr (None, s) \<and> unstable_lookup E s (ri_old_hash it) = None \<or>
    (\<exists>u t uit. cmp_with_unstable E a s = Inr (Some u, s\<lparr>unstable_hash_table := t\<rparr>) \<and>
       meta_inv E {} {u} {} (s\<lparr>unstable_hash_table := t\<rparr>) \<and>
       items s u = Some uit \<and> ri_state uit = Unstable \<and> unstable_lookup E s (ri_old_hash it) = Some u)"
proof (cases "unstable_lookup E s (ri_old_hash it)")
  case None
  then show ?thesis using it by (simp add: cmp_with_unstable_def)
next
  case (Some u)
  note d = meta_invD [OF server_invD [OF inv]]
  obtain uit where u: "items s u = Some uit" "ri_state uit = Unstable" "ri_old_hash uit = ri_old_hash it"
    using inv_unstable_lookupD [OF d(2) Some] by blast
  let ?t = "g_remove (hash_ops E) (unstable_hash_table s) (ri_old_hash it)"
  let ?s = "s\<lparr>unstable_hash_table := ?t\<rparr>"
  have run: "cmp_with_unstable E a s = Inr (Some u, ?s)"
    using it Some u by (simp add: cmp_with_unstable_def)
  note wf = inv_unstable_wf [OF d(2)]
  have look: "unstable_lookup E ?s = (unstable_lookup E s)(ri_old_hash it := None)"
    using hash.lookup_remove [OF wf] by simp
  have "inv_unstable E {u} ?s"
  proof (rule inv_unstableI)
    show "g_wf (hash_ops E) (unstable_hash_table ?s)" using hash.wf_remove [OF wf] by simp
  next
    fix h b assume "unstable_lookup E ?s h = Some b"
    then have h: "h \<noteq> ri_old_hash it" "unstable_lookup E s h = Some b" using look by (auto split: if_splits)
    from inv_unstable_lookupD [OF d(2) h(2)] h(1) u
    show "b \<notin> {u} \<and> (\<exists>jt. items ?s b = Some jt \<and> ri_state jt = Unstable \<and> ri_old_hash jt = h)" by auto
  next
    fix b jt assume b: "items ?s b = Some jt" "ri_state jt = Unstable" "b \<notin> {u}"
    then have "unstable_lookup E s (ri_old_hash jt) = Some b" using inv_unstable_itemD [OF d(2)] by simp
    then show "unstable_lookup E ?s (ri_old_hash jt) = Some b" using look b(3) Some by auto
  qed
  then have "meta_inv E {} {u} {} ?s"
    by (rule meta_inv_unstable [OF server_invD [OF inv]]) simp_all
  then show ?thesis using run u Some by blast
qed

lemma become_unstable_ok:
  assumes inv: "server_inv E s" and it: "items s a = Some it" "ri_state it = Volatile"
    and free: "unstable_lookup E s hash = None"
  shows "\<exists>s' it'. become_unstable E hash a s = Inr (0, s') \<and> advance E frame a [] s s' \<and>
    items s' a = Some it' \<and> ri_state it' = Unstable \<and> ri_old_hash it' = hash"
proof -
  note d = meta_invD [OF server_invD [OF inv]]
  let ?it = "it\<lparr>ri_old_hash := hash, ri_state := Unstable\<rparr>"
  let ?t = "g_insert (hash_ops E) (unstable_hash_table s) hash a"
  let ?s = "(set_item a ?it s)\<lparr>unstable_hash_table := ?t\<rparr>"
  have key: "item_key ?it = item_key it" by (simp add: item_key_def)
  have run: "become_unstable E hash a s = Inr (0, ?s)"
    using it free by (simp add: become_unstable_def insert_unstable_node_def)
  note wf = inv_unstable_wf [OF d(2)]
  have look: "unstable_lookup E ?s = (unstable_lookup E s)(hash \<mapsto> a)"
    using hash.lookup_insert [OF wf] by simp
  have "inv_unstable E {} ?s"
  proof (rule inv_unstableI)
    show "g_wf (hash_ops E) (unstable_hash_table ?s)" using hash.wf_insert [OF wf] by simp
  next
    fix h b assume "unstable_lookup E ?s h = Some b"
    then have "(h = hash \<and> b = a) \<or> unstable_lookup E s h = Some b"
      unfolding look by (auto split: if_splits)
    then consider "h = hash" "b = a" | "unstable_lookup E s h = Some b" by blast
    then show "b \<notin> {} \<and> (\<exists>jt. items ?s b = Some jt \<and> ri_state jt = Unstable \<and> ri_old_hash jt = h)"
      using inv_unstable_lookupD [OF d(2), of h b] it by cases auto
  next
    fix b jt assume b: "items ?s b = Some jt" "ri_state jt = Unstable"
    show "unstable_lookup E ?s (ri_old_hash jt) = Some b"
    proof (cases "b = a")
      case False
      with b have "unstable_lookup E s (ri_old_hash jt) = Some b"
        using inv_unstable_itemD [OF d(2), of b jt] by simp
      moreover from this free have "ri_old_hash jt \<noteq> hash" by auto
      ultimately show ?thesis unfolding look by simp
    next
      case True
      with b have "ri_old_hash jt = hash" by auto
      then show ?thesis unfolding look using True by simp
    qed
  qed
  moreover have "inv_rmap E ?s" by (rule inv_rmap_upd [OF d(1) it(1) key]) simp_all
  moreover have "inv_items E {} ?s"
  proof (rule inv_itemsI)
    fix b jt assume b: "items ?s b = Some jt" "ri_state jt = Stable"
    then have "b \<noteq> a" by auto
    with b have "items s b = Some jt" by simp
    from inv_itemsD [OF d(3) this b(2)] show "\<exists>n nd. ri_stable_node jt = Some n \<and>
        nodes ?s n = Some nd \<and> sharing_lookup E nd (item_key jt) = Some b \<and>
        ri_old_hash jt = sn_page_hash nd" by simp
  qed
  moreover have "inv_nodes E {} {} ?s"
    by (rule inv_nodes_item [OF d(4) it(1)]) (use it(2) in simp_all)
  moreover have "inv_chain E ?s" by (rule inv_chain_same_links [OF d(5)]) simp_all
  ultimately have inv': "server_inv E ?s" using d(6) by (simp add: server_inv_def meta_inv_def)
  have "frame_of ?s = frame_of s"
  proof -
    have "frame_of s a = None" using it by (simp add: frame_of_def item_frame_def)
    moreover have "frame_of ?s = frame_of (set_item a ?it s)"
      by (intro frame_of_cong pfn_of_nodes) simp_all
    ultimately show ?thesis using frame_of_set_volatile [of ?it s a] by (simp add: fun_upd_idem)
  qed
  then have "sharing E ?s = sharing E s" by (rule sharing_cong) simp
  then have "advance E frame a [] s ?s" by (intro advanceI) (use inv' in \<open>auto split: if_splits\<close>)
  with run show ?thesis by (intro exI [of _ ?s] exI [of _ ?it]) simp
qed

section \<open>Promoting two items\<close>

lemma new_stable_node_empty:
  "g_wf (tree_ops E) (sn_sharing_item_tree (new_stable_node E hash pfn))"
  "sharing_lookup E (new_stable_node E hash pfn) = Map.empty"
  "sn_shared_cnt (new_stable_node E hash pfn) = 0"
  by (simp_all add: new_stable_node_def tree.wf_new tree.lookup_new fun_eq_iff)

text \<open>The two insertions into the new node.\<close>

lemma share_two:
  assumes inv: "meta_inv E {} {u} {n} s" and nd: "nodes s n = Some nd" "sn_shared_cnt nd = 0"
    and u: "items s u = Some uit" "ri_state uit = Unstable"
    and a: "items s a = Some it" "ri_state it = Volatile"
  shows "\<exists>s'. rbind (insert_item_to_node E n u s) (insert_item_to_node E n a) = Inr s' \<and>
    meta_inv E {} {} {} s' \<and>
    sharing E s' = (sharing E s)(item_key it \<mapsto> sn_pfn nd, item_key uit \<mapsto> sn_pfn nd) \<and>
    items s' = (items s)(a \<mapsto> share_item n nd it, u \<mapsto> share_item n nd uit) \<and>
    log_table s' = log_table s \<and> rmap_tree s' = rmap_tree s \<and> iteration s' = iteration s"
proof -
  have ne: "u \<noteq> a" using u a by auto
  let ?s1 = "shared_state E n nd u uit s" and ?nd = "share_node E uit u nd"
  have 1: "insert_item_to_node E n u s = Inr ?s1" "meta_inv E {} {} {} ?s1"
    using insert_item_to_node_inv [OF inv u(1) _ _ nd(1)] u nd(2) by (simp_all add: MAX_PAGE_SHARING_def)
  have a1: "items ?s1 a = Some it" "nodes ?s1 n = Some ?nd" using a ne by simp_all
  let ?s2 = "shared_state E n ?nd a it ?s1"
  have 2: "insert_item_to_node E n a ?s1 = Inr ?s2" "meta_inv E {} {} {} ?s2"
    using insert_item_to_node_inv [OF 1(2) a1(1) _ _ a1(2)] a nd(2) by (simp_all add: MAX_PAGE_SHARING_def)
  have "sharing E ?s1 = (sharing E s)(item_key uit \<mapsto> sn_pfn nd)"
    by (rule sharing_upd [OF meta_invD(1) [OF inv] u(1)]) (simp_all add: frame_of_shared [OF nd(1)])
  moreover have "sharing E ?s2 = (sharing E ?s1)(item_key it \<mapsto> sn_pfn nd)"
    by (rule sharing_upd [OF meta_invD(1) [OF 1(2)] a1(1)]) (simp_all add: frame_of_shared [OF a1(2)])
  moreover have "item_key uit \<noteq> item_key it"
    using inv_rmap_inj [OF meta_invD(1) [OF inv] u(1) a(1)] ne by blast
  ultimately have sh: "sharing E ?s2 = (sharing E s)(item_key it \<mapsto> sn_pfn nd, item_key uit \<mapsto> sn_pfn nd)"
    by (simp add: fun_upd_twist)
  have it: "items ?s2 = (items s)(a \<mapsto> share_item n nd it, u \<mapsto> share_item n nd uit)"
    using ne by (simp add: share_item_def fun_upd_twist)
  have "log_table ?s2 = log_table s" "rmap_tree ?s2 = rmap_tree s" "iteration ?s2 = iteration s"
    by (simp_all add: shared_state_def)
  with 1(1) 2 sh it show ?thesis by (intro exI [of _ ?s2]) simp
qed

lemma promote_unstable_ok:
  assumes inv: "meta_inv E {} {u} {} s" and u: "items s u = Some uit" "ri_state uit = Unstable"
    and a: "items s a = Some it" "ri_state it = Volatile" and frame: "frame (item_key it) = ri_pfn it"
    and n: "malloc_node E (nodes s) = Some n"
  shows "\<exists>s'. promote_unstable E hash u a s = Inr (0, s') \<and> advance E frame a [unstable_event it uit] s s' \<and>
    (\<exists>nd :: 't stable_node. items s' = (items s)(a \<mapsto> share_item n nd it, u \<mapsto> share_item n nd uit) \<and>
       sn_page_hash nd = hash \<and> sn_pfn nd = ri_pfn it)"
proof -
  let ?new = "new_stable_node E hash (ri_pfn it)"
  have fresh: "nodes s n = None" using malloc_node_fresh [OF n] .
  from insert_stable_node_inv [OF inv fresh new_stable_node_empty, of hash "ri_pfn it"]
  obtain h t nd where 1: "insert_stable_node E n (set_node n ?new s) = Inr (s\<lparr>nodes := h, stable_hash_table := t\<rparr>)"
    "h n = Some nd" "node_body nd = node_body ?new"
    "\<forall>m. m \<noteq> n \<longrightarrow> map_option node_body (h m) = map_option node_body (nodes s m)"
    "meta_inv E {} {u} {n} (s\<lparr>nodes := h, stable_hash_table := t\<rparr>)" by blast
  let ?s1 = "s\<lparr>nodes := h, stable_hash_table := t\<rparr>"
  have nd: "sn_shared_cnt nd = 0" "sn_pfn nd = ri_pfn it" "sn_page_hash nd = hash"
    using 1(3) by (simp_all add: node_body_def new_stable_node_def)
  have "frame_of ?s1 = frame_of s"
    by (rule frame_of_nodes [OF meta_invD(3) [OF inv], of _ n]) (use 1(4) fresh in auto)
  then have sh1: "sharing E ?s1 = sharing E s" by (rule sharing_cong) simp
  from share_two [OF 1(5) _ nd(1), of uit a it] u a 1(2) obtain s2 where
    2: "rbind (insert_item_to_node E n u ?s1) (insert_item_to_node E n a) = Inr s2"
      "meta_inv E {} {} {} s2"
      "sharing E s2 = (sharing E ?s1)(item_key it \<mapsto> sn_pfn nd, item_key uit \<mapsto> sn_pfn nd)"
      "items s2 = (items ?s1)(a \<mapsto> share_item n nd it, u \<mapsto> share_item n nd uit)"
      "log_table s2 = log_table ?s1" "rmap_tree s2 = rmap_tree ?s1" "iteration s2 = iteration ?s1"
    by auto
  have keys: "ri_mm_id (share_item n nd x) = ri_mm_id x" "ri_va (share_item n nd x) = ri_va x" for x
    by (simp_all add: share_item_def)
  let ?e = "unstable_event it uit"
  obtain lt where lt: "insert_ksm_log E (log_table s2) ?e = Inr lt" "told E [?e] (log_table s2) lt" "log_wf lt"
    using insert_log_told [OF meta_invD(6) [OF 2(2)], of ?e] by (auto simp: unstable_event_def)
  have ne: "u \<noteq> a" using u a by auto
  let ?s = "s2\<lparr>log_table := lt\<rparr>"
  have run: "promote_unstable E hash u a s = Inr (0, ?s)"
    using 1(1) 2(1,4) lt(1) n a ne keys
    by (auto simp: promote_unstable_def log_unstable_merge_def rbind_eq_Inr unstable_event_def)
  have "sharing E ?s = sharing E s2" by (intro sharing_cong frame_of_cong pfn_of_nodes) simp_all
  then have sh: "sharing E ?s = replay frame [?e] (sharing E s)"
    using 2(3) sh1 nd frame by (simp add: apply_event_def Let_def item_key_def unstable_event_def)
  have "advance E frame a [?e] s ?s"
  proof (rule advanceI)
    show "server_inv E ?s" unfolding server_inv_def
      by (rule meta_inv_cong [OF 2(2)]) (use lt in simp_all)
    fix b jt' assume "b \<noteq> a" "items ?s b = Some jt'" "ri_state jt' = Unstable"
    then show "\<exists>jt. items s b = Some jt \<and> ri_state jt = Unstable" using 2(4) by (cases "b = u") auto
  next
    note k = inv_rmap_itemD [OF meta_invD(1) [OF inv]]
    have "rmap_lookup E s (item_key it) = Some a" "rmap_lookup E s (item_key uit) = Some u" using k [OF a(1)] k [OF u(1)] by simp_all
    moreover from this have "item_key uit \<noteq> item_key it" using ne by auto
    ultimately show "\<forall>e \<in> set [?e]. merge_within {k. rmap_lookup E s k = Some a} (waiting_keys E a s) e"
      using u ne by (auto simp: merge_within_def unstable_event_def item_key_def waiting_keys_def)
  qed (use lt sh 2 in simp_all)
  with run 2(4) nd show ?thesis
    by (intro exI [of _ ?s] conjI exI [of _ nd]) simp_all
qed

section \<open>The search for a partner\<close>

lemma cmp_with_stable_ok:
  assumes inv: "server_inv E s"
  shows "\<exists>r. cmp_with_stable E hash s = Inr r \<and>
    (\<forall>n. r = Some n \<longrightarrow> (\<exists>nd. nodes s n = Some nd \<and> sn_shared_cnt nd < MAX_PAGE_SHARING \<and>
       sn_page_hash nd = hash))"
proof (cases "stable_lookup E s hash")
  case None
  then show ?thesis by (simp add: cmp_with_stable_def)
next
  case (Some m)
  note c = meta_invD(5) [OF server_invD [OF inv]]
  obtain md where md: "nodes s m = Some md" "sn_page_hash md = hash" "sn_prev md = None"
    using inv_chain_lookupD [OF c Some] by blast
  obtain xs where xs: "chain (nodes s) xs" "m \<in> set xs" using inv_chain_nodeD [OF c md(1)] by blast
  then obtain as bs where sp: "xs = as @ m # bs" by (meson split_list)
  have nx: "sn_next md = first_of bs None" using chain_at(2) [OF xs(1) [unfolded sp] md(1)] .
  have "dseg (nodes s) (Some m) bs None" using xs(1) sp by (simp add: chain_def)
  from chain_find_dseg [OF this, of "\<lambda>nd. sn_shared_cnt nd < MAX_PAGE_SHARING"] obtain r where
    r: "chain_find (nodes s) (\<lambda>nd. sn_shared_cnt nd < MAX_PAGE_SHARING) (first_of bs None) = Some (Inr r)"
      "\<forall>n. r = Some n \<longrightarrow> n \<in> set bs \<and> (\<exists>nd. nodes s n = Some nd \<and> sn_shared_cnt nd < MAX_PAGE_SHARING)"
    by (auto split: option.splits)
  have same: "sn_page_hash nd = hash" if "n \<in> set bs" "nodes s n = Some nd" for n nd
    using chain_same_hash [OF xs(1) _ xs(2) that(2) md(1)] that(1) md(2) sp by simp
  show ?thesis
  proof (cases "sn_shared_cnt md < MAX_PAGE_SHARING")
    case True
    then show ?thesis using Some md by (simp add: cmp_with_stable_def)
  next
    case False
    then have "cmp_with_stable E hash s = Inr r" using Some md nx r(1) by (simp add: cmp_with_stable_def)
    then show ?thesis using r(2) same by blast
  qed
qed

lemma advance_from:
  assumes "advance E frame a es s1 s2"
    and "log_table s1 = log_table s" "sharing E s1 = sharing E s" "rmap_tree s1 = rmap_tree s"
    and "iteration s1 = iteration s" "\<And>b. b \<noteq> a \<Longrightarrow> items s1 b = items s b"
  shows "advance E frame a es s s2"
proof (rule advanceI)
  have "waiting_keys E a s1 = waiting_keys E a s" using assms(4,6) by (auto simp: waiting_keys_def)
  then show "\<forall>e \<in> set es. merge_within {k. rmap_lookup E s k = Some a} (waiting_keys E a s) e"
    using advanceD(7) [OF assms(1)] assms(4) by simp
qed (use advanceD(1-6) [OF assms(1)] assms(2-) in auto)

lemma count_volatile_ok:
  assumes adv: "advance E frame a es s s1" and a: "items s1 a = Some it" and u: "items s1 u = Some uit"
  shows "\<exists>s'. count_volatile_unstable_merge a u (0, s1) = Inr (0, s') \<and> advance E frame a es s s'"
proof -
  let ?s = "s1\<lparr>highly_volatile_but_unstable_merged_cnt := highly_volatile_but_unstable_merged_cnt s1 + 1\<rparr>"
  have "advance E frame a [] s1 ?s" by (rule advance_same [OF advanceD(1) [OF adv]]) simp_all
  from advance_trans [OF adv this] have "advance E frame a es s ?s" by simp
  then show ?thesis using adv a u by (simp add: count_volatile_unstable_merge_def)
qed

lemma merge_into_stable_ok:
  assumes inv: "server_inv E s" and a: "items s a = Some it" "ri_state it = Volatile"
    and nd: "nodes s n = Some nd" "sn_shared_cnt nd < MAX_PAGE_SHARING"
  shows "\<exists>s'. merge_into_stable E n a s = Inr (0, s') \<and> advance E frame a [stable_event it nd] s s'"
proof -
  let ?s1 = "if 0 < ri_volatility_score it then s\<lparr>highly_volatile_but_stable_merged_cnt :=
      highly_volatile_but_stable_merged_cnt s + 1\<rparr> else s"
  have 1: "advance E frame a [] s ?s1" by (rule advance_same [OF inv]) simp_all
  have "items ?s1 a = Some it" "nodes ?s1 n = Some nd" using a nd by simp_all
  from join_stable_ok [OF advanceD(1) [OF 1] this(1) a(2) this(2) nd(2)] obtain s' where
    2: "join_stable E n a ?s1 = Inr s'" "advance E frame a [stable_event it nd] ?s1 s'" by blast
  have "merge_into_stable E n a s = Inr (0, s')"
    using nd a 2(1) by (simp add: merge_into_stable_def Let_def)
  with advance_trans [OF 1 2(2)] show ?thesis by auto
qed

text \<open>A partner that waits in the unstable table: the state \<open>s2\<close> is the one it was taken out of.\<close>

lemma promote_and_count_ok:
  assumes i2: "meta_inv E {} {u} {} (s\<lparr>unstable_hash_table := t\<rparr>)"
    and u: "items s u = Some uit" "ri_state uit = Unstable"
    and a: "items s a = Some it" "ri_state it = Volatile" and frame: "frame (item_key it) = ri_pfn it"
    and mem: "malloc_node E (nodes s) \<noteq> None"
  shows "\<exists>s'. rbind (promote_unstable E hash u a (s\<lparr>unstable_hash_table := t\<rparr>))
      (count_volatile_unstable_merge a u) = Inr (0, s') \<and> advance E frame a [unstable_event it uit] s s'"
proof -
  let ?s2 = "s\<lparr>unstable_hash_table := t\<rparr>"
  have 2: "items ?s2 u = Some uit" "items ?s2 a = Some it" using u a by simp_all
  obtain n where n: "malloc_node E (nodes ?s2) = Some n" using mem by auto
  from promote_unstable_ok [where frame = frame, OF i2 2(1) u(2) 2(2) a(2) frame n, of hash] obtain s3 and nd :: "'t stable_node" where
    3: "promote_unstable E hash u a ?s2 = Inr (0, s3)" "advance E frame a [unstable_event it uit] ?s2 s3"
      "items s3 = (items ?s2)(a \<mapsto> share_item n nd it, u \<mapsto> share_item n nd uit)" by blast
  have sh: "sharing E ?s2 = sharing E s" by (intro sharing_cong frame_of_cong pfn_of_nodes) simp_all
  have adv: "advance E frame a [unstable_event it uit] s s3" by (rule advance_from [OF 3(2)]) (use sh in simp_all)
  have "u \<noteq> a" using u a by auto
  with 3(3) have "items s3 a = Some (share_item n nd it)" "items s3 u = Some (share_item n nd uit)"
    by simp_all
  from count_volatile_ok [OF adv this] 3(1) show ?thesis by auto
qed

lemma seek_unstable_ok:
  assumes inv: "server_inv E s" and a: "items s a = Some it" "ri_state it = Volatile"
    and frame: "frame (item_key it) = ri_pfn it"
  shows "(\<exists>s'. seek_unstable E hash a s = Inr (0, s') \<and> advance E frame a (waiting_events E hash it s) s s' \<and>
      (waiting_events E hash it s = [] \<longrightarrow> waits s' a hash)) \<or>
    malloc_node E (nodes s) = None \<and> (\<exists>s'. seek_unstable E hash a s = Inr (- 1, s'))"
proof -
  let ?it = "it\<lparr>ri_old_hash := hash\<rparr>"
  define s1 where s1: "s1 = set_item a ?it s"
  have adv1: "advance E frame a [] s s1" unfolding s1
    by (rule advance_set_item [OF inv a(1)]) (use a(2) in \<open>simp_all add: item_key_def\<close>)
  have a1: "items s1 a = Some ?it" "ri_state ?it = Volatile" and m1: "nodes s1 = nodes s"
    and l1: "unstable_lookup E s1 = unstable_lookup E s"
    using a(2) by (simp_all add: s1)
  have f: "frame (item_key ?it) = ri_pfn ?it" using frame by (simp add: item_key_def)
  have run: "seek_unstable E hash a s = rbind (cmp_with_unstable E a s1) (\<lambda>(partner, s).
       case partner of
         Some unstable_node \<Rightarrow> rbind (promote_unstable E hash unstable_node a s)
             (count_volatile_unstable_merge a unstable_node)
       | None \<Rightarrow> become_unstable E hash a s)"
    using a by (simp add: seek_unstable_def s1)
  consider "cmp_with_unstable E a s1 = Inr (None, s1)" "unstable_lookup E s1 hash = None"
    | u t uit where "cmp_with_unstable E a s1 = Inr (Some u, s1\<lparr>unstable_hash_table := t\<rparr>)"
       "meta_inv E {} {u} {} (s1\<lparr>unstable_hash_table := t\<rparr>)" "items s1 u = Some uit" "ri_state uit = Unstable"
       "unstable_lookup E s1 hash = Some u"
    using cmp_with_unstable_ok [OF advanceD(1) [OF adv1] a1(1)] by auto
  then show ?thesis
  proof cases
    case 1
    from become_unstable_ok [where frame = frame, OF advanceD(1) [OF adv1] a1 1(2)] obtain s' where
      2: "become_unstable E hash a s1 = Inr (0, s')" "advance E frame a [] s1 s'" "waits s' a hash"
      unfolding waits_def by blast
    moreover have "waiting_events E hash it s = []" using 1(2) l1 by (simp add: waiting_events_def)
    ultimately show ?thesis using run 1(1) advance_trans [OF adv1 2(2)] by simp
  next
    case (2 u t uit)
    have "u \<noteq> a" using 2(3,4) a1 by auto
    then have w: "waiting_events E hash it s = [unstable_event ?it uit]"
      using 2(3,5) l1 by (simp add: waiting_events_def s1 unstable_event_def)
    show ?thesis
    proof (cases "malloc_node E (nodes s) = None")
      case True
      then show ?thesis using 2(1) run m1 by (simp add: promote_unstable_def count_volatile_unstable_merge_def)
    next
      case False
      with promote_and_count_ok [where frame = frame, OF 2(2-4) a1 f, of hash] m1 obtain s' where
        3: "rbind (promote_unstable E hash u a (s1\<lparr>unstable_hash_table := t\<rparr>))
            (count_volatile_unstable_merge a u) = Inr (0, s')" "advance E frame a [unstable_event ?it uit] s1 s'" by auto
      then show ?thesis using run 2(1) advance_trans [OF adv1 3(2)] w by simp
    qed
  qed
qed

lemma find_partner_ok:
  assumes inv: "server_inv E s" and a: "items s a = Some it" "ri_state it = Volatile"
    and frame: "frame (item_key it) = ri_pfn it"
  shows "(\<exists>s'. find_partner E hash a s = Inr (0, s') \<and> advance E frame a (partner_events E hash it s) s s' \<and>
      (partner_events E hash it s = [] \<longrightarrow> waits s' a hash)) \<or>
    malloc_node E (nodes s) = None \<and> (\<exists>s'. find_partner E hash a s = Inr (- 1, s'))"
proof -
  obtain r where r: "cmp_with_stable E hash s = Inr r"
    "\<And>n. r = Some n \<Longrightarrow> \<exists>nd. nodes s n = Some nd \<and> sn_shared_cnt nd < MAX_PAGE_SHARING"
    using cmp_with_stable_ok [OF inv, of hash] by blast
  show ?thesis
  proof (cases r)
    case (Some n)
    then obtain nd where nd: "nodes s n = Some nd" "sn_shared_cnt nd < MAX_PAGE_SHARING" using r(2) by blast
    from merge_into_stable_ok [OF inv a nd] r(1) Some nd show ?thesis
      by (simp add: find_partner_def partner_events_def)
  next
    case None
    then have "partner_events E hash it s = waiting_events E hash it s" using r(1) by (simp add: partner_events_def)
    with seek_unstable_ok [where frame = frame, OF assms] r(1) None show ?thesis by (simp add: find_partner_def)
  qed
qed

section \<open>A volatile item\<close>

lemma calm_item_simps [simp]:
  "item_key (calm_item it) = item_key it" "ri_state (calm_item it) = ri_state it"
  "ri_stable_node (calm_item it) = ri_stable_node it" "ri_old_hash (calm_item it) = ri_old_hash it"
  "ri_pfn (calm_item it) = ri_pfn it"
  by (simp_all add: calm_item_def item_key_def)

lemma note_change_simps [simp]:
  "item_key (note_change h it) = item_key it" "ri_state (note_change h it) = ri_state it"
  "ri_stable_node (note_change h it) = ri_stable_node it" "ri_old_hash (note_change h it) = h"
  by (simp_all add: note_change_def item_key_def)

lemma cmp_with_stable_same:
  assumes "nodes s' = nodes s" "stable_hash_table s' = stable_hash_table s"
  shows "cmp_with_stable E hash s' = cmp_with_stable E hash s"
  unfolding cmp_with_stable_def assms ..

lemma scan_events_partner:
  assumes inv: "server_inv E s" and a: "items s a = Some it" "ri_state it = Volatile"
    and k: "item_key it' = item_key it" and "searches hash it s"
  shows "scan_events E hash it s = partner_events E hash it'
    (set_item a it' (s\<lparr>volatile_items_cnt := c\<rparr>))" (is "_ = partner_events E hash it' ?s")
proof -
  have u: "u \<noteq> a" if "unstable_lookup E s hash = Some u" for u
    using inv_unstable_lookupD [OF meta_invD(2) [OF server_invD [OF inv]] that] a by auto
  have "ri_mm_id it' = ri_mm_id it" "ri_va it' = ri_va it" using k by (simp_all add: item_key_def)
  then have ev: "\<And>uit. unstable_event it' uit = unstable_event it uit" "\<And>nd :: 't stable_node. stable_event it' nd = stable_event it nd"
    by (simp_all add: unstable_event_def stable_event_def fun_eq_iff)
  have "waiting_events E hash it' ?s = waiting_events E hash it s"
    using u by (cases "unstable_lookup E s hash") (simp_all add: waiting_events_def ev(1) split: option.split)
  moreover have "cmp_with_stable E hash ?s = cmp_with_stable E hash s" by (rule cmp_with_stable_same) simp_all
  ultimately show ?thesis using assms(5)
    by (simp add: scan_events_def partner_events_def ev(2) split: sum.split option.split)
qed

lemma scan_volatile_ok:
  assumes inv: "server_inv E s" and a: "items s a = Some it" "ri_state it = Volatile"
    and frame: "ri_old_hash it = calculate_hash_pair E pre page \<Longrightarrow> frame (item_key it) = ri_pfn it"
  shows "(\<exists>s'. scan_volatile E pre page a s = Inr (0, s') \<and>
      advance E frame a (scan_events E (calculate_hash_pair E pre page) it s) s s' \<and>
      (searches (calculate_hash_pair E pre page) it s \<and>
         scan_events E (calculate_hash_pair E pre page) it s = [] \<longrightarrow>
       waits s' a (calculate_hash_pair E pre page))) \<or>
    malloc_node E (nodes s) = None \<and> ri_old_hash it = calculate_hash_pair E pre page \<and>
      (\<exists>s'. scan_volatile E pre page a s = Inr (- 1, s'))"
proof -
  let ?hash = "calculate_hash_pair E pre page"
  let ?s0 = "s\<lparr>volatile_items_cnt := volatile_items_cnt s + 1\<rparr>"
  have 0: "advance E frame a [] s ?s0" by (rule advance_same [OF inv]) simp_all
  obtain skip it1 where sk: "should_skip_item (smart_scan_opt s) (it\<lparr>ri_age := ri_age it + 1\<rparr>) = (skip, it1)"
    by fastforce
  from should_skip_item_fields [OF sk] have it1: "item_key it1 = item_key it" "ri_state it1 = Volatile"
    "ri_stable_node it1 = ri_stable_node it" "ri_old_hash it1 = ri_old_hash it" "ri_pfn it1 = ri_pfn it"
    using a(2) by (simp_all add: item_key_def)
  have step: "advance E frame a [] s (set_item a it2 ?s0)"
    if "item_key it2 = item_key it" "ri_state it2 = Volatile" "ri_stable_node it2 = ri_stable_node it" for it2
    using advance_trans [OF 0 advance_set_item [OF advanceD(1) [OF 0], of a it it2]] a that by simp
  show ?thesis
  proof (cases "skip \<or> ri_old_hash it \<noteq> ?hash")
    case True
    let ?s1 = "set_item a it1 ?s0"
    have "advance E frame a [] ?s1 (?s1\<lparr>skipped_cnt := skipped_cnt s + 1\<rparr>)"
      by (rule advance_same [OF advanceD(1) [OF step]]) (use it1 in simp_all)
    from advance_trans [OF step this] have "advance E frame a [] s (?s1\<lparr>skipped_cnt := skipped_cnt s + 1\<rparr>)"
      using it1 by simp
    moreover have "advance E frame a [] s (set_item a (note_change ?hash it1) ?s0)"
      by (rule step) (use it1 in simp_all)
    moreover have "\<not> searches ?hash it s" using True sk by (auto simp: searches_def)
    ultimately show ?thesis using True a sk it1
      by (cases skip) (auto simp: scan_volatile_def Let_def scan_events_def)
  next
    case False
    let ?s1 = "set_item a (calm_item it1) ?s0"
    have 1: "advance E frame a [] s ?s1" by (rule step) (use it1 in simp_all)
    have run: "scan_volatile E pre page a s = find_partner E ?hash a ?s1"
      using False a sk it1 by (simp add: scan_volatile_def Let_def)
    have ev: "scan_events E ?hash it s = partner_events E ?hash (calm_item it1) ?s1"
      using False sk it1 by (intro scan_events_partner [OF inv a]) (simp_all add: searches_def)
    from False frame it1 have "frame (item_key (calm_item it1)) = ri_pfn (calm_item it1)" by simp
    with find_partner_ok [where frame = frame, OF advanceD(1) [OF 1], of a "calm_item it1" ?hash] it1
    have "(\<exists>s'. find_partner E ?hash a ?s1 = Inr (0, s') \<and> advance E frame a (scan_events E ?hash it s) ?s1 s' \<and>
        (scan_events E ?hash it s = [] \<longrightarrow> waits s' a ?hash)) \<or>
      malloc_node E (nodes s) = None \<and> (\<exists>s'. find_partner E ?hash a ?s1 = Inr (- 1, s'))"
      unfolding ev by simp
    then show ?thesis unfolding run using False advance_trans [OF 1] by fastforce
  qed
qed

section \<open>\<open>cmp_and_merge_one\<close>\<close>

text \<open>A broken merge leaves the item volatile, so \<open>goto again\<close> is taken at most once.\<close>

lemma cmp_and_merge_one_ok:
  assumes inv: "server_inv E s" and a: "items s a = Some it" "ri_state it \<noteq> Unstable"
    and frame: "frame (item_key it) = ri_pfn it" and null: "calculate_hash_pair E pre page \<noteq> null_hash"
  shows "(\<exists>s' evs. cmp_and_merge_one E pre page a s = Inr (0, s') \<and> advance E frame a evs s s') \<or>
    malloc_node E (nodes s) = None \<and> (\<exists>s'. cmp_and_merge_one E pre page a s = Inr (- 1, s'))"
proof -
  let ?hash = "calculate_hash_pair E pre page"
  note d = meta_invD [OF server_invD [OF inv]]
  have "ri_state it \<noteq> Item_None" using inv_rmap_itemD [OF d(1) a(1)] by simp
  then consider (vol) "ri_state it = Volatile" | (st) "ri_state it = Stable"
    using a(2) by (cases "ri_state it") auto
  then show ?thesis
  proof cases
    case vol
    then have "cmp_and_merge_one E pre page a s = scan_volatile E pre page a s"
      using a by (simp add: cmp_and_merge_one_def numeral_2_eq_2)
    then show ?thesis
      using scan_volatile_ok [where frame = frame and pre = pre and page = page, OF inv a(1) vol frame] by auto
  next
    case st
    from inv_itemsD [OF d(3) a(1) st] obtain n nd where
      n: "ri_stable_node it = Some n" "nodes s n = Some nd" by auto
    show ?thesis
    proof (cases "sn_pfn nd = ri_pfn it")
      case True
      from refresh_stable_ok [where frame = frame, OF inv a(1) st n(1), of ?hash] obtain s1 it1 where
        1: "refresh_stable E ?hash n a s = Inr s1" "advance E frame a [] s s1" "items s1 a = Some it1" by blast
      have "advance E frame a [] s1 (set_item a (calm_item it1) s1)"
        by (rule advance_set_item [OF advanceD(1) [OF 1(2)] 1(3)]) simp_all
      from advance_trans [OF 1(2) this] show ?thesis
        using a st n True 1 by (auto simp: cmp_and_merge_one_def numeral_2_eq_2)
    next
      case False
      from break_merge_ok [where frame = frame, OF inv a(1) st n(1)] obtain s1 e it1 where
        1: "break_merge E n a s = Inr s1" "advance E frame a [e] s s1" "items s1 a = Some it1"
          "ri_state it1 = Volatile" "ri_old_hash it1 = null_hash" by blast
      have "cmp_and_merge_one E pre page a s = scan_volatile E pre page a s1"
        using a st n False 1 by (simp add: cmp_and_merge_one_def numeral_2_eq_2)
      then show ?thesis
        using scan_volatile_ok [where frame = frame and pre = pre and page = page,
            OF advanceD(1) [OF 1(2)] 1(3,4)] 1(5) null advance_trans [OF 1(2)] by metis
    qed
  qed
qed

text \<open>A volatile page: the event of its scan is known in advance.\<close>

lemma cmp_and_merge_volatile:
  assumes inv: "server_inv E s" and a: "items s a = Some it" "ri_state it = Volatile"
    and frame: "frame (item_key it) = ri_pfn it" and hash: "calculate_hash_pair E pre page = hash"
    and mem: "malloc_node E (nodes s) \<noteq> None"
  shows "\<exists>s'. cmp_and_merge_one E pre page a s = Inr (0, s') \<and> advance E frame a (scan_events E hash it s) s s' \<and>
    (searches hash it s \<and> scan_events E hash it s = [] \<longrightarrow> waits s' a hash)"
proof -
  have "cmp_and_merge_one E pre page a s = scan_volatile E pre page a s"
    using a by (simp add: cmp_and_merge_one_def numeral_2_eq_2)
  then show ?thesis
    using scan_volatile_ok [where frame = frame and pre = pre and page = page, OF inv a frame] mem hash by auto
qed

lemma cmp_fuel:
  assumes inv: "server_inv E s" and a: "items s a = Some it"
  shows "cmp_again (Suc (Suc k)) E pre page a s = cmp_and_merge_one E pre page a s"
proof (cases "ri_state it = Stable")
  case False
  then show ?thesis using a by (cases "ri_state it") (simp_all add: cmp_and_merge_one_def numeral_2_eq_2)
next
  case True
  from inv_itemsD [OF meta_invD(3) [OF server_invD [OF inv]] a True] obtain n nd where
    n: "ri_stable_node it = Some n" "nodes s n = Some nd" by auto
  from break_merge_ok [OF inv a True n(1)] obtain s1 it1 where
    1: "break_merge E n a s = Inr s1" "items s1 a = Some it1" "ri_state it1 = Volatile" by blast
  then show ?thesis using a True n by (simp add: cmp_and_merge_one_def numeral_2_eq_2)
qed

end

end
