(* ===== verification/Page_Scan.thy ===== *)
theory Page_Scan
  imports Merge_Steps
begin

text \<open>
  The page worker's loop over the pages of one job (\<open>ksm_page_worker\<close>): every page is looked up
  and merged in turn; a failed allocation stops the server. The theorem of this theory is the
  correctness of the loop: started on pages whose items are not in the unstable table it ends with
  the invariant intact, unless memory runs out.
\<close>

section \<open>The item of a page\<close>

text \<open>
  \<open>found E mm pte s a s'\<close>: what \<open>lookup_rmap_item\<close> leaves behind when it returns \<open>a\<close>.
\<close>

definition found ::
  "('t, 'h) server_env \<Rightarrow> int \<Rightarrow> shadow_pte \<Rightarrow> ('t, 'h) server \<Rightarrow> addr \<Rightarrow> ('t, 'h) server \<Rightarrow> bool" where
  "found E mm_id pte s a s' \<longleftrightarrow>
     server_inv E s' \<and> log_table s' = log_table s \<and> sharing E s' = sharing E s \<and>
     iteration s' = iteration s \<and> nodes s' = nodes s \<and>
     rmap_lookup E s' = (rmap_lookup E s)((mm_id, pte_va pte) \<mapsto> a) \<and>
     (\<forall>b. b \<noteq> a \<longrightarrow> items s' b = items s b) \<and>
     (\<exists>it. items s' a = Some it \<and> item_key it = (mm_id, pte_va pte) \<and> ri_pfn it = pte_kpfn pte \<and>
        ri_last_access it = word_of_int (iteration s) \<and>
        (case items s a of None \<Rightarrow> ri_state it = Volatile
         | Some old \<Rightarrow> ri_state it = ri_state old \<and> item_key old = item_key it))"

lemma set_item_fresh_inv:
  assumes inv: "meta_inv E X Y Z s" and fresh: "items s a = None" and st: "ri_state it = Volatile"
    and tree: "gtable (tree_ops E)" and k: "rmap_lookup E s (item_key it) = None"
  shows "meta_inv E X Y Z ((set_item a it s)
      \<lparr>rmap_tree := g_insert (tree_ops E) (rmap_tree s) (item_key it) a\<rparr>)" (is "meta_inv E X Y Z ?s")
proof -
  note d = meta_invD [OF inv]
  have look: "rmap_lookup E ?s = (rmap_lookup E s)(item_key it \<mapsto> a)"
    using gtable.lookup_insert [OF tree inv_rmap_wf [OF d(1)]] by simp
  have old: "b \<noteq> a" "items ?s b = Some jt" if "items s b = Some jt" for b jt
    using that fresh by auto
  have "inv_rmap E ?s"
  proof (rule inv_rmapI)
    show "g_wf (tree_ops E) (rmap_tree ?s)"
      using gtable.wf_insert [OF tree inv_rmap_wf [OF d(1)]] by simp
  next
    fix k b assume "rmap_lookup E ?s k = Some b"
    then have "(k = item_key it \<and> b = a) \<or> rmap_lookup E s k = Some b"
      unfolding look by (auto split: if_splits)
    then show "\<exists>jt. items ?s b = Some jt \<and> item_key jt = k"
      using inv_rmap_lookupD [OF d(1), of k b] old by fastforce
  next
    fix b jt assume b: "items ?s b = Some jt"
    show "rmap_lookup E ?s (item_key jt) = Some b" "ri_state jt \<noteq> Item_None"
    proof -
      have "rmap_lookup E ?s (item_key jt) = Some b \<and> ri_state jt \<noteq> Item_None"
      proof (cases "b = a")
        case True
        with b have "jt = it" by simp
        then show ?thesis unfolding look using True st by simp
      next
        case False
        with b have "items s b = Some jt" by simp
        from inv_rmap_itemD [OF d(1) this] k show ?thesis unfolding look by auto
      qed
      then show "rmap_lookup E ?s (item_key jt) = Some b" "ri_state jt \<noteq> Item_None" by simp_all
    qed
  qed
  moreover have "inv_unstable E Y ?s"
  proof (rule inv_unstableI)
    fix h b assume "unstable_lookup E ?s h = Some b"
    then have "unstable_lookup E s h = Some b" by simp
    from inv_unstable_lookupD [OF d(2) this] old
    show "b \<notin> Y \<and> (\<exists>jt. items ?s b = Some jt \<and> ri_state jt = Unstable \<and> ri_old_hash jt = h)" by fastforce
  next
    fix b jt assume b: "items ?s b = Some jt" "ri_state jt = Unstable" "b \<notin> Y"
    then have "b \<noteq> a" using st by auto
    with b inv_unstable_itemD [OF d(2), of b jt]
    show "unstable_lookup E ?s (ri_old_hash jt) = Some b" by simp
  qed (use inv_unstable_wf [OF d(2)] in simp)
  moreover have "inv_items E X ?s"
  proof (rule inv_itemsI)
    fix b jt assume b: "items ?s b = Some jt" "ri_state jt = Stable" "b \<notin> X"
    then have "b \<noteq> a" using st by auto
    with b inv_itemsD [OF d(3), of b jt] show "\<exists>n nd. ri_stable_node jt = Some n \<and>
        nodes ?s n = Some nd \<and> sharing_lookup E nd (item_key jt) = Some b \<and> ri_old_hash jt = sn_page_hash nd"
      by simp
  qed
  moreover have "inv_nodes E X Z ?s"
  proof (rule inv_nodesI)
    fix n nd k b assume n: "nodes ?s n = Some nd" "sharing_lookup E nd k = Some b"
    from inv_nodes_entryD [OF d(4) _ n(2), of n] n(1) old
    show "b \<notin> X \<and> (\<exists>jt. items ?s b = Some jt \<and> item_key jt = k \<and> ri_state jt = Stable \<and>
        ri_stable_node jt = Some n)" by fastforce
  qed (use inv_nodesD [OF d(4)] in simp_all)
  moreover have "inv_chain E ?s" by (rule inv_chain_same_links [OF d(5)]) simp_all
  ultimately show ?thesis using d(6) by (simp add: meta_inv_def)
qed

section \<open>One job\<close>

text \<open>
  \<open>ksm_ops\<close> is the function pointer through which the worker calls \<open>cmp_and_merge_one\<close> (or
  \<open>cmp_and_merge_one_old\<close>).
\<close>

type_synonym ('t, 'h) ksm_ops =
  "hash_pair option \<Rightarrow> u8 list \<Rightarrow> addr \<Rightarrow> ('t, 'h) server \<Rightarrow> (int \<times> ('t, 'h) server) res"

definition scan_one_page ::
  "('t, 'h) server_env \<Rightarrow> ('t, 'h) ksm_ops \<Rightarrow> int \<Rightarrow> shadow_pte \<times> hash_pair option \<times> u8 list \<Rightarrow>
   ('t, 'h) server \<Rightarrow> ('t, 'h) server res" where
  "scan_one_page E ksm_ops mm_id p s =
     (case p of (pte, pre, page) \<Rightarrow>
        rbind (lookup_rmap_item E mm_id pte s) (\<lambda>(curr_item, s).
          case curr_item of
            None \<Rightarrow> Inl (Stopped ''Failed to lookup rmap item'')
          | Some item \<Rightarrow>
              rbind (ksm_ops pre page item s) (\<lambda>(err, s).
                if err \<noteq> 0 then Inl (Stopped ''cmp_and_merge_one failed'') else Inr s)))"

text \<open>
  \<open>struct worker_job\<close> with the buffers its pointers lead to; \<open>rkey\<close> and \<open>pages_addr\<close> are
  handed on to \<open>ksm_ops\<close>, which does not use them.
\<close>

datatype working_status = NO_WORKER | WORKER_READY | DATA_READY | IN_PROGRESS | WORK_DONE | STOP

record worker_job =
  wj_mm_id :: int
  wj_va2dma_map :: "shadow_pte list"
  wj_pages_buf :: "u8 list list"
  wj_num_pages :: nat
  wj_idx_adjust :: nat
  wj_status :: working_status

text \<open>
  The body of \<open>ksm_page_worker\<close>'s loop for page \<open>i\<close>: page \<open>i\<close> of the buffer belongs to entry
  \<open>idx_adjust + i\<close> of the page table. A read past the end of either is out of bounds.
\<close>

definition job_page ::
  "worker_job \<Rightarrow> (nat \<Rightarrow> hash_pair option) \<Rightarrow> nat \<Rightarrow>
   (shadow_pte \<times> hash_pair option \<times> u8 list) res" where
  "job_page work pre i =
     (let idx = wj_idx_adjust work + i
      in if idx < length (wj_va2dma_map work) \<and> i < length (wj_pages_buf work)
         then Inr (wj_va2dma_map work ! idx, pre i, wj_pages_buf work ! i)
         else Inl Null_Deref)"

definition ksm_page_worker ::
  "('t, 'h) server_env \<Rightarrow> ('t, 'h) ksm_ops \<Rightarrow> (nat \<Rightarrow> hash_pair option) \<Rightarrow> worker_job \<Rightarrow>
   ('t, 'h) server \<Rightarrow> (worker_job \<times> ('t, 'h) server) res" where
  "ksm_page_worker E ksm_ops pre work s =
     (if wj_status work = DATA_READY then
        rbind (rfold (\<lambda>i s. rbind (job_page work pre i) (\<lambda>p. scan_one_page E ksm_ops (wj_mm_id work) p s))
                 [0..<wj_num_pages work] s)
          (\<lambda>s. Inr (work\<lparr>wj_status := WORK_DONE\<rparr>, s))
      else Inr (work, s))"

text \<open>The pages of a job whose buffers are long enough, in the order they are scanned.\<close>

definition job_pages ::
  "worker_job \<Rightarrow> (nat \<Rightarrow> hash_pair option) \<Rightarrow> (shadow_pte \<times> hash_pair option \<times> u8 list) list" where
  "job_pages work pre = map (\<lambda>i. (wj_va2dma_map work ! (wj_idx_adjust work + i), pre i,
     wj_pages_buf work ! i)) [0..<wj_num_pages work]"

definition job_in_bounds :: "worker_job \<Rightarrow> bool" where
  "job_in_bounds work \<longleftrightarrow>
     wj_idx_adjust work + wj_num_pages work \<le> length (wj_va2dma_map work) \<and>
     wj_num_pages work \<le> length (wj_pages_buf work)"

lemma rfold_map: "rfold f (map g xs) s = rfold (\<lambda>x. f (g x)) xs s"
  by (induction xs arbitrary: s) (simp_all add: rbind_def split: sum.splits)

lemma rfold_cong: "(\<And>x s. x \<in> set xs \<Longrightarrow> f x s = g x s) \<Longrightarrow> rfold f xs s = rfold g xs s"
  by (induction xs arbitrary: s) (simp_all add: rbind_def split: sum.splits)

lemma ksm_page_worker_pages:
  assumes "wj_status work = DATA_READY" "job_in_bounds work"
  shows "ksm_page_worker E ksm_ops pre work s =
    rbind (rfold (scan_one_page E ksm_ops (wj_mm_id work)) (job_pages work pre) s)
      (\<lambda>s. Inr (work\<lparr>wj_status := WORK_DONE\<rparr>, s))"
proof -
  have "rfold (\<lambda>i s. rbind (job_page work pre i) (\<lambda>p. scan_one_page E ksm_ops (wj_mm_id work) p s))
      [0..<wj_num_pages work] s = rfold (scan_one_page E ksm_ops (wj_mm_id work)) (job_pages work pre) s"
    unfolding job_pages_def rfold_map
    by (rule rfold_cong) (use assms(2) in \<open>auto simp: job_page_def job_in_bounds_def\<close>)
  then show ?thesis using assms(1) by (simp add: ksm_page_worker_def)
qed

section \<open>Correctness of the loop\<close>

text \<open>
  \<open>scanned E frame K evs s s'\<close>: like \<open>advance\<close>, for a run over the pages with keys \<open>K\<close>.
\<close>

definition unstable_keys :: "('t, 'h) server \<Rightarrow> item_key set" where
  "unstable_keys s = {item_key it |a it. items s a = Some it \<and> ri_state it = Unstable}"

definition scanned ::
  "('t, 'h) server_env \<Rightarrow> (item_key \<Rightarrow> u64) \<Rightarrow> item_key set \<Rightarrow> ksm_event_log list \<Rightarrow>
   ('t, 'h) server \<Rightarrow> ('t, 'h) server \<Rightarrow> bool" where
  "scanned E frame K evs s s' \<longleftrightarrow>
     server_inv E s' \<and> told E evs (log_table s) (log_table s') \<and>
     sharing E s' = replay frame evs (sharing E s) \<and> iteration s' = iteration s \<and>
     (\<forall>b it'. items s' b = Some it' \<and> ri_state it' = Unstable \<longrightarrow>
        item_key it' \<in> K \<or> (\<exists>it. items s b = Some it \<and> item_key it = item_key it' \<and> ri_state it = Unstable)) \<and>
     (\<forall>e \<in> set evs. merge_within K (K \<union> unstable_keys s) e)"

definition not_unstable :: "('t, 'h) server \<Rightarrow> item_key set \<Rightarrow> bool" where
  "not_unstable s K \<longleftrightarrow> (\<forall>a it. items s a = Some it \<and> item_key it \<in> K \<longrightarrow> ri_state it \<noteq> Unstable)"

text \<open>The two ways a scan may stop, both on a failed allocation.\<close>

definition out_of_memory :: "('t, 'h) server_env \<Rightarrow> fault \<Rightarrow> bool" where
  "out_of_memory E e \<longleftrightarrow>
     e = Stopped ''Failed to lookup rmap item'' \<and> (\<exists>h. malloc_item E h = None) \<or>
     e = Stopped ''cmp_and_merge_one failed'' \<and> (\<exists>h. malloc_node E h = None)"

lemma advance_keys:
  assumes inv: "server_inv E s" and adv: "advance E frame a evs s s'"
    and b: "items s b = Some it" "items s' b = Some it'"
  shows "item_key it' = item_key it"
proof -
  note i = meta_invD(1) [OF server_invD [OF inv]]
  note i' = meta_invD(1) [OF server_invD [OF advanceD(1) [OF adv]]]
  have "rmap_lookup E s' (item_key it) = Some b"
    using inv_rmap_itemD [OF i b(1)] advanceD(4) [OF adv] by simp
  from inv_rmap_lookupD [OF i' this] b(2) show ?thesis by auto
qed

lemma advance_unstable:
  assumes inv: "server_inv E s" and adv: "advance E frame a evs s s'" and a: "items s a = Some it"
    and b: "items s' b = Some jt'" "ri_state jt' = Unstable"
  shows "item_key jt' = item_key it \<or>
    (\<exists>jt. b \<noteq> a \<and> items s b = Some jt \<and> item_key jt = item_key jt' \<and> ri_state jt = Unstable)"
proof (cases "b = a")
  case True
  then show ?thesis using advance_keys [OF inv adv a] b by blast
next
  case False
  from advanceD(6) [OF adv False b] obtain jt where "items s b = Some jt" "ri_state jt = Unstable" by blast
  then show ?thesis using False advance_keys [OF inv adv _ b(1)] by fastforce
qed

lemma scanned_refl: "server_inv E s \<Longrightarrow> scanned E frame {} [] s s"
  by (simp add: scanned_def)

lemma scanned_trans:
  assumes 1: "scanned E frame K es s s'" and 2: "scanned E frame K' es' s' s''"
  shows "scanned E frame (K \<union> K') (es @ es') s s''"
proof -
  have "told E (es @ es') (log_table s) (log_table s'')"
    using 1 2 told_trans unfolding scanned_def by blast
  moreover have "item_key it' \<in> K \<union> K' \<or>
      (\<exists>it. items s b = Some it \<and> item_key it = item_key it' \<and> ri_state it = Unstable)"
    if b: "items s'' b = Some it'" "ri_state it' = Unstable" for b it'
  proof (rule ccontr)
    assume n: "\<not> ?thesis"
    from b n 2 obtain jt where "items s' b = Some jt" "item_key jt = item_key it'" "ri_state jt = Unstable"
      unfolding scanned_def by blast
    with n 1 show False unfolding scanned_def by (metis UnCI)
  qed
  moreover have "unstable_keys s' \<subseteq> K \<union> unstable_keys s"
  proof
    fix k assume "k \<in> unstable_keys s'"
    then obtain b it' where b: "items s' b = Some it'" "ri_state it' = Unstable" "k = item_key it'" by (auto simp: unstable_keys_def)
    with 1 have "item_key it' \<in> K \<or> (\<exists>it. items s b = Some it \<and> item_key it = item_key it' \<and> ri_state it = Unstable)"
      unfolding scanned_def by blast
    then show "k \<in> K \<union> unstable_keys s" using b(3) by (auto simp: unstable_keys_def)
  qed
  then have "K' \<union> unstable_keys s' \<subseteq> (K \<union> K') \<union> unstable_keys s" by auto
  then have "\<forall>e \<in> set (es @ es'). merge_within (K \<union> K') ((K \<union> K') \<union> unstable_keys s) e"
    using 1 2 unfolding scanned_def by (auto intro: merge_within_mono)
  ultimately show ?thesis using 1 2 unfolding scanned_def by auto
qed

lemma not_unstable_after:
  assumes "scanned E frame K es s s'" "not_unstable s K'" "K \<inter> K' = {}"
  shows "not_unstable s' K'"
  using assms unfolding scanned_def not_unstable_def by (metis disjoint_iff)

context server_runtime
begin

lemma touch_item_ok:
  assumes inv: "server_inv E s" and a: "items s a = Some it" and k: "item_key it = (mm_id, pte_va pte)"
  shows "\<exists>s'. touch_item pte a s = Inr (Some a, s') \<and> found E mm_id pte s a s'"
proof -
  let ?it = "it\<lparr>ri_last_access := word_of_int (iteration s), ri_pfn := pte_kpfn pte\<rparr>"
  let ?sc = "s\<lparr>total_accessed_cnt := total_accessed_cnt s + 1\<rparr>"
  let ?s = "set_item a ?it ?sc"
  have 0: "advance E frame a [] s ?sc" for frame by (rule advance_same [OF inv]) simp_all
  have "advance E frame a [] ?sc ?s" for frame
    by (rule advance_set_item [OF advanceD(1) [OF 0], where it = it and it' = ?it]) (use a in \<open>simp_all add: item_key_def\<close>)
  from advance_trans [OF 0 this] have adv: "advance E (\<lambda>_. 0) a [] s ?s" by simp
  have "(rmap_lookup E s) (mm_id, pte_va pte) = Some a"
    using inv_rmap_itemD [OF meta_invD(1) [OF server_invD [OF inv]] a] k by simp
  then have "found E mm_id pte s a ?s"
    unfolding found_def using advanceD(1,3) [OF adv] a k
    by (simp add: item_key_def fun_upd_idem)
  moreover have "touch_item pte a s = Inr (Some a, ?s)" using a by (simp add: touch_item_def)
  ultimately show ?thesis by blast
qed

lemma lookup_rmap_item_ok:
  assumes inv: "server_inv E s"
  shows "(\<exists>a s'. lookup_rmap_item E mm_id pte s = Inr (Some a, s') \<and> found E mm_id pte s a s') \<or>
    malloc_item E (items s) = None \<and> lookup_rmap_item E mm_id pte s = Inr (None, s)"
proof (cases "rmap_lookup E s (mm_id, pte_va pte)")
  case (Some a)
  note d = meta_invD [OF server_invD [OF inv]]
  obtain it where "items s a = Some it" "item_key it = (mm_id, pte_va pte)"
    using inv_rmap_lookupD [OF d(1) Some] by blast
  from touch_item_ok [OF inv this] show ?thesis using Some by (auto simp: lookup_rmap_item_def)
next
  case None
  show ?thesis
  proof (cases "malloc_item E (items s)")
    case None
    then show ?thesis using \<open>rmap_lookup E s (mm_id, pte_va pte) = None\<close>
      by (simp add: lookup_rmap_item_def)
  next
    case (Some p)
    then obtain a junk where m: "malloc_item E (items s) = Some (a, junk)" by (cases p) auto
    have fresh: "items s a = None" using malloc_item_fresh [OF m] .
    let ?it = "init_rmap_item mm_id (pte_va pte) junk"
    let ?s = "(set_item a ?it s)\<lparr>rmap_tree := g_insert (tree_ops E) (rmap_tree s) (item_key ?it) a\<rparr>"
    have it: "item_key ?it = (mm_id, pte_va pte)" "ri_state ?it = Volatile"
      by (simp_all add: init_rmap_item_def item_key_def)
    have inv': "server_inv E ?s" unfolding server_inv_def
      by (rule set_item_fresh_inv [OF server_invD [OF inv] fresh it(2) tree.gtable_axioms])
        (use None it in simp)
    have look: "rmap_lookup E ?s = (rmap_lookup E s)((mm_id, pte_va pte) \<mapsto> a)"
      using tree.lookup_insert [OF inv_rmap_wf [OF meta_invD(1) [OF server_invD [OF inv]]]] it by simp
    have "frame_of ?s = frame_of (set_item a ?it s)" by (intro frame_of_cong pfn_of_nodes) simp_all
    also have "\<dots> = frame_of s"
      using frame_of_set_volatile [of ?it s a] it fresh by (simp add: fun_upd_idem frame_of_def)
    finally have fr: "frame_of ?s = frame_of s" .
    have sh: "sharing E ?s = sharing E s"
    proof
      fix k
      have "frame_of s a = None" using fresh by (simp add: frame_of_def)
      then show "sharing E ?s k = sharing E s k"
        unfolding sharing_def look fr using None by (cases "k = (mm_id, pte_va pte)") simp_all
    qed
    have "items ?s a = Some ?it" by simp
    from touch_item_ok [OF inv' this it(1)] obtain s' where
      t: "touch_item pte a ?s = Inr (Some a, s')" "found E mm_id pte ?s a s'" by blast
    have "found E mm_id pte s a s'"
      using t(2) look sh fresh it unfolding found_def by auto
    moreover have "lookup_rmap_item E mm_id pte s = Inr (Some a, s')"
      using None m t(1) it by (simp add: lookup_rmap_item_def Let_def)
    ultimately show ?thesis by blast
  qed
qed

lemma scan_one_page_ok:
  assumes inv: "server_inv E s" and nu: "not_unstable s {(mm_id, pte_va pte)}"
    and frame: "frame (mm_id, pte_va pte) = pte_kpfn pte"
    and null: "calculate_hash_pair E pre page \<noteq> null_hash"
  shows "(\<exists>s' evs. scan_one_page E (cmp_and_merge_one E) mm_id (pte, pre, page) s = Inr s' \<and>
      scanned E frame {(mm_id, pte_va pte)} evs s s') \<or>
    (\<exists>e. scan_one_page E (cmp_and_merge_one E) mm_id (pte, pre, page) s = Inl e \<and> out_of_memory E e)"
proof -
  consider (none) "malloc_item E (items s) = None" "lookup_rmap_item E mm_id pte s = Inr (None, s)"
    | (some) a s1 where "lookup_rmap_item E mm_id pte s = Inr (Some a, s1)" "found E mm_id pte s a s1"
    using lookup_rmap_item_ok [OF inv, of mm_id pte] by auto
  then show ?thesis
  proof cases
    case none
    then show ?thesis by (auto simp: scan_one_page_def out_of_memory_def)
  next
    case some
    from some(2) obtain it where f: "server_inv E s1" "items s1 a = Some it"
      "item_key it = (mm_id, pte_va pte)" "ri_pfn it = pte_kpfn pte" "log_table s1 = log_table s"
      "sharing E s1 = sharing E s" "iteration s1 = iteration s" "\<And>b. b \<noteq> a \<Longrightarrow> items s1 b = items s b"
      and st: "case items s a of None \<Rightarrow> ri_state it = Volatile
         | Some old \<Rightarrow> ri_state it = ri_state old \<and> item_key old = item_key it"
      unfolding found_def by blast
    have "ri_state it \<noteq> Unstable"
      using st nu f(3) unfolding not_unstable_def by (cases "items s a") auto
    from cmp_and_merge_one_ok [where frame = frame, OF f(1,2) this _ null] frame f(3,4)
    consider s' evs where "cmp_and_merge_one E pre page a s1 = Inr (0, s')" "advance E frame a evs s1 s'"
      | s' where "malloc_node E (nodes s1) = None" "cmp_and_merge_one E pre page a s1 = Inr (- 1, s')"
      by auto
    then show ?thesis
    proof cases
      case 1
      note r = meta_invD(1) [OF server_invD [OF f(1)]]
      have "waiting_keys E a s1 \<subseteq> unstable_keys s"
        using f(8) inv_rmap_lookupD [OF r] by (fastforce simp: waiting_keys_def unstable_keys_def)
      moreover have "{k. rmap_lookup E s1 k = Some a} \<subseteq> {(mm_id, pte_va pte)}"
        using inv_rmap_lookupD [OF r] f(2,3) by fastforce
      ultimately have "\<forall>e \<in> set evs. merge_within {(mm_id, pte_va pte)} ({(mm_id, pte_va pte)} \<union> unstable_keys s) e"
        using advanceD(7) [OF 1(2)] by (auto intro: merge_within_mono)
      then have "scanned E frame {(mm_id, pte_va pte)} evs s s'"
        unfolding scanned_def
        using advance_unstable [OF f(1) 1(2) f(2)] advanceD(1-5) [OF 1(2)] f(3,5-8) by auto metis
      then show ?thesis using some(1) 1(1) by (auto simp: scan_one_page_def)
    next
      case 2
      then show ?thesis using some(1) by (auto simp: scan_one_page_def out_of_memory_def)
    qed
  qed
qed

lemma scan_pages_ok:
  assumes "server_inv E s" "distinct (map (pte_va \<circ> fst) ps)"
    and "not_unstable s ((\<lambda>p. (mm_id, pte_va (fst p))) ` set ps)"
    and "\<And>pte pre page. (pte, pre, page) \<in> set ps \<Longrightarrow>
      frame (mm_id, pte_va pte) = pte_kpfn pte \<and> calculate_hash_pair E pre page \<noteq> null_hash"
  shows "(\<exists>s' evs. rfold (scan_one_page E (cmp_and_merge_one E) mm_id) ps s = Inr s' \<and>
      scanned E frame ((\<lambda>p. (mm_id, pte_va (fst p))) ` set ps) evs s s') \<or>
    (\<exists>e. rfold (scan_one_page E (cmp_and_merge_one E) mm_id) ps s = Inl e \<and> out_of_memory E e)"
  using assms
proof (induction ps arbitrary: s)
  case Nil
  then show ?case using scanned_refl by fastforce
next
  case (Cons p ps)
  obtain pte pre page where p: "p = (pte, pre, page)" by (cases p) auto
  let ?k = "(mm_id, pte_va pte)" and ?K = "(\<lambda>p. (mm_id, pte_va (fst p))) ` set ps"
  have nu: "not_unstable s {?k}" "not_unstable s ?K"
    using Cons.prems(3) p by (auto simp: not_unstable_def)
  have ne: "{?k} \<inter> ?K = {}" using Cons.prems(2) p by (auto simp: image_iff)
  have "frame ?k = pte_kpfn pte" "calculate_hash_pair E pre page \<noteq> null_hash"
    using Cons.prems(4) [of pte pre page] p by simp_all
  from scan_one_page_ok [where frame = frame, OF Cons.prems(1) nu(1) this] p
  consider s1 evs where "scan_one_page E (cmp_and_merge_one E) mm_id p s = Inr s1" "scanned E frame {?k} evs s s1"
    | e where "scan_one_page E (cmp_and_merge_one E) mm_id p s = Inl e" "out_of_memory E e" by auto
  then show ?case
  proof cases
    case 1
    have "server_inv E s1" using 1(2) by (simp add: scanned_def)
    then have "(\<exists>s' evs. rfold (scan_one_page E (cmp_and_merge_one E) mm_id) ps s1 = Inr s' \<and>
        scanned E frame ?K evs s1 s') \<or>
      (\<exists>e. rfold (scan_one_page E (cmp_and_merge_one E) mm_id) ps s1 = Inl e \<and> out_of_memory E e)"
      by (rule Cons.IH [OF _ _ not_unstable_after [OF 1(2) nu(2) ne]])
        (use Cons.prems(2) in simp, use Cons.prems(4) in \<open>meson list.set_intros(2)\<close>)
    then consider s' evs' where "rfold (scan_one_page E (cmp_and_merge_one E) mm_id) ps s1 = Inr s'" "scanned E frame ?K evs' s1 s'"
      | e where "rfold (scan_one_page E (cmp_and_merge_one E) mm_id) ps s1 = Inl e" "out_of_memory E e"
      by auto
    then show ?thesis
    proof cases
      case 1
      with \<open>scan_one_page E (cmp_and_merge_one E) mm_id p s = Inr s1\<close>
        scanned_trans [OF \<open>scanned E frame {?k} evs s s1\<close> 1(2)] p show ?thesis by auto
    next
      case 2
      with \<open>scan_one_page E (cmp_and_merge_one E) mm_id p s = Inr s1\<close> show ?thesis by simp
    qed
  next
    case 2
    then show ?thesis by simp
  qed
qed

end

end
