(* ===== verification/Server_Undo.thy ===== *)
theory Server_Undo
  imports Page_Scan
begin

text \<open>
  Undoing merges the host could not perform (\<open>do_handle_error\<close> in \<open>server.c\<close>): the host returns
  the log entries that failed; a failed stable merge detaches one item, a failed unstable merge
  dissolves the node it had made, with every sharer that has joined since.
\<close>

section \<open>The handlers\<close>

definition undo_merge_one ::
  "('t, 'h) server_env \<Rightarrow> ksm_event_log \<Rightarrow> ('t, 'h) server \<Rightarrow> ('t, 'h) server res" where
  "undo_merge_one E entry s =
     (case rmap_lookup E s (stable_merge_from_mm_id entry, stable_merge_from_va entry) of
        None \<Rightarrow> Inl (Stopped ''lookup_rmap_item failed'')
      | Some item \<Rightarrow>
          rbind (deref (items s) item) (\<lambda>it.
            case ri_stable_node it of
              None \<Rightarrow> Inl (Stopped ''Invalid stable node for item in merge one'')
            | Some curr_node \<Rightarrow>
                rbind (deref (nodes s) curr_node) (\<lambda>nd.
                rbind (guard_stop ''Unexpected pfn while undoing stable merge''
                         (sn_pfn nd = stable_merge_kpfn entry)) (\<lambda>_.
                rbind (guard_stop ''Invalid shared count for stable node'' (\<not> sn_shared_cnt nd < 1)) (\<lambda>_.
                rbind (remove_item_from_node E curr_node item s) (\<lambda>s.
                rbind (reset_item_state item s) (\<lambda>s.
                rbind (deref (items s) item) (\<lambda>it.
                  (let s = set_item item (it\<lparr>ri_volatility_score := ri_volatility_score it + 1\<rparr>) s
                   in rbind (deref (nodes s) curr_node) (\<lambda>nd.
                        if sn_shared_cnt nd = 0 then remove_stale_node_and_log E curr_node item s
                        else Inr s))))))))))"

definition undo_merge_two ::
  "('t, 'h) server_env \<Rightarrow> ksm_event_log \<Rightarrow> ('t, 'h) server \<Rightarrow> ('t, 'h) server res" where
  "undo_merge_two E entry s =
     (case rmap_lookup E s (unstable_merge_from_mm_id entry, unstable_merge_from_va entry) of
        None \<Rightarrow> Inl (Stopped ''lookup_rmap_item failed'')
      | Some from_item \<Rightarrow>
          rbind (deref (items s) from_item) (\<lambda>it.
            case ri_stable_node it of
              None \<Rightarrow> Inl (Stopped ''Invalid stable node for item in merge two'')
            | Some curr_node \<Rightarrow>
                rbind (deref (nodes s) curr_node) (\<lambda>nd.
                rbind (reset_items (map snd (g_entries (tree_ops E) (sn_sharing_item_tree nd))) (0, s))
                  (\<lambda>(undo_cnt, s). remove_stable_node_no_item E curr_node s))))"

definition handle_error_entry ::
  "('t, 'h) server_env \<Rightarrow> ksm_event_log \<Rightarrow> ('t, 'h) server \<Rightarrow> ('t, 'h) server res" where
  "handle_error_entry E entry s =
     (case ev_type entry of
        HOST_STALE_STABLE_NODE \<Rightarrow> Inl (Stopped ''HOST_STALE_STABLE_NODE'')
      | HOST_NO_STABLE_NODE \<Rightarrow> Inl (Stopped ''HOST_NO_STABLE_NODE'')
      | HOST_MERGE_ONE_FAILED \<Rightarrow> undo_merge_one E entry s
      | HOST_MERGE_TWO_FAILED \<Rightarrow> undo_merge_two E entry s
      | _ \<Rightarrow> Inl (Stopped ''Invalid event type''))"

text \<open>
  \<open>do_handle_error\<close>: the entries come in \<open>desc_cnt\<close> chunks of up to \<open>MAX_PAGES_IN_SGL\<close> pages,
  read one after the other with RDMA. \<open>read i size\<close> is what reading \<open>size\<close> bytes at descriptor
  \<open>i\<close> gives, as entries, or \<open>None\<close> when the allocation, the registration or the read fails;
  then the handler returns \<open>- 1\<close>. \<open>total_log_cnt\<close> counts the entries still to come, and each
  chunk yields at most that many.
\<close>

primrec handle_error_chunks ::
  "('t, 'h) server_env \<Rightarrow> (nat \<Rightarrow> nat \<Rightarrow> ksm_event_log list option) \<Rightarrow> nat \<Rightarrow> nat \<Rightarrow>
   nat list \<Rightarrow> nat \<Rightarrow> ('t, 'h) server \<Rightarrow> (int \<times> ('t, 'h) server) res" where
  "handle_error_chunks E read total_sgl_entries desc_cnt [] total_log_cnt s = Inr (0, s)"
| "handle_error_chunks E read total_sgl_entries desc_cnt (i # is) total_log_cnt s =
     (let this_sgl_size = (if i = desc_cnt - 1 then total_sgl_entries - i * MAX_PAGES_IN_SGL
                           else MAX_PAGES_IN_SGL)
      in case read i (PAGE_SIZE * this_sgl_size) of
           None \<Rightarrow> Inr (- 1, s)
         | Some buf \<Rightarrow>
             (let this_log_cnt = min total_log_cnt (this_sgl_size * PAGE_SIZE div sizeof_ksm_event_log)
              in rbind (rfold (handle_error_entry E) (take this_log_cnt buf) s)
                   (handle_error_chunks E read total_sgl_entries desc_cnt is
                      (total_log_cnt - this_log_cnt))))"

definition do_handle_error ::
  "('t, 'h) server_env \<Rightarrow> (nat \<Rightarrow> nat \<Rightarrow> ksm_event_log list option) \<Rightarrow> error_table_descriptor \<Rightarrow>
   ('t, 'h) server \<Rightarrow> (int \<times> ('t, 'h) server) res" where
  "do_handle_error E read et_desc s =
     handle_error_chunks E read
       (DIV_ROUND_UP (et_total_cnt et_desc * sizeof_ksm_event_log) PAGE_SIZE) (et_desc_cnt et_desc)
       [0..<et_desc_cnt et_desc] (et_total_cnt et_desc) s"

section \<open>Correctness of the undo of one merge\<close>

text \<open>What the undo of an unstable merge makes of each sharer.\<close>

definition shed :: "rmap_item \<Rightarrow> rmap_item" where
  "shed it = (reset_item it)\<lparr>ri_volatility_score := ri_volatility_score it + 1\<rparr>"

definition shed_items ::
  "addr set \<Rightarrow> (addr \<Rightarrow> rmap_item option) \<Rightarrow> addr \<Rightarrow> rmap_item option" where
  "shed_items T h = (\<lambda>a. if a \<in> T then map_option shed (h a) else h a)"

lemma shed_simps [simp]:
  "item_key (shed it) = item_key it" "ri_state (shed it) = Volatile"
  by (simp_all add: shed_def reset_item_def item_key_def)

lemma shed_items_Some:
  "shed_items T h a = Some it' \<longleftrightarrow> (\<exists>it. h a = Some it \<and> it' = (if a \<in> T then shed it else it))"
  by (auto simp: shed_items_def)

lemma shed_items_upd:
  "h a = Some it \<Longrightarrow> a \<notin> T \<Longrightarrow> shed_items T (h(a \<mapsto> shed it)) = shed_items (insert a T) h"
  by (auto simp: shed_items_def fun_eq_iff)

lemma reset_items_all:
  assumes "distinct as" and "\<And>a. a \<in> set as \<Longrightarrow> \<exists>it. items s a = Some it \<and> ri_state it = Stable"
  shows "reset_items as (c, s) = Inr (c + length as, s\<lparr>items := shed_items (set as) (items s)\<rparr>)"
  using assms
proof (induction as arbitrary: c s)
  case Nil
  then show ?case by (simp add: shed_items_def)
next
  case (Cons a as)
  from Cons.prems(2) [of a] obtain it where it: "items s a = Some it" "ri_state it = Stable" by auto
  let ?s = "set_item a (shed it) s"
  have "ri_volatility_score (reset_item it) = ri_volatility_score it" by (simp add: reset_item_def)
  then have 1: "reset_each_item_state a (c, s) = Inr (True, c + 1, ?s)"
    using it by (simp add: reset_each_item_state_def reset_item_state_def shed_def)
  have "reset_items as (c + 1, ?s) = Inr (c + 1 + length as, ?s\<lparr>items := shed_items (set as) (items ?s)\<rparr>)"
    by (rule Cons.IH) (use Cons.prems in auto)
  then show ?case using 1 shed_items_upd [of "items s" a it "set as"] it Cons.prems(1) by simp
qed

text \<open>Removing a node does not look at what it holds.\<close>

lemma upd_shadowed:
  "m \<noteq> n \<Longrightarrow> h(n := x, m := y, n := z) = h(m := y, n := z)"
  "m \<noteq> n \<Longrightarrow> p \<noteq> n \<Longrightarrow> h(n := x, p := w, m := y, n := z) = h(p := w, m := y, n := z)"
  by (auto simp: fun_eq_iff)

lemma remove_stable_node_body:
  assumes "nodes s n = Some nd" "sn_next nd \<noteq> Some n" "sn_prev nd \<noteq> Some n"
    and "hashed_links nd' = hashed_links nd"
  shows "remove_stable_node_no_item E n (set_node n nd' s) = remove_stable_node_no_item E n s"
proof -
  have l: "sn_type nd' = sn_type nd" "sn_next nd' = sn_next nd" "sn_prev nd' = sn_prev nd"
    "sn_page_hash nd' = sn_page_hash nd"
    using assms(4) by (simp_all add: hashed_links_def links_def)
  have other: "deref ((nodes s)(n \<mapsto> nd')) m = deref (nodes s) m" if "m \<noteq> n" for m
    using that by (simp add: deref_def)
  show ?thesis
  proof (cases "sn_type nd")
    case HEAD
    show ?thesis
    proof (cases "sn_next nd")
      case None
      then show ?thesis using assms(1) l HEAD by (simp add: remove_stable_node_no_item_def)
    next
      case (Some m)
      then have "m \<noteq> n" using assms(2) by auto
      then show ?thesis using assms(1) l HEAD Some other [of m]
        by (simp add: remove_stable_node_no_item_def Let_def upd_shadowed)
    qed
  next
    case CHAIN
    show ?thesis
    proof (cases "sn_prev nd")
      case None
      then show ?thesis using assms(1) l CHAIN by (simp add: remove_stable_node_no_item_def)
    next
      case (Some p)
      then have p: "p \<noteq> n" using assms(3) by auto
      show ?thesis
      proof (cases "sn_next nd")
        case None
        then show ?thesis using assms(1) l CHAIN Some p other [of p]
          by (simp add: remove_stable_node_no_item_def Let_def upd_shadowed)
      next
        case (Some m)
        then have m: "m \<noteq> n" using assms(2) by auto
        have "deref ((nodes s)(n \<mapsto> nd', p \<mapsto> pd)) m = deref ((nodes s)(p \<mapsto> pd)) m" for pd
          using m by (simp add: deref_def)
        then show ?thesis using assms(1) l CHAIN Some \<open>sn_prev nd = Some p\<close> p m other [of p]
          by (simp add: remove_stable_node_no_item_def Let_def upd_shadowed)
      qed
    qed
  qed
qed

lemma chain_no_loop:
  assumes xs: "chain h (as @ n # bs)" and nd: "h n = Some nd"
  shows "sn_next nd \<noteq> Some n" "sn_prev nd \<noteq> Some n"
proof -
  have n: "n \<notin> set as" "n \<notin> set bs" using xs by (auto simp: chain_def)
  show "sn_next nd \<noteq> Some n" using chain_at(2) [OF assms] n by (cases bs) auto
  show "sn_prev nd \<noteq> Some n"
    using chain_at(1) [OF assms] n last_of_ne [of as None] by (cases "as = []") auto
qed

context server_runtime
begin

lemma undo_merge_one_ok:
  assumes inv: "server_inv E s"
    and look: "rmap_lookup E s (stable_merge_from_mm_id e, stable_merge_from_va e) = Some a"
    and it: "items s a = Some it" "ri_state it = Stable"
    and fr: "frame_of s a = Some (stable_merge_kpfn e)"
  shows "\<exists>s' evs. undo_merge_one E e s = Inr s' \<and> server_inv E s' \<and>
    sharing E s' = (sharing E s)((stable_merge_from_mm_id e, stable_merge_from_va e) := None) \<and>
    freed E evs (log_table s) (log_table s')"
proof -
  note d = meta_invD [OF server_invD [OF inv]]
  obtain n nd where n: "ri_stable_node it = Some n" "nodes s n = Some nd"
    using inv_itemsD [OF d(3) it] by auto
  have pfn: "sn_pfn nd = stable_merge_kpfn e"
    using fr it n by (simp add: frame_of_def item_frame_def pfn_of_def)
  have cnt: "0 < sn_shared_cnt nd" using inv_nodesD(4) [OF d(4) n(2)] by simp
  have key: "(ri_mm_id it, ri_va it) = (stable_merge_from_mm_id e, stable_merge_from_va e)"
    using inv_rmap_lookupD [OF d(1) look] it(1) by (auto simp: item_key_def)
  define s1 where s1: "s1 = set_item a (reset_item it) (set_node n (unshare_node E it nd) s)"
  note u = unlink_item [OF inv it n s1]
  let ?it = "(reset_item it)\<lparr>ri_volatility_score := ri_volatility_score (reset_item it) + 1\<rparr>"
  let ?s2 = "set_item a ?it s1"
  have s1a: "items s1 a = Some (reset_item it)" "nodes s1 n = Some (unshare_node E it nd)"
    "log_table s1 = log_table s" by (simp_all add: s1)
  have i2: "meta_inv E {} {} {n} ?s2"
    by (rule meta_inv_set_item [OF u(3) s1a(1)]) (simp_all add: item_key_def)
  have "frame_of ?s2 = frame_of s1" by (rule frame_of_set_item [OF s1a(1)]) simp_all
  then have "sharing E ?s2 = sharing E s1" by (rule sharing_cong) simp
  then have sh2: "sharing E ?s2 = (sharing E s)((stable_merge_from_mm_id e, stable_merge_from_va e) := None)"
    using unlink_item_sharing [OF inv it n s1] key by simp
  have run: "undo_merge_one E e s = (if sn_shared_cnt nd = 1 then remove_stale_node_and_log E n a ?s2 else Inr ?s2)"
    using look it n pfn cnt u(1,2) s1a by (simp add: undo_merge_one_def Let_def)
  show ?thesis
  proof (cases "sn_shared_cnt nd = 1")
    case True
    have "nodes ?s2 n = Some (unshare_node E it nd)" "sn_shared_cnt (unshare_node E it nd) = 0"
      "items ?s2 a = Some ?it" using s1a True by simp_all
    from remove_stale_ok [OF i2 this] run True sh2 s1a(3) show ?thesis by fastforce
  next
    case False
    have "meta_inv E {} {} {} ?s2"
      by (rule meta_inv_counted [OF i2]) (use s1a cnt False in auto)
    then show ?thesis using run False sh2 s1a(3)
      by (intro exI [of _ ?s2] exI [of _ "[]"]) (simp add: server_inv_def)
  qed
qed

section \<open>Correctness of the undo of a whole node\<close>

text \<open>The node emptied and all its sharers reset.\<close>

lemma dissolved_inv:
  assumes inv: "server_inv E s" and nd: "nodes s n = Some nd"
    and s': "s' = s\<lparr>items := shed_items (ran (sharing_lookup E nd)) (items s),
      nodes := (nodes s)(n \<mapsto> nd\<lparr>sn_shared_cnt := 0, sn_sharing_item_tree := g_new (tree_ops E)\<rparr>)\<rparr>"
  shows "meta_inv E {} {} {n} s'"
proof -
  note d = meta_invD [OF server_invD [OF inv]]
  let ?T = "ran (sharing_lookup E nd)"
  have T: "a \<in> ?T \<longleftrightarrow> ri_state it = Stable \<and> ri_stable_node it = Some n" if "items s a = Some it" for a it
    using sharer_iff [OF server_invD [OF inv] that, of "{n}"] nd by (auto simp: sharers_def)
  have old: "\<exists>it. items s a = Some it \<and> item_key it' = item_key it \<and>
      (if a \<in> ?T then ri_state it' = Volatile else it' = it)" if "items s' a = Some it'" for a it'
    using that by (auto simp: s' shed_items_Some)
  have new: "\<exists>it'. items s' a = Some it' \<and> item_key it' = item_key it \<and>
      (if a \<in> ?T then ri_state it' = Volatile else it' = it)" if "items s a = Some it" for a it
    using that by (auto simp: s' shed_items_Some)
  have same: "rmap_tree s' = rmap_tree s" "unstable_hash_table s' = unstable_hash_table s"
    by (simp_all add: s')
  have "inv_rmap E s'"
  proof (rule inv_rmapI)
    fix k a assume "rmap_lookup E s' k = Some a"
    with inv_rmap_lookupD [OF d(1), of k a] same obtain it where "items s a = Some it" "item_key it = k" by auto
    with new [of a it] show "\<exists>it. items s' a = Some it \<and> item_key it = k" by auto
  next
    fix a it' assume "items s' a = Some it'"
    from old [OF this] obtain it where "items s a = Some it" "item_key it' = item_key it"
      "ri_state it' = Volatile \<or> it' = it" by (auto split: if_splits)
    with inv_rmap_itemD [OF d(1), of a it] same
    show "rmap_lookup E s' (item_key it') = Some a" "ri_state it' \<noteq> Item_None" by auto
  qed (use inv_rmap_wf [OF d(1)] same in simp)
  moreover have "inv_unstable E {} s'"
  proof (rule inv_unstableI)
    fix h a assume "unstable_lookup E s' h = Some a"
    with inv_unstable_lookupD [OF d(2), of h a] same obtain it where
      it: "items s a = Some it" "ri_state it = Unstable" "ri_old_hash it = h" by auto
    with new [of a it] T [of a it]
    show "a \<notin> {} \<and> (\<exists>it. items s' a = Some it \<and> ri_state it = Unstable \<and> ri_old_hash it = h)" by auto
  next
    fix a it' assume a: "items s' a = Some it'" "ri_state it' = Unstable"
    from old [OF a(1)] a(2) have "items s a = Some it'" by (auto split: if_splits)
    with inv_unstable_itemD [OF d(2), of a it'] a(2) same
    show "unstable_lookup E s' (ri_old_hash it') = Some a" by simp
  qed (use inv_unstable_wf [OF d(2)] same in simp)
  moreover have "inv_items E {} s'"
  proof (rule inv_itemsI)
    fix a it' assume a: "items s' a = Some it'" "ri_state it' = Stable"
    from old [OF a(1)] a(2) have it: "items s a = Some it'" "a \<notin> ?T" by (auto split: if_splits)
    from inv_itemsD [OF d(3) it(1) a(2)] obtain m md where m: "ri_stable_node it' = Some m"
      "nodes s m = Some md" "sharing_lookup E md (item_key it') = Some a" "ri_old_hash it' = sn_page_hash md"
      by blast
    with T [OF it(1)] it(2) a(2) have "m \<noteq> n" by auto
    with m show "\<exists>n nd. ri_stable_node it' = Some n \<and> nodes s' n = Some nd \<and>
        sharing_lookup E nd (item_key it') = Some a \<and> ri_old_hash it' = sn_page_hash nd" by (simp add: s')
  qed
  moreover have "inv_nodes E {} {n} s'"
  proof (rule inv_nodesI)
    fix m md k a assume m: "nodes s' m = Some md" "sharing_lookup E md k = Some a"
    then have "m \<noteq> n" by (auto simp: s' tree.lookup_new)
    with m have "nodes s m = Some md" by (simp add: s')
    from inv_nodes_entryD [OF d(4) this m(2)] obtain it where
      it: "items s a = Some it" "item_key it = k" "ri_state it = Stable" "ri_stable_node it = Some m" by auto
    with T [of a it] \<open>m \<noteq> n\<close> new [of a it]
    show "a \<notin> {} \<and> (\<exists>it. items s' a = Some it \<and> item_key it = k \<and> ri_state it = Stable \<and>
        ri_stable_node it = Some m)" by auto
  next
    fix m md assume m: "nodes s' m = Some md"
    show "g_wf (tree_ops E) (sn_sharing_item_tree md)"
      "sn_shared_cnt md = int (card (dom (sharing_lookup E md)))"
      "sn_shared_cnt md \<le> MAX_PAGE_SHARING" "m \<notin> {n} \<Longrightarrow> 0 < sn_shared_cnt md"
    proof -
      have "g_wf (tree_ops E) (sn_sharing_item_tree md) \<and>
        sn_shared_cnt md = int (card (dom (sharing_lookup E md))) \<and>
        sn_shared_cnt md \<le> MAX_PAGE_SHARING \<and> (m \<notin> {n} \<longrightarrow> 0 < sn_shared_cnt md)"
      proof (cases "m = n")
        case True
        have "sharing_lookup E md = Map.empty" using m True by (auto simp: s' tree.lookup_new fun_eq_iff)
        then show ?thesis using m True by (auto simp: s' tree.wf_new MAX_PAGE_SHARING_def)
      next
        case False
        with m have "nodes s m = Some md" by (simp add: s')
        from inv_nodesD [OF d(4) this] show ?thesis by blast
      qed
      then show "g_wf (tree_ops E) (sn_sharing_item_tree md)"
        "sn_shared_cnt md = int (card (dom (sharing_lookup E md)))"
        "sn_shared_cnt md \<le> MAX_PAGE_SHARING" "m \<notin> {n} \<Longrightarrow> 0 < sn_shared_cnt md" by blast+
    qed
  qed
  moreover have "inv_chain E s'"
    by (rule inv_chain_same_links [OF d(5)]) (use nd in \<open>simp_all add: s' hashed_links_def links_def\<close>)
  ultimately show ?thesis using d(6) by (simp add: meta_inv_def s')
qed

lemma sharers_distinct:
  assumes inv: "server_inv E s" and nd: "nodes s n = Some nd"
  shows "distinct (map snd (g_entries (tree_ops E) (sn_sharing_item_tree nd)))"
proof -
  note d = meta_invD [OF server_invD [OF inv]]
  note wf = inv_nodesD(1) [OF d(4) nd]
  let ?es = "g_entries (tree_ops E) (sn_sharing_item_tree nd)"
  have key: "\<exists>it. items s (snd p) = Some it \<and> item_key it = fst p" if "p \<in> set ?es" for p
    using that inv_nodes_entryD [OF d(4) nd, of "fst p" "snd p"] tree.entries_iff [OF wf, of "fst p" "snd p"]
    by auto
  have "inj_on snd (set ?es)"
    using key by (intro inj_onI) (metis option.inject prod_eqI)
  moreover have "distinct ?es" using tree.entries_distinct [OF wf] by (simp add: distinct_map)
  ultimately show ?thesis by (simp add: distinct_map)
qed

lemma sharer_key:
  assumes inv: "server_inv E s" and nd: "nodes s n = Some nd" and b: "rmap_lookup E s k = Some b"
  shows "b \<in> ran (sharing_lookup E nd) \<longleftrightarrow> k \<in> dom (sharing_lookup E nd)"
proof -
  note d = meta_invD [OF server_invD [OF inv]]
  obtain it where it: "items s b = Some it" "item_key it = k" using inv_rmap_lookupD [OF d(1) b] by blast
  have "c = b" if "sharing_lookup E nd k = Some c" for c
    using inv_nodes_entryD [OF d(4) nd that] inv_rmap_inj [OF d(1)] it by blast
  moreover have "j = k" if "sharing_lookup E nd j = Some b" for j
    using inv_nodes_entryD [OF d(4) nd that] it by auto
  ultimately show ?thesis unfolding ran_def dom_def by blast
qed

lemma undo_merge_two_ok:
  assumes inv: "server_inv E s"
    and look: "rmap_lookup E s (unstable_merge_from_mm_id e, unstable_merge_from_va e) = Some a"
    and it: "items s a = Some it" "ri_state it = Stable" "ri_stable_node it = Some n"
    and nd: "nodes s n = Some nd"
  shows "\<exists>s'. undo_merge_two E e s = Inr s' \<and> server_inv E s' \<and> log_table s' = log_table s \<and>
    nodes s' n = None \<and> sharing E s' = (sharing E s) |` (- dom (sharing_lookup E nd))"
proof -
  note d = meta_invD [OF server_invD [OF inv]]
  let ?as = "map snd (g_entries (tree_ops E) (sn_sharing_item_tree nd))"
  let ?T = "ran (sharing_lookup E nd)"
  let ?nd = "nd\<lparr>sn_shared_cnt := 0, sn_sharing_item_tree := g_new (tree_ops E)\<rparr>"
  let ?s1 = "s\<lparr>items := shed_items ?T (items s)\<rparr>"
  define s2 where s2: "s2 = s\<lparr>items := shed_items ?T (items s), nodes := (nodes s)(n \<mapsto> ?nd)\<rparr>"
  have as: "set ?as = ?T"
    using tree.values_iff [OF inv_nodesD(1) [OF d(4) nd]] unfolding ran_def set_map by blast
  have "reset_items ?as (0, s) = Inr (0 + length ?as, s\<lparr>items := shed_items (set ?as) (items s)\<rparr>)"
  proof (rule reset_items_all [OF sharers_distinct [OF inv nd]])
    fix b assume "b \<in> set ?as"
    with as obtain k where "sharing_lookup E nd k = Some b" by (auto simp: ran_def)
    from inv_nodes_entryD [OF d(4) nd this] show "\<exists>it. items s b = Some it \<and> ri_state it = Stable" by blast
  qed
  then have run: "undo_merge_two E e s = remove_stable_node_no_item E n ?s1"
    using look it nd as by (simp add: undo_merge_two_def)
  obtain xs where xs: "chain (nodes s) xs" "n \<in> set xs" using inv_chain_nodeD [OF d(5) nd] by blast
  then obtain as bs where sp: "xs = as @ n # bs" by (meson split_list)
  note ends = chain_no_loop [OF xs(1) [unfolded sp] nd]
  have s2n: "nodes s2 n = Some ?nd" "sn_shared_cnt ?nd = 0" by (simp_all add: s2)
  have i2: "meta_inv E {} {} {n} s2" by (rule dissolved_inv [OF inv nd s2])
  have run2: "remove_stable_node_no_item E n ?s1 = remove_stable_node_no_item E n s2"
    using remove_stable_node_body [of ?s1 n nd ?nd E] nd ends
    by (simp add: s2 hashed_links_def links_def)
  from remove_stable_node_no_item_inv [OF i2 s2n] obtain h t where
    r: "remove_stable_node_no_item E n s2 = Inr (s2\<lparr>nodes := h, stable_hash_table := t\<rparr>)" "h n = None"
      "\<forall>m. m \<noteq> n \<longrightarrow> map_option node_body (h m) = map_option node_body (nodes s2 m)"
      "meta_inv E {} {} {} (s2\<lparr>nodes := h, stable_hash_table := t\<rparr>)"
    unfolding node_removed_def by auto
  let ?s3 = "s2\<lparr>nodes := h, stable_hash_table := t\<rparr>"
  have f3: "frame_of ?s3 = frame_of s2"
    by (rule frame_of_nodes [OF meta_invD(3) [OF i2], of _ n])
      (use r(3) s2n in \<open>auto simp: tree.lookup_new fun_eq_iff\<close>)
  have f2: "frame_of s2 b = (if b \<in> ?T then None else frame_of s b)" for b
  proof -
    have "pfn_of s2 = pfn_of s" using nd by (auto simp: s2 pfn_of_def fun_eq_iff)
    then show ?thesis
      by (cases "items s b") (auto simp: frame_of_def s2 shed_items_def item_frame_def)
  qed
  have "sharing E ?s3 k = ((sharing E s) |` (- dom (sharing_lookup E nd))) k" for k
  proof (cases "rmap_lookup E s k")
    case None
    then show ?thesis by (simp add: sharing_def s2 restrict_map_def)
  next
    case (Some b)
    have "b \<in> ?T \<longleftrightarrow> k \<in> dom (sharing_lookup E nd)" using sharer_key [OF inv nd Some] .
    then show ?thesis using Some f3 f2 by (simp add: sharing_def s2 restrict_map_def)
  qed
  then have "sharing E ?s3 = (sharing E s) |` (- dom (sharing_lookup E nd))" by (rule ext)
  with run run2 r show ?thesis by (intro exI [of _ ?s3]) (simp add: server_inv_def s2)
qed

end

section \<open>Reading the table in chunks\<close>

text \<open>
  An error table whose memory holds \<open>es\<close>, laid out contiguously: what a read of \<open>len\<close> bytes at
  the \<open>i\<close>-th descriptor returns. The memory is registered page by page, so that behind the
  entries of the table there is a rest the server reads and ignores.
\<close>

definition entries_per_sgl :: nat where
  "entries_per_sgl = MAX_PAGES_IN_SGL * PAGE_SIZE div sizeof_ksm_event_log"

definition read_error_table :: "ksm_event_log list \<Rightarrow> nat \<Rightarrow> nat \<Rightarrow> ksm_event_log list option" where
  "read_error_table es i len =
     Some (take (len div sizeof_ksm_event_log) (drop (i * entries_per_sgl) es))"

lemma entries_per_sgl_eq: "entries_per_sgl = 65536 * 128"
  by (simp add: entries_per_sgl_def MAX_PAGES_IN_SGL_def PAGE_SIZE_def)

lemma error_table_extent:
  assumes "tse = DIV_ROUND_UP (length es * sizeof_ksm_event_log) PAGE_SIZE"
    and "dc = DIV_ROUND_UP tse MAX_PAGES_IN_SGL"
  shows "length es * 32 \<le> tse * 4096" "length es \<le> dc * entries_per_sgl"
proof -
  show *: "length es * 32 \<le> tse * 4096"
    using DIV_ROUND_UP_covers [of PAGE_SIZE "length es * sizeof_ksm_event_log"] assms(1)
    by (simp add: PAGE_SIZE_def)
  have "tse \<le> dc * 65536"
    using DIV_ROUND_UP_covers [of MAX_PAGES_IN_SGL tse] assms(2) by (simp add: MAX_PAGES_IN_SGL_def)
  with * show "length es \<le> dc * entries_per_sgl" by (simp add: entries_per_sgl_eq)
qed

lemma handle_error_chunks_all:
  assumes tse: "tse = DIV_ROUND_UP (length es * sizeof_ksm_event_log) PAGE_SIZE"
    and dc: "dc = DIV_ROUND_UP tse MAX_PAGES_IN_SGL" and "i \<le> dc"
  shows "handle_error_chunks E (read_error_table (es @ rest)) tse dc [i..<dc] (length es - i * entries_per_sgl) s =
    rbind (rfold (handle_error_entry E) (drop (i * entries_per_sgl) es) s) (\<lambda>s. Inr (0, s))"
  using assms(3)
proof (induction "dc - i" arbitrary: i s)
  case 0
  then show ?case using error_table_extent(2) [OF tse dc] by simp
next
  case (Suc k)
  then have i: "i < dc" "k = dc - Suc i" by simp_all
  let ?left = "length es - i * entries_per_sgl"
  let ?size = "if i = dc - 1 then tse - i * MAX_PAGES_IN_SGL else MAX_PAGES_IN_SGL"
  let ?cap = "?size * PAGE_SIZE div sizeof_ksm_event_log"
  have cap: "?cap = ?size * 128" by (simp add: PAGE_SIZE_def MAX_PAGES_IN_SGL_def)
  have last: "?left \<le> ?cap" if "i = dc - 1"
    using that error_table_extent(1) [OF tse dc] unfolding cap by (simp add: entries_per_sgl_eq MAX_PAGES_IN_SGL_def)
  have mid: "?cap = entries_per_sgl" if "i \<noteq> dc - 1"
    using that unfolding cap by (simp add: entries_per_sgl_eq MAX_PAGES_IN_SGL_def)
  have take: "take (min ?left ?cap) (take ?cap (drop (i * entries_per_sgl) (es @ rest))) =
      take entries_per_sgl (drop (i * entries_per_sgl) es)" and
    left: "?left - min ?left ?cap = length es - Suc i * entries_per_sgl"
  proof -
    have D: "length (drop (i * entries_per_sgl) es) = ?left" by simp
    have bound: "?left \<le> entries_per_sgl" if "i = dc - 1"
    proof -
      have "dc = Suc i" using that i(1) by simp
      then show ?thesis using error_table_extent(2) [OF tse dc] by simp
    qed
    show "take (min ?left ?cap) (take ?cap (drop (i * entries_per_sgl) (es @ rest))) =
        take entries_per_sgl (drop (i * entries_per_sgl) es)"
      using last mid bound by (cases "i = dc - 1") (simp_all add: min_def)
    show "?left - min ?left ?cap = length es - Suc i * entries_per_sgl"
      using last mid bound by (cases "i = dc - 1") (simp_all add: min_def add.commute)
  qed
  have "handle_error_chunks E (read_error_table (es @ rest)) tse dc [Suc i..<dc] (length es - Suc i * entries_per_sgl) s' =
      rbind (rfold (handle_error_entry E) (drop (Suc i * entries_per_sgl) es) s') (\<lambda>s. Inr (0, s))" for s'
    by (rule Suc.hyps) (use i in simp_all)
  moreover have "drop (i * entries_per_sgl) es =
      take entries_per_sgl (drop (i * entries_per_sgl) es) @ drop (Suc i * entries_per_sgl) es"
    using append_take_drop_id [of entries_per_sgl "drop (i * entries_per_sgl) es"] by (simp add: add.commute)
  ultimately have drop: "rbind (rfold (handle_error_entry E) (take entries_per_sgl (drop (i * entries_per_sgl) es)) s)
      (handle_error_chunks E (read_error_table (es @ rest)) tse dc [Suc i..<dc] (length es - Suc i * entries_per_sgl)) =
    rbind (rfold (handle_error_entry E) (drop (i * entries_per_sgl) es) s) (\<lambda>s. Inr (0, s))"
    by (metis (no_types, lifting) rbind_assoc rfold_append ext)
  have "PAGE_SIZE * ?size div sizeof_ksm_event_log = ?cap" by (simp add: mult.commute)
  then show ?case
    using i(1) drop by (simp only: upt_conv_Cons handle_error_chunks.simps read_error_table_def Let_def
        option.case take left)
qed

text \<open>
  All the server asks of its reads: that for every descriptor the read of the whole chunk returns
  the entries of the table, in order, the last ones followed by whatever the memory holds.
\<close>

definition reads_errors :: "(nat \<Rightarrow> nat \<Rightarrow> ksm_event_log list option) \<Rightarrow> ksm_event_log list \<Rightarrow> bool" where
  "reads_errors read es \<longleftrightarrow>
     (let tse = DIV_ROUND_UP (length es * sizeof_ksm_event_log) PAGE_SIZE;
          dc = DIV_ROUND_UP tse MAX_PAGES_IN_SGL
      in \<exists>rest. \<forall>i < dc.
           (let len = PAGE_SIZE * (if i = dc - 1 then tse - i * MAX_PAGES_IN_SGL else MAX_PAGES_IN_SGL)
            in read i len = read_error_table (es @ rest) i len))"

lemma reads_errors_table: "reads_errors (read_error_table (es @ rest)) es"
  unfolding reads_errors_def Let_def by blast

lemma handle_error_chunks_cong:
  assumes "\<And>i. i \<in> set is \<Longrightarrow>
    (let len = PAGE_SIZE * (if i = dc - 1 then tse - i * MAX_PAGES_IN_SGL else MAX_PAGES_IN_SGL)
     in read i len = read' i len)"
  shows "handle_error_chunks E read tse dc is left s = handle_error_chunks E read' tse dc is left s"
  using assms
proof (induction "is" arbitrary: left s)
  case (Cons i "is")
  from Cons.prems [of i] have "read i (PAGE_SIZE * (if i = dc - 1 then tse - i * MAX_PAGES_IN_SGL else MAX_PAGES_IN_SGL)) =
      read' i (PAGE_SIZE * (if i = dc - 1 then tse - i * MAX_PAGES_IN_SGL else MAX_PAGES_IN_SGL))"
    by (simp only: Let_def list.set_intros simp_thms)
  moreover have "handle_error_chunks E read tse dc is = handle_error_chunks E read' tse dc is"
    using Cons by (intro ext) simp
  ultimately show ?case by (simp only: handle_error_chunks.simps Let_def)
qed simp

lemma do_handle_error_all:
  assumes "et_total_cnt d = length es"
    and "et_desc_cnt d = DIV_ROUND_UP (DIV_ROUND_UP (length es * sizeof_ksm_event_log) PAGE_SIZE) MAX_PAGES_IN_SGL"
    and "reads_errors read es"
  shows "do_handle_error E read d s = rbind (rfold (handle_error_entry E) es s) (\<lambda>s. Inr (0, s))"
proof -
  let ?tse = "DIV_ROUND_UP (length es * sizeof_ksm_event_log) PAGE_SIZE"
  let ?dc = "DIV_ROUND_UP ?tse MAX_PAGES_IN_SGL"
  from assms(3) obtain rest where r: "\<forall>i < ?dc.
      (let len = PAGE_SIZE * (if i = ?dc - 1 then ?tse - i * MAX_PAGES_IN_SGL else MAX_PAGES_IN_SGL)
       in read i len = read_error_table (es @ rest) i len)"
    unfolding reads_errors_def Let_def by blast
  have "handle_error_chunks E read ?tse ?dc [0..<?dc] (length es) s =
      handle_error_chunks E (read_error_table (es @ rest)) ?tse ?dc [0..<?dc] (length es) s"
    by (rule handle_error_chunks_cong) (use r in \<open>simp only: set_upt atLeastLessThan_iff\<close>)
  then show ?thesis using handle_error_chunks_all [OF refl refl, of 0 es E rest s] assms(1,2)
    by (simp add: do_handle_error_def)
qed

end
