(* ===== verification/Server_Prune.thy ===== *)
theory Server_Prune
  imports Server_Undo
begin

text \<open>
  The clean-up at the end of a round (\<open>server.h\<close>: \<open>clean_up_unstable_tree\<close>, \<open>prune_rmap_tree\<close>,
  \<open>prune_metadata\<close>): the unstable table is emptied and its items become volatile again; items
  that have not been visited for two rounds are dropped when there are many of them.
\<close>

section \<open>The operations\<close>

definition update_item_state :: "addr \<Rightarrow> ('t, 'h) server \<Rightarrow> ('t, 'h) server res" where
  "update_item_state node s =
     rbind (deref (items s) node) (\<lambda>it. Inr (set_item node (it\<lparr>ri_state := Volatile\<rparr>) s))"

definition clean_up_unstable_tree ::
  "('t, 'h) server_env \<Rightarrow> ('t, 'h) server \<Rightarrow> ('t, 'h) server res" where
  "clean_up_unstable_tree E s =
     rbind (rfold update_item_state (map snd (g_entries (hash_ops E) (unstable_hash_table s))) s)
       (\<lambda>s. Inr (s\<lparr>unstable_hash_table := g_remove_all (hash_ops E) (unstable_hash_table s)\<rparr>))"

text \<open>
  \<open>last_access\<close> is a \<open>short\<close>: it is sign extended for the comparison with the \<open>int\<close> counter.
\<close>

definition unaccessed :: "int \<Rightarrow> rmap_item \<Rightarrow> bool" where
  "unaccessed iter it \<longleftrightarrow> sint (ri_last_access it) < iter - 1"

definition collect_keys_to_remove ::
  "('t, 'h) server \<Rightarrow> addr \<Rightarrow> addr list \<Rightarrow> addr list res" where
  "collect_keys_to_remove s item keys_to_remove =
     rbind (deref (items s) item) (\<lambda>it.
       if unaccessed (iteration s) it then
         rbind (guard_stop ''Invalid state for item'' (ri_state it \<notin> {Item_None, Unstable})) (\<lambda>_.
         rbind (guard_stop ''Invalid stable node for item''
                  (ri_state it = Stable \<longrightarrow> ri_stable_node it \<noteq> None)) (\<lambda>_.
           Inr (item # keys_to_remove)))
       else Inr keys_to_remove)"

definition prune_item ::
  "('t, 'h) server_env \<Rightarrow> addr \<Rightarrow> ('t, 'h) server \<Rightarrow> ('t, 'h) server res" where
  "prune_item E item s =
     rbind (deref (items s) item) (\<lambda>it.
     rbind (case (ri_state it, ri_stable_node it) of
              (Stable, Some node) \<Rightarrow>
                rbind (remove_item_from_node E node item s) (\<lambda>s.
                rbind (deref (nodes s) node) (\<lambda>nd.
                  if sn_shared_cnt nd = 0 then remove_stale_node_and_log E node item s else Inr s))
            | _ \<Rightarrow> Inr s) (\<lambda>s.
       Inr (s\<lparr>rmap_tree := g_remove (tree_ops E) (rmap_tree s) (item_key it),
              items := (items s)(item := None)\<rparr>)))"

definition prune_rmap_tree ::
  "('t, 'h) server_env \<Rightarrow> ('t, 'h) server \<Rightarrow> ('t, 'h) server res" where
  "prune_rmap_tree E s =
     rbind (rfold (collect_keys_to_remove s) (map snd (g_entries (tree_ops E) (rmap_tree s))) [])
       (\<lambda>keys_to_remove. rfold (prune_item E) keys_to_remove s)"

definition RMAP_PRUNE_MARGIN :: u64 where "RMAP_PRUNE_MARGIN = 1000"

text \<open>
  The number of items, a \<open>gint\<close>, is converted to \<open>unsigned long\<close> for the subtraction, which
  wraps around.
\<close>

definition prune_metadata ::
  "('t, 'h) server_env \<Rightarrow> ('t, 'h) server \<Rightarrow> ('t, 'h) server res" where
  "prune_metadata E s =
     rbind (clean_up_unstable_tree E s) (\<lambda>s.
       if of_nat (length (g_entries (tree_ops E) (rmap_tree s))) - total_accessed_cnt s > RMAP_PRUNE_MARGIN
       then prune_rmap_tree E s
       else Inr s)"

section \<open>Cleaning up the unstable table\<close>

definition settle :: "addr set \<Rightarrow> (addr \<Rightarrow> rmap_item option) \<Rightarrow> addr \<Rightarrow> rmap_item option" where
  "settle T h = (\<lambda>a. if a \<in> T then map_option (ri_state_update (\<lambda>_. Volatile)) (h a) else h a)"

lemma settle_upd:
  "h a = Some it \<Longrightarrow> settle T (h(a \<mapsto> it\<lparr>ri_state := Volatile\<rparr>)) = settle (insert a T) h"
  by (auto simp: settle_def fun_eq_iff)

lemma settle_Some:
  "settle T h a = Some it' \<longleftrightarrow>
   (\<exists>it. h a = Some it \<and> it' = (if a \<in> T then it\<lparr>ri_state := Volatile\<rparr> else it))"
  by (auto simp: settle_def)

lemma settle_key: "map_option item_key (settle T h a) = map_option item_key (h a)"
  by (cases "h a") (simp_all add: settle_def item_key_def)

lemma update_items_all:
  assumes "\<And>a. a \<in> set as \<Longrightarrow> items s a \<noteq> None"
  shows "rfold update_item_state as s = Inr (s\<lparr>items := settle (set as) (items s)\<rparr>)"
  using assms
proof (induction as arbitrary: s)
  case Nil
  then show ?case by (simp add: settle_def)
next
  case (Cons a as)
  from Cons.prems [of a] obtain it where it: "items s a = Some it" by auto
  let ?s = "set_item a (it\<lparr>ri_state := Volatile\<rparr>) s"
  have "update_item_state a s = Inr ?s" using it by (simp add: update_item_state_def)
  moreover have "rfold update_item_state as ?s = Inr (?s\<lparr>items := settle (set as) (items ?s)\<rparr>)"
    by (rule Cons.IH) (use Cons.prems in auto)
  ultimately show ?case using settle_upd [of "items s" a it "set as"] it by simp
qed

lemma inv_rmap_map:
  assumes inv: "inv_rmap E s" and k: "\<And>a. map_option item_key (items s' a) = map_option item_key (items s a)"
    and st: "\<And>a it. items s' a = Some it \<Longrightarrow> ri_state it \<noteq> Item_None" and t: "rmap_tree s' = rmap_tree s"
  shows "inv_rmap E s'"
proof (rule inv_rmapI)
  fix j a assume "rmap_lookup E s' j = Some a"
  with inv_rmap_lookupD [OF inv, of j a] t obtain it where "items s a = Some it" "item_key it = j" by auto
  with k [of a] show "\<exists>it. items s' a = Some it \<and> item_key it = j" by auto
next
  fix a it' assume a: "items s' a = Some it'"
  with k [of a] obtain it where "items s a = Some it" "item_key it = item_key it'"
    by (cases "items s a") auto
  with inv_rmap_itemD [OF inv, of a it] t show "rmap_lookup E s' (item_key it') = Some a" by simp
qed (use inv_rmap_wf [OF inv] st t in simp_all)

lemma inv_nodes_keep:
  assumes inv: "inv_nodes E X Z s" and n: "nodes s' = nodes s"
    and k: "\<And>a it. items s a = Some it \<Longrightarrow> ri_state it = Stable \<Longrightarrow>
      \<exists>it'. items s' a = Some it' \<and> item_key it' = item_key it \<and> ri_state it' = Stable \<and>
        ri_stable_node it' = ri_stable_node it"
  shows "inv_nodes E X Z s'"
proof (rule inv_nodesI)
  fix m md j a assume "nodes s' m = Some md" "sharing_lookup E md j = Some a"
  with inv_nodes_entryD [OF inv, of m md j a] n obtain it where
    "a \<notin> X" "items s a = Some it" "item_key it = j" "ri_state it = Stable" "ri_stable_node it = Some m" by auto
  with k [of a it] show "a \<notin> X \<and> (\<exists>it. items s' a = Some it \<and> item_key it = j \<and>
      ri_state it = Stable \<and> ri_stable_node it = Some m)" by auto
qed (use inv_nodesD [OF inv] n in simp_all)

context server_runtime
begin

lemma clean_up_unstable_tree_ok:
  assumes inv: "server_inv E s"
  shows "\<exists>s'. clean_up_unstable_tree E s = Inr s' \<and> server_inv E s' \<and> sharing E s' = sharing E s \<and>
    log_table s' = log_table s \<and> iteration s' = iteration s \<and> rmap_tree s' = rmap_tree s \<and>
    total_accessed_cnt s' = total_accessed_cnt s \<and>
    (\<forall>a. map_option ri_last_access (items s' a) = map_option ri_last_access (items s a)) \<and>
    (\<forall>a it. items s' a = Some it \<longrightarrow> ri_state it \<noteq> Unstable)"
proof -
  note d = meta_invD [OF server_invD [OF inv]]
  note wf = inv_unstable_wf [OF d(2)]
  let ?as = "map snd (g_entries (hash_ops E) (unstable_hash_table s))"
  let ?T = "set ?as"
  let ?s = "s\<lparr>items := settle ?T (items s),
    unstable_hash_table := g_remove_all (hash_ops E) (unstable_hash_table s)\<rparr>"
  have T: "a \<in> ?T \<longleftrightarrow> ri_state it = Unstable" if "items s a = Some it" for a it
  proof -
    have "a \<in> ?T \<longleftrightarrow> (\<exists>h. unstable_lookup E s h = Some a)" using hash.values_iff [OF wf] by simp
    then show ?thesis
      using inv_unstable_lookupD [OF d(2)] inv_unstable_itemD [OF d(2) that] that by fastforce
  qed
  have "rfold update_item_state ?as s = Inr (s\<lparr>items := settle ?T (items s)\<rparr>)"
  proof (rule update_items_all)
    fix a assume "a \<in> set ?as"
    then obtain h where "unstable_lookup E s h = Some a" using hash.values_iff [OF wf] by auto
    then show "items s a \<noteq> None" using inv_unstable_lookupD [OF d(2)] by fastforce
  qed
  then have run: "clean_up_unstable_tree E s = Inr ?s" by (simp add: clean_up_unstable_tree_def)
  have old: "\<exists>it. items s a = Some it \<and> item_key it' = item_key it \<and>
      (ri_state it = Unstable \<and> ri_state it' = Volatile \<or> ri_state it \<noteq> Unstable \<and> it' = it)"
    if "items ?s a = Some it'" for a it'
    using that T by (auto simp: settle_Some item_key_def)
  have "inv_rmap E ?s"
  proof (rule inv_rmap_map [OF d(1)])
    fix a it' assume "items ?s a = Some it'"
    from old [OF this] obtain it where "items s a = Some it" "ri_state it' = Volatile \<or> it' = it" by blast
    with inv_rmap_itemD [OF d(1), of a it] show "ri_state it' \<noteq> Item_None" by auto
  qed (simp_all add: settle_key)
  moreover have "inv_unstable E {} ?s"
  proof (rule inv_unstableI)
    show "g_wf (hash_ops E) (unstable_hash_table ?s)" using hash.wf_remove_all [OF wf] by simp
  next
    fix a it' assume a: "items ?s a = Some it'" "ri_state it' = Unstable"
    with old [OF a(1)] show "unstable_lookup E ?s (ri_old_hash it') = Some a" by auto
  qed (use hash.lookup_remove_all [OF wf] in simp)
  moreover have "inv_items E {} ?s"
  proof (rule inv_itemsI)
    fix a it' assume a: "items ?s a = Some it'" "ri_state it' = Stable"
    with old [OF a(1)] have "items s a = Some it'" by auto
    from inv_itemsD [OF d(3) this a(2)] show "\<exists>n nd. ri_stable_node it' = Some n \<and> nodes ?s n = Some nd \<and>
        sharing_lookup E nd (item_key it') = Some a \<and> ri_old_hash it' = sn_page_hash nd" by simp
  qed
  moreover have "inv_nodes E {} {} ?s"
    by (rule inv_nodes_keep [OF d(4)]) (use T in \<open>auto simp: settle_def\<close>)
  moreover have "inv_chain E ?s" by (rule inv_chain_same_links [OF d(5)]) simp_all
  ultimately have inv': "server_inv E ?s" using d(6) by (simp add: server_inv_def meta_inv_def)
  have p: "pfn_of ?s = pfn_of s" by (rule pfn_of_nodes) simp
  have "items ?s a = settle ?T (items s) a" for a by simp
  then have "frame_of ?s a = frame_of s a" for a
    unfolding frame_of_def p using T [of a]
    by (cases "items s a") (simp_all add: settle_def item_frame_def)
  then have "sharing E ?s = sharing E s" by (intro sharing_cong ext) simp_all
  moreover have "ri_state it \<noteq> Unstable" if "items ?s a = Some it" for a it using old [OF that] by auto
  moreover have "map_option ri_last_access (items ?s a) = map_option ri_last_access (items s a)" for a
    by (simp add: settle_def option.map_comp comp_def)
  ultimately show ?thesis using run inv' by (intro exI [of _ ?s]) simp
qed

end

section \<open>Dropping items\<close>

text \<open>Removing a node does not look at the items.\<close>

lemma remove_stable_node_items:
  "remove_stable_node_no_item E n (s\<lparr>items := I\<rparr>) =
   rbind (remove_stable_node_no_item E n s) (\<lambda>s. Inr (s\<lparr>items := I\<rparr>))"
proof (cases "nodes s n")
  case None
  then show ?thesis by (simp add: remove_stable_node_no_item_def deref_def)
next
  case (Some nd)
  show ?thesis
  proof (cases "sn_type nd")
    case HEAD
    show ?thesis
    proof (cases "sn_next nd")
      case None
      then show ?thesis using Some HEAD by (simp add: remove_stable_node_no_item_def)
    next
      case (Some m)
      then show ?thesis using \<open>nodes s n = Some nd\<close> HEAD
        by (cases "sn_prev nd"; cases "nodes s m")
          (simp_all add: remove_stable_node_no_item_def deref_def Let_def)
    qed
  next
    case CHAIN
    show ?thesis
    proof (cases "sn_prev nd")
      case None
      then show ?thesis using Some CHAIN by (simp add: remove_stable_node_no_item_def)
    next
      case (Some p)
      show ?thesis
      proof (cases "nodes s p")
        case None
        then show ?thesis using Some \<open>nodes s n = Some nd\<close> CHAIN
          by (simp add: remove_stable_node_no_item_def deref_def)
      next
        case (Some pd)
        then show ?thesis using \<open>sn_prev nd = Some p\<close> \<open>nodes s n = Some nd\<close> CHAIN
          by (simp add: remove_stable_node_no_item_def deref_def Let_def rbind_def split: option.splits)
      qed
    qed
  qed
qed

lemma remove_stale_items:
  assumes "nodes s n = Some nd" "items s a = Some it" "I a = Some it'"
    and "ri_mm_id it' = ri_mm_id it" "ri_va it' = ri_va it"
  shows "remove_stale_node_and_log E n a (s\<lparr>items := I\<rparr>) =
    rbind (remove_stale_node_and_log E n a s) (\<lambda>s. Inr (s\<lparr>items := I\<rparr>))"
proof -
  have "log_stale_node E lt nd it' = log_stale_node E lt nd it" for lt
    using assms by (simp add: log_stale_node_def)
  moreover have "remove_stable_node_no_item E n (s\<lparr>items := I, log_table := lt\<rparr>) =
      rbind (remove_stable_node_no_item E n (s\<lparr>log_table := lt\<rparr>)) (\<lambda>s. Inr (s\<lparr>items := I\<rparr>))" for lt
  proof -
    have "s\<lparr>items := I, log_table := lt\<rparr> = s\<lparr>log_table := lt, items := I\<rparr>" by simp
    then show ?thesis using remove_stable_node_items [where s = "s\<lparr>log_table := lt\<rparr>" and E = E and n = n and I = I] by (simp only:)
  qed
  ultimately show ?thesis using assms
    by (cases "log_stale_node E (log_table s) nd it") (simp_all add: remove_stale_node_and_log_def)
qed

context server_runtime
begin

lemma drop_item_ok:
  assumes inv: "server_inv E s" and it: "items s a = Some it" "ri_state it = Volatile"
    and s': "s' = s\<lparr>rmap_tree := g_remove (tree_ops E) (rmap_tree s) (item_key it),
      items := (items s)(a := None)\<rparr>"
  shows "server_inv E s'" "sharing E s' = (sharing E s)(item_key it := None)"
proof -
  note d = meta_invD [OF server_invD [OF inv]]
  note wf = inv_rmap_wf [OF d(1)]
  have look: "rmap_lookup E s' = (rmap_lookup E s)(item_key it := None)"
    using tree.lookup_remove [OF wf] by (simp add: s')
  have old: "b \<noteq> a \<and> items s b = Some jt" if "items s' b = Some jt" for b jt
    using that by (auto simp: s' split: if_splits)
  have "inv_rmap E s'"
  proof (rule inv_rmapI)
    show "g_wf (tree_ops E) (rmap_tree s')" using tree.wf_remove [OF wf] by (simp add: s')
  next
    fix k b assume "rmap_lookup E s' k = Some b"
    then have k: "k \<noteq> item_key it" "rmap_lookup E s k = Some b" unfolding look by (auto split: if_splits)
    from inv_rmap_lookupD [OF d(1) k(2)] obtain jt where "items s b = Some jt" "item_key jt = k" by blast
    moreover from this k(1) it(1) have "b \<noteq> a" by auto
    ultimately show "\<exists>jt. items s' b = Some jt \<and> item_key jt = k" by (simp add: s')
  next
    fix b jt assume "items s' b = Some jt"
    with old have b: "b \<noteq> a" "items s b = Some jt" by blast+
    from inv_rmap_itemD [OF d(1) b(2)] inv_rmap_inj [OF d(1) b(2) it(1)] b(1)
    show "rmap_lookup E s' (item_key jt) = Some b" "ri_state jt \<noteq> Item_None" unfolding look by auto
  qed
  moreover have "inv_unstable E {} s'"
  proof (rule inv_unstableI)
    fix h b assume "unstable_lookup E s' h = Some b"
    with inv_unstable_lookupD [OF d(2), of h b] obtain jt where
      "items s b = Some jt" "ri_state jt = Unstable" "ri_old_hash jt = h" by (auto simp: s')
    moreover from this it have "b \<noteq> a" by auto
    ultimately show "b \<notin> {} \<and> (\<exists>jt. items s' b = Some jt \<and> ri_state jt = Unstable \<and> ri_old_hash jt = h)"
      by (simp add: s')
  next
    fix b jt assume "items s' b = Some jt" "ri_state jt = Unstable"
    with old [of b jt] inv_unstable_itemD [OF d(2), of b jt]
    show "unstable_lookup E s' (ri_old_hash jt) = Some b" by (simp add: s')
  qed (use inv_unstable_wf [OF d(2)] in \<open>simp add: s'\<close>)
  moreover have "inv_items E {} s'"
  proof (rule inv_itemsI)
    fix b jt assume "items s' b = Some jt" "ri_state jt = Stable"
    with old [of b jt] inv_itemsD [OF d(3), of b jt] show "\<exists>n nd. ri_stable_node jt = Some n \<and>
        nodes s' n = Some nd \<and> sharing_lookup E nd (item_key jt) = Some b \<and> ri_old_hash jt = sn_page_hash nd"
      by (simp add: s')
  qed
  moreover have "inv_nodes E {} {} s'"
    by (rule inv_nodes_keep [OF d(4)]) (use it in \<open>auto simp: s'\<close>)
  moreover have "inv_chain E s'" by (rule inv_chain_same_links [OF d(5)]) (simp_all add: s')
  ultimately show "server_inv E s'" using d(6) by (simp add: server_inv_def meta_inv_def s')
  have p: "pfn_of s' = pfn_of s" by (rule pfn_of_nodes) (simp add: s')
  have fr: "frame_of s' b = frame_of s b" if "b \<noteq> a" for b
    unfolding frame_of_def p using that by (simp add: s')
  show "sharing E s' = (sharing E s)(item_key it := None)"
  proof
    fix k
    show "sharing E s' k = ((sharing E s)(item_key it := None)) k"
    proof (cases "k = item_key it")
      case False
      then have "rmap_lookup E s k \<noteq> Some a" using inv_rmap_lookupD [OF d(1), of k a] it(1) by auto
      then show ?thesis unfolding sharing_def look using False fr by (cases "rmap_lookup E s k") auto
    qed (simp add: sharing_def look)
  qed
qed

text \<open>What is left of a stable item's node when the item is dropped.\<close>

lemma prune_stable:
  assumes inv: "server_inv E s" and it: "items s a = Some it" "ri_state it = Stable"
    and n: "ri_stable_node it = Some n"
  shows "\<exists>s2 evs. prune_item E a s = Inr (s2\<lparr>rmap_tree := g_remove (tree_ops E) (rmap_tree s2) (item_key it),
      items := (items s2)(a := None)\<rparr>) \<and> server_inv E s2 \<and> items s2 = (items s)(a \<mapsto> reset_item it) \<and>
    sharing E s2 = (sharing E s)(item_key it := None) \<and> freed E evs (log_table s) (log_table s2) \<and>
    iteration s2 = iteration s \<and> rmap_tree s2 = rmap_tree s"
proof -
  note d = meta_invD [OF server_invD [OF inv]]
  obtain nd where nd: "nodes s n = Some nd" using inv_itemsD [OF d(3) it] n by auto
  have cnt: "0 < sn_shared_cnt nd" using inv_nodesD(4) [OF d(4) nd] by simp
  define s1 where s1: "s1 = set_item a (reset_item it) (set_node n (unshare_node E it nd) s)"
  note u = unlink_item [OF inv it n nd s1]
  let ?sr = "set_node n (unshare_node E it nd) s"
  have sr: "?sr = s1\<lparr>items := items s\<rparr>" by (simp add: s1)
  have s1a: "items s1 a = Some (reset_item it)" "nodes s1 n = Some (unshare_node E it nd)"
    "items s1 = (items s)(a \<mapsto> reset_item it)" "log_table s1 = log_table s" "rmap_tree s1 = rmap_tree s"
    "iteration s1 = iteration s" by (simp_all add: s1)
  have sh1: "sharing E s1 = (sharing E s)(item_key it := None)"
    using unlink_item_sharing [OF inv it n nd s1] by (simp add: item_key_def)
  show ?thesis
  proof (cases "sn_shared_cnt nd = 1")
    case True
    have "sn_shared_cnt (unshare_node E it nd) = 0" using True by simp
    from remove_stale_ok [OF u(3) s1a(2) this s1a(1)] obtain h t lt where
      r: "remove_stale_node_and_log E n a s1 = Inr (s1\<lparr>nodes := h, stable_hash_table := t, log_table := lt\<rparr>)"
        "server_inv E (s1\<lparr>nodes := h, stable_hash_table := t, log_table := lt\<rparr>)"
        "freed E [stale_event (reset_item it) (unshare_node E it nd)] (log_table s1) lt"
        "sharing E (s1\<lparr>nodes := h, stable_hash_table := t, log_table := lt\<rparr>) = sharing E s1" by blast
    let ?s2 = "s1\<lparr>nodes := h, stable_hash_table := t, log_table := lt\<rparr>"
    have "remove_stale_node_and_log E n a ?sr = Inr (?s2\<lparr>items := items s\<rparr>)"
      unfolding sr using remove_stale_items [OF s1a(2,1), of "items s" it] it r(1) by simp
    then have "prune_item E a s = Inr (?s2\<lparr>rmap_tree := g_remove (tree_ops E) (rmap_tree ?s2) (item_key it),
        items := (items ?s2)(a := None)\<rparr>)"
      using it n u(1) True by (simp add: prune_item_def s1)
    then show ?thesis using r sh1 s1a by (intro exI [of _ ?s2]) auto
  next
    case False
    have "meta_inv E {} {} {} s1" by (rule meta_inv_counted [OF u(3)]) (use s1a cnt False in auto)
    moreover have "prune_item E a s = Inr (s1\<lparr>rmap_tree := g_remove (tree_ops E) (rmap_tree s1) (item_key it),
        items := (items s1)(a := None)\<rparr>)"
      using it n u(1) False cnt by (simp add: prune_item_def s1)
    ultimately show ?thesis using sh1 s1a by (intro exI [of _ s1] exI [of _ "[]"]) (simp add: server_inv_def)
  qed
qed

lemma prune_item_ok:
  assumes inv: "server_inv E s" and it: "items s a = Some it" "ri_state it \<noteq> Unstable"
  shows "\<exists>s' evs. prune_item E a s = Inr s' \<and> server_inv E s' \<and>
    sharing E s' = (sharing E s)(item_key it := None) \<and> freed E evs (log_table s) (log_table s') \<and>
    items s' = (items s)(a := None) \<and> iteration s' = iteration s"
proof (cases "ri_state it = Stable")
  case True
  note d = meta_invD [OF server_invD [OF inv]]
  obtain n where n: "ri_stable_node it = Some n" using inv_itemsD [OF d(3) it(1) True] by blast
  from prune_stable [OF inv it(1) True n] obtain s2 evs where
    p: "prune_item E a s = Inr (s2\<lparr>rmap_tree := g_remove (tree_ops E) (rmap_tree s2) (item_key it),
      items := (items s2)(a := None)\<rparr>)" "server_inv E s2" "items s2 = (items s)(a \<mapsto> reset_item it)"
      "sharing E s2 = (sharing E s)(item_key it := None)" "freed E evs (log_table s) (log_table s2)"
      "iteration s2 = iteration s" by blast
  have a2: "items s2 a = Some (reset_item it)" using p(3) by simp
  from drop_item_ok [OF p(2) a2 _ refl] p show ?thesis by (intro exI) auto
next
  case False
  have "ri_state it = Volatile"
    using False it inv_rmap_itemD [OF meta_invD(1) [OF server_invD [OF inv]] it(1)] by (cases "ri_state it") auto
  moreover from this have "prune_item E a s = Inr (s\<lparr>rmap_tree := g_remove (tree_ops E) (rmap_tree s) (item_key it),
      items := (items s)(a := None)\<rparr>)" using it by (simp add: prune_item_def)
  ultimately show ?thesis using drop_item_ok [OF inv it(1) _ refl] by (intro exI [of _ "_"] exI [of _ "[]"]) auto
qed

lemma prune_items_ok:
  assumes "server_inv E s" "distinct as"
    and "\<And>a. a \<in> set as \<Longrightarrow> \<exists>it. items s a = Some it \<and> ri_state it \<noteq> Unstable"
  shows "\<exists>s' evs. rfold (prune_item E) as s = Inr s' \<and> server_inv E s' \<and>
    freed E evs (log_table s) (log_table s') \<and> items s' = (\<lambda>a. if a \<in> set as then None else items s a) \<and>
    sharing E s' = (sharing E s) |` (- {item_key it |a it. a \<in> set as \<and> items s a = Some it})"
  using assms
proof (induction as arbitrary: s)
  case Nil
  then show ?case by (intro exI [of _ s] exI [of _ "[]"]) (simp add: fun_eq_iff restrict_map_def)
next
  case (Cons a as)
  from Cons.prems(3) [of a] obtain it where it: "items s a = Some it" "ri_state it \<noteq> Unstable" by auto
  from prune_item_ok [OF Cons.prems(1) it] obtain s1 es where
    1: "prune_item E a s = Inr s1" "server_inv E s1" "sharing E s1 = (sharing E s)(item_key it := None)"
      "freed E es (log_table s) (log_table s1)" "items s1 = (items s)(a := None)" by blast
  have "\<exists>it. items s1 b = Some it \<and> ri_state it \<noteq> Unstable" if "b \<in> set as" for b
    using Cons.prems(2) Cons.prems(3) [of b] that 1(5) by auto
  with Cons.IH [OF 1(2)] Cons.prems(2) obtain s' es' where
    2: "rfold (prune_item E) as s1 = Inr s'" "server_inv E s'" "freed E es' (log_table s1) (log_table s')"
      "items s' = (\<lambda>b. if b \<in> set as then None else items s1 b)"
      "sharing E s' = (sharing E s1) |` (- {item_key it |b it. b \<in> set as \<and> items s1 b = Some it})" by auto
  have "{item_key jt |b jt. b \<in> set (a # as) \<and> items s b = Some jt} =
      insert (item_key it) {item_key jt |b jt. b \<in> set as \<and> items s1 b = Some jt}"
    using it(1) 1(5) Cons.prems(2) by (auto split: if_splits)
  then have "sharing E s' = (sharing E s) |` (- {item_key jt |b jt. b \<in> set (a # as) \<and> items s b = Some jt})"
    using 2(5) 1(3) by (auto simp: restrict_map_def fun_eq_iff)
  moreover have "items s' = (\<lambda>b. if b \<in> set (a # as) then None else items s b)" using 2(4) 1(5) by auto
  ultimately show ?case using 1(1) 2(1,2) freed_trans [OF 1(4) 2(3)] by (intro exI [of _ s']) auto
qed

lemma collect_keys_all:
  assumes "\<And>a. a \<in> set as \<Longrightarrow> \<exists>it. items s a = Some it \<and> ri_state it \<notin> {Item_None, Unstable} \<and>
      (ri_state it = Stable \<longrightarrow> ri_stable_node it \<noteq> None)"
  shows "rfold (collect_keys_to_remove s) as acc =
    Inr (rev (filter (\<lambda>a. \<exists>it. items s a = Some it \<and> unaccessed (iteration s) it) as) @ acc)"
  using assms
proof (induction as arbitrary: acc)
  case (Cons a as)
  from Cons.prems [of a] obtain it where it: "items s a = Some it" "ri_state it \<notin> {Item_None, Unstable}"
    "ri_state it = Stable \<longrightarrow> ri_stable_node it \<noteq> None" by auto
  then have "collect_keys_to_remove s a acc = Inr (if unaccessed (iteration s) it then a # acc else acc)"
    by (simp add: collect_keys_to_remove_def)
  then show ?case using Cons it(1) by auto
qed simp

text \<open>The items a pruning removes.\<close>

end

definition stale_item :: "('t, 'h) server \<Rightarrow> addr \<Rightarrow> bool" where
  "stale_item s a \<longleftrightarrow> (case items s a of None \<Rightarrow> False | Some it \<Rightarrow> unaccessed (iteration s) it)"

context server_runtime
begin

lemma prune_rmap_tree_ok:
  assumes inv: "server_inv E s" and nu: "\<forall>a it. items s a = Some it \<longrightarrow> ri_state it \<noteq> Unstable"
  shows "\<exists>s' evs. prune_rmap_tree E s = Inr s' \<and> server_inv E s' \<and>
    freed E evs (log_table s) (log_table s') \<and>
    items s' = (\<lambda>a. if stale_item s a then None else items s a) \<and>
    sharing E s' = (sharing E s) |` (- {k. \<exists>a. rmap_lookup E s k = Some a \<and> stale_item s a})"
proof -
  note d = meta_invD [OF server_invD [OF inv]]
  note wf = inv_rmap_wf [OF d(1)]
  let ?L = "map snd (g_entries (tree_ops E) (rmap_tree s))"
  let ?as = "rev (filter (stale_item s) ?L)"
  have key: "\<exists>it. items s (snd p) = Some it \<and> item_key it = fst p"
    if "p \<in> set (g_entries (tree_ops E) (rmap_tree s))" for p
    using that inv_rmap_lookupD [OF d(1), of "fst p" "snd p"] tree.entries_iff [OF wf, of "fst p" "snd p"] by simp
  have "inj_on snd (set (g_entries (tree_ops E) (rmap_tree s)))"
    using key by (intro inj_onI) (metis option.inject prod_eqI)
  then have dist: "distinct ?L" using tree.entries_distinct [OF wf] by (simp add: distinct_map)
  have mem: "a \<in> set ?L \<longleftrightarrow> items s a \<noteq> None" for a
  proof -
    have "a \<in> set ?L \<longleftrightarrow> (\<exists>k. rmap_lookup E s k = Some a)" using tree.values_iff [OF wf, of a] by simp
    also have "\<dots> \<longleftrightarrow> items s a \<noteq> None"
    proof
      assume "\<exists>k. rmap_lookup E s k = Some a"
      then show "items s a \<noteq> None" using inv_rmap_lookupD [OF d(1), of _ a] by blast
    next
      assume "items s a \<noteq> None"
      then obtain it where "items s a = Some it" by blast
      from inv_rmap_itemD [OF d(1) this] show "\<exists>k. rmap_lookup E s k = Some a" by blast
    qed
    finally show ?thesis .
  qed
  have "rfold (collect_keys_to_remove s) ?L [] =
      Inr (rev (filter (\<lambda>a. \<exists>it. items s a = Some it \<and> unaccessed (iteration s) it) ?L) @ [])"
  proof (rule collect_keys_all)
    fix a assume "a \<in> set ?L"
    with mem obtain it where it: "items s a = Some it" by blast
    with inv_rmap_itemD [OF d(1) it] nu inv_itemsD [OF d(3) it]
    show "\<exists>it. items s a = Some it \<and> ri_state it \<notin> {Item_None, Unstable} \<and>
        (ri_state it = Stable \<longrightarrow> ri_stable_node it \<noteq> None)" by auto
  qed
  moreover have "(\<lambda>a. \<exists>it. items s a = Some it \<and> unaccessed (iteration s) it) = stale_item s"
    by (auto simp: stale_item_def fun_eq_iff split: option.splits)
  ultimately have run: "prune_rmap_tree E s = rfold (prune_item E) ?as s" by (simp add: prune_rmap_tree_def)
  have live: "\<exists>it. items s a = Some it \<and> ri_state it \<noteq> Unstable" if "a \<in> set ?as" for a
    using that nu by (auto simp: stale_item_def split: option.splits)
  have as: "a \<in> set ?as \<longleftrightarrow> stale_item s a" for a using mem by (auto simp: stale_item_def split: option.splits)
  have keys: "{item_key it |a it. a \<in> set ?as \<and> items s a = Some it} =
      {k. \<exists>a. rmap_lookup E s k = Some a \<and> stale_item s a}"
    using inv_rmap_itemD [OF d(1)] inv_rmap_lookupD [OF d(1)] as by blast
  have "distinct ?as" using dist by simp
  from prune_items_ok [OF inv this live] obtain s' evs where
    "rfold (prune_item E) ?as s = Inr s'" "server_inv E s'" "freed E evs (log_table s) (log_table s')"
    "items s' = (\<lambda>a. if a \<in> set ?as then None else items s a)"
    "sharing E s' = (sharing E s) |` (- {item_key it |a it. a \<in> set ?as \<and> items s a = Some it})" by blast
  then show ?thesis using run keys as by (intro exI [of _ s'] exI [of _ evs]) simp
qed

lemma prune_metadata_ok:
  assumes inv: "server_inv E s"
  shows "\<exists>s' evs. prune_metadata E s = Inr s' \<and> server_inv E s' \<and>
    freed E evs (log_table s) (log_table s') \<and>
    (\<forall>a it. items s' a = Some it \<longrightarrow> ri_state it \<noteq> Unstable) \<and>
    (\<forall>k. sharing E s' k = sharing E s k \<or>
       sharing E s' k = None \<and> (\<exists>a. rmap_lookup E s k = Some a \<and> stale_item s a))"
proof -
  from clean_up_unstable_tree_ok [OF inv] obtain s1 where
    1: "clean_up_unstable_tree E s = Inr s1" "server_inv E s1" "sharing E s1 = sharing E s"
      "log_table s1 = log_table s" "iteration s1 = iteration s" "rmap_tree s1 = rmap_tree s"
      "\<And>a. map_option ri_last_access (items s1 a) = map_option ri_last_access (items s a)"
      "\<forall>a it. items s1 a = Some it \<longrightarrow> ri_state it \<noteq> Unstable" by blast
  have stale: "stale_item s1 a = stale_item s a" for a
    using 1(5) 1(7) [of a] by (cases "items s a") (auto simp: stale_item_def unaccessed_def)
  show ?thesis
  proof (cases "of_nat (length (g_entries (tree_ops E) (rmap_tree s1))) - total_accessed_cnt s1 > RMAP_PRUNE_MARGIN")
    case False
    then show ?thesis using 1 by (intro exI [of _ s1] exI [of _ "[]"]) (simp add: prune_metadata_def)
  next
    case True
    from prune_rmap_tree_ok [OF 1(2,8)] obtain s' evs where
      2: "prune_rmap_tree E s1 = Inr s'" "server_inv E s'" "freed E evs (log_table s1) (log_table s')"
        "items s' = (\<lambda>a. if stale_item s1 a then None else items s1 a)"
        "sharing E s' = (sharing E s1) |` (- {k. \<exists>a. rmap_lookup E s1 k = Some a \<and> stale_item s1 a})" by blast
    have "prune_metadata E s = Inr s'" using 1(1) 2(1) True by (simp add: prune_metadata_def)
    moreover have "\<forall>a it. items s' a = Some it \<longrightarrow> ri_state it \<noteq> Unstable"
      using 2(4) 1(8) by (auto split: if_splits)
    moreover have "\<forall>k. sharing E s' k = sharing E s k \<or>
       sharing E s' k = None \<and> (\<exists>a. rmap_lookup E s k = Some a \<and> stale_item s a)"
      using 2(5) 1(3,6) stale by (auto simp: restrict_map_def)
    ultimately show ?thesis using 2(2,3) 1(4) by (intro exI [of _ s']) auto
  qed
qed

end

end
