(* ===== verification/Server_Round.thy ===== *)
theory Server_Round
  imports Server_Prune
begin

text \<open>
  One round of the server (\<open>server.c\<close>: \<open>do_ksm_v3\<close> and the loop of \<open>on_established\<close>). The page
  table of every process is read, then its pages, at most \<open>MAX_PAGES_IN_SGL\<close> at a time; each
  batch is handed to the page worker. While the worker is busy the main thread only reads the next
  batch, and it hands that over when the worker is done, so the rounds of the two threads are run
  here one after the other; the hand-over itself is modelled with its status field.
\<close>

section \<open>Batches\<close>

definition sgl_nums :: "nat \<Rightarrow> nat" where
  "sgl_nums entry_cnt = DIV_ROUND_UP entry_cnt MAX_PAGES_IN_SGL"

definition this_sgl_size :: "nat \<Rightarrow> nat \<Rightarrow> nat" where
  "this_sgl_size entry_cnt sgl_idx =
     (if sgl_idx = sgl_nums entry_cnt - 1 then entry_cnt - sgl_idx * MAX_PAGES_IN_SGL
      else MAX_PAGES_IN_SGL)"

text \<open>
  What the RDMA reads of a round return, and what \<open>lookup_pre_hash_pair\<close> returned for the pages:
  \<open>read_map i\<close> is the page table of the \<open>i\<close>-th process, \<open>read_pages i j\<close> the pages of its
  \<open>j\<close>-th batch; \<open>None\<close> is a failed allocation, registration or read.
\<close>

record round_io =
  read_map :: "nat \<Rightarrow> shadow_pte list option"
  read_pages :: "nat \<Rightarrow> nat \<Rightarrow> u8 list list option"
  pre_hashes :: "nat \<Rightarrow> nat \<Rightarrow> nat \<Rightarrow> hash_pair option"
  read_errors :: "nat \<Rightarrow> nat \<Rightarrow> ksm_event_log list option"

text \<open>
  The loop over the batches of one process. The first component of the result is \<open>scanned_cnt\<close>,
  or \<open>None\<close> when \<open>do_ksm_v3\<close> returns \<open>- 1\<close>. A worker that is neither ready nor done is waited
  for; with nothing handed to it this would be for ever.
\<close>

primrec scan_sgls ::
  "('t, 'h) server_env \<Rightarrow> ('t, 'h) ksm_ops \<Rightarrow> round_io \<Rightarrow> nat \<Rightarrow> int \<Rightarrow> shadow_pte list \<Rightarrow> nat \<Rightarrow>
   nat list \<Rightarrow> nat \<Rightarrow> worker_job \<Rightarrow> ('t, 'h) server \<Rightarrow>
   (nat option \<times> worker_job \<times> ('t, 'h) server) res" where
  "scan_sgls E ksm_ops io i mm_id va2dma_map entry_cnt [] scanned_cnt work s = Inr (Some scanned_cnt, work, s)"
| "scan_sgls E ksm_ops io i mm_id va2dma_map entry_cnt (sgl_idx # is) scanned_cnt work s =
     (case read_pages io i sgl_idx of
        None \<Rightarrow> Inr (None, work, s)
      | Some page_buf \<Rightarrow>
          if wj_status work \<in> {WORK_DONE, WORKER_READY} then
            rbind (ksm_page_worker E ksm_ops (pre_hashes io i sgl_idx)
                     \<lparr>wj_mm_id = mm_id, wj_va2dma_map = va2dma_map, wj_pages_buf = page_buf,
                      wj_num_pages = this_sgl_size entry_cnt sgl_idx,
                      wj_idx_adjust = sgl_idx * MAX_PAGES_IN_SGL, wj_status = DATA_READY\<rparr> s)
              (\<lambda>(work', s'). scan_sgls E ksm_ops io i mm_id va2dma_map entry_cnt is
                 (scanned_cnt + wj_num_pages work) work' s')
          else Inl Diverged)"

definition idle_worker :: "worker_job \<Rightarrow> worker_job" where
  "idle_worker work = work\<lparr>wj_mm_id := - 1, wj_va2dma_map := [], wj_pages_buf := [],
     wj_num_pages := 0, wj_idx_adjust := 0, wj_status := WORKER_READY\<rparr>"

definition scan_process ::
  "('t, 'h) server_env \<Rightarrow> ('t, 'h) ksm_ops \<Rightarrow> round_io \<Rightarrow> nat \<Rightarrow> shadow_pt_descriptor \<Rightarrow> nat \<Rightarrow>
   worker_job \<Rightarrow> ('t, 'h) server \<Rightarrow> (nat option \<times> worker_job \<times> ('t, 'h) server) res" where
  "scan_process E ksm_ops io i pt_desc scanned_cnt work s =
     (case read_map io i of
        None \<Rightarrow> Inr (None, work, s)
      | Some [] \<Rightarrow> Inl Null_Deref
      | Some (pte # ptes) \<Rightarrow>
          if pte_va pte = 0 then Inr (None, work, s)
          else
            rbind (scan_sgls E ksm_ops io i (sd_mm_id pt_desc) (pte # ptes) (sd_entry_cnt pt_desc)
                     [0..<sgl_nums (sd_entry_cnt pt_desc)] scanned_cnt work s)
              (\<lambda>(r, work, s).
                 case r of
                   None \<Rightarrow> Inr (None, work, s)
                 | Some scanned_cnt \<Rightarrow>
                     if wj_status work = WORK_DONE
                     then Inr (Some (scanned_cnt + wj_num_pages work), idle_worker work, s)
                     else Inl Diverged))"

primrec scan_processes ::
  "('t, 'h) server_env \<Rightarrow> ('t, 'h) ksm_ops \<Rightarrow> round_io \<Rightarrow> shadow_pt_descriptor list \<Rightarrow>
   nat list \<Rightarrow> nat \<Rightarrow> worker_job \<Rightarrow> ('t, 'h) server \<Rightarrow>
   (nat option \<times> worker_job \<times> ('t, 'h) server) res" where
  "scan_processes E ksm_ops io descs [] scanned_cnt work s = Inr (Some scanned_cnt, work, s)"
| "scan_processes E ksm_ops io descs (i # is) scanned_cnt work s =
     (if i < length descs then
        rbind (scan_process E ksm_ops io i (descs ! i) scanned_cnt work s)
          (\<lambda>(r, work, s).
             case r of
               None \<Rightarrow> Inr (None, work, s)
             | Some scanned_cnt \<Rightarrow> scan_processes E ksm_ops io descs is scanned_cnt work s)
      else Inl Null_Deref)"

text \<open>\<open>do_ksm_v3\<close>; \<open>- 1\<close> is its error result.\<close>

definition do_ksm_v3 ::
  "('t, 'h) server_env \<Rightarrow> ('t, 'h) ksm_ops \<Rightarrow> round_io \<Rightarrow> metadata_descriptor \<Rightarrow> worker_job \<Rightarrow>
   ('t, 'h) server \<Rightarrow> (int \<times> worker_job \<times> ('t, 'h) server) res" where
  "do_ksm_v3 E ksm_ops io meta_desc work s =
     rbind (scan_processes E ksm_ops io (md_pt_descs meta_desc) [0..<md_pt_cnt meta_desc] 0 work s)
       (\<lambda>(r, work, s).
          case r of
            None \<Rightarrow> Inr (- 1, work, s)
          | Some scanned_cnt \<Rightarrow>
              rbind (prune_metadata E s) (\<lambda>s.
                Inr (int scanned_cnt, work, s\<lparr>total_accessed_cnt := 0\<rparr>)))"

definition start_round :: "bool \<Rightarrow> ('t, 'h) server \<Rightarrow> ('t, 'h) server" where
  "start_round later s = (if later then s\<lparr>log_table := clear_log_table (log_table s)\<rparr> else s)"

text \<open>
  One turn of the loop of \<open>on_established\<close>, from the arrival of the metadata to the result that
  is sent back: the number of pages scanned and the log entries, or \<open>None\<close> when the connection
  is torn down. \<open>later\<close> is true from the second turn on, when \<open>result_mr\<close> is set.
\<close>

definition server_round ::
  "('t, 'h) server_env \<Rightarrow> ('t, 'h) ksm_ops \<Rightarrow> round_io \<Rightarrow> bool \<Rightarrow> metadata_descriptor \<Rightarrow> worker_job \<Rightarrow>
   ('t, 'h) server \<Rightarrow> ((int \<times> ksm_event_log list) option \<times> worker_job \<times> ('t, 'h) server) res" where
  "server_round E ksm_ops io later meta_desc work s =
     (let s = start_round later s
      in rbind (do_handle_error E (read_errors io) (md_et_descs meta_desc) s) (\<lambda>(err, s).
           if err \<noteq> 0 then Inr (None, work, s)
           else
             rbind (do_ksm_v3 E ksm_ops io meta_desc work s) (\<lambda>(total_scanned_cnt, work, s).
               if total_scanned_cnt < 0 then Inr (None, work, s)
               else Inr (Some (total_scanned_cnt, logged (log_table s)), work,
                 s\<lparr>skipped_cnt := 0, volatile_items_cnt := 0,
                   highly_volatile_but_stable_merged_cnt := 0,
                   highly_volatile_but_unstable_merged_cnt := 0, broken_merges := 0,
                   iteration := iteration s + 1\<rparr>))))"

section \<open>The batches cover the page table\<close>

lemma MAX_PAGES_IN_SGL_pos [simp]: "0 < MAX_PAGES_IN_SGL"
  by (simp add: MAX_PAGES_IN_SGL_def)

lemma sgl_nums_cover: "n \<le> sgl_nums n * MAX_PAGES_IN_SGL"
  by (simp add: sgl_nums_def DIV_ROUND_UP_covers)

lemma sgl_start: "j < sgl_nums n \<Longrightarrow> j * MAX_PAGES_IN_SGL < n"
  by (simp add: sgl_nums_def DIV_ROUND_UP_tight)

lemma this_sgl_end:
  assumes "j < sgl_nums n"
  shows "j * MAX_PAGES_IN_SGL + this_sgl_size n j = min n (Suc j * MAX_PAGES_IN_SGL)"
    "this_sgl_size n j \<le> MAX_PAGES_IN_SGL"
proof -
  show a: "j * MAX_PAGES_IN_SGL + this_sgl_size n j = min n (Suc j * MAX_PAGES_IN_SGL)"
  proof (cases "j = sgl_nums n - 1")
    case True
    then have "sgl_nums n = Suc j" using assms by simp
    then have "n \<le> Suc j * MAX_PAGES_IN_SGL" using sgl_nums_cover [of n] by simp
    then show ?thesis using True sgl_start [OF assms] by (simp add: this_sgl_size_def)
  next
    case False
    then have "Suc j * MAX_PAGES_IN_SGL < n" using assms by (intro sgl_start) simp
    then show ?thesis using False by (simp add: this_sgl_size_def)
  qed
  show "this_sgl_size n j \<le> MAX_PAGES_IN_SGL" using a by (simp add: min_def split: if_splits)
qed

lemma map_plus_upt: "map ((+) a) [0..<m] = [a..<a + m]" for a m :: nat
  by (induction m) simp_all

lemma upt_join: "i \<le> j \<Longrightarrow> j \<le> k \<Longrightarrow> [i..<j] @ [j..<k] = [i..<k]"
  using upt_add_eq_append [of i j "k - j"] by simp

text \<open>C9. The batches of a page table of \<open>n\<close> entries are disjoint, in order, and cover it: together
  they hold every index below \<open>n\<close> exactly once.\<close>

theorem batches_partition:
  "concat (map (\<lambda>j. map ((+) (j * MAX_PAGES_IN_SGL)) [0..<this_sgl_size n j]) [0..<sgl_nums n]) = [0..<n]"
proof -
  have "concat (map (\<lambda>j. map ((+) (j * MAX_PAGES_IN_SGL)) [0..<this_sgl_size n j]) [0..<k]) =
      [0..<min n (k * MAX_PAGES_IN_SGL)]" if "k \<le> sgl_nums n" for k
    using that
  proof (induction k)
    case (Suc k)
    then have k: "k < sgl_nums n" by simp
    have "map ((+) (k * MAX_PAGES_IN_SGL)) [0..<this_sgl_size n k] =
        [k * MAX_PAGES_IN_SGL..<k * MAX_PAGES_IN_SGL + this_sgl_size n k]"
      by (rule map_plus_upt)
    also have "\<dots> = [k * MAX_PAGES_IN_SGL..<min n (Suc k * MAX_PAGES_IN_SGL)]" using this_sgl_end(1) [OF k] by simp
    finally have "concat (map (\<lambda>j. map ((+) (j * MAX_PAGES_IN_SGL)) [0..<this_sgl_size n j]) [0..<Suc k]) =
        [0..<k * MAX_PAGES_IN_SGL] @ [k * MAX_PAGES_IN_SGL..<min n (Suc k * MAX_PAGES_IN_SGL)]"
      using Suc sgl_start [OF k] by simp
    also have "\<dots> = [0..<min n (Suc k * MAX_PAGES_IN_SGL)]"
      using sgl_start [OF k] by (intro upt_join) (simp_all add: min_def)
    finally show ?case .
  qed simp
  from this [OF order_refl] show ?thesis using sgl_nums_cover [of n] by (simp add: min_def)
qed

section \<open>Correctness of a round\<close>

text \<open>
  What the host promises for a process: a page table with as many entries as announced, at least
  one, for different addresses, whose frames are the ones the log will be read with; readable
  batches; and no page whose hash is the all-zero \<open>null_hash\<close>, which stands for ``none yet''.
\<close>

definition batches_ok ::
  "('t, 'h) server_env \<Rightarrow> round_io \<Rightarrow> nat \<Rightarrow> nat \<Rightarrow> bool" where
  "batches_ok E io i n \<longleftrightarrow>
     (\<forall>j < sgl_nums n. \<exists>buf. read_pages io i j = Some buf \<and> length buf = this_sgl_size n j \<and>
        (\<forall>x < this_sgl_size n j. calculate_hash_pair E (pre_hashes io i j x) (buf ! x) \<noteq> null_hash))"

definition process_ok ::
  "('t, 'h) server_env \<Rightarrow> round_io \<Rightarrow> (item_key \<Rightarrow> u64) \<Rightarrow> nat \<Rightarrow> shadow_pt_descriptor \<Rightarrow>
   shadow_pte list \<Rightarrow> bool" where
  "process_ok E io frame i desc ptes \<longleftrightarrow>
     read_map io i = Some ptes \<and> length ptes = sd_entry_cnt desc \<and> ptes \<noteq> [] \<and> pte_va (hd ptes) \<noteq> 0 \<and>
     distinct (map pte_va ptes) \<and>
     (\<forall>pte \<in> set ptes. frame (sd_mm_id desc, pte_va pte) = pte_kpfn pte) \<and>
     batches_ok E io i (sd_entry_cnt desc)"

definition page_keys :: "int \<Rightarrow> shadow_pte list \<Rightarrow> item_key set" where
  "page_keys mm_id ptes = (\<lambda>pte. (mm_id, pte_va pte)) ` set ptes"

lemma page_keys_append [simp]: "page_keys mm (xs @ ys) = page_keys mm xs \<union> page_keys mm ys"
  by (auto simp: page_keys_def)

lemma not_unstable_mono: "not_unstable s K \<Longrightarrow> K' \<subseteq> K \<Longrightarrow> not_unstable s K'"
  by (auto simp: not_unstable_def)

text \<open>The page table entries of one batch.\<close>

definition batch :: "shadow_pte list \<Rightarrow> nat \<Rightarrow> shadow_pte list" where
  "batch ptes j = take (this_sgl_size (length ptes) j) (drop (j * MAX_PAGES_IN_SGL) ptes)"

lemma batch_split:
  assumes "j < sgl_nums (length ptes)"
  shows "drop (j * MAX_PAGES_IN_SGL) ptes = batch ptes j @ drop (Suc j * MAX_PAGES_IN_SGL) ptes"
proof -
  have "drop (this_sgl_size (length ptes) j) (drop (j * MAX_PAGES_IN_SGL) ptes) =
      drop (Suc j * MAX_PAGES_IN_SGL) ptes"
    using this_sgl_end(1) [OF assms] by (simp add: add.commute min_def split: if_splits)
  then show ?thesis
    using append_take_drop_id [of "this_sgl_size (length ptes) j" "drop (j * MAX_PAGES_IN_SGL) ptes"]
    by (simp add: batch_def)
qed

lemma length_batch:
  assumes "j < sgl_nums (length ptes)"
  shows "length (batch ptes j) = this_sgl_size (length ptes) j"
proof -
  have "j * MAX_PAGES_IN_SGL + this_sgl_size (length ptes) j \<le> length ptes"
    using this_sgl_end(1) [OF assms] by simp
  then show ?thesis by (simp add: batch_def)
qed

lemma distinct_va_part:
  "distinct (map pte_va ptes) \<Longrightarrow> distinct (map pte_va (drop m ptes))"
  "distinct (map pte_va ptes) \<Longrightarrow> distinct (map pte_va (take k (drop m ptes)))"
  by (simp_all flip: drop_map take_map)

text \<open>The worker between two processes, and between two rounds.\<close>

definition worker_idle :: "worker_job \<Rightarrow> bool" where
  "worker_idle work \<longleftrightarrow> wj_status work = WORKER_READY \<and> wj_num_pages work = 0"

text \<open>The server between two rounds: no item is unstable, so every page may be scanned.\<close>

definition server_ready :: "('t, 'h) server_env \<Rightarrow> ('t, 'h) server \<Rightarrow> bool" where
  "server_ready E s \<longleftrightarrow> server_inv E s \<and> (\<forall>a it. items s a = Some it \<longrightarrow> ri_state it \<noteq> Unstable)"

lemma server_inv_counters:
  assumes "server_inv E s" "items s' = items s" "nodes s' = nodes s" "rmap_tree s' = rmap_tree s"
    and "stable_hash_table s' = stable_hash_table s" "unstable_hash_table s' = unstable_hash_table s"
    and "log_wf (log_table s')"
  shows "server_inv E s'"
  using meta_inv_cong [OF server_invD [OF assms(1)] assms(2-7)] by (simp add: server_inv_def)

lemma server_ready_unstable:
  "server_ready E s \<longleftrightarrow> server_inv E s \<and> (\<forall>h. unstable_lookup E s h = None)"
proof (cases "server_inv E s")
  case True
  note u = meta_invD(2) [OF server_invD [OF True]]
  have "unstable_lookup E s h = None" if "server_ready E s" for h
    using inv_unstable_lookupD [OF u, of h] that by (cases "unstable_lookup E s h") (auto simp: server_ready_def)
  moreover have "server_ready E s" if "\<forall>h. unstable_lookup E s h = None"
    using inv_unstable_itemD [OF u] that True by (fastforce simp: server_ready_def)
  ultimately show ?thesis using True by blast
qed (simp add: server_ready_def)

text \<open>
  An entry of the error table undoes a merge the server still believes in: the page is shared,
  and for a stable merge with the frame that the entry names.
\<close>

definition undoable :: "('t, 'h) server_env \<Rightarrow> ('t, 'h) server \<Rightarrow> ksm_event_log \<Rightarrow> bool" where
  "undoable E s e \<longleftrightarrow>
     (case ev_type e of
        HOST_MERGE_ONE_FAILED \<Rightarrow>
          sharing E s (stable_merge_from_mm_id e, stable_merge_from_va e) = Some (stable_merge_kpfn e)
      | HOST_MERGE_TWO_FAILED \<Rightarrow>
          sharing E s (unstable_merge_from_mm_id e, unstable_merge_from_va e) \<noteq> None
      | _ \<Rightarrow> False)"

fun undoable_all :: "('t, 'h) server_env \<Rightarrow> ksm_event_log list \<Rightarrow> ('t, 'h) server \<Rightarrow> bool" where
  "undoable_all E [] s = True"
| "undoable_all E (e # es) s =
     (undoable E s e \<and> (case handle_error_entry E e s of Inl _ \<Rightarrow> False | Inr s' \<Rightarrow> undoable_all E es s'))"

definition undone_key :: "ksm_event_log \<Rightarrow> item_key" where
  "undone_key e = (ev_i0 e, ev_w0 e)"

lemma remove_stable_node_unstable_table:
  "remove_stable_node_no_item E n s = Inr s' \<Longrightarrow> unstable_hash_table s' = unstable_hash_table s"
  by (auto simp: remove_stable_node_no_item_def res_simps Let_def split: node_chain_type.splits option.splits)
    (metis node_chain_type.exhaust)+

lemma reset_each_unstable_table:
  "reset_each_item_state a us = Inr (b, us') \<Longrightarrow> unstable_hash_table (snd us') = unstable_hash_table (snd us)"
  by (cases us) (auto simp: reset_each_item_state_def reset_item_state_def res_simps split: if_splits)

lemma reset_items_unstable_table:
  "reset_items as us = Inr us' \<Longrightarrow> unstable_hash_table (snd us') = unstable_hash_table (snd us)"
proof (induction as arbitrary: us)
  case (Cons a as)
  from Cons.prems obtain b us1 where 1: "reset_each_item_state a us = Inr (b, us1)"
    "(if b then reset_items as us1 else Inr us1) = Inr us'"
    by (auto simp: res_simps)
  then show ?case using reset_each_unstable_table [OF 1(1)] Cons.IH [of us1] by (cases b) simp_all
qed simp

lemma undo_unstable_table:
  "handle_error_entry E e s = Inr s' \<Longrightarrow> unstable_hash_table s' = unstable_hash_table s"
  by (auto simp: handle_error_entry_def undo_merge_one_def undo_merge_two_def remove_item_from_node_def
      reset_item_state_def remove_stale_node_and_log_def res_simps Let_def
      dest!: remove_stable_node_unstable_table reset_items_unstable_table
      split: event_tag.splits option.splits if_splits)

text \<open>A request of the host, with the page tables it will read: one per process.\<close>

definition request_ok ::
  "('t, 'h) server_env \<Rightarrow> round_io \<Rightarrow> (item_key \<Rightarrow> u64) \<Rightarrow> metadata_descriptor \<Rightarrow>
   (nat \<Rightarrow> shadow_pte list) \<Rightarrow> bool" where
  "request_ok E io frame meta_desc ptes \<longleftrightarrow>
     distinct (map (\<lambda>i. sd_mm_id (md_pt_descs meta_desc ! i)) [0..<md_pt_cnt meta_desc]) \<and>
     (\<forall>i < md_pt_cnt meta_desc. i < length (md_pt_descs meta_desc) \<and>
        process_ok E io frame i (md_pt_descs meta_desc ! i) (ptes i))"

definition requested_pages :: "metadata_descriptor \<Rightarrow> nat" where
  "requested_pages meta_desc = (\<Sum>i\<leftarrow>[0..<md_pt_cnt meta_desc]. sd_entry_cnt (md_pt_descs meta_desc ! i))"

definition requested_keys :: "metadata_descriptor \<Rightarrow> (nat \<Rightarrow> shadow_pte list) \<Rightarrow> item_key set" where
  "requested_keys meta_desc ptes =
     (\<Union>i \<in> set [0..<md_pt_cnt meta_desc]. page_keys (sd_mm_id (md_pt_descs meta_desc ! i)) (ptes i))"

context server_runtime
begin

lemma worker_batch_ok:
  assumes inv: "server_inv E s" and j: "j < sgl_nums (length ptes)"
    and dist: "distinct (map pte_va ptes)" and nu: "not_unstable s (page_keys mm (batch ptes j))"
    and frame: "\<And>pte. pte \<in> set ptes \<Longrightarrow> frame (mm, pte_va pte) = pte_kpfn pte"
    and buf: "length buf = this_sgl_size (length ptes) j"
    and hash: "\<And>x. x < this_sgl_size (length ptes) j \<Longrightarrow> calculate_hash_pair E (pre x) (buf ! x) \<noteq> null_hash"
    and work: "work = \<lparr>wj_mm_id = mm, wj_va2dma_map = ptes, wj_pages_buf = buf,
      wj_num_pages = this_sgl_size (length ptes) j, wj_idx_adjust = j * MAX_PAGES_IN_SGL, wj_status = DATA_READY\<rparr>"
  shows "(\<exists>s' evs. ksm_page_worker E (cmp_and_merge_one E) pre work s = Inr (work\<lparr>wj_status := WORK_DONE\<rparr>, s') \<and>
      scanned E frame (page_keys mm (batch ptes j)) evs s s') \<or>
    (\<exists>e. ksm_page_worker E (cmp_and_merge_one E) pre work s = Inl e \<and> out_of_memory E e)"
proof -
  have "job_in_bounds work" using this_sgl_end(1) [OF j] buf by (simp add: work job_in_bounds_def)
  then have run: "ksm_page_worker E (cmp_and_merge_one E) pre work s =
      rbind (rfold (scan_one_page E (cmp_and_merge_one E) mm) (job_pages work pre) s)
        (\<lambda>s. Inr (work\<lparr>wj_status := WORK_DONE\<rparr>, s))"
    using ksm_page_worker_pages [of work E "cmp_and_merge_one E" pre s] by (simp add: work)
  have fst: "map fst (job_pages work pre) = batch ptes j"
    by (rule nth_equalityI) (use length_batch [OF j] in \<open>simp_all add: job_pages_def work batch_def\<close>)
  have keys: "(\<lambda>p. (mm, pte_va (fst p))) ` set (job_pages work pre) = page_keys mm (batch ptes j)"
    unfolding page_keys_def fst [symmetric] by (simp add: image_image)
  have sub: "set (batch ptes j) \<subseteq> set ptes" unfolding batch_def by (meson in_set_dropD in_set_takeD subsetI)
  have "distinct (map pte_va (batch ptes j))" unfolding batch_def using dist by (rule distinct_va_part)
  then have d: "distinct (map (pte_va \<circ> fst) (job_pages work pre))" by (metis fst map_map)
  have each: "frame (mm, pte_va pte) = pte_kpfn pte \<and> calculate_hash_pair E p page \<noteq> null_hash"
    if "(pte, p, page) \<in> set (job_pages work pre)" for pte p page
  proof -
    have "pte \<in> set (batch ptes j)" using that fst by (metis fst_conv image_eqI list.set_map)
    moreover have "calculate_hash_pair E p page \<noteq> null_hash"
      using that hash by (auto simp: job_pages_def work)
    ultimately show ?thesis using frame sub by blast
  qed
  from scan_pages_ok [OF inv d nu [folded keys] each] run show ?thesis unfolding keys by auto
qed

lemma scan_sgls_ok:
  assumes dist: "distinct (map pte_va ptes)"
    and frame: "\<And>pte. pte \<in> set ptes \<Longrightarrow> frame (mm, pte_va pte) = pte_kpfn pte"
    and b: "batches_ok E io i (length ptes)"
    and "j \<le> sgl_nums (length ptes)" "server_inv E s" "wj_status work \<in> {WORK_DONE, WORKER_READY}"
    and "not_unstable s (page_keys mm (drop (j * MAX_PAGES_IN_SGL) ptes))"
  shows "(\<exists>c' work' s' evs. scan_sgls E (cmp_and_merge_one E) io i mm ptes (length ptes)
        [j..<sgl_nums (length ptes)] c work s = Inr (Some c', work', s') \<and>
      c' + wj_num_pages work' = c + wj_num_pages work + (length ptes - j * MAX_PAGES_IN_SGL) \<and>
      (j < sgl_nums (length ptes) \<longrightarrow> wj_status work' = WORK_DONE) \<and>
      scanned E frame (page_keys mm (drop (j * MAX_PAGES_IN_SGL) ptes)) evs s s') \<or>
    (\<exists>e. scan_sgls E (cmp_and_merge_one E) io i mm ptes (length ptes)
        [j..<sgl_nums (length ptes)] c work s = Inl e \<and> out_of_memory E e)"
  using assms(4-7)
proof (induction "sgl_nums (length ptes) - j" arbitrary: j c work s)
  case 0
  then have "length ptes \<le> j * MAX_PAGES_IN_SGL" using sgl_nums_cover [of "length ptes"] by simp
  then show ?case using 0 scanned_refl [OF 0(3)] by (simp add: page_keys_def) blast
next
  case (Suc m)
  then have j: "j < sgl_nums (length ptes)" by simp
  let ?n = "length ptes" and ?K = "page_keys mm (batch ptes j)"
    and ?K' = "page_keys mm (drop (Suc j * MAX_PAGES_IN_SGL) ptes)"
  obtain buf where buf: "read_pages io i j = Some buf" "length buf = this_sgl_size ?n j"
    "\<And>x. x < this_sgl_size ?n j \<Longrightarrow> calculate_hash_pair E (pre_hashes io i j x) (buf ! x) \<noteq> null_hash"
    using b j unfolding batches_ok_def by blast
  define w where w: "w = \<lparr>wj_mm_id = mm, wj_va2dma_map = ptes, wj_pages_buf = buf,
      wj_num_pages = this_sgl_size ?n j, wj_idx_adjust = j * MAX_PAGES_IN_SGL, wj_status = DATA_READY\<rparr>"
  have K: "page_keys mm (drop (j * MAX_PAGES_IN_SGL) ptes) = ?K \<union> ?K'" by (simp only: batch_split [OF j] page_keys_append)
  have disj: "?K \<inter> ?K' = {}"
  proof -
    have "distinct (map pte_va (batch ptes j @ drop (Suc j * MAX_PAGES_IN_SGL) ptes))"
      using dist unfolding batch_split [OF j, symmetric] by (rule distinct_va_part)
    then show ?thesis by (auto simp: page_keys_def)
  qed
  have run: "scan_sgls E (cmp_and_merge_one E) io i mm ptes ?n [j..<sgl_nums ?n] c work s =
      rbind (ksm_page_worker E (cmp_and_merge_one E) (pre_hashes io i j) w s)
        (\<lambda>(work', s'). scan_sgls E (cmp_and_merge_one E) io i mm ptes ?n [Suc j..<sgl_nums ?n]
           (c + wj_num_pages work) work' s')"
    using Suc.prems(3) buf(1) j by (simp add: upt_conv_Cons w)
  have nu: "not_unstable s ?K" "not_unstable s ?K'" using Suc.prems(4) not_unstable_mono unfolding K by blast+
  consider s1 es where "ksm_page_worker E (cmp_and_merge_one E) (pre_hashes io i j) w s = Inr (w\<lparr>wj_status := WORK_DONE\<rparr>, s1)"
      "scanned E frame ?K es s s1"
    | e where "ksm_page_worker E (cmp_and_merge_one E) (pre_hashes io i j) w s = Inl e" "out_of_memory E e"
    using worker_batch_ok [where frame = frame, OF Suc.prems(2) j dist nu(1) frame buf(2,3) w] by blast
  then show ?case
  proof cases
    case 2
    then show ?thesis using run by simp
  next
    case 1
    have "server_inv E s1" using 1(2) by (simp add: scanned_def)
    from Suc.hyps(1) [OF _ _ this, of "Suc j" "w\<lparr>wj_status := WORK_DONE\<rparr>" "c + wj_num_pages work"]
      Suc.hyps(2) j not_unstable_after [OF 1(2) nu(2) disj]
    have ih: "(\<exists>c' work' s' evs. scan_sgls E (cmp_and_merge_one E) io i mm ptes ?n [Suc j..<sgl_nums ?n]
          (c + wj_num_pages work) (w\<lparr>wj_status := WORK_DONE\<rparr>) s1 = Inr (Some c', work', s') \<and>
        c' + wj_num_pages work' = c + wj_num_pages work + this_sgl_size ?n j + (?n - Suc j * MAX_PAGES_IN_SGL) \<and>
        (Suc j < sgl_nums ?n \<longrightarrow> wj_status work' = WORK_DONE) \<and> scanned E frame ?K' evs s1 s') \<or>
      (\<exists>e. scan_sgls E (cmp_and_merge_one E) io i mm ptes ?n [Suc j..<sgl_nums ?n]
          (c + wj_num_pages work) (w\<lparr>wj_status := WORK_DONE\<rparr>) s1 = Inl e \<and> out_of_memory E e)"
      by (simp add: w)
    have size: "this_sgl_size ?n j + (?n - Suc j * MAX_PAGES_IN_SGL) = ?n - j * MAX_PAGES_IN_SGL"
      using this_sgl_end(1) [OF j] sgl_start [OF j] by (simp add: min_def split: if_splits)
    from ih show ?thesis
    proof (elim disjE exE conjE)
      fix c' work' s' es'
      assume r: "scan_sgls E (cmp_and_merge_one E) io i mm ptes ?n [Suc j..<sgl_nums ?n]
          (c + wj_num_pages work) (w\<lparr>wj_status := WORK_DONE\<rparr>) s1 = Inr (Some c', work', s')"
        "c' + wj_num_pages work' = c + wj_num_pages work + this_sgl_size ?n j + (?n - Suc j * MAX_PAGES_IN_SGL)"
        "Suc j < sgl_nums ?n \<longrightarrow> wj_status work' = WORK_DONE" "scanned E frame ?K' es' s1 s'"
      have "wj_status work' = WORK_DONE"
        using r(1,3) j by (cases "Suc j < sgl_nums ?n") (auto simp: not_less)
      moreover have "c' + wj_num_pages work' = c + wj_num_pages work + (?n - j * MAX_PAGES_IN_SGL)"
        using r(2) size by simp
      ultimately show ?thesis using run 1(1) r(1) scanned_trans [OF 1(2) r(4)] unfolding K by auto
    next
      fix e assume "scan_sgls E (cmp_and_merge_one E) io i mm ptes ?n [Suc j..<sgl_nums ?n]
          (c + wj_num_pages work) (w\<lparr>wj_status := WORK_DONE\<rparr>) s1 = Inl e" "out_of_memory E e"
      then show ?thesis using run 1(1) by simp
    qed
  qed
qed

lemma scan_process_ok:
  assumes ok: "process_ok E io frame i desc ptes" and inv: "server_inv E s" and work: "worker_idle work"
    and nu: "not_unstable s (page_keys (sd_mm_id desc) ptes)"
  shows "(\<exists>work' s' evs. scan_process E (cmp_and_merge_one E) io i desc c work s =
        Inr (Some (c + sd_entry_cnt desc), work', s') \<and> worker_idle work' \<and>
      scanned E frame (page_keys (sd_mm_id desc) ptes) evs s s') \<or>
    (\<exists>e. scan_process E (cmp_and_merge_one E) io i desc c work s = Inl e \<and> out_of_memory E e)"
proof -
  note p = ok [unfolded process_ok_def]
  let ?n = "length ptes"
  have n: "sd_entry_cnt desc = ?n" and ne: "ptes \<noteq> []" using p by simp_all
  have pos: "0 < sgl_nums ?n" using sgl_nums_cover [of ?n] ne by (cases "sgl_nums ?n") simp_all
  have run: "scan_process E (cmp_and_merge_one E) io i desc c work s =
      rbind (scan_sgls E (cmp_and_merge_one E) io i (sd_mm_id desc) ptes ?n [0..<sgl_nums ?n] c work s)
        (\<lambda>(r, work, s). case r of None \<Rightarrow> Inr (None, work, s)
           | Some c \<Rightarrow> if wj_status work = WORK_DONE
               then Inr (Some (c + wj_num_pages work), idle_worker work, s) else Inl Diverged)"
    using p ne by (cases ptes) (simp_all add: scan_process_def)
  have "batches_ok E io i ?n" "distinct (map pte_va ptes)"
    "\<And>pte. pte \<in> set ptes \<Longrightarrow> frame (sd_mm_id desc, pte_va pte) = pte_kpfn pte"
    using p by simp_all
  from scan_sgls_ok [where frame = frame and j = 0 and c = c, OF this(2,3,1) _ inv, of work] work nu pos
  have "(\<exists>c' work' s' evs. scan_sgls E (cmp_and_merge_one E) io i (sd_mm_id desc) ptes ?n
        [0..<sgl_nums ?n] c work s = Inr (Some c', work', s') \<and> c' + wj_num_pages work' = c + ?n \<and>
      wj_status work' = WORK_DONE \<and> scanned E frame (page_keys (sd_mm_id desc) ptes) evs s s') \<or>
    (\<exists>e. scan_sgls E (cmp_and_merge_one E) io i (sd_mm_id desc) ptes ?n
        [0..<sgl_nums ?n] c work s = Inl e \<and> out_of_memory E e)"
    by (simp add: worker_idle_def)
  then show ?thesis unfolding run n
    by (elim disjE exE conjE) (simp_all add: worker_idle_def idle_worker_def, blast)
qed

lemma scan_processes_ok:
  assumes "\<And>i. i \<in> set is \<Longrightarrow> i < length descs \<and> process_ok E io frame i (descs ! i) (ptes i)"
    and "distinct (map (\<lambda>i. sd_mm_id (descs ! i)) is)" "server_inv E s" "worker_idle work"
    and "not_unstable s (\<Union>i \<in> set is. page_keys (sd_mm_id (descs ! i)) (ptes i))"
  shows "(\<exists>work' s' evs. scan_processes E (cmp_and_merge_one E) io descs is c work s =
        Inr (Some (c + (\<Sum>i\<leftarrow>is. sd_entry_cnt (descs ! i))), work', s') \<and> worker_idle work' \<and>
      scanned E frame (\<Union>i \<in> set is. page_keys (sd_mm_id (descs ! i)) (ptes i)) evs s s') \<or>
    (\<exists>e. scan_processes E (cmp_and_merge_one E) io descs is c work s = Inl e \<and> out_of_memory E e)"
  using assms
proof (induction "is" arbitrary: c work s)
  case Nil
  then show ?case using scanned_refl by auto
next
  case (Cons i "is")
  let ?d = "descs ! i" and ?K = "page_keys (sd_mm_id (descs ! i)) (ptes i)"
    and ?K' = "\<Union>i \<in> set is. page_keys (sd_mm_id (descs ! i)) (ptes i)"
  have i: "i < length descs" "process_ok E io frame i ?d (ptes i)" using Cons.prems(1) [of i] by simp_all
  have nu: "not_unstable s ?K" "not_unstable s ?K'"
    using Cons.prems(5) by (auto intro: not_unstable_mono)
  have "sd_mm_id ?d \<notin> (\<lambda>i. sd_mm_id (descs ! i)) ` set is" using Cons.prems(2) by simp
  then have disj: "?K \<inter> ?K' = {}" by (auto simp: page_keys_def)
  from scan_process_ok [OF i(2) Cons.prems(3,4) nu(1), of c] show ?case
  proof (elim disjE exE conjE)
    fix e assume "scan_process E (cmp_and_merge_one E) io i ?d c work s = Inl e" "out_of_memory E e"
    then show ?thesis using i(1) by simp
  next
    fix work1 s1 es
    assume 1: "scan_process E (cmp_and_merge_one E) io i ?d c work s = Inr (Some (c + sd_entry_cnt ?d), work1, s1)"
      "worker_idle work1" "scanned E frame ?K es s s1"
    have "server_inv E s1" using 1(3) by (simp add: scanned_def)
    from Cons.IH [OF _ _ this 1(2) not_unstable_after [OF 1(3) nu(2) disj], of "c + sd_entry_cnt ?d"] Cons.prems(1,2)
    have ih: "(\<exists>work' s' evs. scan_processes E (cmp_and_merge_one E) io descs is (c + sd_entry_cnt ?d) work1 s1 =
        Inr (Some (c + sd_entry_cnt ?d + (\<Sum>i\<leftarrow>is. sd_entry_cnt (descs ! i))), work', s') \<and> worker_idle work' \<and>
        scanned E frame ?K' evs s1 s') \<or>
      (\<exists>e. scan_processes E (cmp_and_merge_one E) io descs is (c + sd_entry_cnt ?d) work1 s1 = Inl e \<and> out_of_memory E e)"
      by simp
    have "scan_processes E (cmp_and_merge_one E) io descs (i # is) c work s =
        scan_processes E (cmp_and_merge_one E) io descs is (c + sd_entry_cnt ?d) work1 s1"
      using i(1) 1(1) by simp
    with ih scanned_trans [OF 1(3), of ?K'] show ?thesis
      by (fastforce simp: add.assoc simp del: scan_processes.simps)
  qed
qed

lemma do_ksm_v3_ok:
  assumes inv: "server_ready E s" and work: "worker_idle work" and meta: "request_ok E io frame meta_desc ptes"
  shows "(\<exists>work' s1 s' evs evs'. do_ksm_v3 E (cmp_and_merge_one E) io meta_desc work s =
        Inr (int (requested_pages meta_desc), work', s') \<and> worker_idle work' \<and> server_ready E s' \<and>
      scanned E frame (requested_keys meta_desc ptes) evs s s1 \<and>
      told E (evs @ evs') (log_table s) (log_table s') \<and> (\<forall>e \<in> set evs'. merge_within {} {} e) \<and>
      (\<forall>k. sharing E s' k = sharing E s1 k \<or>
         sharing E s' k = None \<and> (\<exists>a. rmap_lookup E s1 k = Some a \<and> stale_item s1 a))) \<or>
    (\<exists>e. do_ksm_v3 E (cmp_and_merge_one E) io meta_desc work s = Inl e \<and> out_of_memory E e)"
proof -
  note m = meta [unfolded request_ok_def]
  have i: "server_inv E s" using inv by (simp add: server_ready_def)
  have nu: "not_unstable s (\<Union>i \<in> set [0..<md_pt_cnt meta_desc]. page_keys (sd_mm_id (md_pt_descs meta_desc ! i)) (ptes i))"
    using inv by (auto simp: server_ready_def not_unstable_def)
  have descs: "i < length (md_pt_descs meta_desc) \<and> process_ok E io frame i (md_pt_descs meta_desc ! i) (ptes i)"
    if "i \<in> set [0..<md_pt_cnt meta_desc]" for i using m that by simp
  have dist: "distinct (map (\<lambda>i. sd_mm_id (md_pt_descs meta_desc ! i)) [0..<md_pt_cnt meta_desc])" using m by simp
  from scan_processes_ok [where c = 0, OF descs dist i work nu]
  consider work' s1 evs where "scan_processes E (cmp_and_merge_one E) io (md_pt_descs meta_desc)
        [0..<md_pt_cnt meta_desc] 0 work s = Inr (Some (requested_pages meta_desc), work', s1)"
      "worker_idle work'" "scanned E frame (requested_keys meta_desc ptes) evs s s1"
    | e where "scan_processes E (cmp_and_merge_one E) io (md_pt_descs meta_desc)
        [0..<md_pt_cnt meta_desc] 0 work s = Inl e" "out_of_memory E e"
    by (auto simp: requested_pages_def requested_keys_def)
  then show ?thesis
  proof cases
    case 1
    have inv1: "server_inv E s1" and t: "told E evs (log_table s) (log_table s1)"
      using 1(3) by (simp_all add: scanned_def)
    from prune_metadata_ok [OF inv1] obtain s' evs' where
      2: "prune_metadata E s1 = Inr s'" "server_inv E s'" "freed E evs' (log_table s1) (log_table s')"
        "\<forall>a it. items s' a = Some it \<longrightarrow> ri_state it \<noteq> Unstable"
        "\<forall>k. sharing E s' k = sharing E s1 k \<or>
          sharing E s' k = None \<and> (\<exists>a. rmap_lookup E s1 k = Some a \<and> stale_item s1 a)" by blast
    let ?s = "s'\<lparr>total_accessed_cnt := 0\<rparr>"
    have "server_inv E ?s"
      by (rule server_inv_counters [OF 2(2)]) (use meta_invD(6) [OF server_invD [OF 2(2)]] in simp_all)
    then have "server_ready E ?s" using 2(4) by (simp add: server_ready_def)
    moreover have "sharing E ?s = sharing E s'" by (intro sharing_cong frame_of_cong pfn_of_nodes) simp_all
    then have "\<forall>k. sharing E ?s k = sharing E s1 k \<or>
        sharing E ?s k = None \<and> (\<exists>a. rmap_lookup E s1 k = Some a \<and> stale_item s1 a)" using 2(5) by simp
    moreover have "\<forall>e \<in> set evs'. merge_within {} {} e" using 2(3) by (simp add: freed_def)
    moreover have "do_ksm_v3 E (cmp_and_merge_one E) io meta_desc work s =
        Inr (int (requested_pages meta_desc), work', ?s)" using 1(1) 2(1) by (simp add: do_ksm_v3_def)
    moreover have "told E (evs @ evs') (log_table s) (log_table ?s)" using told_trans [OF t] 2(3) by (simp add: freed_def)
    ultimately show ?thesis using 1(2,3) by (intro disjI1 exI conjI) assumption+
  next
    case 2
    then show ?thesis by (simp add: do_ksm_v3_def)
  qed
qed

text \<open>Undoing a merge the server believes in.\<close>

lemma handle_error_entry_ok:
  assumes ready: "server_ready E s" and u: "undoable E s e"
  shows "\<exists>s' evs. handle_error_entry E e s = Inr s' \<and> server_ready E s' \<and>
    sharing E s' (undone_key e) = None \<and> sharing E s' \<subseteq>\<^sub>m sharing E s \<and>
    freed E evs (log_table s) (log_table s')"
proof -
  have inv: "server_inv E s" using ready by (simp add: server_ready_def)
  note d = meta_invD [OF server_invD [OF inv]]
  let ?k = "(ev_i0 e, ev_w0 e)"
  have "sharing E s ?k \<noteq> None" using u by (auto simp: undoable_def split: event_tag.splits)
  then obtain a fr where a: "rmap_lookup E s ?k = Some a" "frame_of s a = Some fr"
    by (auto simp: sharing_def bind_eq_Some_conv)
  then obtain it n where it: "items s a = Some it" "ri_state it = Stable" "ri_stable_node it = Some n"
    by (auto simp: frame_of_def item_frame_def bind_eq_Some_conv split: if_splits)
  obtain nd where nd: "nodes s n = Some nd" "sharing_lookup E nd (item_key it) = Some a"
    using inv_itemsD [OF d(3) it(1,2)] it(3) by auto
  have key: "item_key it = ?k" using inv_rmap_lookupD [OF d(1) a(1)] it(1) by simp
  have ready': "server_ready E s'" if "handle_error_entry E e s = Inr s'" "server_inv E s'" for s'
    using ready that undo_unstable_table [OF that(1)] by (simp add: server_ready_unstable)
  consider (one) "ev_type e = HOST_MERGE_ONE_FAILED" "sharing E s ?k = Some (stable_merge_kpfn e)"
    | (two) "ev_type e = HOST_MERGE_TWO_FAILED"
    using u by (auto simp: undoable_def split: event_tag.splits)
  then show ?thesis
  proof cases
    case one
    then have "frame_of s a = Some (stable_merge_kpfn e)" using a by (simp add: sharing_def)
    from undo_merge_one_ok [OF inv a(1) it(1,2) this] obtain s' evs where
      1: "undo_merge_one E e s = Inr s'" "server_inv E s'" "sharing E s' = (sharing E s)(?k := None)"
        "freed E evs (log_table s) (log_table s')" by blast
    then have "handle_error_entry E e s = Inr s'" using one(1) by (simp add: handle_error_entry_def)
    with 1 ready' [OF this] show ?thesis by (auto simp: undone_key_def map_le_def)
  next
    case two
    from undo_merge_two_ok [OF inv a(1) it nd(1)] obtain s' where
      2: "undo_merge_two E e s = Inr s'" "server_inv E s'" "log_table s' = log_table s"
        "sharing E s' = (sharing E s) |` (- dom (sharing_lookup E nd))" by blast
    then have "handle_error_entry E e s = Inr s'" using two by (simp add: handle_error_entry_def)
    moreover have "sharing E s' ?k = None" using 2(4) nd(2) key by (auto simp: restrict_map_def)
    moreover have "sharing E s' \<subseteq>\<^sub>m sharing E s" using 2(4) by (auto simp: map_le_def restrict_map_def split: if_splits)
    ultimately show ?thesis using 2(2,3) ready' freed_refl [of E] unfolding undone_key_def by metis
  qed
qed

text \<open>
  A list of errors, each undoable when its turn comes.
\<close>

lemma handle_errors_ok:
  assumes "server_ready E s" "undoable_all E es s"
  shows "\<exists>s' evs. rfold (handle_error_entry E) es s = Inr s' \<and> server_ready E s' \<and>
    sharing E s' \<subseteq>\<^sub>m sharing E s \<and> (\<forall>e \<in> set es. sharing E s' (undone_key e) = None) \<and>
    freed E evs (log_table s) (log_table s')"
  using assms
proof (induction es arbitrary: s)
  case Nil
  then show ?case using freed_refl by fastforce
next
  case (Cons e es)
  from handle_error_entry_ok [OF Cons.prems(1), of e] Cons.prems(2) obtain s1 ev1 where
    1: "handle_error_entry E e s = Inr s1" "server_ready E s1" "sharing E s1 (undone_key e) = None"
      "sharing E s1 \<subseteq>\<^sub>m sharing E s" "freed E ev1 (log_table s) (log_table s1)" by auto
  from Cons.IH [OF 1(2)] Cons.prems(2) 1(1) obtain s' evs where
    2: "rfold (handle_error_entry E) es s1 = Inr s'" "server_ready E s'" "sharing E s' \<subseteq>\<^sub>m sharing E s1"
      "\<forall>e \<in> set es. sharing E s' (undone_key e) = None" "freed E evs (log_table s1) (log_table s')" by auto
  have "sharing E s' (undone_key e) = None" using 1(3) 2(3) by (metis domIff map_le_def)
  then show ?case using 1(1) 2 freed_trans [OF 1(5) 2(5)] map_le_trans [OF 2(3) 1(4)] by auto
qed

lemma server_round_ok:
  assumes ready: "server_ready E s" and work: "worker_idle work"
    and et: "et_total_cnt (md_et_descs meta_desc) = length es"
      "et_desc_cnt (md_et_descs meta_desc) =
         DIV_ROUND_UP (DIV_ROUND_UP (length es * sizeof_ksm_event_log) PAGE_SIZE) MAX_PAGES_IN_SGL"
      "reads_errors (read_errors io) es"
    and undo: "undoable_all E es (start_round later s)"
    and empty: "later \<or> logged (log_table s) = []"
    and meta: "request_ok E io frame meta_desc ptes" and realloc: "realloc_never_fails E"
  shows "(\<exists>work' s' s0 s1 evs1 evs2 evs3. server_round E (cmp_and_merge_one E) io later meta_desc work s =
        Inr (Some (int (requested_pages meta_desc), evs1 @ evs2 @ evs3), work', s') \<and>
      worker_idle work' \<and> server_ready E s' \<and>
      sharing E s0 \<subseteq>\<^sub>m sharing E s \<and> (\<forall>e \<in> set es. sharing E s0 (undone_key e) = None) \<and>
      sharing E s1 = replay frame evs2 (sharing E s0) \<and>
      (\<forall>e \<in> set (evs1 @ evs3). merge_within {} {} e) \<and>
      (\<forall>e \<in> set evs2. merge_within (requested_keys meta_desc ptes) (requested_keys meta_desc ptes) e) \<and>
      (\<forall>k. sharing E s' k = sharing E s1 k \<or>
         sharing E s' k = None \<and> (\<exists>a. rmap_lookup E s1 k = Some a \<and> stale_item s1 a))) \<or>
    (\<exists>e. server_round E (cmp_and_merge_one E) io later meta_desc work s = Inl e \<and> out_of_memory E e)"
proof -
  let ?r = "start_round later s"
  have wf: "log_wf (log_table s)" using ready meta_invD(6) by (auto simp: server_ready_def server_inv_def)
  then have wf': "log_wf (log_table ?r)" and log: "logged (log_table ?r) = []"
    using clear_log_table_wf [OF wf] empty by (auto simp: start_round_def)
  have inv: "server_inv E s" using ready by (simp add: server_ready_def)
  have "server_inv E ?r" by (rule server_inv_counters [OF inv]) (use wf' in \<open>simp_all add: start_round_def\<close>)
  then have ready': "server_ready E ?r" using ready by (simp add: server_ready_def start_round_def)
  have sh: "sharing E ?r = sharing E s"
    by (intro sharing_cong frame_of_cong pfn_of_nodes) (simp_all add: start_round_def)
  from handle_errors_ok [OF ready' undo] obtain s0 evs1 where
    0: "rfold (handle_error_entry E) es ?r = Inr s0" "server_ready E s0" "sharing E s0 \<subseteq>\<^sub>m sharing E s"
      "\<forall>e \<in> set es. sharing E s0 (undone_key e) = None" "freed E evs1 (log_table ?r) (log_table s0)"
    unfolding sh by blast
  have err: "do_handle_error E (read_errors io) (md_et_descs meta_desc) ?r = Inr (0, s0)"
    using do_handle_error_all [OF et, of E ?r] 0(1) by simp
  from do_ksm_v3_ok [OF 0(2) work meta] show ?thesis
  proof (elim disjE exE conjE)
    fix e assume "do_ksm_v3 E (cmp_and_merge_one E) io meta_desc work s0 = Inl e" "out_of_memory E e"
    then show ?thesis using err by (simp add: server_round_def Let_def)
  next
    fix work' s1 s2 evs2 evs3
    assume r: "do_ksm_v3 E (cmp_and_merge_one E) io meta_desc work s0 = Inr (int (requested_pages meta_desc), work', s2)"
      "worker_idle work'" "server_ready E s2" "scanned E frame (requested_keys meta_desc ptes) evs2 s0 s1"
      "told E (evs2 @ evs3) (log_table s0) (log_table s2)" "\<forall>e \<in> set evs3. merge_within {} {} e"
      "\<forall>k. sharing E s2 k = sharing E s1 k \<or>
         sharing E s2 k = None \<and> (\<exists>a. rmap_lookup E s1 k = Some a \<and> stale_item s1 a)"
    let ?s = "s2\<lparr>skipped_cnt := 0, volatile_items_cnt := 0, highly_volatile_but_stable_merged_cnt := 0,
      highly_volatile_but_unstable_merged_cnt := 0, broken_merges := 0, iteration := iteration s2 + 1\<rparr>"
    have "logged (log_table s2) = evs1 @ evs2 @ evs3"
      using told_trans [OF _ r(5), of evs1 "log_table ?r"] 0(5) realloc wf' log by (simp add: told_def freed_def)
    then have "server_round E (cmp_and_merge_one E) io later meta_desc work s =
        Inr (Some (int (requested_pages meta_desc), evs1 @ evs2 @ evs3), work', ?s)"
      using err r(1) by (simp add: server_round_def Let_def)
    moreover have i2: "server_inv E s2" using r(3) by (simp add: server_ready_def)
    then have "server_inv E ?s"
      by (rule server_inv_counters) (use meta_invD(6) [OF server_invD [OF i2]] in simp_all)
    then have "server_ready E ?s" using r(3) by (simp add: server_ready_def)
    moreover have "sharing E ?s = sharing E s2" by (intro sharing_cong frame_of_cong pfn_of_nodes) simp_all
    then have "\<forall>k. sharing E ?s k = sharing E s1 k \<or>
        sharing E ?s k = None \<and> (\<exists>a. rmap_lookup E s1 k = Some a \<and> stale_item s1 a)" using r(7) by simp
    moreover have "\<forall>e \<in> set (evs1 @ evs3). merge_within {} {} e" using 0(5) r(6) by (auto simp: freed_def)
    moreover have "unstable_keys s0 = {}" using 0(2) by (auto simp: unstable_keys_def server_ready_def)
    then have "\<forall>e \<in> set evs2. merge_within (requested_keys meta_desc ptes) (requested_keys meta_desc ptes) e"
      using r(4) by (simp add: scanned_def)
    moreover have "sharing E s1 = replay frame evs2 (sharing E s0)" using r(4) by (simp add: scanned_def)
    ultimately show ?thesis using r(2) 0(3,4) by (intro disjI1 exI conjI) assumption+
  qed
qed

end

end
