(* ===== verification/Server_Main.thy ===== *)
theory Server_Main
  imports Server_Round
begin

text \<open>
  The start of the server (\<open>main\<close> in \<open>server.c\<close>): its options and its initial state. The second
  half of the theory is a concrete environment, association lists for the GLib containers and a
  first-fit allocator, on which the server can be run inside the logic.
\<close>

section \<open>Options\<close>

text \<open>\<open>ksm_ops\<close> points to one of these two.\<close>

datatype ksm_ops_choice = Cmp_and_merge_one | Cmp_and_merge_one_old

record server_config =
  cfg_debug :: bool
  cfg_smart_scan_opt :: bool
  cfg_pre_hash_opt :: bool
  cfg_ksm_offload_mode :: offload_mode
  cfg_ksm_ops :: ksm_ops_choice

definition default_config :: server_config where
  "default_config = \<lparr>cfg_debug = False, cfg_smart_scan_opt = True, cfg_pre_hash_opt = True,
     cfg_ksm_offload_mode = KSM_OFFLOAD, cfg_ksm_ops = Cmp_and_merge_one\<rparr>"

text \<open>\<open>strncmp(arg, s, strlen(s)) == 0\<close>.\<close>

definition strncmp_eq :: "string \<Rightarrow> string \<Rightarrow> bool" where
  "strncmp_eq arg s \<longleftrightarrow> take (length s) arg = s"

definition parse_arg :: "string \<Rightarrow> server_config \<Rightarrow> server_config" where
  "parse_arg arg c =
     (if strncmp_eq arg ''debug=1'' then c\<lparr>cfg_debug := True\<rparr>
      else if strncmp_eq arg ''no_skip_opt'' then c\<lparr>cfg_smart_scan_opt := False\<rparr>
      else if strncmp_eq arg ''no_pre_hash_opt'' then c\<lparr>cfg_pre_hash_opt := False\<rparr>
      else if strncmp_eq arg ''dataplane'' then c\<lparr>cfg_ksm_offload_mode := SINGLE_OPERATION_OFFLOAD\<rparr>
      else if strncmp_eq arg ''old'' then
        c\<lparr>cfg_ksm_ops := Cmp_and_merge_one_old, cfg_smart_scan_opt := False, cfg_pre_hash_opt := False\<rparr>
      else c)"

definition parse_args :: "string list \<Rightarrow> server_config" where
  "parse_args args = fold parse_arg args default_config"

section \<open>The initial state\<close>

definition init_server :: "('t, 'h) server_env \<Rightarrow> server_config \<Rightarrow> ('t, 'h) server" where
  "init_server E c =
     \<lparr>items = Map.empty, nodes = Map.empty, rmap_tree = g_new (tree_ops E),
      stable_hash_table = g_new (hash_ops E), unstable_hash_table = g_new (hash_ops E),
      log_table = \<lparr>lt_entries = replicate 1024 (zero_event_log DPU_STABLE_MERGE), lt_cnt = 0,
        lt_capacity = 1024\<rparr>,
      iteration = 0, skipped_cnt = 0, volatile_items_cnt = 0,
      highly_volatile_but_stable_merged_cnt = 0, highly_volatile_but_unstable_merged_cnt = 0,
      broken_merges = 0, total_accessed_cnt = 0, smart_scan_opt = cfg_smart_scan_opt c\<rparr>"

text \<open>\<open>worker_todo\<close> after \<open>main\<close> has set its status.\<close>

definition init_worker :: worker_job where
  "init_worker = \<lparr>wj_mm_id = - 1, wj_va2dma_map = [], wj_pages_buf = [], wj_num_pages = 0,
     wj_idx_adjust = 0, wj_status = WORKER_READY\<rparr>"

lemma init_worker_idle: "worker_idle init_worker"
  by (simp add: worker_idle_def init_worker_def)

context server_runtime
begin

lemma init_server_ready:
  "server_ready E (init_server E c) \<and> (\<forall>k. sharing E (init_server E c) k = None) \<and>
   logged (log_table (init_server E c)) = []"
proof -
  have "meta_inv E {} {} {} (init_server E c)"
    by (simp add: meta_inv_def inv_defs init_server_def tree.table_simps hash.table_simps log_wf_def)
  moreover have "sharing E (init_server E c) k = None" for k
    by (simp add: sharing_def init_server_def tree.table_simps)
  ultimately show ?thesis by (simp add: server_ready_def server_inv_def init_server_def logged_def)
qed

end

section \<open>A concrete environment\<close>

type_synonym sample_tree = "(item_key \<times> addr) list"

type_synonym sample_table = "(hash_pair \<times> addr) list"

definition first_fit :: "(addr \<Rightarrow> 'a option) \<Rightarrow> addr option" where
  "first_fit h = find (\<lambda>a. h a = None) [1..<64]"

text \<open>A new item has whatever the memory held: here a score and a skip count left behind.\<close>

definition sample_junk :: rmap_item where
  "sample_junk = (sample_item 0 0)\<lparr>ri_volatility_score := 0, ri_skip_cnt := 0\<rparr>"

definition sample_hash :: "u8 list \<Rightarrow> u64 \<Rightarrow> xxh128_hash" where
  "sample_hash bytes seed = \<lparr>low64 = seed + (case bytes of [] \<Rightarrow> 0 | b # _ \<Rightarrow> ucast b + 1), high64 = 0\<rparr>"

definition sample_env :: "(sample_tree, sample_table) server_env" where
  "sample_env =
     \<lparr>tree_ops = alist_gops, hash_ops = alist_gops, XXH3_128bits_withSeed = sample_hash,
      malloc_item = (\<lambda>h. map_option (\<lambda>a. (a, sample_junk)) (first_fit h)), malloc_node = first_fit,
      realloc_log = (\<lambda>es n. Some (take n (es @ replicate n (zero_event_log DPU_STABLE_MERGE))))\<rparr>"

lemma first_fit_fresh: "first_fit h = Some a \<Longrightarrow> h a = None"
  by (auto simp: first_fit_def find_Some_iff)

interpretation sample: server_runtime sample_env
proof (intro server_runtime.intro server_runtime_axioms.intro)
  show "gtable (tree_ops sample_env)" "gtable (hash_ops sample_env)"
    by (simp_all add: sample_env_def alist_gtable)
qed (auto simp: sample_env_def first_fit_fresh)

lemma sample_realloc: "realloc_never_fails sample_env"
  by (simp add: realloc_never_fails_def sample_env_def)

section \<open>A concrete state\<close>

text \<open>
  Three pages of two processes: the first two share frame 16, the third is volatile.
\<close>

definition sample_hash_pair :: "u8 \<Rightarrow> hash_pair" where
  "sample_hash_pair b = \<lparr>first_hash = \<lparr>low64 = ucast b + 1, high64 = 0\<rparr>,
     second_hash = \<lparr>low64 = ucast b + 1, high64 = 0\<rparr>\<rparr>"

definition sample_shared :: "(sample_tree, sample_table) server" where
  "sample_shared = (init_server sample_env default_config)
     \<lparr>items := [1 \<mapsto> (sample_item 1 0x1000)\<lparr>ri_state := Stable, ri_stable_node := Some 1, ri_pfn := 16,
                    ri_old_pfn := 16, ri_old_hash := sample_hash_pair 7\<rparr>,
               2 \<mapsto> (sample_item 2 0x1000)\<lparr>ri_state := Stable, ri_stable_node := Some 1, ri_pfn := 16,
                    ri_old_pfn := 17, ri_old_hash := sample_hash_pair 7\<rparr>,
               3 \<mapsto> sample_item 2 0x2000],
      nodes := [1 \<mapsto> \<lparr>sn_page_hash = sample_hash_pair 7, sn_shared_cnt = 2, sn_pfn = 16,
                    sn_sharing_item_tree = [((1, 0x1000), 1), ((2, 0x1000), 2)], sn_type = HEAD,
                    sn_next = None, sn_prev = None\<rparr>],
      rmap_tree := [((1, 0x1000), 1), ((2, 0x1000), 2), ((2, 0x2000), 3)],
      stable_hash_table := [(sample_hash_pair 7, 1)]\<rparr>"

lemma sample_ops [simp]:
  "g_lookup (tree_ops sample_env) = map_of" "g_lookup (hash_ops sample_env) = map_of"
  "g_wf (tree_ops sample_env) t \<longleftrightarrow> distinct (map fst t)" "g_wf (hash_ops sample_env) t' \<longleftrightarrow> distinct (map fst t')"
  "g_entries (tree_ops sample_env) t = t" "g_entries (hash_ops sample_env) t' = t'"
  by (simp_all add: sample_env_def alist_gops_def)

lemma sample_shared_inv: "server_inv sample_env sample_shared"
proof -
  have "inv_rmap sample_env sample_shared" "inv_unstable sample_env {} sample_shared"
    "inv_items sample_env {} sample_shared"
    by (auto simp: inv_defs sample_shared_def init_server_def sample_item_def item_key_def sample_env_def
        alist_gops_def split: if_splits)
  moreover have "inv_nodes sample_env {} {} sample_shared"
  proof -
    have "dom (map_of [((1, 0x1000), 1), ((2, 0x1000), 2)] :: item_key \<rightharpoonup> addr) = {(1, 0x1000), (2, 0x1000)}" by auto
    then show ?thesis
      by (auto simp: inv_nodes_def sample_shared_def sample_item_def item_key_def MAX_PAGE_SHARING_def split: if_splits)
  qed
  moreover have "chain (nodes sample_shared) [1]"
    by (simp add: sample_shared_def chain_def dnode_def links_def)
  then have "inv_chain sample_env sample_shared"
    by (fastforce simp: inv_chain_def sample_shared_def split: if_splits)
  ultimately show ?thesis
    by (simp add: server_inv_def meta_inv_def sample_shared_def init_server_def log_wf_def)
qed

lemma sample_shared_ready: "server_ready sample_env sample_shared"
  using sample_shared_inv by (auto simp: server_ready_def sample_shared_def sample_item_def split: if_splits)

end
