(* ===== verification/Server_Properties.thy ===== *)
theory Server_Properties
  imports Server_Main
begin

text \<open>
  The correctness of the server, stated for every environment that satisfies the laws of
  \<open>server_runtime\<close>, with runs on the concrete environment.
\<close>

section \<open>One page\<close>

text \<open>
  C2. Scanning one page (\<open>cmp_and_merge_one\<close>) on a well-formed server never stops, loops or
  follows a dangling pointer: it returns 0 with the metadata well formed, and the events it
  appends to the log turn the sharing of pages before the scan into the one after it. It returns
  \<open>- 1\<close> only when \<open>malloc\<close> fails for a new stable node.
\<close>

theorem cmp_and_merge_one_refines:
  assumes "server_runtime E" and "server_inv E s" and "items s a = Some it" and "ri_state it \<noteq> Unstable"
    and "frame (item_key it) = ri_pfn it" and "calculate_hash_pair E pre page \<noteq> null_hash"
  shows "(\<exists>s' evs. cmp_and_merge_one E pre page a s = Inr (0, s') \<and> server_inv E s' \<and>
      (realloc_never_fails E \<longrightarrow> logged (log_table s') = logged (log_table s) @ evs) \<and>
      sharing E s' = replay frame evs (sharing E s)) \<or>
    malloc_node E (nodes s) = None \<and> (\<exists>s'. cmp_and_merge_one E pre page a s = Inr (- 1, s'))"
proof -
  have "log_wf (log_table s)" using assms(2) by (simp add: server_inv_def meta_inv_def)
  with server_runtime.cmp_and_merge_one_ok [where frame = frame, OF assms] show ?thesis
    unfolding advance_def told_def by blast
qed

text \<open>The page of item 1 has moved to frame 99: the merge was broken by a write.\<close>

definition sample_broken :: "(sample_tree, sample_table) server" where
  "sample_broken = sample_shared\<lparr>items := (items sample_shared)
     (1 \<mapsto> (the (items sample_shared 1))\<lparr>ri_pfn := 99\<rparr>)\<rparr>"

definition sample_page :: "u8 \<Rightarrow> u8 list" where
  "sample_page b = replicate 4096 b"

lemma sample_calculate_hash: "calculate_hash_pair sample_env None (sample_page b) = sample_hash_pair b"
proof -
  have "sample_hash (replicate 2048 b) 0 = \<lparr>low64 = ucast b + 1, high64 = 0\<rparr>"
    by (cases "replicate 2048 b") (auto simp: sample_hash_def dest: arg_cong [of _ _ hd])
  then show ?thesis
    by (simp add: calculate_hash_pair_def hash_page_def sample_page_def sample_hash_pair_def sample_env_def)
qed

lemma sample_hash_pair_null: "sample_hash_pair 7 \<noteq> null_hash"
  by (simp add: sample_hash_pair_def null_hash_def)

lemma sample_broken_inv: "server_inv sample_env sample_broken"
proof -
  have it: "items sample_shared 1 = Some (the (items sample_shared 1))" by (simp add: sample_shared_def)
  show ?thesis
    using meta_inv_set_item [OF server_invD [OF sample_shared_inv] it, of "(the (items sample_shared 1))\<lparr>ri_pfn := 99\<rparr>"]
    by (simp add: sample_broken_def server_inv_def item_key_def)
qed

theorem cmp_and_merge_one_refines_witness:
  "(\<exists>s' evs. cmp_and_merge_one sample_env None (sample_page 7) 1 sample_broken = Inr (0, s') \<and>
      server_inv sample_env s' \<and>
      (realloc_never_fails sample_env \<longrightarrow> logged (log_table s') = logged (log_table sample_broken) @ evs) \<and>
      sharing sample_env s' = replay (\<lambda>_. 99) evs (sharing sample_env sample_broken)) \<or>
    malloc_node sample_env (nodes sample_broken) = None \<and>
      (\<exists>s'. cmp_and_merge_one sample_env None (sample_page 7) 1 sample_broken = Inr (- 1, s'))"
  by (rule cmp_and_merge_one_refines [OF sample.server_runtime_axioms sample_broken_inv,
        where it = "the (items sample_broken 1)"])
    (simp_all add: sample_broken_def sample_calculate_hash sample_hash_pair_null sample_shared_def
      sample_item_def)

text \<open>
  C4. Duplicates are merged. An unchanged volatile page that is due for a search joins the first
  stable node of its hash that has room; failing that it is merged with the page that waits in the
  unstable table with the same hash, both into the frame it is mapped to itself; failing that it
  waits in the unstable table.
\<close>

theorem duplicates_are_merged:
  assumes "server_runtime E" and "server_inv E s" and "items s a = Some it" and "ri_state it = Volatile"
    and "frame (item_key it) = ri_pfn it" and "calculate_hash_pair E pre page = hash"
    and "searches hash it s" and "malloc_node E (nodes s) \<noteq> None"
  shows "\<exists>s'. cmp_and_merge_one E pre page a s = Inr (0, s') \<and>
    (\<forall>n nd. cmp_with_stable E hash s = Inr (Some n) \<and> nodes s n = Some nd \<longrightarrow>
       sn_page_hash nd = hash \<and> sharing E s' = (sharing E s)(item_key it \<mapsto> sn_pfn nd)) \<and>
    (\<forall>u uit. cmp_with_stable E hash s = Inr None \<and> unstable_lookup E s hash = Some u \<and> items s u = Some uit \<longrightarrow>
       sharing E s' = (sharing E s)(item_key it \<mapsto> ri_pfn it, item_key uit \<mapsto> ri_pfn it)) \<and>
    (cmp_with_stable E hash s = Inr None \<and> unstable_lookup E s hash = None \<longrightarrow>
       unstable_lookup E s' hash = Some a \<and> sharing E s' = sharing E s)"
proof -
  from server_runtime.cmp_and_merge_volatile [where frame = frame, OF assms(1-6,8)] obtain s' where
    1: "cmp_and_merge_one E pre page a s = Inr (0, s')" "advance E frame a (scan_events E hash it s) s s'"
      "searches hash it s \<and> scan_events E hash it s = [] \<longrightarrow> waits s' a hash" by blast
  have ev: "scan_events E hash it s = partner_events E hash it s" using assms(7) by (simp add: scan_events_def)
  note sh = advanceD(3) [OF 1(2)]
  have A: "sn_page_hash nd = hash \<and> sharing E s' = (sharing E s)(item_key it \<mapsto> sn_pfn nd)"
    if "cmp_with_stable E hash s = Inr (Some n)" "nodes s n = Some nd" for n nd
    using sh that server_runtime.cmp_with_stable_ok [OF assms(1,2), of hash]
    by (auto simp: ev partner_events_def stable_event_def apply_event_def item_key_def)
  have B: "sharing E s' = (sharing E s)(item_key it \<mapsto> ri_pfn it, item_key uit \<mapsto> ri_pfn it)"
    if "cmp_with_stable E hash s = Inr None" "unstable_lookup E s hash = Some u" "items s u = Some uit" for u uit
    using sh that assms(5)
    by (simp add: ev partner_events_def waiting_events_def unstable_event_def apply_event_def item_key_def Let_def)
  have C: "unstable_lookup E s' hash = Some a \<and> sharing E s' = sharing E s"
    if "cmp_with_stable E hash s = Inr None" "unstable_lookup E s hash = None"
  proof -
    have none: "scan_events E hash it s = []" using that by (simp add: ev partner_events_def waiting_events_def)
    then obtain it' where "items s' a = Some it'" "ri_state it' = Unstable" "ri_old_hash it' = hash"
      using 1(3) assms(7) by (auto simp: waits_def)
    then have "unstable_lookup E s' hash = Some a"
      using inv_unstable_itemD [OF meta_invD(2) [OF server_invD [OF advanceD(1) [OF 1(2)]]]] by blast
    then show ?thesis using sh none by simp
  qed
  show ?thesis
    by (rule exI [of _ s'], intro conjI allI impI; (elim conjE)?)
      (simp_all only: 1(1) A [THEN conjunct1] A [THEN conjunct2] B C [THEN conjunct1] C [THEN conjunct2])
qed

text \<open>Item 3 holds the contents of the shared frame, seen once already.\<close>

definition sample_duplicate :: "(sample_tree, sample_table) server" where
  "sample_duplicate = sample_shared\<lparr>items := (items sample_shared)
     (3 \<mapsto> (the (items sample_shared 3))\<lparr>ri_old_hash := sample_hash_pair 7\<rparr>)\<rparr>"

lemma sample_duplicate_inv: "server_inv sample_env sample_duplicate"
proof -
  have it: "items sample_shared 3 = Some (the (items sample_shared 3))" by (simp add: sample_shared_def)
  show ?thesis
    using meta_inv_set_item [OF server_invD [OF sample_shared_inv] it,
        of "(the (items sample_shared 3))\<lparr>ri_old_hash := sample_hash_pair 7\<rparr>"]
    by (simp add: sample_duplicate_def server_inv_def item_key_def sample_shared_def sample_item_def)
qed

theorem duplicates_are_merged_witness:
  "\<exists>s'. cmp_and_merge_one sample_env None (sample_page 7) 3 sample_duplicate = Inr (0, s') \<and>
    sharing sample_env s' = (sharing sample_env sample_duplicate)((2, 0x2000) \<mapsto> 16)"
proof -
  have "searches (sample_hash_pair 7) (the (items sample_duplicate 3)) sample_duplicate"
    by (simp add: searches_def sample_duplicate_def sample_shared_def init_server_def default_config_def
        should_skip_item_def sample_item_def)
  moreover have "malloc_node sample_env (nodes sample_duplicate) \<noteq> None"
    by (simp add: sample_env_def first_fit_def sample_duplicate_def sample_shared_def upt_rec)
  moreover have "cmp_with_stable sample_env (sample_hash_pair 7) sample_duplicate = Inr (Some 1)"
    by (simp add: cmp_with_stable_def sample_duplicate_def sample_shared_def MAX_PAGE_SHARING_def)
  ultimately show ?thesis
    using duplicates_are_merged [OF sample.server_runtime_axioms sample_duplicate_inv, of 3
        "the (items sample_duplicate 3)" "\<lambda>_. 0" None "sample_page 7" "sample_hash_pair 7"]
    by (auto simp: sample_calculate_hash sample_duplicate_def sample_shared_def sample_item_def item_key_def)
qed

text \<open>
  C8. Only unchanged pages are merged: a volatile page that is skipped, or whose contents are not
  those of its last scan, is left alone, and nothing is logged.
\<close>

theorem changed_pages_are_left_alone:
  assumes "server_runtime E" and "server_inv E s" and "items s a = Some it" and "ri_state it = Volatile"
    and "frame (item_key it) = ri_pfn it" and "calculate_hash_pair E pre page = hash"
    and "\<not> searches hash it s" and "malloc_node E (nodes s) \<noteq> None"
  shows "\<exists>s'. cmp_and_merge_one E pre page a s = Inr (0, s') \<and> server_inv E s' \<and>
    sharing E s' = sharing E s \<and>
    (realloc_never_fails E \<longrightarrow> logged (log_table s') = logged (log_table s))"
proof -
  have wf: "log_wf (log_table s)" using assms(2) by (simp add: server_inv_def meta_inv_def)
  have "scan_events E hash it s = []" using assms(7) by (simp add: scan_events_def)
  with server_runtime.cmp_and_merge_volatile [where frame = frame, OF assms(1-6,8)] obtain s' where
    1: "cmp_and_merge_one E pre page a s = Inr (0, s')" "advance E frame a [] s s'" by auto
  then show ?thesis using advanceD(1-3) [OF 1(2)] wf by (auto simp: told_def)
qed

theorem changed_pages_are_left_alone_witness:
  "\<exists>s'. cmp_and_merge_one sample_env None (sample_page 8) 3 sample_duplicate = Inr (0, s') \<and>
    sharing sample_env s' = sharing sample_env sample_duplicate \<and>
    logged (log_table s') = logged (log_table sample_duplicate)"
proof -
  have "\<not> searches (sample_hash_pair 8) (the (items sample_duplicate 3)) sample_duplicate"
    by (simp add: searches_def sample_duplicate_def sample_hash_pair_def)
  moreover have "malloc_node sample_env (nodes sample_duplicate) \<noteq> None"
    by (simp add: sample_env_def first_fit_def sample_duplicate_def sample_shared_def upt_rec)
  ultimately show ?thesis
    using changed_pages_are_left_alone [OF sample.server_runtime_axioms sample_duplicate_inv, of 3
        "the (items sample_duplicate 3)" "\<lambda>_. 0" None "sample_page 8" "sample_hash_pair 8"] sample_realloc
    by (auto simp: sample_calculate_hash sample_duplicate_def sample_shared_def sample_item_def)
qed

section \<open>Rounds\<close>

text \<open>
  The states a server can reach: it starts with empty metadata and answers requests, each of which
  carries errors that can be undone and page tables that are well formed.
\<close>

definition valid_request ::
  "('t, 'h) server_env \<Rightarrow> round_io \<Rightarrow> (item_key \<Rightarrow> u64) \<Rightarrow> bool \<Rightarrow> metadata_descriptor \<Rightarrow>
   ksm_event_log list \<Rightarrow> (nat \<Rightarrow> shadow_pte list) \<Rightarrow> ('t, 'h) server \<Rightarrow> bool" where
  "valid_request E io frame later meta_desc es ptes s \<longleftrightarrow>
     et_total_cnt (md_et_descs meta_desc) = length es \<and>
     et_desc_cnt (md_et_descs meta_desc) =
       DIV_ROUND_UP (DIV_ROUND_UP (length es * sizeof_ksm_event_log) PAGE_SIZE) MAX_PAGES_IN_SGL \<and>
     reads_errors (read_errors io) es \<and> undoable_all E es (start_round later s) \<and>
     request_ok E io frame meta_desc ptes"

inductive server_reaches ::
  "('t, 'h) server_env \<Rightarrow> bool \<Rightarrow> worker_job \<Rightarrow> ('t, 'h) server \<Rightarrow> bool" for E where
  start: "server_reaches E False init_worker (init_server E c)"
| round: "server_reaches E later work s \<Longrightarrow> valid_request E io frame later meta_desc es ptes s \<Longrightarrow>
    server_round E (cmp_and_merge_one E) io later meta_desc work s = Inr (Some r, work', s') \<Longrightarrow>
    server_reaches E True work' s'"

lemma server_reaches_ready:
  assumes "server_reaches E later work s" and "server_runtime E" and "realloc_never_fails E"
  shows "server_ready E s \<and> worker_idle work \<and> (later \<or> logged (log_table s) = [])"
  using assms(1)
proof (induction rule: server_reaches.induct)
  case (start c)
  then show ?case using server_runtime.init_server_ready [OF assms(2)] init_worker_idle by blast
next
  case (round later work s io frame meta_desc es ptes r work' s')
  note v = round.hyps(2) [unfolded valid_request_def]
  from server_runtime.server_round_ok [where frame = frame and later = later and es = es and ptes = ptes,
      OF assms(2) _ _ _ _ _ _ _ _ assms(3), of s work meta_desc io] round.IH v round.hyps(3)
  show ?case by auto
qed

lemma server_round_answers:
  assumes "server_runtime E" and "realloc_never_fails E"
    and "server_reaches E later work s" and "valid_request E io frame later meta_desc es ptes s"
  shows "(\<exists>log work' s'. server_round E (cmp_and_merge_one E) io later meta_desc work s =
        Inr (Some (int (requested_pages meta_desc), log), work', s') \<and>
      server_ready E s' \<and> server_reaches E True work' s') \<or>
    (\<exists>e. server_round E (cmp_and_merge_one E) io later meta_desc work s = Inl e \<and> out_of_memory E e)"
proof -
  note v = assms(4) [unfolded valid_request_def]
  from server_runtime.server_round_ok [where frame = frame and later = later and es = es and ptes = ptes,
      OF assms(1) _ _ _ _ _ _ _ _ assms(2), of s work meta_desc io] server_reaches_ready [OF assms(3,1,2)] v
  show ?thesis using server_reaches.round [OF assms(3,4)] by auto
qed


text \<open>A request for one page of process 2, with the contents that the shared frame has.\<close>

definition sample_ptes :: "shadow_pte list" where
  "sample_ptes = [\<lparr>pte_va = 0x2000, pte_kpfn = 33\<rparr>]"

definition sample_request :: "nat \<Rightarrow> metadata_descriptor" where
  "sample_request errors =
     \<lparr>md_pt_cnt = 1,
      md_pt_descs = [\<lparr>sd_mm_id = 2, sd_map_rkey = 5, sd_pt_base_addr = 0x8000,
        sd_desc_entries = [\<lparr>pages_rkey = 6, pages_base_addr = 0x9000\<rparr>], sd_entry_cnt = 1\<rparr>],
      md_et_descs = \<lparr>et_total_cnt = errors, et_desc_cnt = min errors 1,
        et_entries = [\<lparr>et_rkey = 7, et_base_addr = 0xA000\<rparr>]\<rparr>\<rparr>"

definition sample_io :: "ksm_event_log list \<Rightarrow> round_io" where
  "sample_io es = \<lparr>read_map = (\<lambda>_. Some sample_ptes), read_pages = (\<lambda>_ _. Some [sample_page 7]),
     pre_hashes = (\<lambda>_ _ _. None), read_errors = read_error_table es\<rparr>"

lemma sample_reads: "reads_errors (read_errors (sample_io es)) es"
  using reads_errors_table [of es "[]"] by (simp add: sample_io_def)

lemma sample_request_ok:
  "request_ok sample_env (sample_io es) (\<lambda>_. 33) (sample_request n) (\<lambda>_. sample_ptes)"
proof -
  have "sgl_nums 1 = 1" "this_sgl_size 1 0 = 1"
    by (simp_all add: sgl_nums_def this_sgl_size_def DIV_ROUND_UP_def MAX_PAGES_IN_SGL_def)
  then have "batches_ok sample_env (sample_io es) 0 1"
    by (simp add: batches_ok_def sample_io_def sample_calculate_hash sample_hash_pair_null)
  then show ?thesis
    by (simp add: request_ok_def process_ok_def sample_request_def sample_io_def sample_ptes_def)
qed



text \<open>The host reports that the merge of page 0x1000 of process 2 into frame 16 has failed.\<close>

definition sample_error :: ksm_event_log where
  "sample_error = (zero_event_log HOST_MERGE_ONE_FAILED)\<lparr>ev_i0 := 2, ev_w0 := 0x1000, ev_w1 := 16\<rparr>"

lemma sample_sharing:
  "sharing sample_env sample_shared (2, 0x1000) = Some 16" "sharing sample_env sample_shared (1, 0x1000) = Some 16"
  by (simp_all add: sharing_def frame_of_def item_frame_def pfn_of_def sample_shared_def)


section \<open>Undoing merges\<close>

text \<open>
  C5. Undoing a stable merge that the host could not perform (\<open>HOST_MERGE_ONE_FAILED\<close>): if the
  page is shared with the frame the entry names, the page leaves the sharing and nothing else
  changes; the node is freed when it was its last page. A page that is not known, or shared with
  another frame, stops the server.
\<close>

theorem undo_stable_merge:
  assumes "server_runtime E" and "server_inv E s" and "ev_type e = HOST_MERGE_ONE_FAILED"
  shows "(sharing E s (ev_i0 e, ev_w0 e) = Some (ev_w1 e) \<longrightarrow>
      (\<exists>s'. handle_error_entry E e s = Inr s' \<and> server_inv E s' \<and>
         sharing E s' = (sharing E s)((ev_i0 e, ev_w0 e) := None))) \<and>
    (rmap_lookup E s (ev_i0 e, ev_w0 e) = None \<longrightarrow>
       handle_error_entry E e s = Inl (Stopped ''lookup_rmap_item failed'')) \<and>
    (\<forall>f. sharing E s (ev_i0 e, ev_w0 e) = Some f \<and> f \<noteq> ev_w1 e \<longrightarrow>
       handle_error_entry E e s = Inl (Stopped ''Unexpected pfn while undoing stable merge''))"
proof -
  let ?k = "(ev_i0 e, ev_w0 e)"
  have shared: "\<exists>a it n nd. rmap_lookup E s ?k = Some a \<and> items s a = Some it \<and> ri_state it = Stable \<and>
      frame_of s a = Some f \<and> ri_stable_node it = Some n \<and> nodes s n = Some nd \<and> sn_pfn nd = f"
    if "sharing E s ?k = Some f" for f
    using that
    by (auto simp: sharing_def frame_of_def item_frame_def pfn_of_def bind_eq_Some_conv split: if_splits)
  have "\<exists>s'. handle_error_entry E e s = Inr s' \<and> server_inv E s' \<and> sharing E s' = (sharing E s)(?k := None)"
    if "sharing E s ?k = Some (ev_w1 e)"
    using shared [OF that] server_runtime.undo_merge_one_ok [OF assms(1,2)] assms(3)
    by (fastforce simp: handle_error_entry_def)
  moreover have "handle_error_entry E e s = Inl (Stopped ''lookup_rmap_item failed'')" if "rmap_lookup E s ?k = None"
    using that assms(3) by (simp add: handle_error_entry_def undo_merge_one_def)
  moreover have "handle_error_entry E e s = Inl (Stopped ''Unexpected pfn while undoing stable merge'')"
    if "sharing E s ?k = Some f" "f \<noteq> ev_w1 e" for f
    using shared [OF that(1)] that(2) assms(3) by (auto simp: handle_error_entry_def undo_merge_one_def)
  ultimately show ?thesis by blast
qed

theorem undo_stable_merge_witness:
  "\<exists>s'. handle_error_entry sample_env sample_error sample_shared = Inr s' \<and> server_inv sample_env s' \<and>
    sharing sample_env s' = (sharing sample_env sample_shared)((2, 0x1000) := None)"
  using undo_stable_merge [OF sample.server_runtime_axioms sample_shared_inv, of sample_error] sample_sharing
  by (simp add: sample_error_def)

text \<open>
  C6. Undoing an unstable merge (\<open>HOST_MERGE_TWO_FAILED\<close>): the node that the merge made is dissolved
  and freed, every page that has joined it since leaves the sharing, other pages keep theirs, and
  nothing is logged.
\<close>

theorem undo_unstable_merge:
  assumes "server_runtime E" and "server_inv E s" and "ev_type e = HOST_MERGE_TWO_FAILED"
    and "rmap_lookup E s (ev_i0 e, ev_w0 e) = Some a" and "items s a = Some it" and "ri_state it = Stable"
    and "ri_stable_node it = Some n" and "nodes s n = Some nd"
  shows "\<exists>s'. handle_error_entry E e s = Inr s' \<and> server_inv E s' \<and> nodes s' n = None \<and>
    log_table s' = log_table s \<and>
    (\<forall>k. sharing E s' k = (if sharing_lookup E nd k = None then sharing E s k else None))"
proof -
  from server_runtime.undo_merge_two_ok [OF assms(1,2,4-8)] obtain s' where
    "undo_merge_two E e s = Inr s'" "server_inv E s'" "log_table s' = log_table s" "nodes s' n = None"
    "sharing E s' = (sharing E s) |` (- dom (sharing_lookup E nd))" by blast
  then show ?thesis using assms(3) by (auto simp: handle_error_entry_def restrict_map_def domIff)
qed

theorem undo_unstable_merge_witness:
  "\<exists>s'. handle_error_entry sample_env (sample_error\<lparr>ev_type := HOST_MERGE_TWO_FAILED\<rparr>) sample_shared = Inr s' \<and>
    server_inv sample_env s' \<and> nodes s' 1 = None \<and>
    sharing sample_env s' (1, 0x1000) = None \<and> sharing sample_env s' (2, 0x1000) = None"
proof -
  have "\<exists>s'. handle_error_entry sample_env (sample_error\<lparr>ev_type := HOST_MERGE_TWO_FAILED\<rparr>) sample_shared = Inr s' \<and>
      server_inv sample_env s' \<and> nodes s' 1 = None \<and> log_table s' = log_table sample_shared \<and>
      (\<forall>k. sharing sample_env s' k = (if sharing_lookup sample_env (the (nodes sample_shared 1)) k = None
        then sharing sample_env sample_shared k else None))"
    by (rule undo_unstable_merge [OF sample.server_runtime_axioms sample_shared_inv,
          where a = 2 and it = "the (items sample_shared 2)"])
      (simp_all add: sample_error_def sample_shared_def)
  then show ?thesis by (auto simp: sample_shared_def)
qed

text \<open>
  Reading the error table in chunks of at most \<open>MAX_PAGES_IN_SGL\<close> pages handles every entry
  exactly once and in order: it is the same as handling the list of all entries.
\<close>

theorem error_chunks_cover_table:
  assumes "et_total_cnt d = length es"
    and "et_desc_cnt d = DIV_ROUND_UP (DIV_ROUND_UP (length es * sizeof_ksm_event_log) PAGE_SIZE) MAX_PAGES_IN_SGL"
    and "reads_errors read es"
  shows "do_handle_error E read d s = rbind (rfold (handle_error_entry E) es s) (\<lambda>s. Inr (0, s))"
  by (rule do_handle_error_all [OF assms])

theorem error_chunks_cover_table_witness:
  "do_handle_error sample_env (read_error_table [sample_error, sample_error]) \<lparr>et_total_cnt = 1, et_desc_cnt = 1, et_entries = []\<rparr>
     sample_shared = rbind (handle_error_entry sample_env sample_error sample_shared) (\<lambda>s. Inr (0, s))"
  using error_chunks_cover_table [of "\<lparr>et_total_cnt = 1, et_desc_cnt = 1, et_entries = []\<rparr>" "[sample_error]"
      "read_error_table [sample_error, sample_error]" sample_env sample_shared]
    reads_errors_table [of "[sample_error]" "[sample_error]"]
  by (simp add: DIV_ROUND_UP_def PAGE_SIZE_def MAX_PAGES_IN_SGL_def rbind_def split: sum.split)

end
