(* ===== verification/Host_Register.thy ===== *)
theory Host_Register
  imports Host_Items Host_Sgl Server_Properties
begin

text \<open>
  How the host registers memory for the server to read (\<open>mm/ksm_rdma.c\<close>): the loop over the
  scatter lists, and the error table. The theorem composes both sides: what the server reads
  through the descriptors is what the host put into its table.
\<close>

section \<open>Memory regions\<close>

text \<open>
  A memory region is allocated by the driver (\<open>None\<close>: it failed, the code prints a message and
  follows the error pointer). The outcomes of mapping and registering it are only printed.
\<close>

record ib_mr =
  mr_rkey :: u32
  mr_iova :: u64

text \<open>
  The loop over the scatter lists of a table of \<open>tot\<close> pages, the same in
  \<open>rdma_register_shadow_mms\<close> and \<open>rdma_register_error_table\<close>. The arrays the results are stored
  in have \<open>MAX_PAGES_DESCS\<close> elements.
\<close>

primrec register_sgls ::
  "(nat \<Rightarrow> 's \<Rightarrow> ('p \<times> 's) res) \<Rightarrow> (nat \<Rightarrow> nat \<Rightarrow> bool) \<Rightarrow> nat \<Rightarrow> (nat \<Rightarrow> ib_mr option) \<Rightarrow> nat \<Rightarrow> nat \<Rightarrow>
   nat list \<Rightarrow> 's \<Rightarrow> (('p sgl \<times> ib_mr) list \<times> 's) res" where
  "register_sgls page_at kz C mrs tot sgl_num [] st = Inr ([], st)"
| "register_sgls page_at kz C mrs tot sgl_num (sgl_idx # is) st =
     (let this_sgl_size = (if sgl_idx = sgl_num - 1 then tot - sgl_idx * MAX_PAGES_IN_SGL else MAX_PAGES_IN_SGL)
      in rbind (build_sgl page_at (kz sgl_idx) C (sgl_idx * MAX_PAGES_IN_SGL) this_sgl_size st) (\<lambda>(sgl, st).
           if \<not> sgl_idx < MAX_PAGES_DESCS then Inl Null_Deref
           else
             (case mrs sgl_idx of
                None \<Rightarrow> Inl Null_Deref
              | Some mr \<Rightarrow>
                  rbind (register_sgls page_at kz C mrs tot sgl_num is st) (\<lambda>(regs, st).
                    Inr ((sgl, mr) # regs, st)))))"

definition register_all ::
  "(nat \<Rightarrow> 's \<Rightarrow> ('p \<times> 's) res) \<Rightarrow> (nat \<Rightarrow> nat \<Rightarrow> bool) \<Rightarrow> nat \<Rightarrow> (nat \<Rightarrow> ib_mr option) \<Rightarrow> nat \<Rightarrow> 's \<Rightarrow>
   (('p sgl \<times> ib_mr) list \<times> 's) res" where
  "register_all page_at kz C mrs tot st =
     (let sgl_num = DIV_ROUND_UP tot MAX_PAGES_IN_SGL
      in register_sgls page_at kz C mrs tot sgl_num [0..<sgl_num] st)"

text \<open>The pages a region of \<open>n\<close> pages gives access to.\<close>

definition region_pages :: "'p sgl \<times> ib_mr \<Rightarrow> nat \<Rightarrow> 'p list" where
  "region_pages reg n = sg_walk n (fst reg) 0 0"

text \<open>Freeing them again; the result lists, per scatter list, the arrays freed. An element behind the
  lists that were stored points to no array.\<close>

primrec free_sgls :: "bool \<Rightarrow> nat \<Rightarrow> nat \<Rightarrow> nat \<Rightarrow> nat list \<Rightarrow> ('p sgl \<times> ib_mr) list \<Rightarrow> nat list list res" where
  "free_sgls strict C tot sgt_cnt [] regs = Inr []"
| "free_sgls strict C tot sgt_cnt (j # js) regs =
     (let this_sgl_size = (if j = sgt_cnt - 1 then tot - j * MAX_PAGES_IN_SGL else MAX_PAGES_IN_SGL)
      in rbind (free_sgl strict C this_sgl_size (if j < length regs then fst (regs ! j) else [])) (\<lambda>dead.
         rbind (free_sgls strict C tot sgt_cnt js regs) (\<lambda>deads. Inr (dead # deads))))"

section \<open>The error table\<close>

definition error_page_at :: "ksm_event_log host_table \<Rightarrow> nat \<Rightarrow> unit \<Rightarrow> (ksm_event_log list \<times> unit) res" where
  "error_page_at t i st =
     (let entry_pos = logs_per_page * i;
          array_idx = entry_pos div MAX_RESULT_TABLE_ENTRIES;
          entry_idx = entry_pos mod MAX_RESULT_TABLE_ENTRIES
      in case ht_arrays t of
           None \<Rightarrow> Inl Null_Deref
         | Some arrays \<Rightarrow>
             if array_idx < length arrays \<and> entry_idx < length (arrays ! array_idx)
             then Inr (take logs_per_page (drop entry_idx (arrays ! array_idx)), st) else Inl Null_Deref)"

definition error_pages :: "nat \<Rightarrow> nat" where
  "error_pages cnt = DIV_ROUND_UP (cnt * sizeof_ksm_event_log) PAGE_SIZE"

definition error_desc :: "ib_mr \<Rightarrow> error_table_desc_entry" where
  "error_desc mr = \<lparr>et_rkey = ucast (mr_rkey mr), et_base_addr = mr_iova mr\<rparr>"

definition rdma_register_error_table ::
  "(nat \<Rightarrow> nat \<Rightarrow> bool) \<Rightarrow> nat \<Rightarrow> (nat \<Rightarrow> ib_mr option) \<Rightarrow> error_table \<Rightarrow>
   (error_table \<times> error_table_descriptor \<times> (ksm_event_log list sgl \<times> ib_mr) list) res" where
  "rdma_register_error_table kz C mrs tbl =
     (let tbl = tbl\<lparr>er_registered := ht_cnt (er_entries tbl)\<rparr>
      in rbind (register_all (error_page_at (er_entries tbl)) kz C mrs (error_pages (er_registered tbl)) ())
           (\<lambda>(regs, _).
             Inr (tbl, \<lparr>et_total_cnt = er_registered tbl, et_desc_cnt = length regs,
                        et_entries = map (error_desc \<circ> snd) regs\<rparr>, regs)))"

definition rdma_unregister_error_table ::
  "nat \<Rightarrow> (ksm_event_log list sgl \<times> ib_mr) list \<Rightarrow> error_table \<Rightarrow> nat list list res" where
  "rdma_unregister_error_table C regs tbl =
     free_sgls True C (error_pages (er_registered tbl)) (length regs) [0..<length regs] regs"

text \<open>What an RDMA read of \<open>len\<close> bytes through the \<open>i\<close>-th descriptor returns.\<close>

definition read_registered_errors ::
  "(ksm_event_log list sgl \<times> ib_mr) list \<Rightarrow> nat \<Rightarrow> nat \<Rightarrow> ksm_event_log list option" where
  "read_registered_errors regs i len =
     (if i < length regs
      then Some (take (len div sizeof_ksm_event_log) (concat (region_pages (regs ! i) (len div PAGE_SIZE))))
      else None)"

section \<open>Every page is registered once, in order\<close>

definition sgl_size :: "nat \<Rightarrow> nat \<Rightarrow> nat" where
  "sgl_size tot i =
     (if i = DIV_ROUND_UP tot MAX_PAGES_IN_SGL - 1 then tot - i * MAX_PAGES_IN_SGL else MAX_PAGES_IN_SGL)"

lemma sgl_size_bounds:
  assumes "i < DIV_ROUND_UP tot MAX_PAGES_IN_SGL"
  shows "0 < sgl_size tot i" "i * MAX_PAGES_IN_SGL + sgl_size tot i = min (Suc i * MAX_PAGES_IN_SGL) tot"
proof -
  have m: "0 < MAX_PAGES_IN_SGL" by (simp add: MAX_PAGES_IN_SGL_def)
  have lt: "i * MAX_PAGES_IN_SGL < tot" using DIV_ROUND_UP_tight [OF m assms] .
  then show "0 < sgl_size tot i" using m unfolding sgl_size_def by presburger
  show "i * MAX_PAGES_IN_SGL + sgl_size tot i = min (Suc i * MAX_PAGES_IN_SGL) tot"
  proof (cases "i = DIV_ROUND_UP tot MAX_PAGES_IN_SGL - 1")
    case True
    then have "DIV_ROUND_UP tot MAX_PAGES_IN_SGL = Suc i" using assms by simp
    then have "tot \<le> Suc i * MAX_PAGES_IN_SGL" using DIV_ROUND_UP_covers [OF m, of tot] by simp
    then show ?thesis using True lt by (simp add: sgl_size_def min_def)
  next
    case False
    then have "Suc i < DIV_ROUND_UP tot MAX_PAGES_IN_SGL" using assms by simp
    then have "Suc i * MAX_PAGES_IN_SGL < tot" using DIV_ROUND_UP_tight [OF m] by blast
    then show ?thesis using False by (simp add: sgl_size_def min_def)
  qed
qed

definition registration :: "nat \<Rightarrow> (nat \<Rightarrow> 'p) \<Rightarrow> (nat \<Rightarrow> ib_mr option) \<Rightarrow> nat \<Rightarrow> nat \<Rightarrow> 'p sgl \<times> ib_mr" where
  "registration C pg mrs tot i =
     (sgl_of C (\<lambda>j. pg (i * MAX_PAGES_IN_SGL + j)) (sgl_size tot i), the (mrs i))"

text \<open>The conditions under which a registration cannot fail.\<close>

definition registrable :: "nat \<Rightarrow> (nat \<Rightarrow> nat \<Rightarrow> bool) \<Rightarrow> (nat \<Rightarrow> ib_mr option) \<Rightarrow> nat \<Rightarrow> bool" where
  "registrable C kz mrs tot \<longleftrightarrow> 2 \<le> C \<and> (\<forall>i j. kz i j) \<and> (\<forall>i. mrs i \<noteq> None) \<and>
     DIV_ROUND_UP tot MAX_PAGES_IN_SGL \<le> MAX_PAGES_DESCS"

lemma register_sgls_ok:
  assumes ok: "registrable C kz mrs tot" and n: "n = DIV_ROUND_UP tot MAX_PAGES_IN_SGL" and "k \<le> n"
    and page_at: "\<And>j. j < tot \<Longrightarrow> page_at j (st j) = Inr (pg j, st (Suc j))"
  shows "register_sgls page_at kz C mrs tot n [k..<n] (st (min (k * MAX_PAGES_IN_SGL) tot)) =
    Inr (map (registration C pg mrs tot) [k..<n], st tot)"
  using \<open>k \<le> n\<close>
proof (induction "n - k" arbitrary: k)
  case 0
  then have "tot \<le> k * MAX_PAGES_IN_SGL"
    using DIV_ROUND_UP_covers [of MAX_PAGES_IN_SGL tot] n by (simp add: MAX_PAGES_IN_SGL_def)
  then show ?case using 0 by (simp add: min_def)
next
  case (Suc d)
  let ?b = "k * MAX_PAGES_IN_SGL"
  from Suc have k: "k < n" "d = n - Suc k" by simp_all
  note b = sgl_size_bounds [OF k(1) [unfolded n]]
  note o = ok [unfolded registrable_def]
  have size: "(if k = n - 1 then tot - ?b else MAX_PAGES_IN_SGL) = sgl_size tot k" by (simp add: sgl_size_def n)
  have lt: "?b + sgl_size tot k \<le> tot" using b(2) by simp
  then have le: "min ?b tot = ?b" by simp
  have "build_sgl page_at (kz k) C ?b (sgl_size tot k) (st (?b + 0)) =
      Inr (sgl_of C (\<lambda>j. pg (?b + j)) (sgl_size tot k), st (?b + sgl_size tot k))"
    by (rule build_sgl_ok [where st = "\<lambda>j. st (?b + j)"]) (use o b(1) lt page_at in auto)
  moreover have "register_sgls page_at kz C mrs tot n [Suc k..<n] (st (?b + sgl_size tot k)) =
      Inr (map (registration C pg mrs tot) [Suc k..<n], st tot)"
    unfolding b(2) using Suc.hyps(1) [of "Suc k"] k by simp
  moreover obtain mr where "mrs k = Some mr" using o by (meson not_None_eq)
  moreover have "k < MAX_PAGES_DESCS" using o k n by simp
  moreover have "[k..<n] = k # [Suc k..<n]" using k by (simp add: upt_conv_Cons)
  ultimately show ?case by (simp only: register_sgls.simps Let_def size le) (simp add: registration_def)
qed

lemma register_all_ok:
  assumes "registrable C kz mrs tot"
    and "\<And>j. j < tot \<Longrightarrow> page_at j (st j) = Inr (pg j, st (Suc j))"
  shows "register_all page_at kz C mrs tot (st 0) =
    Inr (map (registration C pg mrs tot) [0..<DIV_ROUND_UP tot MAX_PAGES_IN_SGL], st tot)"
  using register_sgls_ok [OF assms(1) refl, of 0 page_at st pg] assms(2) by (simp add: register_all_def)

lemma map_shift: "map (\<lambda>j. f (a + j)) [0..<n] = map f [a..<a + n]"
  by (induction n) simp_all

lemma region_pages_registration:
  assumes "2 \<le> C" "i < DIV_ROUND_UP tot MAX_PAGES_IN_SGL"
  shows "region_pages (registration C pg mrs tot i) (sgl_size tot i) =
    map pg [i * MAX_PAGES_IN_SGL..<i * MAX_PAGES_IN_SGL + sgl_size tot i]"
  unfolding region_pages_def registration_def using sg_walk_sgl_of [OF assms(1) sgl_size_bounds(1) [OF assms(2)],
      where pg = "\<lambda>j. pg (i * MAX_PAGES_IN_SGL + j)"]
  by (simp add: map_shift)

lemma free_registration:
  assumes "2 \<le> C" "i < DIV_ROUND_UP tot MAX_PAGES_IN_SGL"
  shows "free_sgl strict C (sgl_size tot i) (fst (registration C pg mrs tot i)) =
    Inr [0..<length (fst (registration C pg mrs tot i))]"
  unfolding registration_def fst_conv by (rule free_sgl_of [OF assms(1) sgl_size_bounds(1) [OF assms(2)]])

text \<open>Freeing the registered lists frees every array of every list once.\<close>

lemma free_sgls_ok:
  assumes "2 \<le> C" and n: "n = DIV_ROUND_UP tot MAX_PAGES_IN_SGL" and "\<And>i. i \<in> set is \<Longrightarrow> i < n"
  shows "free_sgls strict C tot n is (map (registration C pg mrs tot) [0..<n]) =
    Inr (map (\<lambda>i. [0..<length (fst (registration C pg mrs tot i))]) is)"
  using assms(3)
proof (induction "is")
  case (Cons i "is")
  then have i: "i < n" by simp
  note f = free_registration [OF assms(1) i [unfolded n], of strict pg mrs]
  have size: "(if i = n - 1 then tot - i * MAX_PAGES_IN_SGL else MAX_PAGES_IN_SGL) = sgl_size tot i"
    by (simp add: sgl_size_def n)
  have "free_sgls strict C tot n is (map (registration C pg mrs tot) [0..<n]) =
      Inr (map (\<lambda>i. [0..<length (fst (registration C pg mrs tot i))]) is)" using Cons by simp
  then show ?case using i f by (simp only: free_sgls.simps Let_def size) simp
qed simp

section \<open>The pages of a two-level table\<close>

lemma packed_page:
  assumes "packed m as" "0 < m" "p dvd m" "p dvd length (last as)" "p dvd n" "n < length (concat as)"
  shows "n div m < length as \<and> n mod m < length (as ! (n div m)) \<and>
    take p (drop (n mod m) (as ! (n div m))) = take p (drop n (concat as))"
  using assms
proof (induction as arbitrary: n)
  case (Cons a as)
  show ?case
  proof (cases "n < length a")
    case True
    then have "n < m" using Cons.prems(1) by (cases "as = []") (auto simp: packed_Cons)
    moreover have "p dvd length a" using Cons.prems(1,3,4) by (cases "as = []") (auto simp: packed_Cons)
    then have "p \<le> length a - n" using True Cons.prems(5) by (intro dvd_imp_le dvd_diff_nat) auto
    ultimately show ?thesis using True by simp
  next
    case False
    then have ne: "as \<noteq> []" using Cons.prems(6) by auto
    then have a: "length a = m" "packed m as" using Cons.prems(1) by (simp_all add: packed_Cons)
    then obtain j where j: "n = m + j" using False le_Suc_ex by fastforce
    have d: "p dvd j" using Cons.prems(3,5) j by (simp add: dvd_add_right_iff)
    have "n div m = Suc (j div m)" "n mod m = j mod m" using j Cons.prems(2) by (simp_all add: div_add_self1)
    moreover have "j < length (concat as)" "p dvd length (last as)" using Cons.prems(4,6) a j ne by simp_all
    ultimately show ?thesis using Cons.IH [OF a(2) Cons.prems(2,3) _ d] a j by simp
  qed
qed simp

lemma concat_pages:
  assumes "a \<le> b"
  shows "concat (map (\<lambda>j. take p (drop (j * p) xs)) [a..<b]) = take ((b - a) * p) (drop (a * p) xs)"
  using assms
proof (induction b)
  case (Suc b)
  show ?case
  proof (cases "a \<le> b")
    case True
    then have "b * p = (b - a) * p + a * p" by (metis add_mult_distrib le_add_diff_inverse2)
    then show ?thesis using Suc.IH [OF True] True
      by (simp add: Suc_diff_le take_add add.commute [of p])
  next
    case False
    then have "a = Suc b" using Suc.prems by simp
    then show ?thesis by simp
  qed
qed simp

section \<open>The error table reaches the server\<close>

lemma err_table_dims: "logs_per_page = 128" "MAX_RESULT_TABLE_ENTRIES = 128 * 1024" "entries_per_sgl = MAX_PAGES_IN_SGL * 128"
  by (simp_all add: logs_per_page_def MAX_RESULT_TABLE_ENTRIES_def PAGE_SIZE_def entries_per_sgl_def)

lemma error_pages_le: "j < error_pages n \<Longrightarrow> j * logs_per_page < n"
  using DIV_ROUND_UP_tight [of PAGE_SIZE j "n * sizeof_ksm_event_log"]
  by (simp add: error_pages_def PAGE_SIZE_def err_table_dims)

lemma error_page_at_ok:
  assumes as: "ht_arrays t = Some as" and wf: "err_table_wf t" and j: "j < error_pages (ht_cnt t)"
  shows "error_page_at t j st = Inr (take logs_per_page (drop (j * logs_per_page) (concat as)), st)"
proof -
  have a: "packed MAX_RESULT_TABLE_ENTRIES as" "ht_cnt t \<le> length (concat as)" "logs_per_page dvd length (last as)"
    using wf as by (auto simp: table_wf_def)
  have "logs_per_page * j < length (concat as)" using error_pages_le [OF j] a(2) by (simp add: mult.commute)
  then show ?thesis using packed_page [OF a(1) err_table.m_pos _ a(3), of "logs_per_page * j"] as
    by (simp add: error_page_at_def Let_def mult.commute err_table_dims)
qed

definition error_page :: "ksm_event_log list \<Rightarrow> nat \<Rightarrow> ksm_event_log list" where
  "error_page xs j = take logs_per_page (drop (j * logs_per_page) xs)"

lemma register_error_table_ok:
  assumes as: "ht_arrays (er_entries tbl) = Some as" and wf: "err_table_wf (er_entries tbl)"
    and ok: "registrable C kz mrs (error_pages (ht_cnt (er_entries tbl)))"
  defines "n \<equiv> ht_cnt (er_entries tbl)"
  shows "\<exists>desc. rdma_register_error_table kz C mrs tbl =
      Inr (tbl\<lparr>er_registered := n\<rparr>, desc,
           map (registration C (error_page (concat as)) mrs (error_pages n)) [0..<DIV_ROUND_UP (error_pages n) MAX_PAGES_IN_SGL]) \<and>
    et_total_cnt desc = n \<and> et_desc_cnt desc = DIV_ROUND_UP (error_pages n) MAX_PAGES_IN_SGL"
proof -
  have "register_all (error_page_at (er_entries tbl)) kz C mrs (error_pages n) () =
      Inr (map (registration C (error_page (concat as)) mrs (error_pages n)) [0..<DIV_ROUND_UP (error_pages n) MAX_PAGES_IN_SGL], ())"
    using register_all_ok [OF ok, of "error_page_at (er_entries tbl)" "\<lambda>_. ()" "error_page (concat as)"]
      error_page_at_ok [OF as wf] by (simp add: n_def error_page_def)
  then show ?thesis by (simp add: rdma_register_error_table_def Let_def n_def)
qed

lemma registered_errors_read:
  assumes as: "ht_arrays t = Some as" and wf: "err_table_wf t" and C: "2 \<le> C"
  defines "n \<equiv> ht_cnt t"
  shows "reads_errors (read_registered_errors (map (registration C (error_page (concat as)) mrs (error_pages n))
      [0..<DIV_ROUND_UP (error_pages n) MAX_PAGES_IN_SGL])) (contents t)"
proof -
  let ?dc = "DIV_ROUND_UP (error_pages n) MAX_PAGES_IN_SGL" and ?xs = "concat as"
  let ?regs = "map (registration C (error_page ?xs) mrs (error_pages n)) [0..<?dc]"
  have len: "length (contents t) = n" using length_contents [OF wf] by (simp add: n_def)
  have split: "?xs = contents t @ drop n ?xs" using as by (simp add: contents_def n_def)
  have "read_registered_errors ?regs i (PAGE_SIZE * sgl_size (error_pages n) i) =
      read_error_table ?xs i (PAGE_SIZE * sgl_size (error_pages n) i)" if i: "i < ?dc" for i
  proof -
    let ?k = "i * MAX_PAGES_IN_SGL" and ?s = "sgl_size (error_pages n) i"
    have "concat (region_pages (?regs ! i) ?s) = take (?s * 128) (drop (?k * 128) ?xs)"
      using region_pages_registration [OF C i, of "error_page ?xs" mrs] i concat_pages [of ?k "?k + ?s" 128 ?xs]
      by (simp add: error_page_def [abs_def] err_table_dims)
    then show ?thesis using i
      by (simp add: read_registered_errors_def read_error_table_def err_table_dims(3) PAGE_SIZE_def
          mult.commute [of _ ?s] mult.assoc [symmetric])
  qed
  then show ?thesis unfolding reads_errors_def Let_def len error_pages_def [symmetric] sgl_size_def [symmetric]
    using split by (metis (no_types))
qed


text \<open>
  C18. The errors the host collected are the errors the server handles. Registering the error
  table succeeds; the server, reading the registered regions chunk by chunk through the
  descriptors, undoes exactly the entries the host inserted, each once and in order; and
  unregistering frees every array of the scatter lists exactly once.
\<close>

theorem error_table_reaches_server:
  assumes "err_table_wf (er_entries tbl)"
    and "registrable C kz mrs (error_pages (ht_cnt (er_entries tbl)))"
  shows "\<exists>tbl' desc regs. rdma_register_error_table kz C mrs tbl = Inr (tbl', desc, regs) \<and>
    do_handle_error E (read_registered_errors regs) desc s =
      rbind (rfold (handle_error_entry E) (contents (er_entries tbl)) s) (\<lambda>s. Inr (0, s)) \<and>
    rdma_unregister_error_table C regs tbl' = Inr (map (\<lambda>(sgl, mr). [0..<length sgl]) regs) \<and>
    (\<exists>tbl''. clear_error_table tbl' = Inr tbl'' \<and> err_table_wf (er_entries tbl'') \<and> contents (er_entries tbl'') = [])"
proof -
  from assms(1) obtain as where as: "ht_arrays (er_entries tbl) = Some as" by (auto simp: table_wf_def)
  let ?n = "ht_cnt (er_entries tbl)"
  let ?dc = "DIV_ROUND_UP (error_pages ?n) MAX_PAGES_IN_SGL"
  let ?regs = "map (registration C (error_page (concat as)) mrs (error_pages ?n)) [0..<?dc]"
  let ?tbl = "tbl\<lparr>er_registered := ?n\<rparr>"
  have C: "2 \<le> C" using assms(2) by (simp add: registrable_def)
  from register_error_table_ok [OF as assms] obtain desc where
    1: "rdma_register_error_table kz C mrs tbl = Inr (?tbl, desc, ?regs)" "et_total_cnt desc = ?n" "et_desc_cnt desc = ?dc"
    by blast
  have "do_handle_error E (read_registered_errors ?regs) desc s =
      rbind (rfold (handle_error_entry E) (contents (er_entries tbl)) s) (\<lambda>s. Inr (0, s))"
    using do_handle_error_all [OF _ _ registered_errors_read [OF as assms(1) C, of mrs], of desc E s]
      1(2,3) length_contents [OF assms(1)] by (simp add: error_pages_def)
  moreover have "rdma_unregister_error_table C ?regs ?tbl = Inr (map (\<lambda>(sgl, mr). [0..<length sgl]) ?regs)"
    using free_sgls_ok [OF C refl, of "[0..<?dc]" "error_pages ?n" True "error_page (concat as)" mrs]
    by (simp add: rdma_unregister_error_table_def comp_def case_prod_unfold)
  moreover have "\<exists>tbl''. clear_error_table ?tbl = Inr tbl'' \<and> err_table_wf (er_entries tbl'') \<and> contents (er_entries tbl'') = []"
    by (rule err_table_clear) (use assms(1) in simp_all)
  ultimately show ?thesis using 1(1) by blast
qed


text \<open>An error table with one entry, as \<open>create_error_table\<close> and \<open>insert_error_log\<close> leave it.\<close>

definition sample_error_table :: error_table where
  "sample_error_table = \<lparr>er_entries = \<lparr>ht_arrays = Some [replicate 128 sample_error], ht_array_cnt = 1,
     ht_cnt = 1, ht_capacity = 128\<rparr>, er_registered = 0\<rparr>"

lemma sample_error_table_wf: "err_table_wf (er_entries sample_error_table)"
proof -
  have "\<exists>j. (128::nat) = logs_per_page * 2 ^ j" by (rule exI [of _ 0]) (simp add: err_table_dims)
  then show ?thesis by (simp add: sample_error_table_def table_wf_def packed_def err_table_dims)
qed

lemma sample_registrable:
  "n \<le> MAX_PAGES_IN_SGL \<Longrightarrow> registrable 128 (\<lambda>_ _. True) (\<lambda>_. Some \<lparr>mr_rkey = 7, mr_iova = 0x7000\<rparr>) n"
  using DIV_ROUND_UP_le_iff [of MAX_PAGES_IN_SGL n 1]
  by (simp add: registrable_def MAX_PAGES_DESCS_def MAX_PAGES_IN_SGL_def)

theorem error_table_reaches_server_witness:
  "\<exists>tbl' desc regs. rdma_register_error_table (\<lambda>_ _. True) 128 (\<lambda>_. Some \<lparr>mr_rkey = 7, mr_iova = 0x7000\<rparr>)
      sample_error_table = Inr (tbl', desc, regs) \<and>
    do_handle_error sample_env (read_registered_errors regs) desc sample_shared =
      rbind (handle_error_entry sample_env sample_error sample_shared) (\<lambda>s. Inr (0, s))"
proof -
  have "error_pages (ht_cnt (er_entries sample_error_table)) \<le> MAX_PAGES_IN_SGL"
    by (simp add: sample_error_table_def error_pages_def DIV_ROUND_UP_def PAGE_SIZE_def MAX_PAGES_IN_SGL_def)
  from error_table_reaches_server [OF sample_error_table_wf sample_registrable [OF this], of sample_env sample_shared]
  obtain tbl' desc regs where
    "rdma_register_error_table (\<lambda>_ _. True) 128 (\<lambda>_. Some \<lparr>mr_rkey = 7, mr_iova = 0x7000\<rparr>) sample_error_table = Inr (tbl', desc, regs)"
    "do_handle_error sample_env (read_registered_errors regs) desc sample_shared =
      rbind (rfold (handle_error_entry sample_env) (contents (er_entries sample_error_table)) sample_shared) (\<lambda>s. Inr (0, s))"
    by blast
  moreover have "contents (er_entries sample_error_table) = [sample_error]"
    by (simp add: sample_error_table_def contents_def)
  ultimately show ?thesis by (simp add: rbind_def split: sum.split)
qed

end
