(* ===== verification/Host_Request.thy ===== *)
theory Host_Request
  imports Host_Register
begin

text \<open>
  The request of a round as the host registers it (\<open>rdma_register_shadow_mms\<close> of
  \<open>mm/ksm_rdma.c\<close>): per process its pages, as chained scatter lists, and its page table. The
  theorem shows that what the server reads through the descriptors is a request it can answer.
\<close>

section \<open>The pages and the page table of a process\<close>

text \<open>
  The page for the index \<open>va_idx\<close>: the next entry of the xarray iterator, whose item must have the
  address the table has there.
\<close>

definition shadow_page_at ::
  "(addr \<Rightarrow> ksm_rmap_item option) \<Rightarrow> 'x shadow_mm \<Rightarrow> nat \<Rightarrow> (u64 \<times> addr) list \<Rightarrow> (u64 \<times> (u64 \<times> addr) list) res" where
  "shadow_page_at heap entry va_idx xa_iter =
     rbind (get_va_at entry va_idx) (\<lambda>this_va.
       case xa_iter of
         [] \<Rightarrow> Inl (Stopped ''Failed to find Page'')
       | (index, a) # xa_iter \<Rightarrow>
           rbind (deref heap a) (\<lambda>item.
           rbind (guard_stop ''Page address mismatch'' (item_va item = this_va)) (\<lambda>_.
           rbind (item_page (hi_data item)) (\<lambda>page.
             case page of None \<Rightarrow> Inl Null_Deref | Some page \<Rightarrow> Inr (page, xa_iter)))))"

text \<open>
  The pages of the arrays of the page table. The scatter list has room for \<open>map_pages_cnt\<close>
  entries.
\<close>

definition map_array_pages :: "shadow_pte host_table \<Rightarrow> shadow_pte list list \<Rightarrow> nat \<Rightarrow> shadow_pte list list" where
  "map_array_pages t arrays i =
     (let this_size = (if i = ht_array_cnt t - 1 then ht_capacity t - i * MAX_CAPACITY_PER_TABLE
                       else MAX_CAPACITY_PER_TABLE)
      in map (\<lambda>k. take ptes_per_page (drop (k * ptes_per_page) (arrays ! i))) [0..<DIV_ROUND_UP this_size ptes_per_page])"

definition register_map :: "bool \<Rightarrow> ib_mr option \<Rightarrow> shadow_pte host_table \<Rightarrow> (shadow_pte list list \<times> ib_mr) res" where
  "register_map kz map_mr t =
     rbind (guard_stop ''BUG_ON'' (\<not> ht_array_cnt t > MAX_VA_ARRAYS)) (\<lambda>_.
       (let map_pages_cnt = ht_capacity t * sizeof_shadow_pte div PAGE_SIZE
        in case (map_mr, ht_arrays t) of
             (Some mr, Some arrays) \<Rightarrow>
               (let map_pages = concat (map (map_array_pages t arrays) [0..<ht_array_cnt t]);
                    registered = length map_pages
                in if \<not> kz \<or> registered > map_pages_cnt \<or> registered = 0 \<or> ht_array_cnt t > length arrays
                   then Inl Null_Deref
                   else
                     rbind (guard_stop ''Too many pages in map_sg'' (\<not> registered \<ge> MAX_PAGES_IN_SGL)) (\<lambda>_.
                     rbind (guard_stop ''Map mr size mismatch'' (PAGE_SIZE * registered = sizeof_shadow_pte * ht_capacity t))
                       (\<lambda>_. Inr (map_pages, mr))))
           | _ \<Rightarrow> Inl Null_Deref))"

text \<open>The outcomes of the allocations for one process, and what is registered for it.\<close>

record register_ops =
  ro_kz :: "nat \<Rightarrow> nat \<Rightarrow> bool"
  ro_mrs :: "nat \<Rightarrow> ib_mr option"
  ro_map_kz :: bool
  ro_map_mr :: "ib_mr option"

record registered_mm =
  rm_pages :: "(u64 sgl \<times> ib_mr) list"
  rm_map_pages :: "shadow_pte list list"
  rm_cnt :: nat

definition register_shadow_mm ::
  "'x xa_ops \<Rightarrow> (addr \<Rightarrow> ksm_rmap_item option) \<Rightarrow> nat \<Rightarrow> register_ops \<Rightarrow> 'x shadow_mm \<Rightarrow>
   (shadow_pt_descriptor \<times> registered_mm) res" where
  "register_shadow_mm XA heap C ops entry =
     rbind (register_all (shadow_page_at heap entry) (ro_kz ops) C (ro_mrs ops) (ht_cnt (sm_pt_map entry))
              (xa_entries XA (sm_page_xa entry))) (\<lambda>(regs, _).
     rbind (register_map (ro_map_kz ops) (ro_map_mr ops) (sm_pt_map entry)) (\<lambda>(map_pages, map_mr).
       Inr (\<lparr>sd_mm_id = sm_mm_id entry, sd_map_rkey = mr_rkey map_mr, sd_pt_base_addr = mr_iova map_mr,
             sd_desc_entries = map (\<lambda>(sgl, mr). \<lparr>pages_rkey = mr_rkey mr, pages_base_addr = mr_iova mr\<rparr>) regs,
             sd_entry_cnt = ht_cnt (sm_pt_map entry)\<rparr>,
            \<lparr>rm_pages = regs, rm_map_pages = map_pages, rm_cnt = ht_cnt (sm_pt_map entry)\<rparr>)))"

text \<open>
  The loop over the processes. \<open>pt_cnt\<close> counts up without a bound; the descriptor has room for
  \<open>MAX_MM_DESCS\<close> of them.
\<close>

fun rdma_register_shadow_mms ::
  "'x xa_ops \<Rightarrow> (addr \<Rightarrow> ksm_rmap_item option) \<Rightarrow> nat \<Rightarrow> (nat \<Rightarrow> register_ops) \<Rightarrow> nat \<Rightarrow> 'x shadow_mm list \<Rightarrow>
   (shadow_pt_descriptor \<times> registered_mm) list res" where
  "rdma_register_shadow_mms XA heap C ops pt_cnt [] = Inr []"
| "rdma_register_shadow_mms XA heap C ops pt_cnt (entry # entries) =
     (if \<not> pt_cnt < MAX_MM_DESCS then Inl Null_Deref
      else rbind (register_shadow_mm XA heap C (ops pt_cnt) entry) (\<lambda>reg.
           rbind (rdma_register_shadow_mms XA heap C ops (pt_cnt + 1) entries) (\<lambda>regs. Inr (reg # regs))))"

section \<open>The page table\<close>

lemma va_table_dims: "MAX_CAPACITY_PER_TABLE = 131072" "ptes_per_page = 256" "MAX_VA_ARRAYS = 64"
  by (simp_all add: host_sizes MAX_VA_ARRAYS_def MAX_PAGES_IN_SGL_def)

lemma DIV_ROUND_UP_dvd:
  assumes "0 < p" "p dvd n"
  shows "DIV_ROUND_UP n p * p = n"
proof (rule antisym)
  have "DIV_ROUND_UP n p \<le> n div p" using assms by (simp add: DIV_ROUND_UP_le_iff)
  then show "DIV_ROUND_UP n p * p \<le> n" using assms by (metis dvd_div_mult_self mult_le_mono1)
qed (rule DIV_ROUND_UP_covers [OF assms(1)])

lemma concat_concat_map:
  assumes "\<And>i. i < length as \<Longrightarrow> concat (f i) = as ! i"
  shows "concat (concat (map f [0..<length as])) = concat as"
  using assms
proof (induction as rule: rev_induct)
  case (snoc a as)
  have "concat (f i) = as ! i" if "i < length as" for i using snoc.prems [of i] that by (simp add: nth_append)
  then show ?case using snoc.IH snoc.prems [of "length as"] by simp
qed simp

lemma length_concat_map:
  assumes "\<And>i. i < length as \<Longrightarrow> length (f i) * p = length (as ! i)"
  shows "length (concat (map f [0..<length as])) * p = length (concat as)"
  using assms
proof (induction as rule: rev_induct)
  case (snoc a as)
  have "length (f i) * p = length (as ! i)" if "i < length as" for i using snoc.prems [of i] that by (simp add: nth_append)
  then show ?case using snoc.IH snoc.prems [of "length as"] by (simp add: add_mult_distrib)
qed simp

lemma map_array_pages_ok:
  assumes as: "ht_arrays t = Some as" and wf: "va_table_wf t" and i: "i < length as"
  shows "concat (map_array_pages t as i) = as ! i" "length (map_array_pages t as i) * ptes_per_page = length (as ! i)"
proof -
  have a: "packed MAX_CAPACITY_PER_TABLE as" "ht_array_cnt t = length as" "ht_capacity t = length (concat as)"
    "ptes_per_page dvd length (last as)" using wf as by (auto simp: table_wf_def)
  have ne: "as \<noteq> []" using i by auto
  have cap: "ht_capacity t - (length as - 1) * MAX_CAPACITY_PER_TABLE = length (last as)"
    using length_packed [OF a(1)] a(3) by (simp add: mult.commute)
  have size: "(if i = length as - 1 then ht_capacity t - i * MAX_CAPACITY_PER_TABLE else MAX_CAPACITY_PER_TABLE) =
      length (as ! i)"
  proof (cases "i = length as - 1")
    case True
    then show ?thesis using cap ne by (simp add: last_conv_nth)
  next
    case False
    then have "as ! i \<in> set (butlast as)" using i by (metis Suc_pred length_butlast length_greater_0_conv less_antisym ne nth_butlast nth_mem diff_Suc_1)
    then show ?thesis using False a(1) by (simp add: packed_def)
  qed
  then have d: "ptes_per_page dvd length (as ! i)" using a(4) ne
    by (cases "i = length as - 1") (auto simp: last_conv_nth va_table_dims)
  have p: "0 < ptes_per_page" by (simp add: va_table_dims)
  note n = DIV_ROUND_UP_dvd [OF p d]
  have e: "map_array_pages t as i = map (\<lambda>k. take ptes_per_page (drop (k * ptes_per_page) (as ! i)))
      [0..<DIV_ROUND_UP (length (as ! i)) ptes_per_page]"
    unfolding map_array_pages_def Let_def a(2) size ..
  show "concat (map_array_pages t as i) = as ! i"
    unfolding e using concat_pages [of 0 "DIV_ROUND_UP (length (as ! i)) ptes_per_page" ptes_per_page "as ! i"] n by simp
  show "length (map_array_pages t as i) * ptes_per_page = length (as ! i)" unfolding e using n by simp
qed

lemma register_map_ok:
  assumes wf: "va_table_wf t" and cnt: "ht_array_cnt t \<le> MAX_VA_ARRAYS"
  shows "\<exists>pages. register_map True (Some mr) t = Inr (pages, mr) \<and> take (ht_cnt t) (concat pages) = contents t"
proof -
  from wf obtain as j where as: "ht_arrays t = Some as" "packed MAX_CAPACITY_PER_TABLE as" "ht_array_cnt t = length as"
    "ht_capacity t = length (concat as)" "length (last as) = ptes_per_page * 2 ^ j" by (auto simp: table_wf_def)
  note pg = map_array_pages_ok [OF as(1) wf]
  let ?pages = "concat (map (map_array_pages t as) [0..<length as])"
  have c: "concat ?pages = concat as" by (rule concat_concat_map) (rule pg(1))
  have l: "length ?pages * ptes_per_page = ht_capacity t" unfolding as(4) by (rule length_concat_map) (rule pg(2))
  have "length (last as) \<le> MAX_CAPACITY_PER_TABLE" "as \<noteq> []" using as(2) by (simp_all add: packed_def)
  then have "ht_capacity t \<le> MAX_CAPACITY_PER_TABLE * length as"
    using length_packed [OF as(2)] as(4) by (cases as) simp_all
  then have "ht_capacity t \<le> 131072 * 64" using cnt as(3) by (simp add: va_table_dims)
  moreover have "0 < length (last as)" using as(5) by (simp add: va_table_dims)
  then have "0 < ht_capacity t" using length_packed [OF as(2)] as(4) by simp
  moreover define pages where "pages = ?pages"
  moreover have l': "length pages * 256 = ht_capacity t" using l by (simp only: pages_def va_table_dims)
  ultimately have "0 < length pages" "length pages \<le> 32768" by linarith+
  note this l'
  moreover have "length as \<le> 64" using cnt as(3) by (simp add: va_table_dims)
  ultimately have "register_map True (Some mr) t = Inr (pages, mr)"
    unfolding register_map_def as(1,3) Let_def prod.case option.case pages_def [symmetric] va_table_dims
    by (simp add: sizeof_shadow_pte_def PAGE_SIZE_def MAX_PAGES_IN_SGL_def guard_stop_def)
  then show ?thesis using c as(1) by (simp add: contents_def pages_def)
qed

section \<open>The pages\<close>

text \<open>
  A page table as the walk leaves it: ascending page-aligned addresses, each with an item of the
  xarray that has this address and points to the page.
\<close>

definition shadow_filled :: "'x xa_ops \<Rightarrow> (addr \<Rightarrow> ksm_rmap_item option) \<Rightarrow> 'x shadow_mm \<Rightarrow> bool" where
  "shadow_filled XA heap sm \<longleftrightarrow> shadow_wf XA sm \<and> sorted_wrt (<) (map pte_va (contents (sm_pt_map sm))) \<and>
     (\<forall>pte \<in> set (contents (sm_pt_map sm)). pte_va pte AND PAGE_MASK = pte_va pte \<and>
        (\<exists>a it. xa_load XA (sm_page_xa sm) (page_number (pte_va pte)) = Some a \<and> heap a = Some it \<and>
           item_va it = pte_va pte \<and> hi_data it = Page_Ptr (Some (pte_kpfn pte))))"

lemma page_number_inj:
  assumes "x AND PAGE_MASK = x" "y AND PAGE_MASK = y" "page_number x = page_number y"
  shows "x = y"
proof (rule bit_word_eqI)
  fix n assume n: "n < LENGTH(64)"
  have low: "\<not> bit z n" if "z AND PAGE_MASK = z" "n < 12" for z :: u64
    using that by (metis bit_and_iff mask_bits(1) not_less)
  have high: "bit z n = bit (page_number z) (n - 12)" if "12 \<le> n" for z :: u64
    using that by (simp add: page_number_def bit_drop_bit_eq)
  show "bit x n = bit y n" using low assms high by (cases "n < 12") auto
qed

lemma page_number_less:
  assumes "x AND PAGE_MASK = x" "y AND PAGE_MASK = y" "x < y"
  shows "page_number x < page_number y"
proof -
  have "page_number x \<le> page_number y"
    using assms(3) by (simp add: page_number_def word_le_nat_alt word_less_nat_alt drop_bit_eq_div unat_div_distrib div_le_mono)
  moreover have "page_number x \<noteq> page_number y" using page_number_inj [OF assms(1,2)] assms(3) by auto
  ultimately show ?thesis by simp
qed

lemma map_of_map_key:
  "map_of (map (\<lambda>x. (k x, g (k x))) xs) = (\<lambda>y. if y \<in> k ` set xs then Some (g y) else None)"
  by (induction xs) (auto simp: fun_eq_iff)

text \<open>What is registered for a process, with its descriptor.\<close>

definition registered_as ::
  "nat \<Rightarrow> (nat \<Rightarrow> ib_mr option) \<Rightarrow> 'x shadow_mm \<Rightarrow> shadow_pt_descriptor \<times> registered_mm \<Rightarrow> bool" where
  "registered_as C mrs sm reg \<longleftrightarrow>
     (let n = ht_cnt (sm_pt_map sm); ptes = contents (sm_pt_map sm)
      in sd_mm_id (fst reg) = sm_mm_id sm \<and> sd_entry_cnt (fst reg) = n \<and> rm_cnt (snd reg) = n \<and>
         rm_pages (snd reg) = map (registration C (\<lambda>j. pte_kpfn (ptes ! j)) mrs n) [0..<DIV_ROUND_UP n MAX_PAGES_IN_SGL] \<and>
         take n (concat (rm_map_pages (snd reg))) = ptes)"

context xarray
begin

lemma filled_entries:
  assumes "shadow_filled XA heap sm"
  shows "xa_entries XA (sm_page_xa sm) =
    map (\<lambda>pte. (page_number (pte_va pte), the (xa_load XA (sm_page_xa sm) (page_number (pte_va pte))))) (contents (sm_pt_map sm))"
    (is "_ = map ?f ?ptes")
proof (rule xa_entries_eqI)
  note f = assms [unfolded shadow_filled_def]
  have wf: "shadow_wf XA sm" using f by simp
  show "xa_wf XA (sm_page_xa sm)" using wf by (simp add: shadow_wf_def)
  have al: "pte_va p AND PAGE_MASK = pte_va p" if "p \<in> set ?ptes" for p using f that by blast
  have sr: "sorted_wrt (\<lambda>p q. pte_va p < pte_va q) ?ptes" using f unfolding sorted_wrt_map by blast
  have "sorted_wrt (\<lambda>p q. page_number (pte_va p) < page_number (pte_va q)) ?ptes"
    by (rule sorted_wrt_mono_rel [OF _ sr]) (rule page_number_less [OF al al])
  then show s: "sorted_wrt (<) (map fst (map ?f ?ptes))" by (simp add: sorted_wrt_map)
  have "dom (xa_load XA (sm_page_xa sm)) = (\<lambda>pte. page_number (pte_va pte)) ` set ?ptes"
    using wf by (simp add: shadow_wf_def)
  then have "(if k \<in> (\<lambda>pte. page_number (pte_va pte)) ` set ?ptes then Some (the (xa_load XA (sm_page_xa sm) k)) else None) =
      xa_load XA (sm_page_xa sm) k" for k by (cases "xa_load XA (sm_page_xa sm) k") auto
  then show "map_of (map ?f ?ptes) = xa_load XA (sm_page_xa sm)"
    unfolding map_of_map_key [where k = "\<lambda>pte. page_number (pte_va pte)" and g = "\<lambda>k. the (xa_load XA (sm_page_xa sm) k)"]
    by (rule ext)
qed

lemma shadow_page_at_ok:
  assumes f: "shadow_filled XA heap sm" and j: "j < ht_cnt (sm_pt_map sm)"
  shows "shadow_page_at heap sm j (drop j (xa_entries XA (sm_page_xa sm))) =
    Inr (pte_kpfn (contents (sm_pt_map sm) ! j), drop (Suc j) (xa_entries XA (sm_page_xa sm)))"
proof -
  let ?ptes = "contents (sm_pt_map sm)" and ?es = "xa_entries XA (sm_page_xa sm)"
  have wf: "va_table_wf (sm_pt_map sm)" using f by (simp add: shadow_filled_def shadow_wf_def)
  have len: "length ?ptes = ht_cnt (sm_pt_map sm)" by (rule length_contents [OF wf])
  then have "?ptes ! j \<in> set ?ptes" using j by simp
  then obtain a it where a: "xa_load XA (sm_page_xa sm) (page_number (pte_va (?ptes ! j))) = Some a" "heap a = Some it"
    "item_va it = pte_va (?ptes ! j)" "hi_data it = Page_Ptr (Some (pte_kpfn (?ptes ! j)))"
    using f unfolding shadow_filled_def by blast
  have "j < length ?es" using j len by (simp add: filled_entries [OF f])
  then have "drop j ?es = ?es ! j # drop (Suc j) ?es" by (simp add: Cons_nth_drop_Suc)
  moreover have "?es ! j = (page_number (pte_va (?ptes ! j)), a)"
    using j len a(1) by (simp add: filled_entries [OF f])
  moreover have "get_va_at sm j = Inr (pte_va (?ptes ! j))"
    using va_table.read_ok [OF wf j] j by (simp add: get_va_at_def)
  ultimately show ?thesis using a by (simp add: shadow_page_at_def)
qed

text \<open>Registering a process succeeds, given the resources.\<close>

lemma register_shadow_mm_ok:
  assumes f: "shadow_filled XA heap sm" and reg: "registrable C (ro_kz ops) (ro_mrs ops) (ht_cnt (sm_pt_map sm))"
    and map_reg: "ro_map_kz ops" "ro_map_mr ops = Some mr" and size: "ht_array_cnt (sm_pt_map sm) \<le> MAX_VA_ARRAYS"
  shows "\<exists>reg. register_shadow_mm XA heap C ops sm = Inr reg \<and> registered_as C (ro_mrs ops) sm reg"
proof -
  have wf: "va_table_wf (sm_pt_map sm)" using f by (simp add: shadow_filled_def shadow_wf_def)
  from register_map_ok [OF wf size] obtain pages where
    1: "register_map True (Some mr) (sm_pt_map sm) = Inr (pages, mr)"
      "take (ht_cnt (sm_pt_map sm)) (concat pages) = contents (sm_pt_map sm)" by blast
  from register_all_ok [OF reg, of "shadow_page_at heap sm" "\<lambda>j. drop j (xa_entries XA (sm_page_xa sm))"
      "\<lambda>j. pte_kpfn (contents (sm_pt_map sm) ! j)"] shadow_page_at_ok [OF f]
  show ?thesis using 1 map_reg by (simp add: register_shadow_mm_def registered_as_def)
qed

end

section \<open>The request reaches the server\<close>

text \<open>
  What the server reads in a round: the page tables and pages of the registered processes, with
  \<open>mem\<close> the contents of the frames, and the registered error table.
\<close>

definition registered_io ::
  "(u64 \<Rightarrow> u8 list) \<Rightarrow> (nat \<Rightarrow> nat \<Rightarrow> nat \<Rightarrow> hash_pair option) \<Rightarrow> registered_mm list \<Rightarrow>
   (ksm_event_log list sgl \<times> ib_mr) list \<Rightarrow> round_io" where
  "registered_io mem hashes mms errs =
     \<lparr>read_map = (\<lambda>i. if i < length mms then Some (take (rm_cnt (mms ! i)) (concat (rm_map_pages (mms ! i)))) else None),
      read_pages = (\<lambda>i j. if i < length mms \<and> j < length (rm_pages (mms ! i))
        then Some (map mem (region_pages (rm_pages (mms ! i) ! j) (sgl_size (rm_cnt (mms ! i)) j))) else None),
      pre_hashes = hashes, read_errors = read_registered_errors errs\<rparr>"

text \<open>
  A process the host can offer: a filled page table of at most 32 GB that is not empty and does
  not contain the page at address 0, whose pages all have a hash that is not the null hash, and
  resources to register it.
\<close>

definition offerable ::
  "('t, 'h) server_env \<Rightarrow> 'x xa_ops \<Rightarrow> (addr \<Rightarrow> ksm_rmap_item option) \<Rightarrow> nat \<Rightarrow> register_ops \<Rightarrow>
   (u64 \<Rightarrow> u8 list) \<Rightarrow> (nat \<Rightarrow> nat \<Rightarrow> hash_pair option) \<Rightarrow> 'x shadow_mm \<Rightarrow> bool" where
  "offerable E XA heap C ops mem hashes sm \<longleftrightarrow>
     shadow_filled XA heap sm \<and> registrable C (ro_kz ops) (ro_mrs ops) (ht_cnt (sm_pt_map sm)) \<and>
     ro_map_kz ops \<and> ro_map_mr ops \<noteq> None \<and> ht_array_cnt (sm_pt_map sm) \<le> MAX_VA_ARRAYS \<and>
     contents (sm_pt_map sm) \<noteq> [] \<and> pte_va (hd (contents (sm_pt_map sm))) \<noteq> 0 \<and>
     (\<forall>j x. \<forall>pte \<in> set (contents (sm_pt_map sm)). calculate_hash_pair E (hashes j x) (mem (pte_kpfn pte)) \<noteq> null_hash)"

lemma this_sgl_size_eq: "this_sgl_size n i = sgl_size n i" "sgl_nums n = DIV_ROUND_UP n MAX_PAGES_IN_SGL"
  by (simp_all add: this_sgl_size_def sgl_size_def sgl_nums_def)

context xarray
begin

lemma register_shadow_mms_ok:
  assumes "\<And>i. i < length mms \<Longrightarrow> offerable E XA heap C (ops (k + i)) mem (hashes (k + i)) (mms ! i)"
    and "k + length mms \<le> MAX_MM_DESCS"
  shows "\<exists>regs. rdma_register_shadow_mms XA heap C ops k mms = Inr regs \<and> length regs = length mms \<and>
    (\<forall>i < length mms. registered_as C (ro_mrs (ops (k + i))) (mms ! i) (regs ! i))"
  using assms
proof (induction mms arbitrary: k)
  case (Cons sm mms)
  have 0: "offerable E XA heap C (ops k) mem (hashes k) sm" using Cons.prems(1) [of 0] by simp
  have "offerable E XA heap C (ops (Suc k + i)) mem (hashes (Suc k + i)) (mms ! i)" if "i < length mms" for i
    using Cons.prems(1) [of "Suc i"] that by simp
  moreover have "Suc k + length mms \<le> MAX_MM_DESCS" using Cons.prems(2) by simp
  ultimately obtain regs where regs: "rdma_register_shadow_mms XA heap C ops (Suc k) mms = Inr regs" "length regs = length mms"
    "\<forall>i < length mms. registered_as C (ro_mrs (ops (Suc k + i))) (mms ! i) (regs ! i)"
    using Cons.IH [of "Suc k"] by blast
  from 0 obtain mr where "ro_map_mr (ops k) = Some mr" by (auto simp: offerable_def)
  with register_shadow_mm_ok [of heap sm C "ops k" mr] 0 obtain reg where
    one: "register_shadow_mm XA heap C (ops k) sm = Inr reg" "registered_as C (ro_mrs (ops k)) sm reg"
    by (auto simp: offerable_def)
  have "rdma_register_shadow_mms XA heap C ops k (sm # mms) = Inr (reg # regs)"
    using one(1) regs(1) Cons.prems(2) by simp
  moreover have "registered_as C (ro_mrs (ops (k + i))) ((sm # mms) ! i) ((reg # regs) ! i)" if "i < length (sm # mms)" for i
    using that one(2) regs(3) by (cases i) auto
  ultimately show ?case using regs(2) by auto
qed simp

end

text \<open>What is registered for a process is what the server needs to scan it.\<close>

lemma registered_process_ok:
  assumes off: "offerable E XA heap C ops mem (hashes i) sm" and i: "i < length regs"
    and reg: "registered_as C (ro_mrs ops) sm (regs ! i)"
    and fr: "\<And>pte. pte \<in> set (contents (sm_pt_map sm)) \<Longrightarrow> frame (sm_mm_id sm, pte_va pte) = pte_kpfn pte"
  shows "process_ok E (registered_io mem hashes (map snd regs) errs) frame i (fst (regs ! i)) (contents (sm_pt_map sm))"
proof -
  let ?n = "ht_cnt (sm_pt_map sm)" and ?ptes = "contents (sm_pt_map sm)" and ?io = "registered_io mem hashes (map snd regs) errs"
  note o = off [unfolded offerable_def] and r = reg [unfolded registered_as_def Let_def]
  have f: "shadow_wf XA sm" "sorted_wrt (<) (map pte_va ?ptes)" using o unfolding shadow_filled_def by blast+
  have len: "length ?ptes = ?n" using f(1) length_contents by (auto simp: shadow_wf_def)
  have C: "2 \<le> C" using o by (simp add: registrable_def)
  have "batches_ok E ?io i ?n" unfolding batches_ok_def this_sgl_size_eq
  proof (intro allI impI)
    fix j assume j: "j < DIV_ROUND_UP ?n MAX_PAGES_IN_SGL"
    let ?b = "j * MAX_PAGES_IN_SGL" and ?s = "sgl_size ?n j"
    let ?buf = "map (\<lambda>x. mem (pte_kpfn (?ptes ! x))) [?b..<?b + ?s]"
    have s: "?b + ?s \<le> ?n" using sgl_size_bounds(2) [OF j] by simp
    have "read_pages ?io i j = Some ?buf"
      using i j r region_pages_registration [OF C j, of "\<lambda>j. pte_kpfn (?ptes ! j)" "ro_mrs ops"]
      by (simp add: registered_io_def comp_def)
    moreover have "calculate_hash_pair E (pre_hashes ?io i j x) (?buf ! x) \<noteq> null_hash" if "x < ?s" for x
    proof -
      have "?ptes ! (?b + x) \<in> set ?ptes" using that s len by simp
      then show ?thesis using o that by (simp add: registered_io_def)
    qed
    ultimately show "\<exists>buf. read_pages ?io i j = Some buf \<and> length buf = ?s \<and>
        (\<forall>x < ?s. calculate_hash_pair E (pre_hashes ?io i j x) (buf ! x) \<noteq> null_hash)"
      by (intro exI [of _ ?buf]) simp
  qed
  moreover have "read_map ?io i = Some ?ptes" using i r by (simp add: registered_io_def)
  moreover have "distinct (map pte_va ?ptes)" using f(2) by (simp add: strict_sorted_iff)
  ultimately show ?thesis using o r len fr by (simp add: process_ok_def)
qed


text \<open>Registering offerable processes gives a valid request.\<close>

lemma registered_request_valid:
  assumes "xarray XA" and "\<And>i. i < length mms \<Longrightarrow> offerable E XA heap C (ops i) mem (hashes i) (mms ! i)"
    and "length mms \<le> MAX_MM_DESCS" and "distinct (map sm_mm_id mms)"
    and "\<And>sm pte. sm \<in> set mms \<Longrightarrow> pte \<in> set (contents (sm_pt_map sm)) \<Longrightarrow> frame (sm_mm_id sm, pte_va pte) = pte_kpfn pte"
    and "err_table_wf (er_entries tbl)" and "registrable C kz mrs (error_pages (ht_cnt (er_entries tbl)))"
    and "undoable_all E (contents (er_entries tbl)) (start_round later s)"
  shows "\<exists>regs tbl' et_desc errs. rdma_register_shadow_mms XA heap C ops 0 mms = Inr regs \<and>
    rdma_register_error_table kz C mrs tbl = Inr (tbl', et_desc, errs) \<and>
    valid_request E (registered_io mem hashes (map snd regs) errs) frame later
      \<lparr>md_pt_cnt = length mms, md_pt_descs = map fst regs, md_et_descs = et_desc\<rparr>
      (contents (er_entries tbl)) (\<lambda>i. contents (sm_pt_map (mms ! i))) s"
proof -
  have ok: "\<And>i. i < length mms \<Longrightarrow> offerable E XA heap C (ops (0 + i)) mem (hashes (0 + i)) (mms ! i)" using assms(2) by simp
  from xarray.register_shadow_mms_ok [OF assms(1) ok] assms(3) obtain regs where
    r: "rdma_register_shadow_mms XA heap C ops 0 mms = Inr regs" "length regs = length mms"
      "\<And>i. i < length mms \<Longrightarrow> registered_as C (ro_mrs (ops i)) (mms ! i) (regs ! i)" by auto
  from assms(6) obtain as where as: "ht_arrays (er_entries tbl) = Some as" by (auto simp: table_wf_def)
  let ?n = "ht_cnt (er_entries tbl)" and ?es = "contents (er_entries tbl)"
  let ?errs = "map (registration C (error_page (concat as)) mrs (error_pages ?n)) [0..<DIV_ROUND_UP (error_pages ?n) MAX_PAGES_IN_SGL]"
  from register_error_table_ok [OF as assms(6,7)] obtain d where
    e: "rdma_register_error_table kz C mrs tbl = Inr (tbl\<lparr>er_registered := ?n\<rparr>, d, ?errs)" "et_total_cnt d = ?n"
      "et_desc_cnt d = DIV_ROUND_UP (error_pages ?n) MAX_PAGES_IN_SGL" by blast
  have C: "2 \<le> C" using assms(7) by (simp add: registrable_def)
  let ?io = "registered_io mem hashes (map snd regs) ?errs"
  let ?meta = "\<lparr>md_pt_cnt = length mms, md_pt_descs = map fst regs, md_et_descs = d\<rparr>"
  have ids: "sd_mm_id (fst (regs ! i)) = sm_mm_id (mms ! i)" if "i < length mms" for i
    using r(3) [OF that] by (simp add: registered_as_def Let_def)
  have "map (\<lambda>i. sd_mm_id (md_pt_descs ?meta ! i)) [0..<length mms] = map sm_mm_id mms"
    by (rule nth_equalityI) (use ids r(2) in simp_all)
  moreover have "process_ok E ?io frame i (md_pt_descs ?meta ! i) (contents (sm_pt_map (mms ! i)))" if "i < length mms" for i
    using registered_process_ok [where hashes = hashes and i = i and regs = regs, OF assms(2) [OF that], of frame ?errs] that r(2,3) assms(5) by simp
  ultimately have "request_ok E ?io frame ?meta (\<lambda>i. contents (sm_pt_map (mms ! i)))"
    unfolding request_ok_def using assms(4) r(2) by simp
  moreover have "reads_errors (read_errors ?io) ?es"
    using registered_errors_read [OF as assms(6) C, of mrs] by (simp add: registered_io_def)
  ultimately have "valid_request E ?io frame later ?meta ?es (\<lambda>i. contents (sm_pt_map (mms ! i))) s"
    unfolding valid_request_def using e(2,3) length_contents [OF assms(6)] assms(8) by (simp add: error_pages_def)
  then show ?thesis using r(1) e(1) by blast
qed

text \<open>
  C14. The host and the server fit together. When at most \<open>MAX_MM_DESCS\<close> processes with different
  ids are offered, registering them succeeds, and what the server then reads through the
  descriptors (page tables, pages in batches, error table in chunks) is a valid request: one that,
  in every state the server can be in, it answers.
\<close>

theorem host_request_valid:
  assumes "xarray XA" and "\<And>i. i < length mms \<Longrightarrow> offerable E XA heap C (ops i) mem (hashes i) (mms ! i)"
    and "length mms \<le> MAX_MM_DESCS" and "distinct (map sm_mm_id mms)"
    and "\<And>sm pte. sm \<in> set mms \<Longrightarrow> pte \<in> set (contents (sm_pt_map sm)) \<Longrightarrow> frame (sm_mm_id sm, pte_va pte) = pte_kpfn pte"
    and "err_table_wf (er_entries tbl)" and "registrable C kz mrs (error_pages (ht_cnt (er_entries tbl)))"
    and "undoable_all E (contents (er_entries tbl)) (start_round later s)"
  shows "\<exists>regs tbl' et_desc errs. rdma_register_shadow_mms XA heap C ops 0 mms = Inr regs \<and>
    rdma_register_error_table kz C mrs tbl = Inr (tbl', et_desc, errs) \<and>
    valid_request E (registered_io mem hashes (map snd regs) errs) frame later
      \<lparr>md_pt_cnt = length mms, md_pt_descs = map fst regs, md_et_descs = et_desc\<rparr>
      (contents (er_entries tbl)) (\<lambda>i. contents (sm_pt_map (mms ! i))) s"
  by (rule registered_request_valid [OF assms])

text \<open>One process with one page; its error table is empty.\<close>

definition sample_shadow :: "(u64, addr) rbt shadow_mm" where
  "sample_shadow = \<lparr>sm_mm_id = 2,
     sm_pt_map = \<lparr>ht_arrays = Some [replicate 256 \<lparr>pte_va = 0x2000, pte_kpfn = 33\<rparr>], ht_array_cnt = 1, ht_cnt = 1, ht_capacity = 256\<rparr>,
     sm_page_xa = RBT.insert 2 5 RBT.empty\<rparr>"

definition sample_host_items :: "addr \<Rightarrow> ksm_rmap_item option" where
  "sample_host_items = [5 \<mapsto> \<lparr>hi_rmap_list = None, hi_anon_vma = None, hi_mm = 2, hi_address = 0x2000,
     hi_data = Page_Ptr (Some 33), hi_head = None\<rparr>]"

definition sample_register_ops :: register_ops where
  "sample_register_ops = \<lparr>ro_kz = (\<lambda>_ _. True), ro_mrs = (\<lambda>_. Some \<lparr>mr_rkey = 7, mr_iova = 0x7000\<rparr>), ro_map_kz = True,
     ro_map_mr = Some \<lparr>mr_rkey = 8, mr_iova = 0x8000\<rparr>\<rparr>"

definition sample_no_errors :: error_table where
  "sample_no_errors = \<lparr>er_entries = \<lparr>ht_arrays = Some [replicate 128 sample_error], ht_array_cnt = 1, ht_cnt = 0,
     ht_capacity = 128\<rparr>, er_registered = 0\<rparr>"

lemma sample_shadow_filled: "shadow_filled rbt_xa sample_host_items sample_shadow"
proof -
  have "\<exists>j. (256::nat) = ptes_per_page * 2 ^ j" by (rule exI [of _ 0]) (simp add: va_table_dims)
  then have "va_table_wf (sm_pt_map sample_shadow)"
    by (simp add: sample_shadow_def table_wf_def packed_def va_table_dims)
  moreover have "page_number 0x2000 = 2" by (simp add: page_number_def)
  ultimately show ?thesis
    by (simp add: shadow_filled_def shadow_wf_def rbt_xa_def sample_shadow_def contents_def sample_host_items_def
        item_va_def PAGE_MASK_def)
qed

theorem host_request_valid_witness:
  "\<exists>regs tbl' et_desc errs. rdma_register_shadow_mms rbt_xa sample_host_items 128 (\<lambda>_. sample_register_ops) 0 [sample_shadow] = Inr regs \<and>
    rdma_register_error_table (\<lambda>_ _. True) 128 (\<lambda>_. Some \<lparr>mr_rkey = 7, mr_iova = 0x7000\<rparr>) sample_no_errors = Inr (tbl', et_desc, errs) \<and>
    valid_request sample_env (registered_io (\<lambda>_. sample_page 7) (\<lambda>_ _ _. None) (map snd regs) errs) (\<lambda>_. 33) False
      \<lparr>md_pt_cnt = 1, md_pt_descs = map fst regs, md_et_descs = et_desc\<rparr>
      [] (\<lambda>i. contents (sm_pt_map ([sample_shadow] ! i))) (init_server sample_env default_config)"
proof -
  have "offerable sample_env rbt_xa sample_host_items 128 sample_register_ops (\<lambda>_. sample_page 7) (\<lambda>_ _. None) sample_shadow"
    using sample_shadow_filled sample_registrable [of 1]
    by (simp add: offerable_def sample_register_ops_def sample_shadow_def va_table_dims contents_def
        sample_calculate_hash sample_hash_pair_null MAX_PAGES_IN_SGL_def)
  moreover have "\<exists>j. (128::nat) = logs_per_page * 2 ^ j" by (rule exI [of _ 0]) (simp add: err_table_dims)
  then have "err_table_wf (er_entries sample_no_errors)"
    by (simp add: sample_no_errors_def table_wf_def packed_def err_table_dims)
  moreover have "contents (er_entries sample_no_errors) = []" "ht_cnt (er_entries sample_no_errors) = 0"
    by (simp_all add: sample_no_errors_def contents_def)
  moreover have "contents (sm_pt_map sample_shadow) = [\<lparr>pte_va = 0x2000, pte_kpfn = 33\<rparr>]"
    by (simp add: sample_shadow_def contents_def)
  ultimately show ?thesis
    using host_request_valid [OF rbt_xa.xarray_axioms, of "[sample_shadow]" sample_env sample_host_items 128
        "\<lambda>_. sample_register_ops" "\<lambda>_. sample_page 7" "\<lambda>_ _ _. None" "\<lambda>_. 33" sample_no_errors "\<lambda>_ _. True"
        "\<lambda>_. Some \<lparr>mr_rkey = 7, mr_iova = 0x7000\<rparr>" False "init_server sample_env default_config"]
      sample_registrable [of "error_pages 0"]
    by (simp add: MAX_MM_DESCS_def error_pages_def)
qed

end
