(* ===== verification/Host_State.thy ===== *)
theory Host_State
  imports Host_Items
begin

text \<open>
  The merging state of the kernel and the operations on its stable nodes (\<open>mm/ksm.c\<close>): taking a
  node or an item out of the stable tree, appending an item to a node, finding the page of a node,
  and replacing the page of an item. ksmd runs these alone, with the locks it needs; what other
  threads and the hardware decide (page locks, page tables, reference counts) is state of the
  pages or an input.
\<close>

section \<open>State\<close>

text \<open>
  \<open>PageAnon\<close> is true for anonymous and for KSM pages. \<open>Ksm_Mapping None\<close> is a page that has been
  made a KSM page and has no stable node yet.
\<close>

datatype page_mapping = No_Mapping | Anon_Mapping | Ksm_Mapping "addr option"

record host_page =
  pg_mapping :: page_mapping
  pg_count :: nat
  pg_mapcount :: nat
  pg_swapcache :: bool
  pg_locked :: bool
  pg_compound :: bool

definition STABLE_NODE_CHAIN :: int where "STABLE_NODE_CHAIN = - 1024"

text \<open>
  A stable node: the items that share its page (\<open>hlist\<close>), or, for the head of a chain, the
  nodes of the chain (\<open>hlist_dup\<close>). It is linked in the tree, in a chain, or in the list of nodes
  to be migrated.
\<close>

datatype node_place = Tree_Node | Dup_Of addr | Migrate_Node

record ksm_stable_node =
  hn_hlist :: "addr list"
  hn_dups :: "addr list"
  hn_kpfn :: u64
  hn_rmap_hlist_len :: int
  hn_place :: node_place

record host =
  h_items :: "addr \<Rightarrow> ksm_rmap_item option"
  h_nodes :: "addr \<Rightarrow> ksm_stable_node option"
  h_pages :: "u64 \<Rightarrow> host_page"
  h_pt :: "int \<times> u64 \<Rightarrow> u64 option"
  h_tree :: "addr list"
  h_migrate :: "addr list"
  h_unstable :: "addr list"
  h_seqnr :: u64
  pages_shared :: int
  pages_sharing :: int
  pages_unshared :: int
  rmap_items :: int
  mm_merging :: "int \<Rightarrow> int"
  mm_rmap_items :: "int \<Rightarrow> int"
  stable_node_chains :: int
  stable_node_dups :: int
  fail_reason_cnts :: "merge_fail_reason \<Rightarrow> nat"
  h_offload :: bool
  h_errors :: error_table

text \<open>The environment: how allocations end, what new memory holds, and the tunable limit.\<close>

record host_env =
  he_alloc :: "error_table \<Rightarrow> alloc"
  he_junk :: ksm_event_log
  he_new_node :: "(addr \<Rightarrow> ksm_stable_node option) \<Rightarrow> addr option"
  he_new_item :: "(addr \<Rightarrow> ksm_rmap_item option) \<Rightarrow> addr option"
  he_max_page_sharing :: int
  he_use_zero_pages :: bool

definition upd_page :: "u64 \<Rightarrow> (host_page \<Rightarrow> host_page) \<Rightarrow> host \<Rightarrow> host" where
  "upd_page p f s = s\<lparr>h_pages := (h_pages s)(p := f (h_pages s p))\<rparr>"

definition get_page :: "u64 \<Rightarrow> host \<Rightarrow> host" where
  "get_page p = upd_page p (\<lambda>pg. pg\<lparr>pg_count := pg_count pg + 1\<rparr>)"

definition put_page :: "u64 \<Rightarrow> host \<Rightarrow> host" where
  "put_page p = upd_page p (\<lambda>pg. pg\<lparr>pg_count := pg_count pg - 1\<rparr>)"

definition PageKsm :: "host_page \<Rightarrow> bool" where
  "PageKsm pg \<longleftrightarrow> (case pg_mapping pg of Ksm_Mapping _ \<Rightarrow> True | _ \<Rightarrow> False)"

definition PageAnon :: "host_page \<Rightarrow> bool" where
  "PageAnon pg \<longleftrightarrow> pg_mapping pg \<noteq> No_Mapping"

definition page_stable_node :: "host_page \<Rightarrow> addr option" where
  "page_stable_node pg = (case pg_mapping pg of Ksm_Mapping n \<Rightarrow> n | _ \<Rightarrow> None)"

definition set_page_stable_node :: "u64 \<Rightarrow> addr option \<Rightarrow> host \<Rightarrow> host" where
  "set_page_stable_node p n = upd_page p (\<lambda>pg. pg\<lparr>pg_mapping := Ksm_Mapping n\<rparr>)"

definition is_stable_node_chain :: "ksm_stable_node \<Rightarrow> bool" where
  "is_stable_node_chain nd \<longleftrightarrow> hn_rmap_hlist_len nd = STABLE_NODE_CHAIN"

definition is_page_sharing_candidate :: "int \<Rightarrow> int \<Rightarrow> ksm_stable_node \<Rightarrow> bool" where
  "is_page_sharing_candidate max_sharing offset nd \<longleftrightarrow>
     hn_rmap_hlist_len nd \<noteq> 0 \<and> hn_rmap_hlist_len nd + offset < max_sharing"

definition upd_item :: "addr \<Rightarrow> (ksm_rmap_item \<Rightarrow> ksm_rmap_item) \<Rightarrow> host \<Rightarrow> host" where
  "upd_item a f s = s\<lparr>h_items := (h_items s)(a := map_option f (h_items s a))\<rparr>"

definition upd_node :: "addr \<Rightarrow> (ksm_stable_node \<Rightarrow> ksm_stable_node) \<Rightarrow> host \<Rightarrow> host" where
  "upd_node n f s = s\<lparr>h_nodes := (h_nodes s)(n := map_option f (h_nodes s n))\<rparr>"

section \<open>Taking nodes and items out of the stable tree\<close>

text \<open>The loop of \<open>remove_node_from_stable_tree\<close> over the items of the node.\<close>

primrec drop_sharers :: "addr list \<Rightarrow> host \<Rightarrow> host res" where
  "drop_sharers [] s = Inr s"
| "drop_sharers (a # as) s =
     rbind (deref (h_items s) a) (\<lambda>it.
       (let s = (if as \<noteq> [] then s\<lparr>pages_sharing := pages_sharing s - 1\<rparr>
                 else s\<lparr>pages_shared := pages_shared s - 1\<rparr>);
            s = s\<lparr>mm_merging := (mm_merging s)(hi_mm it := mm_merging s (hi_mm it) - 1)\<rparr>
        in drop_sharers as (upd_item a (\<lambda>it. it\<lparr>hi_address := hi_address it AND PAGE_MASK\<rparr>) s)))"

definition stable_node_dup_del :: "addr \<Rightarrow> ksm_stable_node \<Rightarrow> host \<Rightarrow> host" where
  "stable_node_dup_del n nd s =
     (case hn_place nd of
        Dup_Of c \<Rightarrow> upd_node c (\<lambda>ch. ch\<lparr>hn_dups := remove1 n (hn_dups ch)\<rparr>) (s\<lparr>stable_node_dups := stable_node_dups s - 1\<rparr>)
      | _ \<Rightarrow> s\<lparr>h_tree := remove1 n (h_tree s)\<rparr>)"

definition free_stable_node :: "addr \<Rightarrow> host \<Rightarrow> host" where
  "free_stable_node n s = s\<lparr>h_nodes := (h_nodes s)(n := None)\<rparr>"

definition remove_node_from_stable_tree :: "addr \<Rightarrow> host \<Rightarrow> host res" where
  "remove_node_from_stable_tree n s =
     rbind (deref (h_nodes s) n) (\<lambda>nd.
     rbind (guard_stop ''BUG_ON'' (\<not> hn_rmap_hlist_len nd < 0)) (\<lambda>_.
     rbind (drop_sharers (hn_hlist nd) s) (\<lambda>s.
       Inr (free_stable_node n
         (if hn_place nd = Migrate_Node then s\<lparr>h_migrate := remove1 n (h_migrate s)\<rparr>
          else stable_node_dup_del n nd s)))))"

text \<open>
  \<open>get_ksm_page\<close>: the page of a node, with a reference, if the page still points back to it; a
  page without references that is in the swap cache is waited for. A stale node is removed and,
  in offload mode, reported to the server: of the log entry, only \<open>kpfn\<close> is written.
\<close>

datatype get_ksm_page_flags = GET_KSM_PAGE_NOLOCK | GET_KSM_PAGE_LOCK | GET_KSM_PAGE_TRYLOCK

datatype ksm_page = Ksm_Page u64 | Ksm_Busy | Ksm_Gone

definition stale_ksm_page :: "host_env \<Rightarrow> addr \<Rightarrow> u64 \<Rightarrow> host \<Rightarrow> (ksm_page \<times> host) res" where
  "stale_ksm_page E n kpfn s =
     rbind (remove_node_from_stable_tree n s) (\<lambda>s.
       if h_offload s then
         rbind (insert_error_log (he_alloc E (h_errors s)) (he_junk E) HOST_STALE_STABLE_NODE
                  ((he_junk E)\<lparr>ev_type := HOST_STALE_STABLE_NODE, ev_w1 := kpfn\<rparr>) (h_errors s))
           (\<lambda>(err, tbl). Inr (Ksm_Gone, s\<lparr>h_errors := tbl\<rparr>))
       else Inr (Ksm_Gone, s))"

definition get_ksm_page :: "host_env \<Rightarrow> get_ksm_page_flags \<Rightarrow> addr \<Rightarrow> host \<Rightarrow> (ksm_page \<times> host) res" where
  "get_ksm_page E flags n s =
     rbind (deref (h_nodes s) n) (\<lambda>nd.
       (let kpfn = hn_kpfn nd; pg = h_pages s kpfn
        in if pg_mapping pg \<noteq> Ksm_Mapping (Some n) then stale_ksm_page E n kpfn s
           else if pg_count pg = 0 then
             (if pg_swapcache pg then Inl Diverged else stale_ksm_page E n kpfn s)
           else if flags = GET_KSM_PAGE_TRYLOCK \<and> pg_locked pg then Inr (Ksm_Busy, s)
           else Inr (Ksm_Page kpfn, get_page kpfn s)))"

definition remove_rmap_item_from_tree :: "host_env \<Rightarrow> addr \<Rightarrow> host \<Rightarrow> host res" where
  "remove_rmap_item_from_tree E a s =
     rbind (deref (h_items s) a) (\<lambda>it.
       if is_stable it then
         (case hi_head it of
            None \<Rightarrow> Inl Null_Deref
          | Some n \<Rightarrow>
              rbind (get_ksm_page E GET_KSM_PAGE_LOCK n s) (\<lambda>(page, s).
                case page of
                  Ksm_Page kpfn \<Rightarrow>
                    (let s = put_page kpfn (upd_node n (\<lambda>nd. nd\<lparr>hn_hlist := remove1 a (hn_hlist nd)\<rparr>) s)
                     in rbind (deref (h_nodes s) n) (\<lambda>nd.
                          (let s = (if hn_hlist nd \<noteq> [] then s\<lparr>pages_sharing := pages_sharing s - 1\<rparr>
                                    else s\<lparr>pages_shared := pages_shared s - 1\<rparr>);
                               s = s\<lparr>mm_merging := (mm_merging s)(hi_mm it := mm_merging s (hi_mm it) - 1)\<rparr>;
                               s = upd_node n (\<lambda>nd. nd\<lparr>hn_rmap_hlist_len := hn_rmap_hlist_len nd - 1\<rparr>) s
                           in Inr (upd_item a (\<lambda>it. it\<lparr>hi_head := None, hi_address := hi_address it AND PAGE_MASK\<rparr>) s))))
                | _ \<Rightarrow> Inr s))
       else if is_unstable it then
         (let age = (ucast (h_seqnr s - hi_address it) :: u8)
          in rbind (guard_stop ''BUG_ON'' (\<not> age > 1)) (\<lambda>_.
               (let s = (if age = 0 then s\<lparr>h_unstable := remove1 a (h_unstable s)\<rparr> else s);
                    s = s\<lparr>pages_unshared := pages_unshared s - 1\<rparr>
                in Inr (upd_item a (\<lambda>it. it\<lparr>hi_address := hi_address it AND PAGE_MASK\<rparr>) s))))
       else Inr s)"

section \<open>Merging\<close>

definition stable_tree_append :: "addr \<Rightarrow> addr \<Rightarrow> host \<Rightarrow> host res" where
  "stable_tree_append a n s =
     rbind (deref (h_nodes s) n) (\<lambda>nd.
     rbind (guard_stop ''BUG_ON'' (\<not> hn_rmap_hlist_len nd < 0)) (\<lambda>_.
     rbind (deref (h_items s) a) (\<lambda>it.
       (let alone = (hn_hlist nd = []);
            s = upd_node n (\<lambda>nd. nd\<lparr>hn_rmap_hlist_len := hn_rmap_hlist_len nd + 1, hn_hlist := a # hn_hlist nd\<rparr>) s;
            s = upd_item a (\<lambda>it. it\<lparr>hi_head := Some n, hi_address := hi_address it OR STABLE_FLAG\<rparr>) s;
            s = (if \<not> alone then s\<lparr>pages_sharing := pages_sharing s + 1\<rparr> else s\<lparr>pages_shared := pages_shared s + 1\<rparr>)
        in Inr (s\<lparr>mm_merging := (mm_merging s)(hi_mm it := mm_merging s (hi_mm it) + 1)\<rparr>)))))"

text \<open>
  What decides whether a page can be merged: the area of the address (its \<open>anon_vma\<close>), the page
  lock, the split of a huge page, write protection (\<open>None\<close>: it succeeds), the comparison of the
  contents and the exchange of the page-table entry; and, for a merge that has to be broken again,
  the frame the address gets if its area still exists.
\<close>

record merge_try =
  mt_vma :: "addr option"
  mt_trylock :: bool
  mt_split :: bool
  mt_write_protect :: "merge_fail_reason option"
  mt_identical :: bool
  mt_replace :: bool
  mt_break :: "u64 option"

definition count_fail :: "merge_fail_reason \<Rightarrow> host \<Rightarrow> host" where
  "count_fail r s = s\<lparr>fail_reason_cnts := (fail_reason_cnts s)(r := fail_reason_cnts s r + 1)\<rparr>"

text \<open>\<open>replace_page\<close>, when it succeeds: the entry maps \<open>kpage\<close>, the old page loses a mapping.\<close>

definition replace_page :: "int \<times> u64 \<Rightarrow> u64 \<Rightarrow> u64 \<Rightarrow> host \<Rightarrow> host" where
  "replace_page key page kpage s =
     (let s = upd_page kpage (\<lambda>pg. pg\<lparr>pg_count := pg_count pg + 1, pg_mapcount := pg_mapcount pg + 1\<rparr>) s;
          s = s\<lparr>h_pt := (h_pt s)(key \<mapsto> kpage)\<rparr>
      in upd_page page (\<lambda>pg. pg\<lparr>pg_count := pg_count pg - 1, pg_mapcount := pg_mapcount pg - 1\<rparr>) s)"

definition try_to_merge_one_page ::
  "merge_try \<Rightarrow> int \<times> u64 \<Rightarrow> u64 \<Rightarrow> u64 option \<Rightarrow> host \<Rightarrow> bool \<times> host" where
  "try_to_merge_one_page mt key page kpage s =
     (if kpage = Some page then (True, s)
      else if \<not> PageAnon (h_pages s page) then (False, count_fail Not_an_anonymous_page s)
      else if \<not> mt_trylock mt then (False, count_fail Failed_to_lock_page s)
      else if pg_compound (h_pages s page) \<and> \<not> mt_split mt then (False, count_fail Failed_to_split_page s)
      else
        (let s = upd_page page (\<lambda>pg. pg\<lparr>pg_compound := False\<rparr>) s
         in case mt_write_protect mt of
              Some r \<Rightarrow> (False, count_fail r s)
            | None \<Rightarrow>
                (case kpage of
                   None \<Rightarrow> (True, set_page_stable_node page None s)
                 | Some kpage \<Rightarrow>
                     if mt_identical mt then
                       (if mt_replace mt then (True, replace_page key page kpage s) else (False, s))
                     else (False, count_fail Pages_are_not_identical s))))"

definition try_to_merge_with_ksm_page ::
  "host_env \<Rightarrow> merge_try \<Rightarrow> addr \<Rightarrow> u64 \<Rightarrow> u64 option \<Rightarrow> host \<Rightarrow> (bool \<times> host) res" where
  "try_to_merge_with_ksm_page E mt a page kpage s =
     rbind (deref (h_items s) a) (\<lambda>it.
       case mt_vma mt of
         None \<Rightarrow> Inr (False, count_fail No_mergeable_vma_found s)
       | Some anon_vma \<Rightarrow>
           (let (ok, s) = try_to_merge_one_page mt (hi_mm it, item_va it) page kpage s
            in if \<not> ok then Inr (False, s)
               else rbind (remove_rmap_item_from_tree E a s) (\<lambda>s.
                      Inr (True, upd_item a (\<lambda>it. it\<lparr>hi_anon_vma := Some anon_vma\<rparr>) s))))"

definition break_cow :: "merge_try \<Rightarrow> addr \<Rightarrow> u64 \<Rightarrow> host \<Rightarrow> host res" where
  "break_cow mt a page s =
     rbind (deref (h_items s) a) (\<lambda>it.
       case mt_break mt of
         None \<Rightarrow> Inr s
       | Some new_frame \<Rightarrow>
           Inr (upd_page page (\<lambda>pg. pg\<lparr>pg_count := pg_count pg - 1, pg_mapcount := pg_mapcount pg - 1\<rparr>)
             (s\<lparr>h_pt := (h_pt s)((hi_mm it, item_va it) \<mapsto> new_frame)\<rparr>)))"

definition try_to_merge_two_pages ::
  "host_env \<Rightarrow> merge_try \<times> merge_try \<Rightarrow> addr \<Rightarrow> u64 \<Rightarrow> addr \<Rightarrow> u64 \<Rightarrow> host \<Rightarrow> (u64 option \<times> host) res" where
  "try_to_merge_two_pages E mts a page tree_a tree_page s =
     rbind (try_to_merge_with_ksm_page E (fst mts) a page None s) (\<lambda>(ok, s).
       if \<not> ok then Inr (None, s)
       else rbind (try_to_merge_with_ksm_page E (snd mts) tree_a tree_page (Some page) s) (\<lambda>(ok, s).
         if ok then Inr (Some page, s)
         else rbind (break_cow (fst mts) a page s) (\<lambda>s. Inr (None, s))))"


text \<open>
  The part of \<open>stable_tree_insert\<close> behind the descent through the red-black tree: \<open>slot\<close> gives
  the node with the same contents that the descent finds, if any (\<open>Host_Descent\<close> has the descent). The new node enters the tree, or the
  chain of that node, which is made if it does not exist.
\<close>

definition alloc_stable_node_chain :: "host_env \<Rightarrow> addr \<Rightarrow> host \<Rightarrow> addr option \<times> host" where
  "alloc_stable_node_chain E dup s =
     (case he_new_node E (h_nodes s) of
        None \<Rightarrow> (None, s)
      | Some c \<Rightarrow>
          (let s = s\<lparr>h_nodes := (h_nodes s)(c \<mapsto> \<lparr>hn_hlist = [], hn_dups = [dup], hn_kpfn = 0,
                      hn_rmap_hlist_len = STABLE_NODE_CHAIN, hn_place = Tree_Node\<rparr>),
                   h_tree := map (\<lambda>x. if x = dup then c else x) (h_tree s),
                   stable_node_chains := stable_node_chains s + 1, stable_node_dups := stable_node_dups s + 1\<rparr>
           in (Some c, upd_node dup (\<lambda>nd. nd\<lparr>hn_place := Dup_Of c\<rparr>) s)))"

definition stable_node_chain_add_dup :: "addr \<Rightarrow> addr \<Rightarrow> host \<Rightarrow> host" where
  "stable_node_chain_add_dup dup c s =
     upd_node dup (\<lambda>nd. nd\<lparr>hn_place := Dup_Of c\<rparr>)
       (upd_node c (\<lambda>ch. ch\<lparr>hn_dups := dup # hn_dups ch\<rparr>) (s\<lparr>stable_node_dups := stable_node_dups s + 1\<rparr>))"

definition stable_tree_insert :: "host_env \<Rightarrow> (host \<Rightarrow> addr option) \<Rightarrow> u64 \<Rightarrow> host \<Rightarrow> (addr option \<times> host) res" where
  "stable_tree_insert E slot kpage s =
     (let found = slot s in
      case he_new_node E (h_nodes s) of
        None \<Rightarrow> Inr (None, s)
      | Some n \<Rightarrow>
          (let s = s\<lparr>h_nodes := (h_nodes s)(n \<mapsto> \<lparr>hn_hlist = [], hn_dups = [], hn_kpfn = kpage,
                      hn_rmap_hlist_len = 0, hn_place = Tree_Node\<rparr>)\<rparr>;
               s = set_page_stable_node kpage (Some n) s
           in case found of
                None \<Rightarrow> Inr (Some n, s\<lparr>h_tree := n # h_tree s\<rparr>)
              | Some m \<Rightarrow>
                  rbind (deref (h_nodes s) m) (\<lambda>nd.
                    if is_stable_node_chain nd then Inr (Some n, stable_node_chain_add_dup n m s)
                    else
                      (case alloc_stable_node_chain E m s of
                         (None, s) \<Rightarrow> Inr (None, free_stable_node n s)
                       | (Some c, s) \<Rightarrow> Inr (Some n, stable_node_chain_add_dup n c s)))))"

section \<open>Applying the result of a round\<close>

definition lookup_item :: "'x xa_ops \<Rightarrow> 'x shadow_mm list \<Rightarrow> int \<Rightarrow> u64 \<Rightarrow> addr option res" where
  "lookup_item XA shadow_pt_list mm_id va =
     (case get_shadow_mm shadow_pt_list mm_id of
        None \<Rightarrow> Inl Null_Deref
      | Some sm \<Rightarrow> Inr (shadow_mm_lookup XA sm va))"

definition need :: "'a option \<Rightarrow> 'a res" where
  "need m = (case m of None \<Rightarrow> Inl Null_Deref | Some x \<Rightarrow> Inr x)"

definition page_of :: "addr \<Rightarrow> host \<Rightarrow> u64 res" where
  "page_of a s = rbind (deref (h_items s) a) (\<lambda>it. rbind (item_page (hi_data it)) need)"

definition report_error :: "host_env \<Rightarrow> event_tag \<Rightarrow> ksm_event_log \<Rightarrow> host \<Rightarrow> host res" where
  "report_error E tag log s =
     rbind (insert_error_log (he_alloc E (h_errors s)) (he_junk E) tag log (h_errors s)) (\<lambda>(err, tbl).
       Inr (s\<lparr>h_errors := tbl\<rparr>))"

text \<open>What the world decides for one log entry: the two merge attempts, the tree descent, and
  whether a huge page that holds both pages of a failed merge is split.\<close>

record entry_try =
  et_merges :: "merge_try \<times> merge_try"
  et_slot :: "host \<Rightarrow> addr option"
  et_split :: bool

definition apply_stable_merge ::
  "host_env \<Rightarrow> merge_try \<Rightarrow> ksm_event_log \<Rightarrow> addr option \<Rightarrow> host \<Rightarrow> host res" where
  "apply_stable_merge E mt e from s =
     (case page_stable_node (h_pages s (stable_merge_kpfn e)) of
        None \<Rightarrow> Inr s
      | Some n \<Rightarrow>
          rbind (deref (h_nodes s) n) (\<lambda>nd.
          rbind (guard_stop ''Already saturated node'' (hn_rmap_hlist_len nd \<noteq> he_max_page_sharing E)) (\<lambda>_.
          rbind (get_ksm_page E GET_KSM_PAGE_NOLOCK n s) (\<lambda>(page, s).
            case page of
              Ksm_Page kpage \<Rightarrow>
                rbind (need from) (\<lambda>a.
                rbind (remove_rmap_item_from_tree E a s) (\<lambda>s.
                rbind (page_of a s) (\<lambda>p.
                rbind (try_to_merge_with_ksm_page E mt a p (Some kpage) s) (\<lambda>(ok, s).
                rbind (if ok then rbind (need (page_stable_node (h_pages s kpage))) (\<lambda>n. stable_tree_append a n s)
                       else report_error E HOST_MERGE_ONE_FAILED e (upd_item a (\<lambda>it. it\<lparr>hi_head := Some n\<rparr>) s)) (\<lambda>s.
                  Inr (put_page kpage s))))))
            | _ \<Rightarrow> Inl (Stopped ''Failed to get ksm page in STABLE_MERGE'')))))"

definition apply_unstable_merge ::
  "host_env \<Rightarrow> entry_try \<Rightarrow> ksm_event_log \<Rightarrow> addr option \<Rightarrow> addr option \<Rightarrow> host \<Rightarrow> host res" where
  "apply_unstable_merge E w e from to s =
     rbind (need from) (\<lambda>a.
     rbind (remove_rmap_item_from_tree E a s) (\<lambda>s.
     rbind (need to) (\<lambda>b.
     rbind (remove_rmap_item_from_tree E b s) (\<lambda>s.
     rbind (page_of a s) (\<lambda>p.
     rbind (page_of b s) (\<lambda>q.
     rbind (try_to_merge_two_pages E (et_merges w) a p b q s) (\<lambda>(kpage, s).
       case kpage of
         Some kpage \<Rightarrow>
           rbind (stable_tree_insert E (et_slot w) kpage s) (\<lambda>(n, s).
             case n of
               None \<Rightarrow> Inl (Stopped ''Failed to insert stable node in UNSTABLE_MERGE'')
             | Some n \<Rightarrow> rbind (stable_tree_append b n s) (stable_tree_append a n))
       | None \<Rightarrow>
           report_error E HOST_MERGE_TWO_FAILED e
             (if et_split w then upd_page p (\<lambda>pg. pg\<lparr>pg_compound := False\<rparr>) s else s))))))))"

definition apply_stale_node :: "host_env \<Rightarrow> ksm_event_log \<Rightarrow> addr option \<Rightarrow> host \<Rightarrow> host res" where
  "apply_stale_node E e to s =
     (case to of
        None \<Rightarrow> Inl (Stopped ''Failed to get to_entry in STALE_NODE'')
      | Some a \<Rightarrow>
          rbind (deref (h_items s) a) (\<lambda>it.
            case hi_head it of
              None \<Rightarrow> Inl (Stopped ''Failed to get linked stable node in STALE_NODE'')
            | Some n \<Rightarrow>
                rbind (deref (h_nodes s) n) (\<lambda>nd.
                rbind (guard_stop ''KPfn mismatch in STALE_NODE'' (hn_kpfn nd = stale_node_kpfn e)) (\<lambda>_.
                rbind (get_ksm_page E GET_KSM_PAGE_LOCK n s) (\<lambda>(page, s).
                  case page of
                    Ksm_Page kpage \<Rightarrow>
                      rbind (guard_stop ''Page is still mapped in STALE_STABLE_NODE'' (pg_mapcount (h_pages s kpage) = 0)) (\<lambda>_.
                      rbind (remove_node_from_stable_tree n (set_page_stable_node kpage None s)) (\<lambda>s.
                        Inr (put_page kpage s)))
                  | _ \<Rightarrow> Inl (Stopped ''Invalid page in stale stable node''))))))"

definition apply_state_change :: "host_env \<Rightarrow> addr option \<Rightarrow> host \<Rightarrow> host res" where
  "apply_state_change E to s =
     (case to of
        None \<Rightarrow> Inl (Stopped ''Failed to get to_entry in ITEM_STATE_CHANGE'')
      | Some a \<Rightarrow>
          rbind (deref (h_items s) a) (\<lambda>it.
          rbind (guard_stop ''Not a stable Item'' (is_stable it)) (\<lambda>_. remove_rmap_item_from_tree E a s)))"

definition apply_entry ::
  "host_env \<Rightarrow> 'x xa_ops \<Rightarrow> 'x shadow_mm list \<Rightarrow> entry_try \<Rightarrow> ksm_event_log \<Rightarrow> host \<Rightarrow> host res" where
  "apply_entry E XA mms w e s =
     (case ev_type e of
        DPU_STABLE_MERGE \<Rightarrow>
          rbind (lookup_item XA mms (stable_merge_from_mm_id e) (stable_merge_from_va e)) (\<lambda>from.
            apply_stable_merge E (fst (et_merges w)) e from s)
      | DPU_UNSTABLE_MERGE \<Rightarrow>
          rbind (guard_stop ''UNSTABLE_MERGE with zero pages is not supported'' (\<not> he_use_zero_pages E)) (\<lambda>_.
          rbind (lookup_item XA mms (unstable_merge_from_mm_id e) (unstable_merge_from_va e)) (\<lambda>from.
          rbind (lookup_item XA mms (unstable_merge_to_mm_id e) (unstable_merge_to_va e)) (\<lambda>to.
            apply_unstable_merge E w e from to s)))
      | DPU_STALE_STABLE_NODE \<Rightarrow>
          rbind (lookup_item XA mms (stale_node_last_mm_id e) (stale_node_last_va e)) (\<lambda>to. apply_stale_node E e to s)
      | DPU_ITEM_STATE_CHANGE \<Rightarrow>
          rbind (lookup_item XA mms (stable_merge_from_mm_id e) (stable_merge_from_va e)) (\<lambda>to. apply_state_change E to s)
      | _ \<Rightarrow> Inl (Stopped ''Invalid merge type''))"

definition apply_result ::
  "host_env \<Rightarrow> 'x xa_ops \<Rightarrow> 'x shadow_mm list \<Rightarrow> (nat \<Rightarrow> entry_try) \<Rightarrow> ksm_event_log list \<Rightarrow> host \<Rightarrow> host res" where
  "apply_result E XA mms ws result s =
     rfold (\<lambda>(i, e). apply_entry E XA mms (ws i) e) (enumerate 0 result) (s\<lparr>fail_reason_cnts := (\<lambda>_. 0)\<rparr>)"

end
