(* ===== verification/Host_Inv.thy ===== *)
theory Host_Inv
  imports Host_State
begin

text \<open>
  The invariant of the kernel's merging state, and that every operation keeps it: the lists of the
  stable nodes and the flags of the items agree, and the counters \<open>ksm_pages_shared\<close>,
  \<open>ksm_pages_sharing\<close> and \<open>mm->ksm_merging_pages\<close> count what they claim to count.
\<close>

section \<open>Sums over a heap\<close>

definition msum :: "('v \<Rightarrow> int) \<Rightarrow> (addr \<Rightarrow> 'v option) \<Rightarrow> int" where
  "msum w h = (\<Sum>k \<in> dom h. w (the (h k)))"

lemma msum_upd: "finite (dom h) \<Longrightarrow> h k = Some v \<Longrightarrow> msum w (h(k \<mapsto> v')) = msum w h - w v + w v'"
proof -
  assume f: "finite (dom h)" and k: "h k = Some v"
  have d: "dom (h(k \<mapsto> v')) = dom h" using k by auto
  have "(\<Sum>j \<in> dom h - {k}. w (the ((h(k \<mapsto> v')) j))) = (\<Sum>j \<in> dom h - {k}. w (the (h j)))"
    by (rule sum.cong) auto
  moreover have "k \<in> dom h" using k by auto
  ultimately show ?thesis unfolding msum_def d by (simp add: sum.remove [OF f] k)
qed

lemma msum_new: "finite (dom h) \<Longrightarrow> h k = None \<Longrightarrow> msum w (h(k \<mapsto> v)) = msum w h + w v"
proof -
  assume f: "finite (dom h)" and k: "h k = None"
  have n: "k \<notin> dom h" using k by auto
  have "(\<Sum>j \<in> dom h. w (the ((h(k \<mapsto> v)) j))) = (\<Sum>j \<in> dom h. w (the (h j)))"
    by (rule sum.cong) (use n in auto)
  then show ?thesis unfolding msum_def using f n by simp
qed

lemma msum_del: "finite (dom h) \<Longrightarrow> h k = Some v \<Longrightarrow> msum w (h(k := None)) = msum w h - w v"
proof -
  assume f: "finite (dom h)" and k: "h k = Some v"
  have "(\<Sum>j \<in> dom h - {k}. w (the ((h(k := None)) j))) = (\<Sum>j \<in> dom h - {k}. w (the (h j)))"
    by (rule sum.cong) auto
  moreover have "k \<in> dom h" using k by auto
  ultimately show ?thesis unfolding msum_def by (simp add: sum.remove [OF f] k)
qed

section \<open>The invariant\<close>

definition shared_w :: "ksm_stable_node \<Rightarrow> int" where
  "shared_w nd = (if hn_hlist nd = [] then 0 else 1)"

definition sharing_w :: "ksm_stable_node \<Rightarrow> int" where
  "sharing_w nd = int (length (hn_hlist nd) - 1)"

definition merging_w :: "int \<Rightarrow> ksm_rmap_item \<Rightarrow> int" where
  "merging_w m it = (if is_stable it \<and> hi_mm it = m then 1 else 0)"

definition node_ok :: "ksm_stable_node \<Rightarrow> bool" where
  "node_ok nd \<longleftrightarrow> distinct (hn_hlist nd) \<and>
     (if is_stable_node_chain nd then hn_hlist nd = [] else hn_rmap_hlist_len nd = int (length (hn_hlist nd)))"

definition links_ok :: "(addr \<Rightarrow> ksm_rmap_item option) \<Rightarrow> (addr \<Rightarrow> ksm_stable_node option) \<Rightarrow> bool" where
  "links_ok items nodes \<longleftrightarrow>
     (\<forall>n nd. nodes n = Some nd \<longrightarrow> node_ok nd \<and>
        (\<forall>a \<in> set (hn_hlist nd). \<exists>it. items a = Some it \<and> is_stable it \<and> hi_head it = Some n)) \<and>
     (\<forall>a it. items a = Some it \<longrightarrow> is_stable it \<longrightarrow>
        (\<exists>n nd. hi_head it = Some n \<and> nodes n = Some nd \<and> a \<in> set (hn_hlist nd)))"

text \<open>A KSM page in use points to a live node for it. In full offload no item is in the unstable tree.\<close>

definition mapping_ok :: "(u64 \<Rightarrow> host_page) \<Rightarrow> (addr \<Rightarrow> ksm_stable_node option) \<Rightarrow> bool" where
  "mapping_ok pages nodes \<longleftrightarrow>
     (\<forall>p n. pg_mapping (pages p) = Ksm_Mapping (Some n) \<longrightarrow> 0 < pg_count (pages p) \<longrightarrow>
        (\<exists>nd. nodes n = Some nd \<and> hn_kpfn nd = p \<and> \<not> is_stable_node_chain nd))"

definition host_inv :: "host \<Rightarrow> bool" where
  "host_inv s \<longleftrightarrow> finite (dom (h_items s)) \<and> finite (dom (h_nodes s)) \<and> links_ok (h_items s) (h_nodes s) \<and>
     mapping_ok (h_pages s) (h_nodes s) \<and> (\<forall>a it. h_items s a = Some it \<longrightarrow> \<not> is_unstable it) \<and>
     pages_shared s = msum shared_w (h_nodes s) \<and> pages_sharing s = msum sharing_w (h_nodes s) \<and>
     (\<forall>m. mm_merging s m = msum (merging_w m) (h_items s)) \<and> err_table_wf (er_entries (h_errors s))"

lemma node_ok_chain: "node_ok nd \<Longrightarrow> hn_hlist nd \<noteq> [] \<Longrightarrow> \<not> is_stable_node_chain nd"
  by (auto simp: node_ok_def)

lemma node_ok_len: "node_ok nd \<Longrightarrow> \<not> is_stable_node_chain nd \<Longrightarrow> hn_rmap_hlist_len nd = int (length (hn_hlist nd))"
  by (simp add: node_ok_def)

lemma is_stable_mask [simp]:
  "\<not> is_stable (it\<lparr>hi_address := hi_address it AND PAGE_MASK\<rparr>)"
  "\<not> is_stable (it\<lparr>hi_head := h, hi_address := hi_address it AND PAGE_MASK\<rparr>)"
  "is_stable (it\<lparr>hi_head := h, hi_address := hi_address it OR STABLE_FLAG\<rparr>)"
  by (simp_all add: is_stable_def page_mask_flags(1)) (simp add: STABLE_FLAG_def)

lemma is_stable_head [simp]: "is_stable (it\<lparr>hi_head := h\<rparr>) = is_stable it" "is_stable (it\<lparr>hi_anon_vma := v\<rparr>) = is_stable it"
  "is_stable (it\<lparr>hi_data := d\<rparr>) = is_stable it"
  by (simp_all add: is_stable_def)

lemma links_okD:
  assumes "links_ok items nodes"
  shows "nodes n = Some nd \<Longrightarrow> node_ok nd"
    and "nodes n = Some nd \<Longrightarrow> a \<in> set (hn_hlist nd) \<Longrightarrow> \<exists>it. items a = Some it \<and> is_stable it \<and> hi_head it = Some n"
    and "items a = Some it \<Longrightarrow> is_stable it \<Longrightarrow> \<exists>n nd. hi_head it = Some n \<and> nodes n = Some nd \<and> a \<in> set (hn_hlist nd)"
  using assms unfolding links_ok_def by blast+

lemma links_head:
  assumes "links_ok items nodes" "nodes n = Some nd" "a \<in> set (hn_hlist nd)" "items a = Some it"
  shows "is_stable it \<and> hi_head it = Some n"
  using links_okD(2) [OF assms(1-3)] assms(4) by simp

section \<open>Detaching and attaching an item\<close>

lemma links_detach:
  assumes l: "links_ok items nodes" and it: "items a = Some it" and nd: "nodes n = Some nd"
    and a: "a \<in> set (hn_hlist nd)"
    and it': "\<not> is_stable it'" and nd': "hn_hlist nd' = remove1 a (hn_hlist nd)" "hn_rmap_hlist_len nd' = hn_rmap_hlist_len nd - 1"
  shows "links_ok (items(a \<mapsto> it')) (nodes(n \<mapsto> nd'))"
proof -
  note ok = links_okD(1) [OF l nd]
  have d: "distinct (hn_hlist nd)" using ok by (simp add: node_ok_def)
  have ne: "hn_hlist nd \<noteq> []" using a by auto
  have nc: "\<not> is_stable_node_chain nd" using node_ok_chain [OF ok ne] .
  have len: "hn_rmap_hlist_len nd = int (length (hn_hlist nd))" using node_ok_len [OF ok nc] .
  have pos: "0 < length (hn_hlist nd)" using a by (cases "hn_hlist nd") auto
  have len': "int (length (hn_hlist nd) - 1) = int (length (hn_hlist nd)) - 1" using pos by linarith
  have ok': "node_ok nd'" using d len len' a
    by (auto simp: node_ok_def nd' is_stable_node_chain_def STABLE_NODE_CHAIN_def length_remove1)
  have mem: "x \<in> set (hn_hlist nd') \<longleftrightarrow> x \<in> set (hn_hlist nd) \<and> x \<noteq> a" for x using d by (auto simp: nd')
  have head: "hi_head it = Some n" using links_okD(2) [OF l nd a] it by simp
  show ?thesis unfolding links_ok_def
  proof (intro conjI allI impI ballI)
    fix m nd2 assume m: "(nodes(n \<mapsto> nd')) m = Some nd2"
    show "node_ok nd2" using m ok' links_okD(1) [OF l] by (cases "m = n") auto
    fix x assume x: "x \<in> set (hn_hlist nd2)"
    obtain nd0 where n0: "nodes m = Some nd0" "x \<in> set (hn_hlist nd0)" using m x nd mem by (cases "m = n") auto
    have "x \<noteq> a"
    proof
      assume "x = a"
      then have "m = n" using links_okD(2) [OF l n0] it head by simp
      then show False using m x mem \<open>x = a\<close> by simp
    qed
    then show "\<exists>it. (items(a \<mapsto> it')) x = Some it \<and> is_stable it \<and> hi_head it = Some m"
      using links_okD(2) [OF l n0] by simp
  next
    fix x it2 assume x: "(items(a \<mapsto> it')) x = Some it2" "is_stable it2"
    then have "x \<noteq> a" "items x = Some it2" using it' by (auto split: if_splits)
    with links_okD(3) [OF l this(2) x(2)] mem nd
    show "\<exists>m nd2. hi_head it2 = Some m \<and> (nodes(n \<mapsto> nd')) m = Some nd2 \<and> x \<in> set (hn_hlist nd2)" by fastforce
  qed
qed

lemma links_attach:
  assumes l: "links_ok items nodes" and it: "items a = Some it" "\<not> is_stable it" and nd: "nodes n = Some nd" "\<not> is_stable_node_chain nd"
    and it': "is_stable it'" "hi_head it' = Some n"
    and nd': "hn_hlist nd' = a # hn_hlist nd" "hn_rmap_hlist_len nd' = hn_rmap_hlist_len nd + 1"
  shows "links_ok (items(a \<mapsto> it')) (nodes(n \<mapsto> nd'))"
proof -
  note ok = links_okD(1) [OF l nd(1)]
  have len: "hn_rmap_hlist_len nd = int (length (hn_hlist nd))" using node_ok_len [OF ok nd(2)] .
  have fresh: "a \<notin> set (hn_hlist nd2)" if "nodes m = Some nd2" for m nd2 using links_head [OF l that _ it(1)] it(2) by blast
  have ok': "node_ok nd'" using ok len fresh [OF nd(1)] by (simp add: node_ok_def nd' is_stable_node_chain_def STABLE_NODE_CHAIN_def)
  show ?thesis unfolding links_ok_def
  proof (intro conjI allI impI ballI)
    fix m nd2 assume m: "(nodes(n \<mapsto> nd')) m = Some nd2"
    show "node_ok nd2" using m ok' links_okD(1) [OF l] by (cases "m = n") auto
    fix x assume x: "x \<in> set (hn_hlist nd2)"
    show "\<exists>it. (items(a \<mapsto> it')) x = Some it \<and> is_stable it \<and> hi_head it = Some m"
    proof (cases "x = a")
      case True
      then show ?thesis using it' m x fresh by (cases "m = n") auto
    next
      case False
      then obtain nd0 where "nodes m = Some nd0" "x \<in> set (hn_hlist nd0)" using m x nd(1) nd' by (cases "m = n") auto
      then show ?thesis using links_okD(2) [OF l] False by simp
    qed
  next
    fix x it2 assume x: "(items(a \<mapsto> it')) x = Some it2" "is_stable it2"
    show "\<exists>m nd2. hi_head it2 = Some m \<and> (nodes(n \<mapsto> nd')) m = Some nd2 \<and> x \<in> set (hn_hlist nd2)"
    proof (cases "x = a")
      case True
      then show ?thesis using x it' nd' by simp
    next
      case False
      then show ?thesis using links_okD(3) [OF l _ x(2)] x(1) nd nd' by fastforce
    qed
  qed
qed

text \<open>Replacing an item by one that is linked the same way.\<close>

lemma links_item_upd:
  assumes "links_ok items nodes" "items a = Some it" "is_stable it' = is_stable it" "is_stable it \<Longrightarrow> hi_head it' = hi_head it"
  shows "links_ok (items(a \<mapsto> it')) nodes"
  unfolding links_ok_def
proof (intro conjI allI impI ballI)
  fix m nd assume m: "nodes m = Some nd"
  show "node_ok nd" using links_okD(1) [OF assms(1) m] .
  fix x assume x: "x \<in> set (hn_hlist nd)"
  show "\<exists>it. (items(a \<mapsto> it')) x = Some it \<and> is_stable it \<and> hi_head it = Some m"
    using links_head [OF assms(1) m x] links_okD(2) [OF assms(1) m x] assms(2-4) by (cases "x = a") auto
next
  fix x it2 assume "(items(a \<mapsto> it')) x = Some it2" "is_stable it2"
  then show "\<exists>m nd. hi_head it2 = Some m \<and> nodes m = Some nd \<and> x \<in> set (hn_hlist nd)"
    using links_okD(3) [OF assms(1)] assms(2-4) by (cases "x = a") auto
qed

text \<open>Replacing a node by one with the same sharers; a new node; a node without sharers that goes.\<close>

lemma links_node_upd:
  assumes "links_ok items nodes" "nodes n = Some nd" "hn_hlist nd' = hn_hlist nd" "hn_rmap_hlist_len nd' = hn_rmap_hlist_len nd"
  shows "links_ok items (nodes(n \<mapsto> nd'))"
proof -
  have "node_ok nd'" using links_okD(1) [OF assms(1,2)] assms(3,4) by (simp add: node_ok_def is_stable_node_chain_def)
  then show ?thesis using assms(1-3) unfolding links_ok_def by (auto split: if_splits) (metis option.inject)+
qed

lemma links_node_new:
  assumes "links_ok items nodes" "nodes n = None" "node_ok nd" "hn_hlist nd = []"
  shows "links_ok items (nodes(n \<mapsto> nd))"
  using assms unfolding links_ok_def by (auto split: if_splits) (metis option.distinct(1))+

lemma links_node_del:
  assumes "links_ok items nodes" "nodes n = Some nd" "hn_hlist nd = []"
  shows "links_ok items (nodes(n := None))"
  using assms unfolding links_ok_def by (auto split: if_splits) (metis option.inject list.set(1) empty_iff)+


section \<open>The invariant under the three changes\<close>

definition core :: "ksm_rmap_item \<Rightarrow> int \<times> u64 \<times> item_data \<times> addr option" where
  "core it = (hi_mm it, item_va it, hi_data it, hi_rmap_list it)"

text \<open>What no operation changes of an item: process, address, page, place in the list of its process.\<close>

definition same_items :: "host \<Rightarrow> host \<Rightarrow> bool" where
  "same_items s s' \<longleftrightarrow> (\<forall>a. map_option core (h_items s' a) = map_option core (h_items s a))"

lemma same_items_refl [simp]: "same_items s s"
  by (simp add: same_items_def)

lemma same_items_trans: "same_items s s' \<Longrightarrow> same_items s' s'' \<Longrightarrow> same_items s s''"
  by (simp add: same_items_def)

lemma same_itemsD: "same_items s s' \<Longrightarrow> h_items s a = Some it \<Longrightarrow> \<exists>it'. h_items s' a = Some it' \<and> core it' = core it"
  unfolding same_items_def by (metis map_option_eq_Some option.simps(9))

lemma core_mask [simp]:
  "core (it\<lparr>hi_address := hi_address it AND PAGE_MASK\<rparr>) = core it"
  "core (it\<lparr>hi_head := h, hi_address := hi_address it AND PAGE_MASK\<rparr>) = core it"
  "core (it\<lparr>hi_head := h, hi_address := hi_address it OR STABLE_FLAG\<rparr>) = core it"
  "core (it\<lparr>hi_head := h\<rparr>) = core it" "core (it\<lparr>hi_anon_vma := v\<rparr>) = core it"
  by (simp_all add: core_def item_va_def page_mask_flags)

lemma is_unstable_mask [simp]:
  "\<not> is_unstable (it\<lparr>hi_address := hi_address it AND PAGE_MASK\<rparr>)"
  "\<not> is_unstable (it\<lparr>hi_head := h, hi_address := hi_address it AND PAGE_MASK\<rparr>)"
  "is_unstable (it\<lparr>hi_head := h, hi_address := hi_address it OR STABLE_FLAG\<rparr>) = is_unstable it"
  "is_unstable (it\<lparr>hi_head := h\<rparr>) = is_unstable it" "is_unstable (it\<lparr>hi_anon_vma := v\<rparr>) = is_unstable it"
proof -
  have "(x OR STABLE_FLAG) AND UNSTABLE_FLAG = x AND UNSTABLE_FLAG" for x
    by (rule bit_eqI) (auto simp: bit_simps mask_bits)
  then show "is_unstable (it\<lparr>hi_head := h, hi_address := hi_address it OR STABLE_FLAG\<rparr>) = is_unstable it"
    by (simp add: is_unstable_def)
qed (simp_all add: is_unstable_def page_mask_flags(2))

lemma mapping_ok_node:
  assumes "mapping_ok pages nodes" "nodes n = Some nd" "hn_kpfn nd' = hn_kpfn nd" "is_stable_node_chain nd' = is_stable_node_chain nd"
  shows "mapping_ok pages (nodes(n \<mapsto> nd'))"
  using assms unfolding mapping_ok_def by (metis fun_upd_apply option.inject)

lemma host_inv_detach:
  assumes inv: "host_inv s" and it: "h_items s a = Some it" and nd: "h_nodes s n = Some nd" and a: "a \<in> set (hn_hlist nd)"
    and it': "\<not> is_stable it'" "\<not> is_unstable it'"
    and nd': "hn_hlist nd' = remove1 a (hn_hlist nd)" "hn_rmap_hlist_len nd' = hn_rmap_hlist_len nd - 1" "hn_kpfn nd' = hn_kpfn nd"
    and s': "h_items s' = (h_items s)(a \<mapsto> it')" "h_nodes s' = (h_nodes s)(n \<mapsto> nd')"
      "pages_shared s' = pages_shared s - (if hn_hlist nd' = [] then 1 else 0)"
      "pages_sharing s' = pages_sharing s - (if hn_hlist nd' = [] then 0 else 1)"
      "mm_merging s' = (mm_merging s)(hi_mm it := mm_merging s (hi_mm it) - 1)"
      "mapping_ok (h_pages s') (h_nodes s)" "err_table_wf (er_entries (h_errors s'))"
  shows "host_inv s'"
proof -
  note i = inv [unfolded host_inv_def]
  have l: "links_ok (h_items s) (h_nodes s)" and f: "finite (dom (h_items s))" "finite (dom (h_nodes s))" using i by blast+
  have l': "links_ok (h_items s') (h_nodes s')" unfolding s' by (rule links_detach [OF l it nd a it'(1) nd'(1,2)])
  have st: "is_stable it" using links_head [OF l nd a it] by simp
  have ne: "hn_hlist nd \<noteq> []" using a by auto
  have nc: "\<not> is_stable_node_chain nd" "\<not> is_stable_node_chain nd'"
    using node_ok_chain [OF links_okD(1) [OF l nd] ne] node_ok_len [OF links_okD(1) [OF l nd]]
    by (auto simp: is_stable_node_chain_def nd' STABLE_NODE_CHAIN_def)
  have w: "shared_w nd' = shared_w nd - (if hn_hlist nd' = [] then 1 else 0)"
    "sharing_w nd' = sharing_w nd - (if hn_hlist nd' = [] then 0 else 1)"
    using a ne unfolding shared_w_def sharing_w_def nd'(1)
    by (auto simp: length_remove1 neq_Nil_conv split: if_splits) (metis length_pos_if_in_set Suc_pred of_nat_Suc add_diff_cancel_right' add.commute)
  have "mm_merging s' m = msum (merging_w m) (h_items s')" for m
    using i st it'(1) unfolding s' by (simp add: msum_upd [OF f(1) it] merging_w_def)
  moreover have "mapping_ok (h_pages s') (h_nodes s')" unfolding s'(2)
    by (rule mapping_ok_node [OF s'(6) nd nd'(3)]) (simp add: nc)
  moreover have "\<forall>b it. h_items s' b = Some it \<longrightarrow> \<not> is_unstable it" using i it'(2) unfolding s' by simp
  ultimately show ?thesis using i f l' s'(7) unfolding host_inv_def
    by (simp add: s'(1-4) msum_upd [OF f(2) nd] w)
qed


lemma host_inv_attach:
  assumes inv: "host_inv s" and it: "h_items s a = Some it" "\<not> is_stable it"
    and nd: "h_nodes s n = Some nd" "\<not> is_stable_node_chain nd"
    and it': "is_stable it'" "\<not> is_unstable it'" "hi_head it' = Some n" "hi_mm it' = hi_mm it"
    and nd': "hn_hlist nd' = a # hn_hlist nd" "hn_rmap_hlist_len nd' = hn_rmap_hlist_len nd + 1" "hn_kpfn nd' = hn_kpfn nd"
    and s': "h_items s' = (h_items s)(a \<mapsto> it')" "h_nodes s' = (h_nodes s)(n \<mapsto> nd')"
      "pages_shared s' = pages_shared s + (if hn_hlist nd = [] then 1 else 0)"
      "pages_sharing s' = pages_sharing s + (if hn_hlist nd = [] then 0 else 1)"
      "mm_merging s' = (mm_merging s)(hi_mm it := mm_merging s (hi_mm it) + 1)"
      "h_pages s' = h_pages s" "h_errors s' = h_errors s"
  shows "host_inv s'"
proof -
  note i = inv [unfolded host_inv_def]
  have l: "links_ok (h_items s) (h_nodes s)" and f: "finite (dom (h_items s))" "finite (dom (h_nodes s))" using i by blast+
  have l': "links_ok (h_items s') (h_nodes s')" unfolding s' by (rule links_attach [OF l it nd it'(1,3) nd'(1,2)])
  have nc: "\<not> is_stable_node_chain nd'"
    using node_ok_len [OF links_okD(1) [OF l nd(1)] nd(2)] by (simp add: is_stable_node_chain_def nd' STABLE_NODE_CHAIN_def)
  have w: "shared_w nd' = shared_w nd + (if hn_hlist nd = [] then 1 else 0)"
    "sharing_w nd' = sharing_w nd + (if hn_hlist nd = [] then 0 else 1)"
    unfolding shared_w_def sharing_w_def nd'(1) by (auto simp: neq_Nil_conv)
  have "mm_merging s' m = msum (merging_w m) (h_items s')" for m
    using i it(2) it' unfolding s' by (simp add: msum_upd [OF f(1) it(1)] merging_w_def)
  moreover have "mapping_ok (h_pages s) ((h_nodes s)(n \<mapsto> nd'))"
    using mapping_ok_node [of "h_pages s" "h_nodes s" n nd nd'] i nc nd nd'(3) by blast
  moreover have "\<forall>b it. h_items s' b = Some it \<longrightarrow> \<not> is_unstable it" using i it'(2) unfolding s' by simp
  ultimately show ?thesis using i f l' unfolding host_inv_def
    by (simp add: s' msum_upd [OF f(2) nd(1)] w)
qed

lemma drop_sharers_ok:
  assumes "distinct as" "\<And>a. a \<in> set as \<Longrightarrow> \<exists>it. h_items s a = Some it \<and> is_stable it" "finite (dom (h_items s))"
  shows "\<exists>mg. drop_sharers as s = Inr (s\<lparr>h_items := (\<lambda>a. if a \<in> set as
          then map_option (\<lambda>it. it\<lparr>hi_address := hi_address it AND PAGE_MASK\<rparr>) (h_items s a) else h_items s a),
        pages_shared := pages_shared s - (if as = [] then 0 else 1),
        pages_sharing := pages_sharing s - int (length as - 1), mm_merging := mg\<rparr>) \<and>
    (\<forall>m. mg m - msum (merging_w m) (\<lambda>a. if a \<in> set as
          then map_option (\<lambda>it. it\<lparr>hi_address := hi_address it AND PAGE_MASK\<rparr>) (h_items s a) else h_items s a) =
        mm_merging s m - msum (merging_w m) (h_items s))"
  using assms
proof (induction as arbitrary: s)
  case Nil
  then show ?case by (intro exI [of _ "mm_merging s"]) simp
next
  case (Cons a as)
  obtain it where it: "h_items s a = Some it" "is_stable it" using Cons.prems(2) by auto
  let ?it = "it\<lparr>hi_address := hi_address it AND PAGE_MASK\<rparr>"
  let ?s = "s\<lparr>h_items := (h_items s)(a \<mapsto> ?it), pages_shared := pages_shared s - (if as = [] then 1 else 0),
    pages_sharing := pages_sharing s - (if as = [] then 0 else 1),
    mm_merging := (mm_merging s)(hi_mm it := mm_merging s (hi_mm it) - 1)\<rparr>"
  let ?h = "\<lambda>as h b. if b \<in> set as then map_option (\<lambda>it. it\<lparr>hi_address := hi_address it AND PAGE_MASK\<rparr>) (h b) else h b"
  have "upd_item a (\<lambda>it. it\<lparr>hi_address := hi_address it AND PAGE_MASK\<rparr>)
      ((if as \<noteq> [] then s\<lparr>pages_sharing := pages_sharing s - 1\<rparr> else s\<lparr>pages_shared := pages_shared s - 1\<rparr>)
        \<lparr>mm_merging := (mm_merging s)(hi_mm it := mm_merging s (hi_mm it) - 1)\<rparr>) = ?s"
    by (rule host.equality) (simp_all add: upd_item_def it)
  then have step: "drop_sharers (a # as) s = drop_sharers as ?s"
    using it by (cases "as = []") (simp_all add: Let_def)
  define s1 where "s1 = ?s"
  have s1: "h_items s1 = (h_items s)(a \<mapsto> ?it)" "finite (dom (h_items s1))" using Cons.prems(3) by (simp_all add: s1_def)
  have "\<exists>it. h_items s1 b = Some it \<and> is_stable it" if "b \<in> set as" for b
    using Cons.prems(1,2) that by (auto simp: s1)
  from Cons.IH [OF _ this s1(2)] Cons.prems(1) obtain mg where mg: "drop_sharers as s1 = Inr (s1\<lparr>h_items := ?h as (h_items s1),
        pages_shared := pages_shared s1 - (if as = [] then 0 else 1),
        pages_sharing := pages_sharing s1 - int (length as - 1), mm_merging := mg\<rparr>)"
    "\<forall>m. mg m - msum (merging_w m) (?h as (h_items s1)) = mm_merging s1 m - msum (merging_w m) (h_items s1)"
    by auto
  have h: "?h as (h_items s1) = ?h (a # as) (h_items s)" using it Cons.prems(1) by (auto simp: fun_eq_iff s1)
  have "mm_merging s1 m - msum (merging_w m) (h_items s1) = mm_merging s m - msum (merging_w m) (h_items s)" for m
    using it unfolding s1 by (simp add: s1_def msum_upd [OF Cons.prems(3) it(1)] merging_w_def)
  with mg(2) have 2: "\<forall>m. mg m - msum (merging_w m) (?h (a # as) (h_items s)) = mm_merging s m - msum (merging_w m) (h_items s)"
    unfolding h by simp
  have "int (length as) = (if as = [] then 0 else 1) + int (length as - 1)" by (cases as) simp_all
  then have "s1\<lparr>h_items := ?h as (h_items s1), pages_shared := pages_shared s1 - (if as = [] then 0 else 1),
        pages_sharing := pages_sharing s1 - int (length as - 1), mm_merging := mg\<rparr> =
      s\<lparr>h_items := ?h (a # as) (h_items s), pages_shared := pages_shared s - (if a # as = [] then 0 else 1),
        pages_sharing := pages_sharing s - int (length (a # as) - 1), mm_merging := mg\<rparr>"
    unfolding h by (simp add: s1_def)
  with step mg(1) have "drop_sharers (a # as) s = Inr (s\<lparr>h_items := ?h (a # as) (h_items s),
        pages_shared := pages_shared s - (if a # as = [] then 0 else 1),
        pages_sharing := pages_sharing s - int (length (a # as) - 1), mm_merging := mg\<rparr>)"
    unfolding s1_def [symmetric] by (simp only:)
  then show ?case using 2 by (intro exI conjI)
qed

abbreviation masked :: "addr list \<Rightarrow> (addr \<Rightarrow> ksm_rmap_item option) \<Rightarrow> addr \<Rightarrow> ksm_rmap_item option" where
  "masked as h \<equiv> (\<lambda>a. if a \<in> set as
     then map_option (\<lambda>it. it\<lparr>hi_address := hi_address it AND PAGE_MASK\<rparr>) (h a) else h a)"

lemma links_drop:
  assumes l: "links_ok items nodes" and n: "nodes n = Some nd"
  shows "links_ok (masked (hn_hlist nd) items) (nodes(n := None))"
  unfolding links_ok_def
proof (intro conjI allI impI ballI)
  fix m nd2 assume m: "(nodes(n := None)) m = Some nd2"
  then have m': "nodes m = Some nd2" "m \<noteq> n" by (auto split: if_splits)
  show "node_ok nd2" using links_okD(1) [OF l m'(1)] .
  fix x assume x: "x \<in> set (hn_hlist nd2)"
  from links_okD(2) [OF l m'(1) x] obtain it where it: "items x = Some it" "is_stable it" "hi_head it = Some m" by blast
  then have "x \<notin> set (hn_hlist nd)" using links_head [OF l n] m'(2) by fastforce
  then show "\<exists>it. masked (hn_hlist nd) items x = Some it \<and> is_stable it \<and> hi_head it = Some m" using it by simp
next
  fix x it assume x: "masked (hn_hlist nd) items x = Some it" "is_stable it"
  then have "x \<notin> set (hn_hlist nd)" "items x = Some it" by (auto split: if_splits)
  with links_okD(3) [OF l this(2) x(2)] n
  show "\<exists>m nd2. hi_head it = Some m \<and> (nodes(n := None)) m = Some nd2 \<and> x \<in> set (hn_hlist nd2)"
    by (metis fun_upd_apply option.inject)
qed

text \<open>The invariant only sees the sharers, the length and the frame of a node.\<close>

definition node_core :: "ksm_stable_node \<Rightarrow> addr list \<times> int \<times> u64" where
  "node_core nd = (hn_hlist nd, hn_rmap_hlist_len nd, hn_kpfn nd)"

lemma node_core_eq:
  assumes "node_core nd' = node_core nd"
  shows "hn_hlist nd' = hn_hlist nd" "hn_rmap_hlist_len nd' = hn_rmap_hlist_len nd" "hn_kpfn nd' = hn_kpfn nd"
    "is_stable_node_chain nd' = is_stable_node_chain nd" "node_ok nd' = node_ok nd" "shared_w nd' = shared_w nd" "sharing_w nd' = sharing_w nd"
  using assms by (simp_all add: node_core_def is_stable_node_chain_def node_ok_def shared_w_def sharing_w_def)

lemma msum_cong: "(\<And>k. map_option w (h' k) = map_option w (h k)) \<Longrightarrow> msum w h' = msum w h"
proof -
  assume a: "\<And>k. map_option w (h' k) = map_option w (h k)"
  have "h' k = None \<longleftrightarrow> h k = None" for k using a [of k] by (cases "h k"; cases "h' k") auto
  then have "dom h' = dom h" by (simp add: dom_def)
  moreover have "w (the (h' k)) = w (the (h k))" if "k \<in> dom h" for k
    using a [of k] that by (cases "h k"; cases "h' k") auto
  ultimately show ?thesis by (simp add: msum_def)
qed

lemma host_inv_cong:
  assumes "host_inv s" "\<And>n. map_option node_core (h_nodes s' n) = map_option node_core (h_nodes s n)"
    "h_items s' = h_items s" "pages_shared s' = pages_shared s" "pages_sharing s' = pages_sharing s" "mm_merging s' = mm_merging s"
    "mapping_ok (h_pages s') (h_nodes s)" "err_table_wf (er_entries (h_errors s'))"
  shows "host_inv s'"
proof -
  note i = assms(1) [unfolded host_inv_def]
  have l: "links_ok (h_items s) (h_nodes s)" using i by blast
  have nd: "\<exists>nd. h_nodes s n = Some nd \<and> node_core nd' = node_core nd" if "h_nodes s' n = Some nd'" for n nd'
    using assms(2) [of n] that by (cases "h_nodes s n") auto
  have nd2: "\<exists>nd'. h_nodes s' n = Some nd' \<and> node_core nd' = node_core nd" if "h_nodes s n = Some nd" for n nd
    using assms(2) [of n] that by (cases "h_nodes s' n") auto
  have "dom (h_nodes s') = dom (h_nodes s)" using nd nd2 by blast
  moreover have "links_ok (h_items s) (h_nodes s')" unfolding links_ok_def
  proof (intro conjI allI impI ballI)
    fix n nd' assume "h_nodes s' n = Some nd'"
    from nd [OF this] obtain nd where c: "h_nodes s n = Some nd" "node_core nd' = node_core nd" by blast
    show "node_ok nd'" using links_okD(1) [OF l c(1)] node_core_eq(5) [OF c(2)] by blast
    fix a assume "a \<in> set (hn_hlist nd')"
    then show "\<exists>it. h_items s a = Some it \<and> is_stable it \<and> hi_head it = Some n"
      using links_okD(2) [OF l c(1)] node_core_eq(1) [OF c(2)] by metis
  next
    fix a it assume a: "h_items s a = Some it" "is_stable it"
    then obtain n nd where n: "hi_head it = Some n" "h_nodes s n = Some nd" "a \<in> set (hn_hlist nd)"
      using links_okD(3) [OF l] by meson
    from nd2 [OF n(2)] obtain nd' where "h_nodes s' n = Some nd'" "node_core nd' = node_core nd" by blast
    then show "\<exists>n nd. hi_head it = Some n \<and> h_nodes s' n = Some nd \<and> a \<in> set (hn_hlist nd)" using n node_core_eq(1) by metis
  qed
  moreover have "mapping_ok (h_pages s') (h_nodes s')"
    using assms(7) nd2 unfolding mapping_ok_def by (metis node_core_eq(3,4))
  moreover have w: "map_option w (h_nodes s' n) = map_option w (h_nodes s n)"
    if "\<And>nd nd'. node_core nd' = node_core nd \<Longrightarrow> w nd' = w nd" for w :: "ksm_stable_node \<Rightarrow> int" and n
  proof (cases "h_nodes s' n")
    case None
    then show ?thesis using assms(2) [of n] by simp
  next
    case (Some nd')
    then obtain nd0 where "h_nodes s n = Some nd0" "node_core nd' = node_core nd0" using nd by blast
    moreover from this(2) have "w nd' = w nd0" by (rule that)
    ultimately show ?thesis using Some by simp
  qed
  have "msum shared_w (h_nodes s') = msum shared_w (h_nodes s)" "msum sharing_w (h_nodes s') = msum sharing_w (h_nodes s)"
    by (rule msum_cong, rule w, erule node_core_eq)+
  ultimately show ?thesis using i assms(3-6,8) by (simp add: host_inv_def)
qed

text \<open>The node an item shares, if any.\<close>

definition stable_of :: "host \<Rightarrow> addr \<Rightarrow> addr option" where
  "stable_of s a = Option.bind (h_items s a) (\<lambda>it. if is_stable it then hi_head it else None)"

lemma remove_node_ok:
  assumes inv: "host_inv s" and n: "h_nodes s n = Some nd" "\<not> is_stable_node_chain nd"
    and unmapped: "\<And>p. pg_mapping (h_pages s p) = Ksm_Mapping (Some n) \<Longrightarrow> pg_count (h_pages s p) = 0"
  shows "\<exists>s'. remove_node_from_stable_tree n s = Inr s' \<and> host_inv s' \<and> same_items s s' \<and> h_nodes s' n = None \<and>
    h_errors s' = h_errors s \<and> h_offload s' = h_offload s \<and> h_pages s' = h_pages s \<and> h_pt s' = h_pt s \<and>
    (\<forall>a. stable_of s' a = (if stable_of s a = Some n then None else stable_of s a)) \<and>
    (\<forall>m. m \<noteq> n \<longrightarrow> map_option hn_kpfn (h_nodes s' m) = map_option hn_kpfn (h_nodes s m))"
proof -
  note i = inv [unfolded host_inv_def]
  have l: "links_ok (h_items s) (h_nodes s)" and f: "finite (dom (h_items s))" "finite (dom (h_nodes s))" using i by blast+
  note ok = links_okD(1) [OF l n(1)]
  have len: "\<not> hn_rmap_hlist_len nd < 0" using node_ok_len [OF ok n(2)] by simp
  have d: "distinct (hn_hlist nd)" using ok by (simp add: node_ok_def)
  have "\<exists>it. h_items s a = Some it \<and> is_stable it" if "a \<in> set (hn_hlist nd)" for a
    using links_okD(2) [OF l n(1) that] by blast
  from drop_sharers_ok [OF d this f(1)] obtain mg where
    mg: "drop_sharers (hn_hlist nd) s = Inr (s\<lparr>h_items := masked (hn_hlist nd) (h_items s),
        pages_shared := pages_shared s - (if hn_hlist nd = [] then 0 else 1),
        pages_sharing := pages_sharing s - int (length (hn_hlist nd) - 1), mm_merging := mg\<rparr>)" (is "_ = Inr ?d")
    "\<forall>m. mg m - msum (merging_w m) (masked (hn_hlist nd) (h_items s)) = mm_merging s m - msum (merging_w m) (h_items s)"
    by blast
  let ?f = "free_stable_node n ?d"
  let ?e = "if hn_place nd = Migrate_Node then ?d\<lparr>h_migrate := remove1 n (h_migrate ?d)\<rparr> else stable_node_dup_del n nd ?d"
  let ?s = "free_stable_node n ?e"
  have r: "remove_node_from_stable_tree n s = Inr ?s" using n(1) len mg(1) by (simp add: remove_node_from_stable_tree_def)
  have core: "map_option node_core (h_nodes ?s m) = map_option node_core (h_nodes ?f m)" for m
    by (auto simp: free_stable_node_def stable_node_dup_del_def upd_node_def node_core_def [abs_def] option.map_comp comp_def split: node_place.split)
  have same: "h_items ?s = h_items ?f" "pages_shared ?s = pages_shared ?f" "pages_sharing ?s = pages_sharing ?f" "mm_merging ?s = mm_merging ?f"
    "h_pages ?s = h_pages s" "h_errors ?s = h_errors s" "h_offload ?s = h_offload s" "h_pt ?s = h_pt s"
    by (auto simp: free_stable_node_def stable_node_dup_del_def upd_node_def split: node_place.split)
  have f_simps: "h_items ?f = masked (hn_hlist nd) (h_items s)" "h_nodes ?f = (h_nodes s)(n := None)" "h_pages ?f = h_pages s"
    "h_errors ?f = h_errors s" "mm_merging ?f = mg" "pages_shared ?f = pages_shared s - shared_w nd" "pages_sharing ?f = pages_sharing s - sharing_w nd"
    by (simp_all add: free_stable_node_def shared_w_def sharing_w_def)
  have map: "mapping_ok (h_pages s) (h_nodes ?f)"
    using i unmapped unfolding mapping_ok_def f_simps by (metis fun_upd_apply less_not_refl)
  have "dom (masked (hn_hlist nd) (h_items s)) = dom (h_items s)" by (auto simp: dom_def)
  moreover have "mg m = msum (merging_w m) (masked (hn_hlist nd) (h_items s))" for m
    using i mg(2) [rule_format, of m] by simp
  moreover have "\<forall>a it. masked (hn_hlist nd) (h_items s) a = Some it \<longrightarrow> \<not> is_unstable it" using i by auto
  ultimately have "host_inv ?f" using i links_drop [OF l n(1)] map f unfolding host_inv_def f_simps
    by (simp add: msum_del [OF f(2) n(1)])
  from host_inv_cong [OF this core same(1-4)] have inv': "host_inv ?s"
    using map i unfolding same(5,6) host_inv_def by blast
  have it: "h_items ?s = masked (hn_hlist nd) (h_items s)" using same(1) f_simps(1) by (rule trans)
  have st: "stable_of ?s a = (if stable_of s a = Some n then None else stable_of s a)" for a
  proof (cases "a \<in> set (hn_hlist nd)")
    case True
    from links_okD(2) [OF l n(1) True] obtain it where "h_items s a = Some it" "is_stable it" "hi_head it = Some n" by blast
    then show ?thesis using True unfolding stable_of_def it by simp
  next
    case False
    have "stable_of s a \<noteq> Some n"
    proof
      assume "stable_of s a = Some n"
      then obtain it where "h_items s a = Some it" "is_stable it" "hi_head it = Some n"
        by (auto simp: stable_of_def bind_eq_Some_conv split: if_splits)
      with links_okD(3) [OF l this(1,2)] n(1) False show False by auto
    qed
    then show ?thesis using False unfolding stable_of_def it by simp
  qed
  have "same_items s ?s" unfolding same_items_def it by (simp add: option.map_comp comp_def)
  moreover have "h_nodes ?s n = None" by (simp add: free_stable_node_def)
  moreover have "map_option hn_kpfn (h_nodes ?s m) = map_option hn_kpfn (h_nodes s m)" if "m \<noteq> n" for m
    using that by (auto simp: free_stable_node_def stable_node_dup_del_def upd_node_def option.map_comp comp_def split: node_place.split)
  ultimately show ?thesis using r inv' same(5-8) st by (intro exI [of _ ?s]) blast
qed

end
