(* ===== verification/Host_Merge.thy ===== *)
theory Host_Merge
  imports Host_Inv
begin

text \<open>
  What the operations on stable nodes do to the invariant of the kernel's merging state: removing
  an item or a stale node, appending an item, replacing a page; and the stable merge built from
  them, after which the item shares the node of the frame or the failure is reported.
\<close>

section \<open>What removing an item may change\<close>

definition err_log :: "host \<Rightarrow> ksm_event_log list" where
  "err_log s = contents (er_entries (h_errors s))"

text \<open>
  Taking items out only shrinks the sharing: no page, page table or item changes otherwise, no
  node appears, and the only reports are about stale nodes.
\<close>

definition shrinks :: "host \<Rightarrow> host \<Rightarrow> bool" where
  "shrinks s s' \<longleftrightarrow> host_inv s' \<and> same_items s s' \<and> h_pages s' = h_pages s \<and> h_pt s' = h_pt s \<and> h_offload s' = h_offload s \<and>
     (\<forall>b. stable_of s' b = stable_of s b \<or> stable_of s' b = None) \<and>
     (\<forall>m. h_nodes s' m \<noteq> None \<longrightarrow> map_option hn_kpfn (h_nodes s' m) = map_option hn_kpfn (h_nodes s m)) \<and>
     (\<exists>ls. err_log s' = err_log s @ ls \<and> (\<forall>l \<in> set ls. ev_type l = HOST_STALE_STABLE_NODE))"

lemma shrinks_refl: "host_inv s \<Longrightarrow> shrinks s s"
  by (simp add: shrinks_def)

lemma shrinks_trans:
  assumes "shrinks s s'" "shrinks s' s''"
  shows "shrinks s s''"
proof -
  note a = assms(1) [unfolded shrinks_def] and b = assms(2) [unfolded shrinks_def]
  obtain ls where ls: "err_log s' = err_log s @ ls" "\<forall>l \<in> set ls. ev_type l = HOST_STALE_STABLE_NODE" using a by blast
  obtain ms where ms: "err_log s'' = err_log s' @ ms" "\<forall>l \<in> set ms. ev_type l = HOST_STALE_STABLE_NODE" using b by blast
  have "err_log s'' = err_log s @ (ls @ ms)" "\<forall>l \<in> set (ls @ ms). ev_type l = HOST_STALE_STABLE_NODE"
    using ls ms by auto
  moreover have "\<forall>m. h_nodes s'' m \<noteq> None \<longrightarrow> map_option hn_kpfn (h_nodes s'' m) = map_option hn_kpfn (h_nodes s m)"
    using a b by (metis map_option_is_None)
  moreover have "same_items s s''" using a b same_items_trans by blast
  ultimately show ?thesis using a b unfolding shrinks_def by metis
qed

text \<open>No page is frozen in the swap cache: then ksmd does not wait for one.\<close>

definition calm :: "host \<Rightarrow> bool" where
  "calm s \<longleftrightarrow> (\<forall>p. pg_count (h_pages s p) = 0 \<longrightarrow> \<not> pg_swapcache (h_pages s p))"

section \<open>The operations in an environment\<close>

text \<open>
  What is asked of the kernel's allocators: a new node lies outside the live ones, and growing the
  array of error arrays does not fail when a new array could be allocated.
\<close>

locale host_runtime =
  fixes E :: host_env
  assumes alloc_ptrs: "al_block (he_alloc E t) \<Longrightarrow> al_ptrs (he_alloc E t)"
    and new_node: "he_new_node E h = Some n \<Longrightarrow> h n = None"
begin

lemma insert_error_ok:
  assumes "err_table_wf (er_entries (h_errors s))"
  shows "\<exists>err tbl. insert_error_log (he_alloc E (h_errors s)) (he_junk E) tag log (h_errors s) = Inr (err, tbl) \<and>
    err_table_wf (er_entries tbl) \<and>
    (err = 0 \<and> contents (er_entries tbl) = err_log s @ [log\<lparr>ev_type := tag\<rparr>] \<or>
     err = - 1 \<and> tbl = h_errors s \<and> \<not> al_block (he_alloc E (h_errors s)))"
  using insert_error_log_ok [OF assms, of "he_alloc E (h_errors s)" "he_junk E" tag log] alloc_ptrs assms
  by (auto simp: err_log_def)

lemma stale_ksm_page_ok:
  assumes inv: "host_inv s" and n: "h_nodes s n = Some nd" "\<not> is_stable_node_chain nd"
    and stale: "pg_mapping (h_pages s (hn_kpfn nd)) \<noteq> Ksm_Mapping (Some n) \<or> pg_count (h_pages s (hn_kpfn nd)) = 0"
  shows "\<exists>s'. stale_ksm_page E n kpfn s = Inr (Ksm_Gone, s') \<and> shrinks s s' \<and> h_nodes s' n = None \<and>
    (\<forall>a. stable_of s' a = (if stable_of s a = Some n then None else stable_of s a))"
proof -
  have "pg_count (h_pages s p) = 0" if "pg_mapping (h_pages s p) = Ksm_Mapping (Some n)" for p
  proof (rule ccontr)
    assume "pg_count (h_pages s p) \<noteq> 0"
    then have "hn_kpfn nd = p" using inv that n(1) unfolding host_inv_def mapping_ok_def by fastforce
    then show False using stale that \<open>pg_count (h_pages s p) \<noteq> 0\<close> by simp
  qed
  from remove_node_ok [OF inv n this] obtain s1 where
    s1: "remove_node_from_stable_tree n s = Inr s1" "host_inv s1" "same_items s s1" "h_nodes s1 n = None"
      "h_errors s1 = h_errors s" "h_offload s1 = h_offload s" "h_pages s1 = h_pages s" "h_pt s1 = h_pt s"
      "\<forall>a. stable_of s1 a = (if stable_of s a = Some n then None else stable_of s a)"
      "\<forall>m. m \<noteq> n \<longrightarrow> map_option hn_kpfn (h_nodes s1 m) = map_option hn_kpfn (h_nodes s m)" by blast
  have "\<forall>m. h_nodes s1 m \<noteq> None \<longrightarrow> map_option hn_kpfn (h_nodes s1 m) = map_option hn_kpfn (h_nodes s m)"
    using s1(4,10) by metis
  then have sh: "shrinks s s1" unfolding shrinks_def err_log_def using s1 by auto
  show ?thesis
  proof (cases "h_offload s1")
    case False
    then show ?thesis using s1(1,4,9) sh by (simp add: stale_ksm_page_def)
  next
    case True
    let ?log = "(he_junk E)\<lparr>ev_type := HOST_STALE_STABLE_NODE, ev_w1 := kpfn\<rparr>"
    have wf: "err_table_wf (er_entries (h_errors s1))" using s1(2) by (simp add: host_inv_def)
    from insert_error_ok [OF this, of HOST_STALE_STABLE_NODE ?log] obtain err tbl where
      t: "insert_error_log (he_alloc E (h_errors s1)) (he_junk E) HOST_STALE_STABLE_NODE ?log (h_errors s1) = Inr (err, tbl)"
        "err_table_wf (er_entries tbl)"
        "contents (er_entries tbl) = err_log s1 @ [?log\<lparr>ev_type := HOST_STALE_STABLE_NODE\<rparr>] \<or> tbl = h_errors s1" by blast
    let ?s = "s1\<lparr>h_errors := tbl\<rparr>"
    have st: "stable_of ?s = stable_of s1" by (simp add: stable_of_def fun_eq_iff)
    have inv': "host_inv ?s" using s1(2) t(2) by (simp add: host_inv_def)
    have log: "\<exists>ls. err_log ?s = err_log s1 @ ls \<and> (\<forall>l \<in> set ls. ev_type l = HOST_STALE_STABLE_NODE)"
      using t(3) by (auto simp: err_log_def)
    have "shrinks s1 ?s" unfolding shrinks_def using inv' log st by (simp add: same_items_def)
    then have "shrinks s ?s" using shrinks_trans [OF sh] by blast
    moreover have "stale_ksm_page E n kpfn s = Inr (Ksm_Gone, ?s)" using s1(1) True t(1) by (simp add: stale_ksm_page_def)
    ultimately show ?thesis using s1(4,9) st by auto
  qed
qed

lemma get_ksm_page_ok:
  assumes inv: "host_inv s" and n: "h_nodes s n = Some nd" "\<not> is_stable_node_chain nd"
  shows "get_ksm_page E flags n s = Inl Diverged \<and> \<not> calm s \<or>
    (\<exists>s'. get_ksm_page E flags n s = Inr (Ksm_Gone, s') \<and> shrinks s s' \<and> h_nodes s' n = None \<and>
       (\<forall>a. stable_of s' a = (if stable_of s a = Some n then None else stable_of s a))) \<or>
    get_ksm_page E flags n s = Inr (Ksm_Busy, s) \<and> flags = GET_KSM_PAGE_TRYLOCK \<or>
    get_ksm_page E flags n s = Inr (Ksm_Page (hn_kpfn nd), get_page (hn_kpfn nd) s) \<and>
      pg_mapping (h_pages s (hn_kpfn nd)) = Ksm_Mapping (Some n) \<and> 0 < pg_count (h_pages s (hn_kpfn nd))"
  using stale_ksm_page_ok [OF inv n, of "hn_kpfn nd"] n(1)
  by (auto simp: get_ksm_page_def Let_def calm_def)

lemma get_ksm_page_chain:
  assumes inv: "host_inv s" and n: "h_nodes s n = Some nd" "is_stable_node_chain nd"
  shows "get_ksm_page E flags n s \<noteq> Inr r"
proof -
  have "remove_node_from_stable_tree n s = Inl (Stopped ''BUG_ON'')"
    using n by (simp add: remove_node_from_stable_tree_def guard_stop_def is_stable_node_chain_def STABLE_NODE_CHAIN_def)
  moreover have "pg_mapping (h_pages s (hn_kpfn nd)) \<noteq> Ksm_Mapping (Some n) \<or> pg_count (h_pages s (hn_kpfn nd)) = 0"
    using inv n unfolding host_inv_def mapping_ok_def by fastforce
  ultimately show ?thesis using n(1) by (auto simp: get_ksm_page_def stale_ksm_page_def Let_def)
qed

lemma remove_rmap_item_ok:
  assumes inv: "host_inv s" and it: "h_items s a = Some it"
  shows "remove_rmap_item_from_tree E a s = Inl Diverged \<and> \<not> calm s \<or>
    (\<exists>s'. remove_rmap_item_from_tree E a s = Inr s' \<and> shrinks s s' \<and> stable_of s' a = None)"
proof (cases "is_stable it")
  case False
  have "\<not> is_unstable it" using inv it by (auto simp: host_inv_def)
  then show ?thesis using False it shrinks_refl [OF inv] by (simp add: remove_rmap_item_from_tree_def stable_of_def)
next
  case True
  note i = inv [unfolded host_inv_def]
  have l: "links_ok (h_items s) (h_nodes s)" using i by blast
  from links_okD(3) [OF l it True] obtain n nd where n: "hi_head it = Some n" "h_nodes s n = Some nd" "a \<in> set (hn_hlist nd)" by blast
  have ne: "hn_hlist nd \<noteq> []" using n(3) by auto
  have nc: "\<not> is_stable_node_chain nd" using node_ok_chain [OF links_okD(1) [OF l n(2)] ne] .
  have so: "stable_of s a = Some n" using it True n(1) by (simp add: stable_of_def)
  note D = remove_rmap_item_from_tree_def
  from get_ksm_page_ok [OF inv n(2) nc, of GET_KSM_PAGE_LOCK] consider
    "get_ksm_page E GET_KSM_PAGE_LOCK n s = Inl Diverged" "\<not> calm s"
    | s' where "get_ksm_page E GET_KSM_PAGE_LOCK n s = Inr (Ksm_Gone, s')" "shrinks s s'"
      "\<forall>a. stable_of s' a = (if stable_of s a = Some n then None else stable_of s a)"
    | "get_ksm_page E GET_KSM_PAGE_LOCK n s = Inr (Ksm_Page (hn_kpfn nd), get_page (hn_kpfn nd) s)" by auto
  then show ?thesis
  proof cases
    case 1
    then show ?thesis using it True n(1) by (simp add: D)
  next
    case (2 s')
    then show ?thesis using it True n(1) so by (simp add: D)
  next
    case 3
    let ?k = "hn_kpfn nd" and ?it = "it\<lparr>hi_head := None, hi_address := hi_address it AND PAGE_MASK\<rparr>"
    let ?nd = "nd\<lparr>hn_hlist := remove1 a (hn_hlist nd), hn_rmap_hlist_len := hn_rmap_hlist_len nd - 1\<rparr>"
    let ?s = "s\<lparr>h_items := (h_items s)(a \<mapsto> ?it), h_nodes := (h_nodes s)(n \<mapsto> ?nd),
      pages_shared := pages_shared s - (if hn_hlist ?nd = [] then 1 else 0),
      pages_sharing := pages_sharing s - (if hn_hlist ?nd = [] then 0 else 1),
      mm_merging := (mm_merging s)(hi_mm it := mm_merging s (hi_mm it) - 1)\<rparr>"
    have r: "remove_rmap_item_from_tree E a s = Inr ?s"
      using it True n 3 unfolding D
      by (auto simp: Let_def deref_def upd_node_def upd_item_def put_page_def get_page_def upd_page_def
          fun_eq_iff intro!: host.equality)
    have "host_inv ?s"
      by (rule host_inv_detach [OF inv it n(2,3), of ?it ?nd]) (use i in simp_all)
    moreover have "same_items s ?s" using it by (simp add: same_items_def)
    moreover have "stable_of ?s b = (if b = a then None else stable_of s b)" for b by (simp add: stable_of_def)
    moreover have "map_option hn_kpfn (h_nodes ?s m) = map_option hn_kpfn (h_nodes s m)" for m using n(2) by simp
    ultimately have "shrinks s ?s" unfolding shrinks_def err_log_def by simp
    then show ?thesis using r \<open>\<And>b. stable_of ?s b = _ b\<close> by auto
  qed
qed

end

lemma stable_tree_append_ok:
  assumes inv: "host_inv s" and it: "h_items s a = Some it" "stable_of s a = None"
    and n: "h_nodes s n = Some nd" "\<not> is_stable_node_chain nd"
  shows "\<exists>s'. stable_tree_append a n s = Inr s' \<and> host_inv s' \<and> same_items s s' \<and>
    (\<forall>b. stable_of s' b = (if b = a then Some n else stable_of s b)) \<and>
    h_pages s' = h_pages s \<and> h_pt s' = h_pt s \<and> h_errors s' = h_errors s \<and> h_offload s' = h_offload s \<and>
    (\<forall>m. map_option hn_kpfn (h_nodes s' m) = map_option hn_kpfn (h_nodes s m)) \<and>
    (\<exists>nd'. h_nodes s' n = Some nd' \<and> \<not> is_stable_node_chain nd' \<and> hn_hlist nd' = a # hn_hlist nd)"
proof -
  have l: "links_ok (h_items s) (h_nodes s)" using inv by (simp add: host_inv_def)
  have ns: "\<not> is_stable it"
  proof
    assume "is_stable it"
    with links_okD(3) [OF l it(1)] it show False by (auto simp: stable_of_def)
  qed
  have nu: "\<not> is_unstable it" using inv it(1) by (auto simp: host_inv_def)
  have len: "\<not> hn_rmap_hlist_len nd < 0" using node_ok_len [OF links_okD(1) [OF l n(1)] n(2)] by simp
  let ?it = "it\<lparr>hi_head := Some n, hi_address := hi_address it OR STABLE_FLAG\<rparr>"
  let ?nd = "nd\<lparr>hn_rmap_hlist_len := hn_rmap_hlist_len nd + 1, hn_hlist := a # hn_hlist nd\<rparr>"
  let ?s = "s\<lparr>h_items := (h_items s)(a \<mapsto> ?it), h_nodes := (h_nodes s)(n \<mapsto> ?nd),
    pages_shared := pages_shared s + (if hn_hlist nd = [] then 1 else 0),
    pages_sharing := pages_sharing s + (if hn_hlist nd = [] then 0 else 1),
    mm_merging := (mm_merging s)(hi_mm it := mm_merging s (hi_mm it) + 1)\<rparr>"
  have r: "stable_tree_append a n s = Inr ?s"
    using it n len by (auto simp: stable_tree_append_def Let_def upd_node_def upd_item_def intro!: host.equality)
  have "host_inv ?s" by (rule host_inv_attach [OF inv it(1) ns n, of ?it ?nd]) (use nu in simp_all)
  moreover have "same_items s ?s" using it(1) by (simp add: same_items_def)
  moreover have "stable_of ?s b = (if b = a then Some n else stable_of s b)" for b by (simp add: stable_of_def)
  moreover have "\<not> is_stable_node_chain ?nd" using len by (simp add: is_stable_node_chain_def STABLE_NODE_CHAIN_def)
  moreover have "map_option hn_kpfn (h_nodes ?s m) = map_option hn_kpfn (h_nodes s m)" for m using n(1) by simp
  ultimately show ?thesis using r by (intro exI [of _ ?s] conjI) simp_all
qed

section \<open>How merges end\<close>

text \<open>How the merge of an item with a KSM page ends: the item shares the node, or the failure is reported.\<close>

definition shares :: "addr \<Rightarrow> int \<times> u64 \<Rightarrow> u64 \<Rightarrow> addr \<Rightarrow> u64 \<Rightarrow> host \<Rightarrow> bool" where
  "shares a key p n kpfn s \<longleftrightarrow>
     stable_of s a = Some n \<and> map_option hn_kpfn (h_nodes s n) = Some kpfn \<and> (p = kpfn \<or> h_pt s key = Some kpfn)"

definition reported :: "host_env \<Rightarrow> ksm_event_log \<Rightarrow> host \<Rightarrow> bool" where
  "reported E e s \<longleftrightarrow> (\<exists>ls. err_log s = ls @ [e]) \<or> \<not> al_block (he_alloc E (h_errors s))"

text \<open>The part of a stable merge behind the removal of the item.\<close>

definition stable_merge_tail :: "host_env \<Rightarrow> merge_try \<Rightarrow> ksm_event_log \<Rightarrow> addr \<Rightarrow> addr \<Rightarrow> u64 \<Rightarrow> u64 \<Rightarrow> host \<Rightarrow> host res" where
  "stable_merge_tail E mt e a n kpfn p s =
     rbind (try_to_merge_with_ksm_page E mt a p (Some kpfn) s) (\<lambda>(ok, s).
     rbind (if ok then rbind (need (page_stable_node (h_pages s kpfn))) (\<lambda>n. stable_tree_append a n s)
            else report_error E HOST_MERGE_ONE_FAILED e (upd_item a (\<lambda>it. it\<lparr>hi_head := Some n\<rparr>) s)) (\<lambda>s.
       Inr (put_page kpfn s)))"

text \<open>A log entry that fits the items: the merges name live items with a page, an unstable merge two of them.\<close>

definition item_at :: "'x xa_ops \<Rightarrow> 'x shadow_mm list \<Rightarrow> host \<Rightarrow> int \<Rightarrow> u64 \<Rightarrow> addr \<Rightarrow> bool" where
  "item_at XA mms s mm va a \<longleftrightarrow> lookup_item XA mms mm va = Inr (Some a) \<and>
     (\<exists>it p. h_items s a = Some it \<and> hi_data it = Page_Ptr (Some p))"

definition entry_fits :: "'x xa_ops \<Rightarrow> 'x shadow_mm list \<Rightarrow> host \<Rightarrow> ksm_event_log \<Rightarrow> bool" where
  "entry_fits XA mms s e \<longleftrightarrow>
     (case ev_type e of
        DPU_STABLE_MERGE \<Rightarrow> (\<exists>a. item_at XA mms s (stable_merge_from_mm_id e) (stable_merge_from_va e) a)
      | DPU_UNSTABLE_MERGE \<Rightarrow> (\<exists>a b. item_at XA mms s (unstable_merge_from_mm_id e) (unstable_merge_from_va e) a \<and>
          item_at XA mms s (unstable_merge_to_mm_id e) (unstable_merge_to_va e) b \<and> a \<noteq> b)
      | _ \<Rightarrow> True)"

lemma item_at_same: "same_items s s' \<Longrightarrow> item_at XA mms s mm va a \<Longrightarrow> item_at XA mms s' mm va a"
  unfolding item_at_def using same_itemsD by (fastforce simp: core_def)

section \<open>Replacing a page\<close>

text \<open>What a merge attempt may change of the pages: no page gains a stable node.\<close>

definition pages_step :: "host \<Rightarrow> host \<Rightarrow> bool" where
  "pages_step s s' \<longleftrightarrow> (\<forall>p n. pg_mapping (h_pages s' p) = Ksm_Mapping (Some n) \<and> 0 < pg_count (h_pages s' p) \<longrightarrow>
     pg_mapping (h_pages s p) = Ksm_Mapping (Some n) \<and> 0 < pg_count (h_pages s p))"

lemma mapping_ok_step: "mapping_ok (h_pages s) nodes \<Longrightarrow> pages_step s s' \<Longrightarrow> mapping_ok (h_pages s') nodes"
  unfolding mapping_ok_def pages_step_def by blast

definition only_pages :: "host \<Rightarrow> host \<Rightarrow> bool" where
  "only_pages s s' \<longleftrightarrow> pages_step s s' \<and> h_items s' = h_items s \<and> h_nodes s' = h_nodes s \<and> h_errors s' = h_errors s \<and>
     h_offload s' = h_offload s \<and> pages_shared s' = pages_shared s \<and> pages_sharing s' = pages_sharing s \<and> mm_merging s' = mm_merging s"

lemma only_pages_inv: "host_inv s \<Longrightarrow> only_pages s s' \<Longrightarrow> host_inv s'"
  unfolding host_inv_def only_pages_def using mapping_ok_step by auto

lemma only_pages_stable: "only_pages s s' \<Longrightarrow> stable_of s' = stable_of s \<and> same_items s s' \<and> err_log s' = err_log s"
  by (simp add: only_pages_def stable_of_def same_items_def err_log_def fun_eq_iff)

lemma try_to_merge_one_page_ok:
  assumes "try_to_merge_one_page mt key p k s = (ok, s')" and "\<forall>kp n. k = Some kp \<longrightarrow> pg_mapping (h_pages s kp) = Ksm_Mapping (Some n) \<longrightarrow> 0 < pg_count (h_pages s kp)"
  shows "only_pages s s'"
    and "\<not> ok \<Longrightarrow> h_pt s' = h_pt s"
    and "k = Some kp \<Longrightarrow> pg_mapping (h_pages s' kp) = pg_mapping (h_pages s kp) \<and>
      (0 < pg_count (h_pages s kp) \<longrightarrow> 0 < pg_count (h_pages s' kp))"
    and "k = Some kp \<Longrightarrow> ok \<Longrightarrow> p = kp \<or> h_pt s' key = Some kp"
    and "k = None \<Longrightarrow> ok \<Longrightarrow> pg_mapping (h_pages s' p) = Ksm_Mapping None"
    and "k = None \<Longrightarrow> h_pt s' = h_pt s \<and> pg_count (h_pages s' p) = pg_count (h_pages s p)"
  using assms unfolding try_to_merge_one_page_def
  by (auto simp: only_pages_def pages_step_def count_fail_def upd_page_def set_page_stable_node_def replace_page_def Let_def
      split: if_splits option.splits)


text \<open>Changing an item without changing how it is linked.\<close>

lemma not_stable_item: "host_inv s \<Longrightarrow> h_items s a = Some it \<Longrightarrow> stable_of s a = None \<Longrightarrow> \<not> is_stable it"
  unfolding host_inv_def using links_okD(3) by (fastforce simp: stable_of_def)

lemma host_inv_item_upd:
  assumes inv: "host_inv s" and it: "h_items s a = Some it"
    and f: "hi_mm (f it) = hi_mm it" "is_stable (f it) = is_stable it" "is_unstable (f it) = is_unstable it"
      "is_stable it \<Longrightarrow> hi_head (f it) = hi_head it"
  shows "host_inv (upd_item a f s)" "stable_of (upd_item a f s) = stable_of s"
proof -
  note i = inv [unfolded host_inv_def]
  have fin: "finite (dom (h_items s))" and l: "links_ok (h_items s) (h_nodes s)" using i by blast+
  have h: "h_items (upd_item a f s) = (h_items s)(a \<mapsto> f it)" using it by (simp add: upd_item_def)
  have w: "merging_w m (f it) = merging_w m it" for m using f(1,2) by (simp add: merging_w_def)
  have "links_ok ((h_items s)(a \<mapsto> f it)) (h_nodes s)" by (rule links_item_upd [OF l it f(2,4)])
  then show "host_inv (upd_item a f s)" using i f(3) it unfolding host_inv_def h
    by (simp add: msum_upd [OF fin it] w upd_item_def)
  show "stable_of (upd_item a f s) = stable_of s"
    using it f(2,4) unfolding stable_of_def h by (auto simp: fun_eq_iff)
qed

lemma shrinks_item:
  assumes inv: "host_inv s" and it: "h_items s a = Some it"
    and f: "core (f it) = core it" "is_stable (f it) = is_stable it" "is_unstable (f it) = is_unstable it"
      "is_stable it \<Longrightarrow> hi_head (f it) = hi_head it"
  shows "shrinks s (upd_item a f s)" "stable_of (upd_item a f s) = stable_of s"
proof -
  have "hi_mm (f it) = hi_mm it" using f(1) by (simp add: core_def)
  from host_inv_item_upd [where f = f, OF inv it this f(2-4)]
  have inv': "host_inv (upd_item a f s)" and st: "stable_of (upd_item a f s) = stable_of s" by blast+
  then show "stable_of (upd_item a f s) = stable_of s" by simp
  have "same_items s (upd_item a f s)" using it f(1) by (simp add: same_items_def upd_item_def)
  then show "shrinks s (upd_item a f s)" using inv' st by (simp add: shrinks_def upd_item_def err_log_def)
qed

lemma shrinks_inv: "shrinks s s' \<Longrightarrow> host_inv s'"
  by (simp add: shrinks_def)

context host_runtime
begin

lemma merge_with_ok:
  assumes inv: "host_inv s" and it: "h_items s a = Some it" and k: "\<forall>kp n. k = Some kp \<longrightarrow> pg_mapping (h_pages s kp) = Ksm_Mapping (Some n) \<longrightarrow> 0 < pg_count (h_pages s kp)"
  shows "try_to_merge_with_ksm_page E mt a p k s = Inl Diverged \<or>
    (\<exists>s'. try_to_merge_with_ksm_page E mt a p k s = Inr (False, s') \<and> only_pages s s' \<and> h_pt s' = h_pt s) \<or>
    (\<exists>s1 s'. try_to_merge_with_ksm_page E mt a p k s = Inr (True, s') \<and> only_pages s s1 \<and> shrinks s1 s' \<and> stable_of s' a = None \<and>
       try_to_merge_one_page mt (hi_mm it, item_va it) p k s = (True, s1))"
proof (cases "mt_vma mt")
  case None
  have "only_pages s (count_fail No_mergeable_vma_found s)" by (simp add: only_pages_def pages_step_def count_fail_def)
  then show ?thesis using None it k by (simp add: try_to_merge_with_ksm_page_def count_fail_def)
next
  case (Some v)
  obtain ok s1 where one: "try_to_merge_one_page mt (hi_mm it, item_va it) p k s = (ok, s1)" by fastforce
  note o = try_to_merge_one_page_ok [OF one k]
  have op: "only_pages s s1" by (rule o(1))
  show ?thesis
  proof (cases ok)
    case False
    have "h_pt s1 = h_pt s" using o(2) False by blast
    then show ?thesis using op False Some one it by (simp add: try_to_merge_with_ksm_page_def)
  next
    case True
    have inv1: "host_inv s1" using only_pages_inv [OF inv op] .
    have it1: "h_items s1 a = Some it" using op it by (simp add: only_pages_def)
    from remove_rmap_item_ok [OF inv1 it1] show ?thesis
    proof (elim disjE exE conjE)
      assume "remove_rmap_item_from_tree E a s1 = Inl Diverged"
      then show ?thesis using Some one True it by (simp add: try_to_merge_with_ksm_page_def)
    next
      fix s2 assume s2: "remove_rmap_item_from_tree E a s1 = Inr s2" "shrinks s1 s2" "stable_of s2 a = None"
      from s2(2) it1 obtain it2 where it2: "h_items s2 a = Some it2" unfolding shrinks_def using same_itemsD by blast
      let ?s = "upd_item a (\<lambda>it. it\<lparr>hi_anon_vma := Some v\<rparr>) s2"
      have "shrinks s2 ?s" "stable_of ?s = stable_of s2"
        using shrinks_item [OF shrinks_inv [OF s2(2)] it2, of "\<lambda>it. it\<lparr>hi_anon_vma := Some v\<rparr>"] by simp_all
      then have "shrinks s1 ?s" "stable_of ?s a = None" using shrinks_trans [OF s2(2)] s2(3) by simp_all
      moreover have "try_to_merge_with_ksm_page E mt a p k s = Inr (True, ?s)"
        using Some one True it s2(1) by (simp add: try_to_merge_with_ksm_page_def)
      moreover have "try_to_merge_one_page mt (hi_mm it, item_va it) p k s = (True, s1)" using one True by simp
      ultimately show ?thesis using op by (intro disjI2 exI [of _ s1] exI [of _ ?s] conjI)
    qed
  qed
qed

lemma put_page_ok:
  assumes "host_inv t"
  shows "host_inv (put_page k t)" "stable_of (put_page k t) = stable_of t" "h_items (put_page k t) = h_items t"
    "h_nodes (put_page k t) = h_nodes t" "h_pt (put_page k t) = h_pt t" "err_log (put_page k t) = err_log t"
    "h_errors (put_page k t) = h_errors t" "same_items t (put_page k t)"
proof -
  have op: "only_pages t (put_page k t)" by (auto simp: only_pages_def pages_step_def put_page_def upd_page_def)
  show "host_inv (put_page k t)" using only_pages_inv [OF assms op] .
  show "stable_of (put_page k t) = stable_of t" "err_log (put_page k t) = err_log t" "same_items t (put_page k t)"
    using only_pages_stable [OF op] by simp_all
qed (simp_all add: put_page_def upd_page_def)

lemma report_error_ok:
  assumes inv: "host_inv s"
  shows "\<exists>s'. report_error E tag log s = Inr s' \<and> host_inv s' \<and> h_items s' = h_items s \<and> stable_of s' = stable_of s \<and> h_pt s' = h_pt s \<and>
    (err_log s' = err_log s @ [log\<lparr>ev_type := tag\<rparr>] \<or> s' = s \<and> \<not> al_block (he_alloc E (h_errors s)))"
proof -
  have "err_table_wf (er_entries (h_errors s))" using inv by (simp add: host_inv_def)
  from insert_error_ok [OF this, of tag log] obtain err tbl where
    t: "insert_error_log (he_alloc E (h_errors s)) (he_junk E) tag log (h_errors s) = Inr (err, tbl)" "err_table_wf (er_entries tbl)"
      "contents (er_entries tbl) = err_log s @ [log\<lparr>ev_type := tag\<rparr>] \<or> tbl = h_errors s \<and> \<not> al_block (he_alloc E (h_errors s))" by blast
  have "host_inv (s\<lparr>h_errors := tbl\<rparr>)" using inv t(2) by (simp add: host_inv_def)
  moreover have "err_log (s\<lparr>h_errors := tbl\<rparr>) = err_log s @ [log\<lparr>ev_type := tag\<rparr>] \<or>
      s\<lparr>h_errors := tbl\<rparr> = s \<and> \<not> al_block (he_alloc E (h_errors s))" using t(3) by (auto simp: err_log_def)
  ultimately show ?thesis using t(1) by (intro exI [of _ "s\<lparr>h_errors := tbl\<rparr>"]) (simp add: report_error_def stable_of_def fun_eq_iff)
qed

lemma report_failed_merge:
  assumes inv: "host_inv s" and it: "h_items s a = Some it" "stable_of s a = None"
  shows "\<exists>s'. report_error E tag e (upd_item a (\<lambda>it. it\<lparr>hi_head := Some n\<rparr>) s) = Inr s' \<and> host_inv s' \<and> same_items s s' \<and>
    stable_of s' = stable_of s \<and> h_pt s' = h_pt s \<and> reported E (e\<lparr>ev_type := tag\<rparr>) s'"
proof -
  let ?u = "upd_item a (\<lambda>it. it\<lparr>hi_head := Some n\<rparr>) s"
  have u: "shrinks s ?u" "stable_of ?u = stable_of s"
    using shrinks_item [OF inv it(1), of "\<lambda>it. it\<lparr>hi_head := Some n\<rparr>"] not_stable_item [OF inv it] by simp_all
  from report_error_ok [OF shrinks_inv [OF u(1)], of tag e] obtain s' where
    s': "report_error E tag e ?u = Inr s'" "host_inv s'" "h_items s' = h_items ?u" "stable_of s' = stable_of ?u" "h_pt s' = h_pt ?u"
      "err_log s' = err_log ?u @ [e\<lparr>ev_type := tag\<rparr>] \<or> s' = ?u \<and> \<not> al_block (he_alloc E (h_errors ?u))" by blast
  have "same_items s s'" using u(1) s'(3) by (simp add: shrinks_def same_items_def)
  moreover have "reported E (e\<lparr>ev_type := tag\<rparr>) s'" using s'(6) by (auto simp: reported_def)
  ultimately show ?thesis using s' u(2) by (simp add: upd_item_def)
qed

lemma stable_merge_tail_ok:
  assumes inv: "host_inv s" and it: "h_items s a = Some it" "stable_of s a = None"
    and m: "pg_mapping (h_pages s kpfn) = Ksm_Mapping (Some n)" "0 < pg_count (h_pages s kpfn)"
  shows "stable_merge_tail E mt e a n kpfn p s = Inl Diverged \<or>
    (\<exists>s'. stable_merge_tail E mt e a n kpfn p s = Inr s' \<and> host_inv s' \<and> same_items s s' \<and>
       (\<forall>b. b \<noteq> a \<longrightarrow> stable_of s' b = stable_of s b \<or> stable_of s' b = None) \<and>
       (shares a (hi_mm it, item_va it) p n kpfn s' \<or>
        stable_of s' a = None \<and> h_pt s' = h_pt s \<and> reported E (e\<lparr>ev_type := HOST_MERGE_ONE_FAILED\<rparr>) s'))"
proof -
  note D = stable_merge_tail_def
  have k: "\<forall>kp n. Some kpfn = Some kp \<longrightarrow> pg_mapping (h_pages s kp) = Ksm_Mapping (Some n) \<longrightarrow> 0 < pg_count (h_pages s kp)"
    using m(2) by simp
  from merge_with_ok [OF inv it(1) k, of mt p] show ?thesis
  proof (elim disjE exE conjE)
    assume "try_to_merge_with_ksm_page E mt a p (Some kpfn) s = Inl Diverged"
    then show ?thesis by (simp add: D)
  next
    fix s2 assume s2: "try_to_merge_with_ksm_page E mt a p (Some kpfn) s = Inr (False, s2)" "only_pages s s2" "h_pt s2 = h_pt s"
    have it2: "h_items s2 a = Some it" and st2: "stable_of s2 = stable_of s" "same_items s s2"
      using s2(2) it(1) only_pages_stable [OF s2(2)] by (simp_all add: only_pages_def)
    have "stable_of s2 a = None" using st2(1) it(2) by simp
    from report_failed_merge [OF only_pages_inv [OF inv s2(2)] it2 this, of HOST_MERGE_ONE_FAILED e n] obtain s3 where
      s3: "report_error E HOST_MERGE_ONE_FAILED e (upd_item a (\<lambda>it. it\<lparr>hi_head := Some n\<rparr>) s2) = Inr s3" "host_inv s3" "same_items s2 s3"
        "stable_of s3 = stable_of s2" "h_pt s3 = h_pt s2" "reported E (e\<lparr>ev_type := HOST_MERGE_ONE_FAILED\<rparr>) s3" by blast
    note put = put_page_ok [OF s3(2), of kpfn]
    have "stable_merge_tail E mt e a n kpfn p s = Inr (put_page kpfn s3)" using s2(1) s3(1) by (simp add: D)
    moreover have "same_items s (put_page kpfn s3)" using st2(2) s3(3) put(8) same_items_trans by blast
    moreover have "reported E (e\<lparr>ev_type := HOST_MERGE_ONE_FAILED\<rparr>) (put_page kpfn s3)" using s3(6) put(6,7) by (simp add: reported_def)
    moreover have "stable_of (put_page kpfn s3) = stable_of s" "h_pt (put_page kpfn s3) = h_pt s"
      using put(2,5) s3(4,5) st2(1) s2(3) by simp_all
    ultimately show ?thesis using put(1) it(2) by (intro disjI2 exI [of _ "put_page kpfn s3"]) simp
  next
    fix s2 s3 assume s3: "try_to_merge_with_ksm_page E mt a p (Some kpfn) s = Inr (True, s3)" "only_pages s s2" "shrinks s2 s3"
      "stable_of s3 a = None" "try_to_merge_one_page mt (hi_mm it, item_va it) p (Some kpfn) s = (True, s2)"
    note h3 = s3(3) [unfolded shrinks_def]
    have "pg_mapping (h_pages s2 kpfn) = Ksm_Mapping (Some n)" "0 < pg_count (h_pages s2 kpfn)"
      "p = kpfn \<or> h_pt s2 (hi_mm it, item_va it) = Some kpfn"
      using try_to_merge_one_page_ok(3,4) [OF s3(5) k refl] m by auto
    then have m3: "pg_mapping (h_pages s3 kpfn) = Ksm_Mapping (Some n)" "0 < pg_count (h_pages s3 kpfn)"
      "p = kpfn \<or> h_pt s3 (hi_mm it, item_va it) = Some kpfn" using h3 by simp_all
    have "mapping_ok (h_pages s3) (h_nodes s3)" using shrinks_inv [OF s3(3)] by (simp add: host_inv_def)
    then obtain nd3 where nd3: "h_nodes s3 n = Some nd3" "hn_kpfn nd3 = kpfn" "\<not> is_stable_node_chain nd3"
      using m3(1,2) unfolding mapping_ok_def by blast
    have si3: "same_items s s3" using only_pages_stable [OF s3(2)] h3 same_items_trans by blast
    from same_itemsD [OF si3 it(1)] obtain it3 where it3: "h_items s3 a = Some it3" by blast
    from stable_tree_append_ok [OF shrinks_inv [OF s3(3)] it3 s3(4) nd3(1,3)] obtain s4 where
      s4: "stable_tree_append a n s3 = Inr s4" "host_inv s4" "same_items s3 s4"
        "\<forall>b. stable_of s4 b = (if b = a then Some n else stable_of s3 b)" "h_pt s4 = h_pt s3"
        "\<forall>m. map_option hn_kpfn (h_nodes s4 m) = map_option hn_kpfn (h_nodes s3 m)" by blast
    note put = put_page_ok [OF s4(2), of kpfn]
    have "stable_merge_tail E mt e a n kpfn p s = Inr (put_page kpfn s4)"
      using s3(1) m3(1) s4(1) by (simp add: D need_def page_stable_node_def)
    moreover have "same_items s (put_page kpfn s4)" using si3 s4(3) put(8) same_items_trans by blast
    moreover have "stable_of s3 b = stable_of s b \<or> stable_of s3 b = None" for b
      using h3 only_pages_stable [OF s3(2)] by metis
    then have "\<forall>b. b \<noteq> a \<longrightarrow> stable_of (put_page kpfn s4) b = stable_of s b \<or> stable_of (put_page kpfn s4) b = None"
      using put(2) s4(4) by simp
    moreover have "shares a (hi_mm it, item_va it) p n kpfn (put_page kpfn s4)"
      using put(2,4,5) s4(4-6) m3(3) nd3 by (simp add: shares_def)
    ultimately show ?thesis using put(1) by blast
  qed
qed

text \<open>
  An entry for a stable merge. The page of the entry has a stable node, with room for another
  item; then the item ends up sharing exactly that node and its address maps the shared frame, or
  it shares no node and the entry is reported.
\<close>

lemma apply_stable_merge_ok:
  assumes inv: "host_inv s" and it: "h_items s a = Some it" and page: "hi_data it = Page_Ptr (Some p)"
    and n: "page_stable_node (h_pages s (stable_merge_kpfn e)) = Some n"
    and m: "pg_mapping (h_pages s kpfn) = Ksm_Mapping (Some n)" "0 < pg_count (h_pages s kpfn)"
    and room: "\<forall>nd. h_nodes s n = Some nd \<longrightarrow> hn_rmap_hlist_len nd \<noteq> he_max_page_sharing E"
  shows "apply_stable_merge E mt e (Some a) s = Inl Diverged \<or>
    (\<exists>s'. apply_stable_merge E mt e (Some a) s = Inr s' \<and> host_inv s' \<and> same_items s s' \<and>
       (\<forall>b. b \<noteq> a \<longrightarrow> stable_of s' b = stable_of s b \<or> stable_of s' b = None) \<and>
       (shares a (hi_mm it, item_va it) p n kpfn s' \<or>
        stable_of s' a = None \<and> h_pt s' = h_pt s \<and> reported E (e\<lparr>ev_type := HOST_MERGE_ONE_FAILED\<rparr>) s'))"
proof -
  obtain nd where nd: "h_nodes s n = Some nd" "hn_kpfn nd = kpfn" "\<not> is_stable_node_chain nd"
    using inv m unfolding host_inv_def mapping_ok_def by blast
  let ?g = "get_page kpfn s"
  have get: "get_ksm_page E GET_KSM_PAGE_NOLOCK n s = Inr (Ksm_Page kpfn, ?g)"
    using nd m by (simp add: get_ksm_page_def Let_def)
  have op: "only_pages s ?g" using m(2) by (auto simp: only_pages_def pages_step_def get_page_def upd_page_def)
  have itg: "h_items ?g a = Some it" using it by (simp add: get_page_def upd_page_def)
  have mg: "pg_mapping (h_pages ?g kpfn) = Ksm_Mapping (Some n)" "0 < pg_count (h_pages ?g kpfn)" "h_pt ?g = h_pt s"
    using m by (simp_all add: get_page_def upd_page_def)
  have eq: "apply_stable_merge E mt e (Some a) s =
      rbind (remove_rmap_item_from_tree E a ?g) (\<lambda>s. rbind (page_of a s) (\<lambda>p. stable_merge_tail E mt e a n kpfn p s))"
    unfolding apply_stable_merge_def stable_merge_tail_def using n nd get room by (simp add: need_def)
  from remove_rmap_item_ok [OF only_pages_inv [OF inv op] itg] show ?thesis
  proof (elim disjE exE conjE)
    assume "remove_rmap_item_from_tree E a ?g = Inl Diverged"
    then show ?thesis unfolding eq by simp
  next
    fix s1 assume s1: "remove_rmap_item_from_tree E a ?g = Inr s1" "shrinks ?g s1" "stable_of s1 a = None"
    note h1 = s1(2) [unfolded shrinks_def]
    have si1: "same_items s s1" using h1 only_pages_stable [OF op] same_items_trans by blast
    from same_itemsD [OF si1 it] obtain it1 where it1: "h_items s1 a = Some it1" "core it1 = core it" by blast
    have p1: "page_of a s1 = Inr p" using it1 page by (simp add: page_of_def core_def need_def)
    have m1: "pg_mapping (h_pages s1 kpfn) = Ksm_Mapping (Some n)" "0 < pg_count (h_pages s1 kpfn)" using mg h1 by simp_all
    have key: "hi_mm it1 = hi_mm it" "item_va it1 = item_va it" using it1(2) by (simp_all add: core_def)
    have pt1: "h_pt s1 = h_pt s" using h1 mg(3) by simp
    have st1: "stable_of s1 b = stable_of s b \<or> stable_of s1 b = None" for b using h1 only_pages_stable [OF op] by metis
    have eq1: "apply_stable_merge E mt e (Some a) s = stable_merge_tail E mt e a n kpfn p s1" unfolding eq s1(1) rbind_Inr p1 ..
    from stable_merge_tail_ok [OF shrinks_inv [OF s1(2)] it1(1) s1(3) m1, of mt e p] consider
      "stable_merge_tail E mt e a n kpfn p s1 = Inl Diverged"
      | s' where "stable_merge_tail E mt e a n kpfn p s1 = Inr s'" "host_inv s'" "same_items s1 s'"
        "\<forall>b. b \<noteq> a \<longrightarrow> stable_of s' b = stable_of s1 b \<or> stable_of s' b = None"
        "shares a (hi_mm it, item_va it) p n kpfn s' \<or>
         stable_of s' a = None \<and> h_pt s' = h_pt s \<and> reported E (e\<lparr>ev_type := HOST_MERGE_ONE_FAILED\<rparr>) s'"
      unfolding key pt1 by blast
    then show ?thesis
    proof cases
      case 1
      then show ?thesis unfolding eq1 by simp
    next
      case (2 s')
      have "\<forall>b. b \<noteq> a \<longrightarrow> stable_of s' b = stable_of s b \<or> stable_of s' b = None" using 2(4) st1 by metis
      moreover have "same_items s s'" using si1 2(3) same_items_trans by blast
      ultimately show ?thesis unfolding eq1 using 2(1,2,5) by blast
    qed
  qed
qed

end

end
