(* ===== verification/Host_Walk.thy ===== *)
theory Host_Walk
  imports Host_Request Host_Merge "HOL-Library.Sublist"
begin

text \<open>
  How the host collects the pages of a round (\<open>mm/ksm.c\<close>): the walk over the page tables of a
  process, which keeps the list of its reverse-mapping items in step and fills its shadow page
  table, and \<open>prepare_metadata\<close>, which walks every process and drops those without pages.
\<close>

section \<open>Definitions\<close>

subsection \<open>What the walk sees\<close>

text \<open>
  An entry of a page table: not present, special, present without a normal page
  (\<open>vm_normal_page\<close> is \<open>NULL\<close> or an error), or the frame it maps. \<open>walk_page_range\<close> calls the
  handler for the entries of every area that passes \<open>anon_test_walk\<close>, in ascending order.
\<close>

datatype host_pte = Pte_Absent | Pte_Special | Pte_No_Page | Pte_Page u64

record host_vma =
  vm_mergeable :: bool
  vm_anon_vma :: bool
  vm_ptes :: "(u64 \<times> host_pte) list"

definition anon_test_walk :: "host_vma \<Rightarrow> int" where
  "anon_test_walk vma = (if \<not> vm_mergeable vma \<or> \<not> vm_anon_vma vma then 1 else 0)"

definition walked_ptes :: "host_vma list \<Rightarrow> (u64 \<times> host_pte) list" where
  "walked_ptes vmas = concat (map vm_ptes (filter (\<lambda>vma. anon_test_walk vma = 0) vmas))"

text \<open>
  The items of a process are a singly linked list from its slot. The cursor \<open>ksm_scan.rmap_list\<close>
  points to the link to be followed next: the head in the slot or the link of an item.
\<close>

datatype rmap_cursor = At_Head | Behind addr

record 'x walk =
  wk_host :: host
  wk_head :: "addr option"
  wk_cursor :: rmap_cursor
  wk_address :: u64
  wk_shadow :: "'x shadow_mm"

text \<open>What decides the allocations for a shadow page table, and what new memory holds.\<close>

record 'x walk_env =
  we_alloc :: "'x shadow_mm \<Rightarrow> alloc"
  we_junk :: shadow_pte

definition read_cursor :: "host \<Rightarrow> addr option \<Rightarrow> rmap_cursor \<Rightarrow> addr option res" where
  "read_cursor h head cur =
     (case cur of
        At_Head \<Rightarrow> Inr head
      | Behind a \<Rightarrow> rbind (deref (h_items h) a) (\<lambda>it. Inr (hi_rmap_list it)))"

definition write_cursor :: "addr option \<Rightarrow> rmap_cursor \<Rightarrow> host \<times> addr option \<Rightarrow> (host \<times> addr option) res" where
  "write_cursor p cur hh =
     (case cur of
        At_Head \<Rightarrow> Inr (fst hh, p)
      | Behind a \<Rightarrow> rbind (deref (h_items (fst hh)) a) (\<lambda>_. Inr (upd_item a (\<lambda>it. it\<lparr>hi_rmap_list := p\<rparr>) (fst hh), snd hh)))"

subsection \<open>The items of a process\<close>

definition free_rmap_item :: "addr \<Rightarrow> host \<Rightarrow> host res" where
  "free_rmap_item a h =
     rbind (deref (h_items h) a) (\<lambda>it.
       Inr (h\<lparr>rmap_items := rmap_items h - 1,
              mm_rmap_items := (mm_rmap_items h)(hi_mm it := mm_rmap_items h (hi_mm it) - 1),
              h_items := (h_items h)(a := None)\<rparr>))"

text \<open>
  The body that both loops share: the item leaves the list, the stable tree and memory. The loops run until
  they meet an item they keep, at most once per item of the list: \<open>fuel\<close> bounds their length.
\<close>

definition drop_item :: "host_env \<Rightarrow> rmap_cursor \<Rightarrow> addr \<Rightarrow> host \<times> addr option \<Rightarrow> (host \<times> addr option) res" where
  "drop_item E cur a hh =
     rbind (deref (h_items (fst hh)) a) (\<lambda>it.
     rbind (write_cursor (hi_rmap_list it) cur hh) (\<lambda>(h, head).
     rbind (remove_rmap_item_from_tree E a h) (\<lambda>h.
     rbind (free_rmap_item a h) (\<lambda>h. Inr (h, head)))))"

primrec pass_items ::
  "nat \<Rightarrow> host_env \<Rightarrow> rmap_cursor \<Rightarrow> u64 \<Rightarrow> host \<times> addr option \<Rightarrow> (addr option \<times> host \<times> addr option) res" where
  "pass_items 0 E cur va hh = Inl Diverged"
| "pass_items (Suc fuel) E cur va hh =
     rbind (read_cursor (fst hh) (snd hh) cur) (\<lambda>p.
       case p of
         None \<Rightarrow> Inr (None, hh)
       | Some a \<Rightarrow>
           rbind (deref (h_items (fst hh)) a) (\<lambda>it.
             if item_va it = va then Inr (Some a, hh)
             else if hi_address it > va then Inr (None, hh)
             else rbind (drop_item E cur a hh) (pass_items fuel E cur va)))"

definition get_next_rmap_item ::
  "nat \<Rightarrow> host_env \<Rightarrow> int \<Rightarrow> rmap_cursor \<Rightarrow> u64 \<Rightarrow> host \<times> addr option \<Rightarrow> (addr option \<times> host \<times> addr option) res" where
  "get_next_rmap_item fuel E mm cur va hh =
     rbind (pass_items fuel E cur va hh) (\<lambda>(found, h, head).
       case found of
         Some a \<Rightarrow> Inr (Some a, h, head)
       | None \<Rightarrow>
           (case he_new_item E (h_items h) of
              None \<Rightarrow> Inr (None, h, head)
            | Some a \<Rightarrow>
                rbind (read_cursor h head cur) (\<lambda>p.
                  (let h = h\<lparr>rmap_items := rmap_items h + 1, mm_rmap_items := (mm_rmap_items h)(mm := mm_rmap_items h mm + 1),
                             h_items := (h_items h)(a \<mapsto> \<lparr>hi_rmap_list = p, hi_anon_vma = None, hi_mm = mm, hi_address = va,
                               hi_data = Page_Ptr None, hi_head = None\<rparr>)\<rparr>
                   in rbind (write_cursor (Some a) cur (h, head)) (\<lambda>(h, head). Inr (Some a, h, head))))))"

primrec remove_trailing_rmap_items ::
  "nat \<Rightarrow> host_env \<Rightarrow> rmap_cursor \<Rightarrow> host \<times> addr option \<Rightarrow> (host \<times> addr option) res" where
  "remove_trailing_rmap_items 0 E cur hh = Inl Diverged"
| "remove_trailing_rmap_items (Suc fuel) E cur hh =
     rbind (read_cursor (fst hh) (snd hh) cur) (\<lambda>p.
       case p of
         None \<Rightarrow> Inr hh
       | Some a \<Rightarrow> rbind (drop_item E cur a hh) (remove_trailing_rmap_items fuel E cur))"

subsection \<open>The walk\<close>

text \<open>The handler: the result of \<open>insert_entry_to_shadow_mm\<close> is not looked at.\<close>

definition scan_pte_entry ::
  "nat \<Rightarrow> host_env \<Rightarrow> 'x xa_ops \<Rightarrow> 'x walk_env \<Rightarrow> int \<Rightarrow> u64 \<times> host_pte \<Rightarrow> 'x walk \<Rightarrow> 'x walk res" where
  "scan_pte_entry fuel E XA W mm entry w =
     (case entry of (va, pte) \<Rightarrow>
        (case pte of
           Pte_Page page \<Rightarrow>
             (let h = get_page page (wk_host w)
              in if PageAnon (h_pages h page) then
                   rbind (get_next_rmap_item fuel E mm (wk_cursor w) va (h, wk_head w)) (\<lambda>(found, h, head).
                     case found of
                       None \<Rightarrow> Inl (Stopped ''Failed to get rmap item'')
                     | Some a \<Rightarrow>
                         rbind (deref (h_items h) a) (\<lambda>it.
                         rbind (guard_stop ''Address mismatch'' (item_va it = va)) (\<lambda>_.
                         rbind (insert_entry_to_shadow_mm XA (we_alloc W (wk_shadow w)) (we_junk W) va page a (wk_shadow w)) (\<lambda>(err, shadow).
                           Inr (w\<lparr>wk_host := upd_item a (\<lambda>it. it\<lparr>hi_data := Page_Ptr (Some page)\<rparr>) h, wk_head := head,
                                  wk_cursor := Behind a, wk_address := va, wk_shadow := shadow\<rparr>)))))
                 else Inr (w\<lparr>wk_host := put_page page h\<rparr>))
         | _ \<Rightarrow> Inr w))"

text \<open>
  \<open>create_shadow_mm\<close>. The id of the process is the pid of its owner, \<open>- 1\<close> if it has none.
\<close>

definition create_shadow_mm ::
  "nat \<Rightarrow> host_env \<Rightarrow> 'x xa_ops \<Rightarrow> 'x walk_env \<Rightarrow> bool \<Rightarrow> bool \<times> bool \<times> bool \<Rightarrow> int option \<Rightarrow> host_vma list \<Rightarrow> int \<Rightarrow>
   host \<times> addr option \<Rightarrow> 'x walk res" where
  "create_shadow_mm fuel E XA W cb allocs owner vmas mm hh =
     (case create_empty XA cb allocs (we_junk W) (case owner of None \<Rightarrow> - 1 | Some pid \<Rightarrow> pid) of
        None \<Rightarrow> Inl (Stopped ''Failed to create shadow page table'')
      | Some shadow \<Rightarrow>
          rfold (scan_pte_entry fuel E XA W mm) (walked_ptes vmas)
            \<lparr>wk_host = fst hh, wk_head = snd hh, wk_cursor = At_Head, wk_address = 0, wk_shadow = shadow\<rparr>)"

text \<open>
  \<open>free_shadow_mm\<close>: the references on the pages are put back, except on pages that are KSM pages; after a
  disconnect the items lose their pages and get an age. The scatter lists are the first
  \<open>sgt_cnt\<close> of those stored.
\<close>

primrec put_item_pages :: "bool \<Rightarrow> int \<Rightarrow> (u64 \<times> addr) list \<Rightarrow> host \<Rightarrow> host res" where
  "put_item_pages disconnected curr_iteration [] h = Inr h"
| "put_item_pages disconnected curr_iteration (e # es) h =
     rbind (deref (h_items h) (snd e)) (\<lambda>it.
     rbind (item_page (hi_data it)) (\<lambda>page.
       (let h = (case page of
                   None \<Rightarrow> h
                 | Some p \<Rightarrow>
                     (let h = (if \<not> PageKsm (h_pages h p) then put_page p h else h)
                      in if disconnected
                         then upd_item (snd e) (\<lambda>it. it\<lparr>hi_data := Scan_Data 0 (word_of_int (curr_iteration - 1)) 0\<rparr>) h
                         else h))
        in put_item_pages disconnected curr_iteration es h)))"

definition free_shadow_mm ::
  "'x xa_ops \<Rightarrow> nat \<Rightarrow> bool \<Rightarrow> int \<Rightarrow> nat \<Rightarrow> (u64 sgl \<times> ib_mr) list \<Rightarrow> 'x shadow_mm \<Rightarrow> host \<Rightarrow> host res" where
  "free_shadow_mm XA C disconnected curr_iteration sgt_cnt sgts sm h =
     rbind (put_item_pages disconnected curr_iteration (xa_entries XA (sm_page_xa sm)) h) (\<lambda>h.
     rbind (free_sgls False C (ht_cnt (sm_pt_map sm)) sgt_cnt [0..<sgt_cnt] sgts) (\<lambda>_. Inr h))"

subsection \<open>All processes\<close>

record ksm_mm_slot =
  ms_mm :: int
  ms_rmap_list :: "addr option"

text \<open>
  The world of a process: whether it is exiting, its owner, its areas, the allocations for its shadow page table,
  and what the memory of a new shadow page table holds in \<open>pages_sgt_cnt\<close>.
\<close>

record mm_world =
  mw_exit :: bool
  mw_owner :: "int option"
  mw_vmas :: "host_vma list"
  mw_allocs :: "bool \<times> bool \<times> bool"
  mw_sgt_cnt :: nat

text \<open>
  \<open>init_shadow_for_mm\<close> gives the shadow page table if it has pages, and the cursor and address the walk ended
  with. The table of a process without pages is freed before \<open>pages_sgt_cnt\<close> was ever set.
\<close>

definition init_shadow_for_mm ::
  "nat \<Rightarrow> host_env \<Rightarrow> 'x xa_ops \<Rightarrow> 'x walk_env \<Rightarrow> nat \<Rightarrow> bool \<Rightarrow> mm_world \<Rightarrow> int \<Rightarrow> host \<times> addr option \<Rightarrow>
   ('x shadow_mm option \<times> rmap_cursor \<times> u64 \<times> host \<times> addr option) res" where
  "init_shadow_for_mm fuel E XA W C cb mw mm hh =
     (if mw_exit mw then Inr (None, At_Head, 0, hh)
      else rbind (create_shadow_mm fuel E XA W cb (mw_allocs mw) (mw_owner mw) (mw_vmas mw) mm hh) (\<lambda>w.
        if ht_cnt (sm_pt_map (wk_shadow w)) = 0
        then rbind (free_shadow_mm XA C False 0 (mw_sgt_cnt mw) [] (wk_shadow w) (wk_host w)) (\<lambda>h.
               Inr (None, wk_cursor w, wk_address w, h, wk_head w))
        else Inr (Some (wk_shadow w), wk_cursor w, wk_address w, wk_host w, wk_head w)))"

text \<open>
  One round of the loop of \<open>prepare_metadata\<close>: the slot that stays in the list, if any, and the
  shadow page table to be registered, if any. A slot leaves the list when the walk met no
  anonymous page or the process exits.
\<close>

definition prepare_slot ::
  "nat \<Rightarrow> host_env \<Rightarrow> 'x xa_ops \<Rightarrow> 'x walk_env \<Rightarrow> nat \<Rightarrow> bool \<Rightarrow> (int \<Rightarrow> mm_world) \<Rightarrow> ksm_mm_slot \<Rightarrow> host \<Rightarrow>
   (ksm_mm_slot option \<times> 'x shadow_mm option \<times> host) res" where
  "prepare_slot fuel E XA W C cb world slot h =
     (let mw = world (ms_mm slot)
      in rbind (init_shadow_for_mm fuel E XA W C cb mw (ms_mm slot) (h, ms_rmap_list slot)) (\<lambda>(shadow, cur, address, hh).
           case shadow of
             Some sm \<Rightarrow> Inr (Some (slot\<lparr>ms_rmap_list := snd hh\<rparr>), Some sm, fst hh)
           | None \<Rightarrow>
               (let (cur, address) = (if mw_exit mw then (At_Head, 0) else (cur, address))
                in rbind (remove_trailing_rmap_items fuel E cur hh) (\<lambda>(h, head).
                     if address = 0 then Inr (None, None, h)
                     else Inr (Some (slot\<lparr>ms_rmap_list := head\<rparr>), None, h)))))"

text \<open>\<open>list_add\<close> puts a new table in front of the others.\<close>

primrec prepare_slots ::
  "nat \<Rightarrow> host_env \<Rightarrow> 'x xa_ops \<Rightarrow> 'x walk_env \<Rightarrow> nat \<Rightarrow> bool \<Rightarrow> (int \<Rightarrow> mm_world) \<Rightarrow> ksm_mm_slot list \<Rightarrow> 'x shadow_mm list \<Rightarrow> host \<Rightarrow>
   (ksm_mm_slot list \<times> 'x shadow_mm list \<times> host) res" where
  "prepare_slots fuel E XA W C cb world [] mms h = Inr ([], mms, h)"
| "prepare_slots fuel E XA W C cb world (slot # slots) mms h =
     rbind (prepare_slot fuel E XA W C cb world slot h) (\<lambda>(kept, shadow, h).
     rbind (prepare_slots fuel E XA W C cb world slots (case shadow of None \<Rightarrow> mms | Some sm \<Rightarrow> sm # mms) h) (\<lambda>(slots, mms, h).
       Inr (case kept of None \<Rightarrow> slots | Some slot \<Rightarrow> slot # slots, mms, h)))"

text \<open>
  \<open>prepare_metadata\<close>: with any process to register, the page tables and the error table are
  registered. The result is what \<open>any_registered\<close> and the descriptors are afterwards.
\<close>

definition prepare_metadata ::
  "nat \<Rightarrow> host_env \<Rightarrow> 'x xa_ops \<Rightarrow> 'x walk_env \<Rightarrow> nat \<Rightarrow> bool \<Rightarrow> (int \<Rightarrow> mm_world) \<Rightarrow> (nat \<Rightarrow> register_ops) \<Rightarrow>
   (nat \<Rightarrow> nat \<Rightarrow> bool) \<Rightarrow> (nat \<Rightarrow> ib_mr option) \<Rightarrow> ksm_mm_slot list \<Rightarrow> host \<Rightarrow>
   (ksm_mm_slot list \<times> 'x shadow_mm list \<times> host \<times>
     ((shadow_pt_descriptor \<times> registered_mm) list \<times> error_table_descriptor \<times> (ksm_event_log list sgl \<times> ib_mr) list) option) res" where
  "prepare_metadata fuel E XA W C cb world ops kz mrs slots h =
     rbind (prepare_slots fuel E XA W C cb world slots [] h) (\<lambda>(slots, mms, h).
       if mms \<noteq> [] then
         rbind (rdma_register_shadow_mms XA (h_items h) C ops 0 mms) (\<lambda>regs.
         rbind (rdma_register_error_table kz C mrs (h_errors h)) (\<lambda>(tbl, desc, errs).
           Inr (slots, mms, h\<lparr>h_errors := tbl\<rparr>, Some (regs, desc, errs))))
       else Inr (slots, mms, h, None))"

end
