(* ===== verification/Host_Lists.thy ===== *)
theory Host_Lists
  imports Host_Walk
begin

text \<open>
  The list of items of a process as a list: what the loops of the walk do to it. They drop the
  items of addresses that are not mapped any more and add items for new ones, so that the part
  behind the cursor stays in step with the walk.
\<close>

section \<open>Linked lists of items\<close>

fun rlist :: "(addr \<Rightarrow> ksm_rmap_item option) \<Rightarrow> addr option \<Rightarrow> addr list \<Rightarrow> addr option \<Rightarrow> bool" where
  "rlist heap p [] q \<longleftrightarrow> p = q"
| "rlist heap p (a # as) q \<longleftrightarrow> p = Some a \<and> (\<exists>it. heap a = Some it \<and> rlist heap (hi_rmap_list it) as q)"

definition link :: "(addr \<Rightarrow> ksm_rmap_item option) \<Rightarrow> addr \<Rightarrow> addr option option" where
  "link heap a = map_option hi_rmap_list (heap a)"

lemma rlist_append: "rlist heap p (as @ bs) q \<longleftrightarrow> (\<exists>r. rlist heap p as r \<and> rlist heap r bs q)"
  by (induction as arbitrary: p) auto

lemma rlist_cong:
  assumes "\<And>a. a \<in> set as \<Longrightarrow> link heap' a = link heap a"
  shows "rlist heap' p as q \<longleftrightarrow> rlist heap p as q"
  using assms
proof (induction as arbitrary: p)
  case (Cons a as)
  have "link heap' a = link heap a" using Cons.prems by simp
  moreover have "rlist heap' r as q \<longleftrightarrow> rlist heap r as q" for r using Cons by simp
  ultimately show ?case by (cases "heap a"; cases "heap' a") (simp_all add: link_def)
qed simp

definition first :: "'a list \<Rightarrow> 'a option" where
  "first as = (case as of [] \<Rightarrow> None | a # _ \<Rightarrow> Some a)"

lemma first_simps [simp]: "first [] = None" "first (a # as) = Some a"
  by (simp_all add: first_def)

lemma rlist_first: "rlist heap p as None \<Longrightarrow> p = first as"
  by (cases as) auto

definition cursor_at :: "addr list \<Rightarrow> rmap_cursor" where
  "cursor_at seen = (if seen = [] then At_Head else Behind (last seen))"

lemma cursor_at_snoc [simp]: "cursor_at [] = At_Head" "cursor_at (seen @ [a]) = Behind a"
  by (simp_all add: cursor_at_def)

lemma read_cursor_ok:
  assumes "rlist (h_items h) head (seen @ rest) None"
  shows "read_cursor h head (cursor_at seen) = Inr (first rest)"
proof (cases seen rule: rev_cases)
  case Nil
  then show ?thesis using assms rlist_first by (auto simp: read_cursor_def)
next
  case (snoc as a)
  then obtain it where "h_items h a = Some it" "rlist (h_items h) (hi_rmap_list it) rest None"
    using assms by (auto simp: rlist_append)
  then show ?thesis using snoc rlist_first by (auto simp: read_cursor_def)
qed

section \<open>The list of a process\<close>

definition va_of :: "(addr \<Rightarrow> ksm_rmap_item option) \<Rightarrow> addr \<Rightarrow> u64" where
  "va_of heap a = item_va (the (heap a))"

definition proc_list :: "(addr \<Rightarrow> ksm_rmap_item option) \<Rightarrow> addr option \<Rightarrow> int \<Rightarrow> addr list \<Rightarrow> bool" where
  "proc_list heap head mm as \<longleftrightarrow> rlist heap head as None \<and> distinct as \<and>
     (\<forall>a \<in> set as. \<exists>it. heap a = Some it \<and> hi_mm it = mm) \<and> sorted_wrt (<) (map (va_of heap) as)"

lemma proc_list_mm: "proc_list heap head mm as \<Longrightarrow> a \<in> set as \<Longrightarrow> \<exists>it. heap a = Some it \<and> hi_mm it = mm"
  unfolding proc_list_def by blast

text \<open>What an item says, besides its links: process, address and data.\<close>

definition ident :: "ksm_rmap_item \<Rightarrow> int \<times> u64 \<times> item_data" where
  "ident it = (hi_mm it, item_va it, hi_data it)"

definition idents :: "(addr \<Rightarrow> ksm_rmap_item option) \<Rightarrow> addr \<Rightarrow> (int \<times> u64 \<times> item_data) option" where
  "idents heap a = map_option ident (heap a)"

lemma idents_eqD:
  assumes "idents heap' a = idents heap a" "heap a = Some it"
  shows "\<exists>it'. heap' a = Some it' \<and> hi_mm it' = hi_mm it \<and> item_va it' = item_va it \<and> hi_data it' = hi_data it"
  using assms by (cases "heap' a") (auto simp: idents_def ident_def)

lemma sorted_wrt_subseq: "subseq xs ys \<Longrightarrow> sorted_wrt P ys \<Longrightarrow> sorted_wrt P xs"
  by (induction rule: list_emb.induct) (auto dest: list_emb_set)

lemma subseq_distinct: "subseq xs ys \<Longrightarrow> distinct ys \<Longrightarrow> distinct xs"
  by (induction rule: list_emb.induct) (auto dest: list_emb_set)

lemma proc_list_cong:
  assumes "proc_list heap head mm as" "rlist heap' head' bs None" "set bs \<subseteq> set as" "subseq bs as"
    and "\<And>a. a \<in> set bs \<Longrightarrow> idents heap' a = idents heap a"
  shows "proc_list heap' head' mm bs"
proof -
  have i: "\<exists>it'. heap' a = Some it' \<and> hi_mm it' = mm \<and> va_of heap' a = va_of heap a" if "a \<in> set bs" for a
  proof -
    from assms(1,3) that obtain it where "heap a = Some it" "hi_mm it = mm" by (auto simp: proc_list_def)
    then show ?thesis using idents_eqD [OF assms(5) [OF that]] by (auto simp: va_of_def)
  qed
  then have "map (va_of heap') bs = map (va_of heap) bs" by (auto simp: map_eq_conv)
  moreover have "subseq (map (va_of heap) bs) (map (va_of heap) as)" using assms(4) by (rule subseq_map)
  ultimately have "sorted_wrt (<) (map (va_of heap') bs)"
    using assms(1) by (metis proc_list_def sorted_wrt_subseq)
  moreover have "distinct bs" using assms(1,4) by (auto simp: proc_list_def dest: subseq_distinct)
  ultimately show ?thesis using assms(2) i by (fastforce simp: proc_list_def)
qed

text \<open>Nothing changes for the items of other processes.\<close>

definition others_kept :: "int \<Rightarrow> host \<Rightarrow> host \<Rightarrow> bool" where
  "others_kept mm h h' \<longleftrightarrow>
     (\<forall>a it. h_items h a = Some it \<longrightarrow> hi_mm it \<noteq> mm \<longrightarrow> (\<exists>it'. h_items h' a = Some it' \<and> core it' = core it))"

lemma others_kept_refl: "others_kept mm h h"
  by (simp add: others_kept_def)

lemma others_kept_trans: "others_kept mm h h' \<Longrightarrow> others_kept mm h' h'' \<Longrightarrow> others_kept mm h h''"
  unfolding others_kept_def core_def by fastforce

text \<open>The walk does not touch the stable nodes' frames, the counters of failures and the mode.\<close>

definition he_same :: "host \<Rightarrow> host \<Rightarrow> bool" where
  "he_same h h' \<longleftrightarrow> h_offload h' = h_offload h \<and> h_pt h' = h_pt h \<and>
     (\<exists>ls. err_log h' = err_log h @ ls \<and> (\<forall>l \<in> set ls. ev_type l = HOST_STALE_STABLE_NODE))"

lemma he_same_refl: "h_offload h' = h_offload h \<Longrightarrow> h_pt h' = h_pt h \<Longrightarrow> h_errors h' = h_errors h \<Longrightarrow> he_same h h'"
  by (simp add: he_same_def err_log_def)

lemma he_same_trans:
  assumes "he_same h h'" "he_same h' h''"
  shows "he_same h h''"
proof -
  from assms obtain ls ms where "err_log h' = err_log h @ ls" "err_log h'' = err_log h' @ ms"
    "\<forall>l \<in> set ls. ev_type l = HOST_STALE_STABLE_NODE" "\<forall>l \<in> set ms. ev_type l = HOST_STALE_STABLE_NODE"
    unfolding he_same_def by blast
  then have "err_log h'' = err_log h @ (ls @ ms)" "\<forall>l \<in> set (ls @ ms). ev_type l = HOST_STALE_STABLE_NODE" by auto
  then show ?thesis using assms unfolding he_same_def by auto
qed

lemma shrinks_he_same: "shrinks h h' \<Longrightarrow> he_same h h'"
  by (simp add: shrinks_def he_same_def)

section \<open>Writing through the cursor\<close>

lemma link_upd:
  "link (h_items (upd_item b (\<lambda>it. it\<lparr>hi_rmap_list := p\<rparr>) h)) a =
     (if a = b then map_option (\<lambda>_. p) (h_items h b) else link (h_items h) a)"
  by (simp add: link_def upd_item_def option.map_comp comp_def)

lemma idents_upd [simp]: "idents (h_items (upd_item b (\<lambda>it. it\<lparr>hi_rmap_list := p\<rparr>) h)) a = idents (h_items h) a"
  by (cases "h_items h b") (auto simp: idents_def upd_item_def ident_def item_va_def)

text \<open>
  The new link ends the part behind the cursor, and nothing else changes but this link.
\<close>

lemma write_cursor_ok:
  assumes inv: "host_inv h" and l: "proc_list (h_items h) head mm (seen @ rest)"
  shows "\<exists>h' head'. write_cursor p (cursor_at seen) (h, head) = Inr (h', head') \<and> host_inv h' \<and> h_pages h' = h_pages h \<and>
    rlist (h_items h') head' seen p \<and> (\<forall>a. idents (h_items h') a = idents (h_items h) a) \<and>
    (\<forall>a. a \<notin> set seen \<longrightarrow> h_items h' a = h_items h a) \<and> he_same h h'"
proof (cases seen rule: rev_cases)
  case Nil
  then show ?thesis using inv by (simp add: write_cursor_def he_same_refl)
next
  case (snoc as b)
  from l snoc obtain it where it: "h_items h b = Some it" "hi_mm it = mm" by (auto simp: proc_list_def)
  let ?h = "upd_item b (\<lambda>it. it\<lparr>hi_rmap_list := p\<rparr>) h"
  have "host_inv ?h"
    using host_inv_item_upd(1) [where f = "\<lambda>it. it\<lparr>hi_rmap_list := p\<rparr>", OF inv it(1)] by (simp add: is_stable_def is_unstable_def)
  moreover have "rlist (h_items ?h) head as (Some b)"
  proof -
    have "b \<notin> set as" using l snoc by (auto simp: proc_list_def)
    then have "rlist (h_items ?h) head as (Some b) \<longleftrightarrow> rlist (h_items h) head as (Some b)"
      by (intro rlist_cong) (auto simp: link_upd)
    then show ?thesis using l snoc by (auto simp: proc_list_def rlist_append)
  qed
  then have "rlist (h_items ?h) head (as @ [b]) p" using it by (auto simp: rlist_append upd_item_def)
  moreover have "write_cursor p (cursor_at seen) (h, head) = Inr (?h, head)" using snoc it by (simp add: write_cursor_def)
  moreover have "he_same h ?h" by (intro he_same_refl) (simp_all add: upd_item_def)
  moreover have "h_pages ?h = h_pages h" "\<forall>a. a \<notin> set seen \<longrightarrow> h_items ?h a = h_items h a"
    using snoc by (simp_all add: upd_item_def)
  ultimately show ?thesis using snoc idents_upd [of b p h] by blast
qed

section \<open>Dropping an item\<close>

lemma core_idents: "map_option core x = map_option core y \<Longrightarrow> map_option ident x = map_option ident y \<and> map_option hi_rmap_list x = map_option hi_rmap_list y"
  by (cases x; cases y) (simp_all add: core_def ident_def)

lemma host_inv_free:
  assumes inv: "host_inv h" and a: "h_items h a = Some it" "stable_of h a = None"
  shows "\<exists>h'. free_rmap_item a h = Inr h' \<and> host_inv h' \<and> h_items h' = (h_items h)(a := None) \<and> h_pages h' = h_pages h \<and> he_same h h'"
proof -
  note i = inv [unfolded host_inv_def]
  have l: "links_ok (h_items h) (h_nodes h)" and fin: "finite (dom (h_items h))" using i by blast+
  have ns: "\<not> is_stable it" using not_stable_item [OF inv a] .
  have na: "a \<notin> set (hn_hlist nd)" if "h_nodes h n = Some nd" for n nd using links_head [OF l that _ a(1)] ns by blast
  have "links_ok ((h_items h)(a := None)) (h_nodes h)" unfolding links_ok_def
  proof (intro conjI allI impI ballI)
    fix n nd assume n: "h_nodes h n = Some nd"
    show "node_ok nd" using links_okD(1) [OF l n] .
    fix b assume b: "b \<in> set (hn_hlist nd)"
    then have "b \<noteq> a" using na [OF n] by auto
    then show "\<exists>it. ((h_items h)(a := None)) b = Some it \<and> is_stable it \<and> hi_head it = Some n" using links_okD(2) [OF l n b] by simp
  next
    fix b it assume "((h_items h)(a := None)) b = Some it" "is_stable it"
    then show "\<exists>n nd. hi_head it = Some n \<and> h_nodes h n = Some nd \<and> b \<in> set (hn_hlist nd)"
      using links_okD(3) [OF l, of b it] by (simp split: if_splits)
  qed
  moreover have "msum (merging_w m) ((h_items h)(a := None)) = msum (merging_w m) (h_items h)" for m
    using msum_del [OF fin a(1)] ns by (simp add: merging_w_def)
  moreover have "dom ((h_items h)(a := None)) = dom (h_items h) - {a}" by simp
  ultimately have "host_inv (h\<lparr>rmap_items := rmap_items h - 1, mm_rmap_items := (mm_rmap_items h)(hi_mm it := mm_rmap_items h (hi_mm it) - 1),
      h_items := (h_items h)(a := None)\<rparr>)" using i by (simp add: host_inv_def)
  then show ?thesis using a(1) by (simp add: free_rmap_item_def he_same_def err_log_def)
qed

context host_runtime
begin

lemma drop_item_ok:
  assumes inv: "host_inv h" and calm: "calm h" and l: "proc_list (h_items h) head mm (seen @ a # rest)"
  shows "\<exists>h' head'. drop_item E (cursor_at seen) a (h, head) = Inr (h', head') \<and> host_inv h' \<and> h_pages h' = h_pages h \<and> he_same h h' \<and>
    proc_list (h_items h') head' mm (seen @ rest) \<and> others_kept mm h h' \<and> h_items h' a = None \<and>
    (\<forall>b. b \<noteq> a \<longrightarrow> idents (h_items h') b = idents (h_items h) b)"
proof -
  from l obtain it where it: "h_items h a = Some it" "hi_mm it = mm" by (auto simp: proc_list_def)
  have rl: "rlist (h_items h) (hi_rmap_list it) rest None" using l it by (auto simp: proc_list_def rlist_append)
  have d: "distinct (seen @ a # rest)" using l by (simp add: proc_list_def)
  from write_cursor_ok [OF inv l, of "hi_rmap_list it"] obtain h1 head1 where
    h1: "write_cursor (hi_rmap_list it) (cursor_at seen) (h, head) = Inr (h1, head1)" "host_inv h1" "h_pages h1 = h_pages h"
      "rlist (h_items h1) head1 seen (hi_rmap_list it)" "\<forall>b. idents (h_items h1) b = idents (h_items h) b"
      "\<forall>b. b \<notin> set seen \<longrightarrow> h_items h1 b = h_items h b" "he_same h h1" by blast
  have a1: "h_items h1 a = Some it" using h1(6) d it(1) by simp
  have "calm h1" using calm h1(3) by (simp add: calm_def)
  then obtain h2 where h2: "remove_rmap_item_from_tree E a h1 = Inr h2" "shrinks h1 h2" "stable_of h2 a = None"
    using remove_rmap_item_ok [OF h1(2) a1] by blast
  note s2 = h2(2) [unfolded shrinks_def]
  have si: "same_items h1 h2" using s2 by blast
  from same_itemsD [OF si a1] obtain it2 where it2: "h_items h2 a = Some it2" "hi_mm it2 = mm" using it(2) by (auto simp: core_def)
  from host_inv_free [OF shrinks_inv [OF h2(2)] it2(1) h2(3)] obtain h3 where
    h3: "free_rmap_item a h2 = Inr h3" "host_inv h3" "h_items h3 = (h_items h2)(a := None)" "h_pages h3 = h_pages h2" "he_same h2 h3" by blast
  have core3: "map_option core (h_items h3 b) = map_option core (h_items h1 b)" if "b \<noteq> a" for b
    using si that by (simp add: h3(3) same_items_def)
  have id3: "idents (h_items h3) b = idents (h_items h) b" if "b \<noteq> a" for b
    using core_idents [OF core3 [OF that]] h1(5) by (simp add: idents_def)
  have lk3: "link (h_items h3) b = link (h_items h1) b" if "b \<noteq> a" for b
    using core_idents [OF core3 [OF that]] by (simp add: link_def)
  have "rlist (h_items h3) head1 seen (hi_rmap_list it)"
    by (rule rlist_cong [THEN iffD2, OF _ h1(4)], rule lk3) (use d in auto)
  moreover have "link (h_items h3) b = link (h_items h) b" if "b \<in> set rest" for b
  proof -
    have "b \<noteq> a" "b \<notin> set seen" using d that by auto
    then show ?thesis using lk3 [of b] h1(6) by (simp add: link_def)
  qed
  then have "rlist (h_items h3) (hi_rmap_list it) rest None" by (rule rlist_cong [THEN iffD2, OF _ rl])
  ultimately have "rlist (h_items h3) head1 (seen @ rest) None" by (auto simp: rlist_append)
  moreover have "subseq (seen @ rest) (seen @ a # rest)" "set (seen @ rest) \<subseteq> set (seen @ a # rest)"
    by (auto intro: list_emb_append_mono)
  moreover have "idents (h_items h3) b = idents (h_items h) b" if "b \<in> set (seen @ rest)" for b
    by (rule id3) (use d that in auto)
  ultimately have "proc_list (h_items h3) head1 mm (seen @ rest)" using proc_list_cong [OF l] by blast
  moreover have "others_kept mm h h3" unfolding others_kept_def
  proof (intro allI impI)
    fix b jt assume b: "h_items h b = Some jt" "hi_mm jt \<noteq> mm"
    have "b \<notin> set (seen @ a # rest)" using proc_list_mm [OF l, of b] b by auto
    then have "h_items h1 b = Some jt" "b \<noteq> a" using h1(6) b(1) by auto
    then show "\<exists>it'. h_items h3 b = Some it' \<and> core it' = core jt" using core3 [of b] by auto
  qed
  moreover have "drop_item E (cursor_at seen) a (h, head) = Inr (h3, head1)"
    using it(1) h1(1) h2(1) h3(1) by (simp add: drop_item_def)
  moreover have "he_same h h3" using he_same_trans [OF he_same_trans [OF h1(7) shrinks_he_same [OF h2(2)]] h3(5)] .
  ultimately show ?thesis using h3(2-4) h1(3) s2 id3 by auto
qed

end

section \<open>Passing items\<close>

text \<open>Addresses compare like pages: the flags in the low bits do not matter.\<close>

lemma page_number_mask: "page_number (x AND PAGE_MASK) = page_number x"
  by (rule bit_word_eqI) (auto simp: page_number_def bit_drop_bit_eq bit_and_iff mask_bits dest: bit_imp_le_length)

lemma mask_idem [simp]: "(x AND PAGE_MASK) AND PAGE_MASK = x AND PAGE_MASK" for x :: u64
  by (simp add: and.assoc)

lemma address_less:
  assumes "va AND PAGE_MASK = va" "item_va it \<noteq> va"
  shows "va < hi_address it \<longleftrightarrow> va < item_va it"
proof
  assume "va < hi_address it"
  then have "page_number va \<le> page_number (hi_address it)"
    by (simp add: page_number_def word_le_nat_alt word_less_nat_alt drop_bit_eq_div unat_div_distrib div_le_mono)
  then have "page_number va \<le> page_number (item_va it)" by (simp add: item_va_def page_number_mask)
  then have "\<not> item_va it < va" using page_number_less [OF _ assms(1), of "item_va it"] by (auto simp: item_va_def)
  then show "va < item_va it" using assms(2) by simp
next
  assume "va < item_va it"
  also have "item_va it \<le> hi_address it" by (simp add: item_va_def word_and_le2)
  finally show "va < hi_address it" .
qed

text \<open>
  What a step of the walk does to the items: those in \<open>gone\<close> are freed, the others keep process, address and data.
\<close>

definition steps_to :: "int \<Rightarrow> addr set \<Rightarrow> host \<Rightarrow> host \<Rightarrow> bool" where
  "steps_to mm gone h h' \<longleftrightarrow> host_inv h' \<and> h_pages h' = h_pages h \<and> he_same h h' \<and> others_kept mm h h' \<and>
     (\<forall>b. b \<notin> gone \<longrightarrow> idents (h_items h') b = idents (h_items h) b)"

lemma steps_to_refl: "host_inv h \<Longrightarrow> steps_to mm {} h h"
  by (simp add: steps_to_def others_kept_refl he_same_refl)

lemma steps_to_trans: "steps_to mm A h h' \<Longrightarrow> steps_to mm B h' h'' \<Longrightarrow> steps_to mm (A \<union> B) h h''"
  unfolding steps_to_def using others_kept_trans he_same_trans by fastforce

lemma steps_to_mono: "steps_to mm A h h' \<Longrightarrow> A \<subseteq> B \<Longrightarrow> steps_to mm B h h'"
  unfolding steps_to_def by blast

lemma steps_to_calm: "steps_to mm A h h' \<Longrightarrow> calm h \<Longrightarrow> calm h'"
  by (simp add: steps_to_def calm_def)

lemma steps_to_inv: "steps_to mm A h h' \<Longrightarrow> host_inv h'"
  by (simp add: steps_to_def)

lemma steps_to_va:
  assumes "steps_to mm gone h h'" "b \<notin> gone"
  shows "va_of (h_items h') b = va_of (h_items h) b \<or> h_items h b = None \<and> h_items h' b = None"
proof -
  have "idents (h_items h') b = idents (h_items h) b" using assms by (simp add: steps_to_def)
  then show ?thesis by (cases "h_items h b"; cases "h_items h' b") (auto simp: idents_def ident_def va_of_def)
qed

context host_runtime
begin

lemma drop_item_steps:
  assumes "host_inv h" "calm h" "proc_list (h_items h) head mm (seen @ a # rest)"
  shows "\<exists>h' head'. drop_item E (cursor_at seen) a (h, head) = Inr (h', head') \<and> steps_to mm {a} h h' \<and>
    proc_list (h_items h') head' mm (seen @ rest)"
  using drop_item_ok [OF assms] unfolding steps_to_def by blast

lemma pass_items_ok:
  assumes "host_inv h" "calm h" "proc_list (h_items h) head mm (seen @ rest)" "va AND PAGE_MASK = va" "length rest < fuel"
  shows "\<exists>found h' head' gone rest'. pass_items fuel E (cursor_at seen) va (h, head) = Inr (found, h', head') \<and> rest = gone @ rest' \<and>
    steps_to mm (set gone) h h' \<and> proc_list (h_items h') head' mm (seen @ rest') \<and>
    (case found of Some a \<Rightarrow> \<exists>rs. rest' = a # rs \<and> va_of (h_items h') a = va | None \<Rightarrow> \<forall>b \<in> set rest'. va < va_of (h_items h') b)"
  using assms
proof (induction rest arbitrary: h head fuel)
  case Nil
  then obtain f where f: "fuel = Suc f" by (cases fuel) auto
  have "read_cursor h head (cursor_at seen) = Inr None"
    using read_cursor_ok [of h head seen "[]"] Nil.prems(3) by (simp add: proc_list_def)
  then have "pass_items fuel E (cursor_at seen) va (h, head) = Inr (None, h, head)" by (simp add: f)
  then show ?case using steps_to_refl [OF Nil.prems(1)] Nil.prems(3) by (intro exI [of _ None] exI [of _ "[]"] exI [of _ h] exI [of _ head]) simp
next
  case (Cons a rest)
  then obtain f where f: "fuel = Suc f" "length rest < f" by (cases fuel) auto
  have l: "proc_list (h_items h) head mm (seen @ a # rest)" using Cons.prems(3) .
  from l obtain it where it: "h_items h a = Some it" by (auto simp: proc_list_def)
  have rd: "read_cursor h head (cursor_at seen) = Inr (Some a)"
    using read_cursor_ok [of h head seen "a # rest"] l by (simp add: proc_list_def)
  consider (found) "item_va it = va" | (later) "item_va it \<noteq> va" "va < item_va it" | (pass) "item_va it \<noteq> va" "\<not> va < item_va it" by blast
  then show ?case
  proof cases
    case found
    then have "pass_items fuel E (cursor_at seen) va (h, head) = Inr (Some a, h, head)" by (simp add: f rd it)
    then show ?thesis using steps_to_refl [OF Cons.prems(1)] l it found
      by (intro exI [of _ "Some a"] exI [of _ h] exI [of _ head] exI [of _ "[]"] exI [of _ "a # rest"]) (simp add: va_of_def)
  next
    case later
    have "pass_items fuel E (cursor_at seen) va (h, head) = Inr (None, h, head)"
      using later address_less [OF Cons.prems(4) later(1)] by (simp add: f rd it)
    moreover have "\<forall>b \<in> set (a # rest). va < va_of (h_items h) b"
      using l it later(2) by (fastforce simp: proc_list_def va_of_def sorted_wrt_append)
    ultimately show ?thesis using steps_to_refl [OF Cons.prems(1)] l
      by (intro exI [of _ None] exI [of _ h] exI [of _ head] exI [of _ "[]"] exI [of _ "a # rest"]) simp
  next
    case pass
    from drop_item_steps [OF Cons.prems(1,2) l] obtain h1 head1 where
      h1: "drop_item E (cursor_at seen) a (h, head) = Inr (h1, head1)" "steps_to mm {a} h h1" "proc_list (h_items h1) head1 mm (seen @ rest)" by blast
    from Cons.IH [OF steps_to_inv [OF h1(2)] steps_to_calm [OF h1(2) Cons.prems(2)] h1(3) Cons.prems(4) f(2)] obtain found h2 head2 gone rest' where
      h2: "pass_items f E (cursor_at seen) va (h1, head1) = Inr (found, h2, head2)" "rest = gone @ rest'" "steps_to mm (set gone) h1 h2"
        "proc_list (h_items h2) head2 mm (seen @ rest')"
        "case found of Some a \<Rightarrow> \<exists>rs. rest' = a # rs \<and> va_of (h_items h2) a = va | None \<Rightarrow> \<forall>b \<in> set rest'. va < va_of (h_items h2) b" by blast
    have "pass_items fuel E (cursor_at seen) va (h, head) = Inr (found, h2, head2)"
      using pass address_less [OF Cons.prems(4) pass(1)] h1(1) h2(1) by (simp add: f(1) rd it)
    moreover have "steps_to mm (set (a # gone)) h h2" using steps_to_trans [OF h1(2) h2(3)] by simp
    moreover have "a # rest = (a # gone) @ rest'" using h2(2) by simp
    ultimately show ?thesis using h2(4,5) by blast
  qed
qed

lemma remove_trailing_ok:
  assumes "host_inv h" "calm h" "proc_list (h_items h) head mm (seen @ rest)" "length rest < fuel"
  shows "\<exists>h' head'. remove_trailing_rmap_items fuel E (cursor_at seen) (h, head) = Inr (h', head') \<and>
    steps_to mm (set rest) h h' \<and> proc_list (h_items h') head' mm seen"
  using assms
proof (induction rest arbitrary: h head fuel)
  case Nil
  then obtain f where f: "fuel = Suc f" by (cases fuel) auto
  have "read_cursor h head (cursor_at seen) = Inr None"
    using read_cursor_ok [of h head seen "[]"] Nil.prems(3) by (simp add: proc_list_def)
  then show ?case using steps_to_refl [OF Nil.prems(1)] Nil.prems(3) by (simp add: f)
next
  case (Cons a rest)
  then obtain f where f: "fuel = Suc f" "length rest < f" by (cases fuel) auto
  have rd: "read_cursor h head (cursor_at seen) = Inr (Some a)"
    using read_cursor_ok [of h head seen "a # rest"] Cons.prems(3) by (simp add: proc_list_def)
  from drop_item_steps [OF Cons.prems(1-3)] obtain h1 head1 where
    h1: "drop_item E (cursor_at seen) a (h, head) = Inr (h1, head1)" "steps_to mm {a} h h1" "proc_list (h_items h1) head1 mm (seen @ rest)" by blast
  from Cons.IH [OF steps_to_inv [OF h1(2)] steps_to_calm [OF h1(2) Cons.prems(2)] h1(3) f(2)] obtain h2 head2 where
    h2: "remove_trailing_rmap_items f E (cursor_at seen) (h1, head1) = Inr (h2, head2)" "steps_to mm (set rest) h1 h2"
      "proc_list (h_items h2) head2 mm seen" by blast
  moreover have "steps_to mm (set (a # rest)) h h2" using steps_to_trans [OF h1(2) h2(2)] by simp
  ultimately show ?case using h1(1) by (simp add: f(1) rd)
qed

end

section \<open>A new item\<close>

lemma host_inv_new_item:
  assumes inv: "host_inv h" and a: "h_items h a = None" and it: "\<not> is_stable it" "\<not> is_unstable it"
    and h': "h_items h' = (h_items h)(a \<mapsto> it)" "h_nodes h' = h_nodes h" "h_pages h' = h_pages h" "pages_shared h' = pages_shared h"
      "pages_sharing h' = pages_sharing h" "mm_merging h' = mm_merging h" "h_errors h' = h_errors h"
  shows "host_inv h'"
proof -
  note i = inv [unfolded host_inv_def]
  have l: "links_ok (h_items h) (h_nodes h)" and fin: "finite (dom (h_items h))" using i by blast+
  have "links_ok ((h_items h)(a \<mapsto> it)) (h_nodes h)" unfolding links_ok_def
  proof (intro conjI allI impI ballI)
    fix n nd assume n: "h_nodes h n = Some nd"
    show "node_ok nd" using links_okD(1) [OF l n] .
    fix b assume b: "b \<in> set (hn_hlist nd)"
    then have "b \<noteq> a" using links_okD(2) [OF l n b] a by auto
    then show "\<exists>it'. ((h_items h)(a \<mapsto> it)) b = Some it' \<and> is_stable it' \<and> hi_head it' = Some n" using links_okD(2) [OF l n b] by simp
  next
    fix b it' assume "((h_items h)(a \<mapsto> it)) b = Some it'" "is_stable it'"
    then show "\<exists>n nd. hi_head it' = Some n \<and> h_nodes h n = Some nd \<and> b \<in> set (hn_hlist nd)"
      using links_okD(3) [OF l, of b it'] it(1) by (auto split: if_splits)
  qed
  moreover have "msum (merging_w m) ((h_items h)(a \<mapsto> it)) = msum (merging_w m) (h_items h)" for m
    using msum_new [OF fin a] it(1) by (simp add: merging_w_def)
  ultimately show ?thesis using i it(2) a unfolding host_inv_def h' by simp
qed

lemma aligned_flags:
  assumes "va AND PAGE_MASK = va"
  shows "va AND STABLE_FLAG = 0" "va AND UNSTABLE_FLAG = 0"
proof -
  have z: "PAGE_MASK AND STABLE_FLAG = 0" "PAGE_MASK AND UNSTABLE_FLAG = 0"
    by (simp_all add: PAGE_MASK_def STABLE_FLAG_def UNSTABLE_FLAG_def)
  have e: "va AND f = va AND (PAGE_MASK AND f)" for f
    by (subst assms [symmetric]) (rule and.assoc)
  show "va AND STABLE_FLAG = 0" "va AND UNSTABLE_FLAG = 0" by (rule trans [OF e], simp add: z)+
qed

lemma proc_list_insert:
  assumes l: "proc_list heap head mm (seen @ rest)" and a: "heap a = None"
    and r: "rlist heap' head' (seen @ a # rest) None" and it: "heap' a = Some it" "hi_mm it = mm"
    and id: "\<And>b. b \<noteq> a \<Longrightarrow> idents heap' b = idents heap b"
    and va: "\<forall>b \<in> set seen. va_of heap b < item_va it" "\<forall>b \<in> set rest. item_va it < va_of heap b"
  shows "proc_list heap' head' mm (seen @ a # rest)"
proof -
  have "a \<noteq> b" if "b \<in> set (seen @ rest)" for b using proc_list_mm [OF l that] a by auto
  then have i: "\<exists>it'. heap' b = Some it' \<and> hi_mm it' = mm \<and> va_of heap' b = va_of heap b" if "b \<in> set (seen @ rest)" for b
    using proc_list_mm [OF l that] idents_eqD [OF id, of b] that by (fastforce simp: va_of_def)
  have v: "map (va_of heap') seen = map (va_of heap) seen" "map (va_of heap') rest = map (va_of heap) rest"
    using i by (auto simp: map_eq_conv)
  have "sorted_wrt (<) (map (va_of heap') (seen @ a # rest))"
    using l va it(1) unfolding map_append list.map v by (auto simp: proc_list_def sorted_wrt_append va_of_def)
  moreover have "distinct (seen @ a # rest)" using l a proc_list_mm [OF l, of a] by (auto simp: proc_list_def)
  ultimately show ?thesis using r i it unfolding proc_list_def by fastforce
qed

locale host_alloc = host_runtime +
  assumes new_item: "he_new_item E h = Some a \<Longrightarrow> h a = None"
begin

lemma new_item_ok:
  assumes inv: "host_inv h" and l: "proc_list (h_items h) head mm (seen @ rest)" and va: "va AND PAGE_MASK = va"
    and order: "\<forall>b \<in> set seen. va_of (h_items h) b < va" "\<forall>b \<in> set rest. va < va_of (h_items h) b"
    and a: "h_items h a = None"
    and h1: "h1 = h\<lparr>rmap_items := rmap_items h + 1, mm_rmap_items := (mm_rmap_items h)(mm := mm_rmap_items h mm + 1),
      h_items := (h_items h)(a \<mapsto> \<lparr>hi_rmap_list = first rest, hi_anon_vma = None, hi_mm = mm, hi_address = va,
        hi_data = Page_Ptr None, hi_head = None\<rparr>)\<rparr>"
  shows "\<exists>h' head'. write_cursor (Some a) (cursor_at seen) (h1, head) = Inr (h', head') \<and> steps_to mm {a} h h' \<and>
    proc_list (h_items h') head' mm (seen @ a # rest) \<and> va_of (h_items h') a = va"
proof -
  let ?it = "\<lparr>hi_rmap_list = first rest, hi_anon_vma = None, hi_mm = mm, hi_address = va, hi_data = Page_Ptr None, hi_head = None\<rparr>"
  have na: "a \<notin> set (seen @ rest)" using proc_list_mm [OF l, of a] a by auto
  have i1: "h_items h1 = (h_items h)(a \<mapsto> ?it)" "h_pages h1 = h_pages h" by (simp_all add: h1)
  have inv1: "host_inv h1"
    by (rule host_inv_new_item [OF inv a, of ?it]) (use aligned_flags [OF va] in \<open>simp_all add: h1 is_stable_def is_unstable_def\<close>)
  have lk: "link (h_items h1) b = link (h_items h) b" "idents (h_items h1) b = idents (h_items h) b" if "b \<noteq> a" for b
    using that by (simp_all add: link_def idents_def i1)
  have "rlist (h_items h1) head (seen @ rest) None \<longleftrightarrow> rlist (h_items h) head (seen @ rest) None"
    by (rule rlist_cong, rule lk) (use na in auto)
  then have "rlist (h_items h1) head (seen @ rest) None" using l by (simp add: proc_list_def)
  moreover have "idents (h_items h1) b = idents (h_items h) b" if "b \<in> set (seen @ rest)" for b by (rule lk) (use na that in auto)
  ultimately have l1: "proc_list (h_items h1) head mm (seen @ rest)" using proc_list_cong [OF l] by blast
  from write_cursor_ok [OF inv1 l1, of "Some a"] obtain h2 head2 where
    h2: "write_cursor (Some a) (cursor_at seen) (h1, head) = Inr (h2, head2)" "host_inv h2" "h_pages h2 = h_pages h1"
      "rlist (h_items h2) head2 seen (Some a)" "\<forall>b. idents (h_items h2) b = idents (h_items h1) b"
      "\<forall>b. b \<notin> set seen \<longrightarrow> h_items h2 b = h_items h1 b" "he_same h1 h2" by blast
  have a2: "h_items h2 a = Some ?it" using h2(6) na i1 by simp
  have "rlist (h_items h) (first rest) rest None" using l rlist_first by (auto simp: proc_list_def rlist_append)
  moreover have "link (h_items h2) b = link (h_items h) b" if "b \<in> set rest" for b
  proof -
    have "b \<notin> set seen" "b \<noteq> a" using l that na by (auto simp: proc_list_def)
    then show ?thesis using h2(6) by (simp add: link_def i1)
  qed
  then have "rlist (h_items h2) p rest None \<longleftrightarrow> rlist (h_items h) p rest None" for p by (rule rlist_cong)
  ultimately have "rlist (h_items h2) head2 (seen @ a # rest) None" using h2(4) a2 by (auto simp: rlist_append)
  moreover have id: "idents (h_items h2) b = idents (h_items h) b" if "b \<noteq> a" for b using h2(5) lk(2) [OF that] by simp
  ultimately have "proc_list (h_items h2) head2 mm (seen @ a # rest)"
    using proc_list_insert [where heap = "h_items h" and heap' = "h_items h2" and it = ?it and a = a, OF l a] a2 order va
    by (simp add: item_va_def)
  moreover have "others_kept mm h h2" unfolding others_kept_def
  proof (intro allI impI)
    fix b jt assume b: "h_items h b = Some jt" "hi_mm jt \<noteq> mm"
    have "b \<notin> set seen" "b \<noteq> a" using proc_list_mm [OF l, of b] b a by auto
    then show "\<exists>it'. h_items h2 b = Some it' \<and> core it' = core jt" using h2(6) b(1) by (simp add: i1)
  qed
  moreover have "he_same h h2" using he_same_trans [OF he_same_refl h2(7)] by (simp add: h1)
  ultimately have "steps_to mm {a} h h2" using h2(2,3) i1(2) id by (simp add: steps_to_def)
  then show ?thesis using h2(1) \<open>proc_list (h_items h2) head2 mm (seen @ a # rest)\<close> a2 va by (auto simp: va_of_def item_va_def)
qed

lemma get_next_rmap_item_ok:
  assumes inv: "host_inv h" and calm: "calm h" and l: "proc_list (h_items h) head mm (seen @ rest)" and va: "va AND PAGE_MASK = va"
    and order: "\<forall>b \<in> set seen. va_of (h_items h) b < va" and fuel: "length rest < fuel"
  shows "(\<exists>h' head'. get_next_rmap_item fuel E mm (cursor_at seen) va (h, head) = Inr (None, h', head') \<and> he_new_item E (h_items h') = None) \<or>
    (\<exists>a h' head' gone rest'. get_next_rmap_item fuel E mm (cursor_at seen) va (h, head) = Inr (Some a, h', head') \<and>
       length rest' \<le> length rest \<and> steps_to mm gone h h' \<and> gone \<inter> set seen = {} \<and>
       proc_list (h_items h') head' mm (seen @ a # rest') \<and> va_of (h_items h') a = va)"
proof -
  note D = get_next_rmap_item_def
  from pass_items_ok [OF inv calm l va fuel] obtain found h1 head1 gone rest1 where
    h1: "pass_items fuel E (cursor_at seen) va (h, head) = Inr (found, h1, head1)" "rest = gone @ rest1"
      "steps_to mm (set gone) h h1" "proc_list (h_items h1) head1 mm (seen @ rest1)"
      "case found of Some a \<Rightarrow> \<exists>rs. rest1 = a # rs \<and> va_of (h_items h1) a = va | None \<Rightarrow> \<forall>b \<in> set rest1. va < va_of (h_items h1) b" by blast
  have g: "set gone \<inter> set seen = {}" using l h1(2) by (auto simp: proc_list_def)
  show ?thesis
  proof (cases found)
    case (Some a)
    then obtain rs where "rest1 = a # rs" "va_of (h_items h1) a = va" using h1(5) by auto
    then show ?thesis using h1 Some g by (intro disjI2 exI [of _ a] exI [of _ h1] exI [of _ head1] exI [of _ "set gone"] exI [of _ rs]) (simp add: D)
  next
    case None
    show ?thesis
    proof (cases "he_new_item E (h_items h1)")
      case None
      then show ?thesis using h1(1) \<open>found = None\<close> by (simp add: D)
    next
      case (Some a)
      note a = new_item [OF Some]
      have v: "\<forall>b \<in> set seen. va_of (h_items h1) b < va"
      proof
        fix b assume b: "b \<in> set seen"
        then have "b \<notin> set gone" using g by auto
        from steps_to_va [OF h1(3) this] order b proc_list_mm [OF l, of b] show "va_of (h_items h1) b < va" by auto
      qed
      have rest1: "\<forall>b \<in> set rest1. va < va_of (h_items h1) b" using h1(5) \<open>found = None\<close> by simp
      have rd: "read_cursor h1 head1 (cursor_at seen) = Inr (first rest1)"
        using read_cursor_ok h1(4) by (simp add: proc_list_def)
      from new_item_ok [OF steps_to_inv [OF h1(3)] h1(4) va v rest1 a refl] obtain h2 head2 where
        h2: "write_cursor (Some a) (cursor_at seen) (h1\<lparr>rmap_items := rmap_items h1 + 1, mm_rmap_items := (mm_rmap_items h1)(mm := mm_rmap_items h1 mm + 1),
          h_items := (h_items h1)(a \<mapsto> \<lparr>hi_rmap_list = first rest1, hi_anon_vma = None, hi_mm = mm, hi_address = va,
            hi_data = Page_Ptr None, hi_head = None\<rparr>)\<rparr>, head1) = Inr (h2, head2)" "steps_to mm {a} h1 h2"
          "proc_list (h_items h2) head2 mm (seen @ a # rest1)" "va_of (h_items h2) a = va" by blast
      have "get_next_rmap_item fuel E mm (cursor_at seen) va (h, head) = Inr (Some a, h2, head2)"
        using h1(1) \<open>found = None\<close> Some rd h2(1) by (simp add: D)
      moreover have "steps_to mm (set gone \<union> {a}) h h2" using steps_to_trans [OF h1(3) h2(2)] .
      moreover have "(set gone \<union> {a}) \<inter> set seen = {}" using g h2(3) by (auto simp: proc_list_def)
      moreover have "length rest1 \<le> length rest" using h1(2) by simp
      ultimately show ?thesis using h2(3,4) by blast
    qed
  qed
qed

end

end
