(* ===== verification/Host_Apply.thy ===== *)
theory Host_Apply
  imports Host_Merge
begin

text \<open>
  What applying the log of the server does to the kernel's merging state: every entry keeps the
  invariant, a merge that succeeds makes the address map the shared frame and the item share its
  node, and a merge that fails leaves the item out of every node and is reported to the server.
\<close>

section \<open>A new node\<close>

lemma host_inv_new_node:
  assumes inv: "host_inv s" and n: "h_nodes s n = None" and nd: "node_ok nd" "hn_hlist nd = []"
    and s': "h_items s' = h_items s" "h_nodes s' = (h_nodes s)(n \<mapsto> nd)" "pages_shared s' = pages_shared s"
      "pages_sharing s' = pages_sharing s" "mm_merging s' = mm_merging s" "h_errors s' = h_errors s"
      "mapping_ok (h_pages s') (h_nodes s')"
  shows "host_inv s'"
proof -
  note i = inv [unfolded host_inv_def]
  have l: "links_ok (h_items s) (h_nodes s)" and f: "finite (dom (h_nodes s))" using i by blast+
  have "links_ok (h_items s') (h_nodes s')" unfolding s' by (rule links_node_new [OF l n nd])
  then show ?thesis using i nd(2) s'(7) unfolding host_inv_def s'(1-6)
    by (simp add: msum_new [OF f n] shared_w_def sharing_w_def)
qed

lemma mapping_ok_new: "mapping_ok pages nodes \<Longrightarrow> nodes n = None \<Longrightarrow> mapping_ok pages (nodes(n \<mapsto> nd))"
  unfolding mapping_ok_def by (metis fun_upd_apply option.distinct(1))

lemma mapping_ok_set:
  assumes "mapping_ok pages nodes" "nodes n = Some nd" "hn_kpfn nd = p" "\<not> is_stable_node_chain nd" "pg_mapping pg = Ksm_Mapping (Some n)"
  shows "mapping_ok (pages(p := pg)) nodes"
  using assms unfolding mapping_ok_def by auto

lemma chain_add_dup_core:
  "map_option node_core (h_nodes (stable_node_chain_add_dup dup c s) m) = map_option node_core (h_nodes s m)"
  by (simp add: stable_node_chain_add_dup_def upd_node_def node_core_def [abs_def] option.map_comp comp_def)

lemma chain_add_dup_inv:
  assumes "host_inv s"
  shows "host_inv (stable_node_chain_add_dup dup c s)"
  by (rule host_inv_cong [OF assms chain_add_dup_core])
    (use assms in \<open>simp_all add: host_inv_def stable_node_chain_add_dup_def upd_node_def\<close>)

definition inserted :: "u64 \<Rightarrow> host \<Rightarrow> addr \<Rightarrow> host \<Rightarrow> bool" where
  "inserted kpage s n s' \<longleftrightarrow> host_inv s' \<and> h_nodes s n = None \<and>
     (\<exists>nd. h_nodes s' n = Some nd \<and> hn_kpfn nd = kpage \<and> hn_hlist nd = [] \<and> \<not> is_stable_node_chain nd) \<and>
     h_items s' = h_items s \<and> h_pt s' = h_pt s \<and> h_errors s' = h_errors s \<and>
     (\<forall>m. h_nodes s m \<noteq> None \<longrightarrow> map_option node_core (h_nodes s' m) = map_option node_core (h_nodes s m))"

lemma inserted_cong:
  assumes "inserted kpage s n s1" "host_inv s'" "\<And>m. h_nodes s1 m \<noteq> None \<Longrightarrow> map_option node_core (h_nodes s' m) = map_option node_core (h_nodes s1 m)"
    "h_items s' = h_items s1" "h_pt s' = h_pt s1" "h_errors s' = h_errors s1"
  shows "inserted kpage s n s'"
proof -
  from assms(1) obtain nd where nd: "h_nodes s1 n = Some nd" "hn_kpfn nd = kpage" "hn_hlist nd = []" "\<not> is_stable_node_chain nd"
    by (auto simp: inserted_def)
  then obtain nd' where nd': "h_nodes s' n = Some nd'" "node_core nd' = node_core nd" using assms(3) [of n] by (cases "h_nodes s' n") auto
  have "\<exists>nd'. h_nodes s' n = Some nd' \<and> hn_kpfn nd' = kpage \<and> hn_hlist nd' = [] \<and> \<not> is_stable_node_chain nd'"
    using nd nd' node_core_eq [OF nd'(2)] by auto
  moreover have "map_option node_core (h_nodes s' m) = map_option node_core (h_nodes s m)" if "h_nodes s m \<noteq> None" for m
    using assms(1,3) that unfolding inserted_def by (metis map_option_is_None)
  ultimately show ?thesis using assms unfolding inserted_def by auto
qed

context host_runtime
begin

lemma alloc_chain_ok:
  assumes inv: "host_inv s"
  shows "alloc_stable_node_chain E dup s = (None, s) \<or>
    (\<exists>c s'. alloc_stable_node_chain E dup s = (Some c, s') \<and> host_inv s' \<and> h_nodes s c = None \<and>
      (\<forall>m. h_nodes s m \<noteq> None \<longrightarrow> map_option node_core (h_nodes s' m) = map_option node_core (h_nodes s m)) \<and>
      h_items s' = h_items s \<and> h_pt s' = h_pt s \<and> h_errors s' = h_errors s)"
proof (cases "he_new_node E (h_nodes s)")
  case None
  then show ?thesis by (simp add: alloc_stable_node_chain_def)
next
  case (Some c)
  note c = new_node [OF Some]
  let ?ch = "\<lparr>hn_hlist = [], hn_dups = [dup], hn_kpfn = 0, hn_rmap_hlist_len = STABLE_NODE_CHAIN, hn_place = Tree_Node\<rparr>"
  let ?s = "s\<lparr>h_nodes := (h_nodes s)(c \<mapsto> ?ch), h_tree := map (\<lambda>x. if x = dup then c else x) (h_tree s),
    stable_node_chains := stable_node_chains s + 1, stable_node_dups := stable_node_dups s + 1\<rparr>"
  let ?t = "upd_node dup (\<lambda>nd. nd\<lparr>hn_place := Dup_Of c\<rparr>) ?s"
  have m: "mapping_ok (h_pages s) ((h_nodes s)(c \<mapsto> ?ch))"
    by (rule mapping_ok_new) (use inv new_node [OF Some] in \<open>simp_all add: host_inv_def\<close>)
  have i: "host_inv ?s"
    by (rule host_inv_new_node [OF inv c, of ?ch]) (use m in \<open>simp_all add: node_ok_def is_stable_node_chain_def\<close>)
  have core: "map_option node_core (h_nodes ?t x) = map_option node_core (h_nodes ?s x)" for x
    by (simp add: upd_node_def node_core_def [abs_def] option.map_comp comp_def)
  have "host_inv ?t"
    by (rule host_inv_cong [OF i core]) (use i in \<open>simp_all add: host_inv_def upd_node_def\<close>)
  moreover have "alloc_stable_node_chain E dup s = (Some c, ?t)" using Some by (simp add: alloc_stable_node_chain_def Let_def)
  moreover have "map_option node_core (h_nodes ?t x) = map_option node_core (h_nodes s x)" if "h_nodes s x \<noteq> None" for x
    unfolding core using that c by auto
  ultimately show ?thesis using c by (simp add: upd_node_def)
qed

lemma stable_tree_insert_ok:
  assumes inv: "host_inv s" and slot: "\<forall>m. slot s = Some m \<longrightarrow> h_nodes s m \<noteq> None"
  shows "(\<exists>s'. stable_tree_insert E slot kpage s = Inr (None, s')) \<or>
    (\<exists>n s'. stable_tree_insert E slot kpage s = Inr (Some n, s') \<and> inserted kpage s n s')"
proof (cases "he_new_node E (h_nodes s)")
  case None
  then show ?thesis by (simp add: stable_tree_insert_def)
next
  case (Some n)
  note n = new_node [OF Some]
  let ?nd = "\<lparr>hn_hlist = [], hn_dups = [], hn_kpfn = kpage, hn_rmap_hlist_len = 0, hn_place = Tree_Node\<rparr>"
  let ?s = "set_page_stable_node kpage (Some n) (s\<lparr>h_nodes := (h_nodes s)(n \<mapsto> ?nd)\<rparr>)"
  have nd: "node_ok ?nd" "\<not> is_stable_node_chain ?nd" by (simp_all add: node_ok_def is_stable_node_chain_def STABLE_NODE_CHAIN_def)
  have "mapping_ok (h_pages s) ((h_nodes s)(n \<mapsto> ?nd))" by (rule mapping_ok_new) (use inv new_node [OF Some] in \<open>simp_all add: host_inv_def\<close>)
  from mapping_ok_set [OF this, of n ?nd kpage] nd(2) have m: "mapping_ok (h_pages ?s) (h_nodes ?s)"
    by (simp add: set_page_stable_node_def upd_page_def)
  have i: "host_inv ?s"
    by (rule host_inv_new_node [OF inv n nd(1)]) (use m in \<open>simp_all add: set_page_stable_node_def upd_page_def\<close>)
  have ins: "inserted kpage s n ?s" using i n nd unfolding inserted_def by (auto simp: set_page_stable_node_def upd_page_def)
  show ?thesis
  proof (cases "slot s")
    case None
    have "inserted kpage s n (?s\<lparr>h_tree := n # h_tree ?s\<rparr>)"
      by (rule inserted_cong [OF ins]) (use i in \<open>simp_all add: host_inv_def\<close>)
    then show ?thesis using Some None by (simp add: stable_tree_insert_def Let_def)
  next
    case (Some m)
    then obtain mnd where mn: "h_nodes ?s m = Some mnd" using slot n
      by (fastforce simp: set_page_stable_node_def upd_page_def)
    have add: "inserted kpage s n (stable_node_chain_add_dup n c t)" if "inserted kpage s n t" for c t
      using that by (intro inserted_cong [OF that chain_add_dup_inv])
        (auto simp: inserted_def node_core_def stable_node_chain_add_dup_def upd_node_def)
    from alloc_chain_ok [OF i, of m] show ?thesis
    proof (elim disjE exE conjE)
      assume "alloc_stable_node_chain E m ?s = (None, ?s)"
      then show ?thesis using \<open>he_new_node E (h_nodes s) = Some n\<close> Some mn add [OF ins]
        by (auto simp: stable_tree_insert_def Let_def)
    next
      fix c t assume c: "alloc_stable_node_chain E m ?s = (Some c, t)" "host_inv t"
        "\<forall>m. h_nodes ?s m \<noteq> None \<longrightarrow> map_option node_core (h_nodes t m) = map_option node_core (h_nodes ?s m)"
        "h_items t = h_items ?s" "h_pt t = h_pt ?s" "h_errors t = h_errors ?s"
      have "inserted kpage s n t" by (rule inserted_cong [OF ins c(2)]) (use c(3-6) in auto)
      then show ?thesis using \<open>he_new_node E (h_nodes s) = Some n\<close> Some mn c(1) add [OF ins] add
        by (auto simp: stable_tree_insert_def Let_def)
    qed
  qed
qed


text \<open>The two merges of an unstable merge: the first page becomes a KSM page, the second is replaced by it.\<close>

lemma merge_two_ok:
  assumes inv: "host_inv s" and it: "h_items s a = Some it" "h_items s b = Some jt" and out: "stable_of s a = None" "stable_of s b = None"
  shows "try_to_merge_two_pages E mts a p b q s = Inl Diverged \<or>
    (\<exists>s'. try_to_merge_two_pages E mts a p b q s = Inr (None, s') \<and> host_inv s' \<and> same_items s s' \<and>
       stable_of s' a = None \<and> stable_of s' b = None \<and> (\<forall>c. stable_of s' c = stable_of s c \<or> stable_of s' c = None)) \<or>
    (\<exists>s'. try_to_merge_two_pages E mts a p b q s = Inr (Some p, s') \<and> host_inv s' \<and> same_items s s' \<and>
       stable_of s' a = None \<and> stable_of s' b = None \<and> (\<forall>c. stable_of s' c = stable_of s c \<or> stable_of s' c = None) \<and>
       (q = p \<or> h_pt s' (hi_mm jt, item_va jt) = Some p))"
proof -
  note D = try_to_merge_two_pages_def
  have k: "\<forall>kp n. None = Some kp \<longrightarrow> pg_mapping (h_pages s kp) = Ksm_Mapping (Some n) \<longrightarrow> 0 < pg_count (h_pages s kp)" by simp
  from merge_with_ok [OF inv it(1) k, of "fst mts" p] show ?thesis
  proof (elim disjE exE conjE)
    assume "try_to_merge_with_ksm_page E (fst mts) a p None s = Inl Diverged"
    then show ?thesis by (simp add: D)
  next
    fix s1 assume s1: "try_to_merge_with_ksm_page E (fst mts) a p None s = Inr (False, s1)" "only_pages s s1"
    then show ?thesis using only_pages_inv [OF inv s1(2)] only_pages_stable [OF s1(2)] out by (simp add: D)
  next
    fix t s1 assume s1: "try_to_merge_with_ksm_page E (fst mts) a p None s = Inr (True, s1)" "only_pages s t" "shrinks t s1"
      "stable_of s1 a = None" "try_to_merge_one_page (fst mts) (hi_mm it, item_va it) p None s = (True, t)"
    note h1 = s1(3) [unfolded shrinks_def]
    have si1: "same_items s s1" using only_pages_stable [OF s1(2)] h1 same_items_trans by blast
    have st1: "stable_of s1 c = stable_of s c \<or> stable_of s1 c = None" for c using h1 only_pages_stable [OF s1(2)] by metis
    from same_itemsD [OF si1 it(2)] obtain jt1 where jt1: "h_items s1 b = Some jt1" "core jt1 = core jt" by blast
    have "pg_mapping (h_pages s1 p) = Ksm_Mapping None" using try_to_merge_one_page_ok(5) [OF s1(5) k refl] h1 by simp
    then have k1: "\<forall>kp n. Some p = Some kp \<longrightarrow> pg_mapping (h_pages s1 kp) = Ksm_Mapping (Some n) \<longrightarrow> 0 < pg_count (h_pages s1 kp)"
      by simp
    from merge_with_ok [OF shrinks_inv [OF s1(3)] jt1(1) k1, of "snd mts" q] show ?thesis
    proof (elim disjE exE conjE)
      assume "try_to_merge_with_ksm_page E (snd mts) b q (Some p) s1 = Inl Diverged"
      then show ?thesis using s1(1) by (simp add: D)
    next
      fix s2 assume s2: "try_to_merge_with_ksm_page E (snd mts) b q (Some p) s1 = Inr (False, s2)" "only_pages s1 s2"
      obtain it2 where "h_items s2 a = Some it2" using same_itemsD [OF si1 it(1)] s2(2) by (auto simp: only_pages_def)
      then obtain s3 where s3: "break_cow (fst mts) a p s2 = Inr s3" "only_pages s2 s3"
        by (cases "mt_break (fst mts)") (auto simp: break_cow_def only_pages_def pages_step_def upd_page_def)
      have "host_inv s3" using only_pages_inv [OF only_pages_inv [OF shrinks_inv [OF s1(3)] s2(2)] s3(2)] .
      moreover have "stable_of s3 = stable_of s1" "same_items s1 s3"
        using only_pages_stable [OF s2(2)] only_pages_stable [OF s3(2)] same_items_trans by auto
      moreover have "try_to_merge_two_pages E mts a p b q s = Inr (None, s3)" using s1(1) s2(1) s3(1) by (simp add: D)
      moreover have "stable_of s1 b = None" using st1 [of b] out by simp
      ultimately show ?thesis using st1 s1(4) si1 same_items_trans by auto
    next
      fix t2 s2 assume s2: "try_to_merge_with_ksm_page E (snd mts) b q (Some p) s1 = Inr (True, s2)" "only_pages s1 t2" "shrinks t2 s2"
        "stable_of s2 b = None" "try_to_merge_one_page (snd mts) (hi_mm jt1, item_va jt1) q (Some p) s1 = (True, t2)"
      note h2 = s2(3) [unfolded shrinks_def]
      have pt: "q = p \<or> h_pt s2 (hi_mm jt, item_va jt) = Some p"
        using try_to_merge_one_page_ok(4) [OF s2(5) k1 refl TrueI] jt1(2) h2 by (simp add: core_def)
      have st2: "stable_of s2 c = stable_of s1 c \<or> stable_of s2 c = None" for c using h2 only_pages_stable [OF s2(2)] by metis
      have "same_items s1 s2" using only_pages_stable [OF s2(2)] h2 same_items_trans by blast
      then have "same_items s s2" using si1 same_items_trans by blast
      moreover have "try_to_merge_two_pages E mts a p b q s = Inr (Some p, s2)" using s1(1) s2(1) by (simp add: D)
      moreover have "stable_of s2 a = None" using st2 [of a] s1(4) by auto
      moreover have "stable_of s2 c = stable_of s c \<or> stable_of s2 c = None" for c using st2 [of c] st1 [of c] by auto
      ultimately have "try_to_merge_two_pages E mts a p b q s = Inr (Some p, s2) \<and> host_inv s2 \<and> same_items s s2 \<and>
         stable_of s2 a = None \<and> stable_of s2 b = None \<and> (\<forall>c. stable_of s2 c = stable_of s c \<or> stable_of s2 c = None) \<and>
         (q = p \<or> h_pt s2 (hi_mm jt, item_va jt) = Some p)" using pt s2(4) shrinks_inv [OF s2(3)] by blast
      then show ?thesis by (rule disjI2 [OF disjI2 [OF exI]])
    qed
  qed
qed


text \<open>The node for the shared frame and the two items that share it.\<close>

lemma insert_both_ok:
  assumes inv: "host_inv s" and slot: "\<forall>m. slot s = Some m \<longrightarrow> h_nodes s m \<noteq> None" and ab: "a \<noteq> b"
    and it: "h_items s a = Some it" "h_items s b = Some jt" and out: "stable_of s a = None" "stable_of s b = None"
  shows "(\<exists>s'. stable_tree_insert E slot kpage s = Inr (None, s')) \<or>
    (\<exists>n s1 s2 s3. stable_tree_insert E slot kpage s = Inr (Some n, s1) \<and> stable_tree_append b n s1 = Inr s2 \<and>
       stable_tree_append a n s2 = Inr s3 \<and> host_inv s3 \<and> same_items s s3 \<and> h_pt s3 = h_pt s \<and>
       (\<forall>c. stable_of s3 c = (if c = a \<or> c = b then Some n else stable_of s c)) \<and> map_option hn_kpfn (h_nodes s3 n) = Some kpage)"
  using stable_tree_insert_ok [where slot = slot and kpage = kpage, OF inv slot]
proof (elim disjE exE conjE)
  fix n s1 assume s1: "stable_tree_insert E slot kpage s = Inr (Some n, s1)" "inserted kpage s n s1"
  note i1 = s1(2) [unfolded inserted_def]
  from i1 obtain nd where nd: "h_nodes s1 n = Some nd" "hn_kpfn nd = kpage" "\<not> is_stable_node_chain nd" by blast
  have st1: "stable_of s1 = stable_of s" "same_items s s1" using i1 by (simp_all add: stable_of_def fun_eq_iff same_items_def)
  obtain jt1 where jt1: "h_items s1 b = Some jt1" using same_itemsD [OF st1(2) it(2)] by blast
  have "host_inv s1" "stable_of s1 b = None" using i1 st1(1) out(2) by auto
  from stable_tree_append_ok [OF this(1) jt1 this(2) nd(1,3)] obtain s2 nd2 where
    s2: "stable_tree_append b n s1 = Inr s2" "host_inv s2" "same_items s1 s2" "h_pt s2 = h_pt s1"
    "\<forall>c. stable_of s2 c = (if c = b then Some n else stable_of s1 c)"
    "\<forall>m. map_option hn_kpfn (h_nodes s2 m) = map_option hn_kpfn (h_nodes s1 m)"
    "h_nodes s2 n = Some nd2" "\<not> is_stable_node_chain nd2" by blast
  have si2: "same_items s s2" using st1(2) s2(3) same_items_trans by blast
  obtain it2 where it2: "h_items s2 a = Some it2" using same_itemsD [OF si2 it(1)] by blast
  have "stable_of s2 a = None" using s2(5) ab st1(1) out(1) by simp
  from stable_tree_append_ok [OF s2(2) it2 this s2(7,8)] obtain s3 where s3: "stable_tree_append a n s2 = Inr s3" "host_inv s3"
    "same_items s2 s3" "h_pt s3 = h_pt s2" "\<forall>c. stable_of s3 c = (if c = a then Some n else stable_of s2 c)"
    "\<forall>m. map_option hn_kpfn (h_nodes s3 m) = map_option hn_kpfn (h_nodes s2 m)" by blast
  have "same_items s s3" using si2 s3(3) same_items_trans by blast
  moreover have "h_pt s3 = h_pt s" using i1 s2(4) s3(4) by simp
  moreover have "\<forall>c. stable_of s3 c = (if c = a \<or> c = b then Some n else stable_of s c)" using s3(5) s2(5) st1(1) by simp
  moreover have "map_option hn_kpfn (h_nodes s3 n) = Some kpage" using s3(6) s2(6) nd(1,2) by simp
  ultimately show ?thesis using s1(1) s2(1) s3(1,2) by blast
qed blast

text \<open>
  An entry for an unstable merge of two items. Both end up sharing a new node for the frame of the
  first, which the address of the second then maps; or neither shares a node, and the entry is
  reported.
\<close>

lemma apply_unstable_merge_ok:
  assumes inv: "host_inv s" and ab: "a \<noteq> b" and it: "h_items s a = Some it" "h_items s b = Some jt"
    and page: "hi_data it = Page_Ptr (Some p)" "hi_data jt = Page_Ptr (Some q)"
    and slot: "\<forall>t m. et_slot w t = Some m \<longrightarrow> h_nodes t m \<noteq> None"
  shows "apply_unstable_merge E w e (Some a) (Some b) s = Inl Diverged \<or>
    apply_unstable_merge E w e (Some a) (Some b) s = Inl (Stopped ''Failed to insert stable node in UNSTABLE_MERGE'') \<or>
    (\<exists>s'. apply_unstable_merge E w e (Some a) (Some b) s = Inr s' \<and> host_inv s' \<and> same_items s s' \<and>
       (\<forall>c. c \<noteq> a \<longrightarrow> c \<noteq> b \<longrightarrow> stable_of s' c = stable_of s c \<or> stable_of s' c = None) \<and>
       ((\<exists>n. stable_of s' a = Some n \<and> shares b (hi_mm jt, item_va jt) q n p s') \<or>
        stable_of s' a = None \<and> stable_of s' b = None \<and>
          reported E (e\<lparr>ev_type := HOST_MERGE_TWO_FAILED\<rparr>) s'))"
proof -
  note D = apply_unstable_merge_def
  from remove_rmap_item_ok [OF inv it(1)] consider "remove_rmap_item_from_tree E a s = Inl Diverged"
    | s1 where "remove_rmap_item_from_tree E a s = Inr s1" "shrinks s s1" "stable_of s1 a = None" by blast
  then show ?thesis
  proof cases
    case 1
    then show ?thesis by (simp add: D need_def)
  next
    case r1: (2 s1)
    note h1 = r1(2) [unfolded shrinks_def]
    from h1 it(2) obtain jt1 where jt1: "h_items s1 b = Some jt1" "core jt1 = core jt" using same_itemsD by blast
    from remove_rmap_item_ok [OF shrinks_inv [OF r1(2)] jt1(1)] consider "remove_rmap_item_from_tree E b s1 = Inl Diverged"
      | s2 where "remove_rmap_item_from_tree E b s1 = Inr s2" "shrinks s1 s2" "stable_of s2 b = None" by blast
    then show ?thesis
    proof cases
      case 1
      then show ?thesis using r1(1) by (simp add: D need_def)
    next
      case r2: (2 s2)
      have sh: "shrinks s s2" using shrinks_trans [OF r1(2) r2(2)] .
      note h2 = sh [unfolded shrinks_def]
      have "stable_of s2 a = None" using r2(2) r1(3) unfolding shrinks_def by metis
      note out = this r2(3)
      from h2 it obtain it2 jt2 where it2: "h_items s2 a = Some it2" "core it2 = core it" "h_items s2 b = Some jt2" "core jt2 = core jt"
        using same_itemsD by metis
      have pages: "page_of a s2 = Inr p" "page_of b s2 = Inr q" using it2 page by (simp_all add: page_of_def core_def need_def)
      have eq: "apply_unstable_merge E w e (Some a) (Some b) s = rbind (try_to_merge_two_pages E (et_merges w) a p b q s2) (\<lambda>(kpage, s).
          case kpage of
            Some kpage \<Rightarrow> rbind (stable_tree_insert E (et_slot w) kpage s) (\<lambda>(n, s).
              case n of None \<Rightarrow> Inl (Stopped ''Failed to insert stable node in UNSTABLE_MERGE'')
              | Some n \<Rightarrow> rbind (stable_tree_append b n s) (stable_tree_append a n))
          | None \<Rightarrow> report_error E HOST_MERGE_TWO_FAILED e
              (if et_split w then upd_page p (\<lambda>pg. pg\<lparr>pg_compound := False\<rparr>) s else s))"
        using r1(1) r2(1) pages by (simp add: D need_def)
      from merge_two_ok [OF shrinks_inv [OF sh] it2(1,3) out, of "et_merges w" p q] consider
        "try_to_merge_two_pages E (et_merges w) a p b q s2 = Inl Diverged"
        | s3 where "try_to_merge_two_pages E (et_merges w) a p b q s2 = Inr (None, s3)" "host_inv s3" "same_items s2 s3"
          "stable_of s3 a = None" "stable_of s3 b = None" "\<forall>c. stable_of s3 c = stable_of s2 c \<or> stable_of s3 c = None"
        | s3 where "try_to_merge_two_pages E (et_merges w) a p b q s2 = Inr (Some p, s3)" "host_inv s3" "same_items s2 s3"
          "stable_of s3 a = None" "stable_of s3 b = None" "\<forall>c. stable_of s3 c = stable_of s2 c \<or> stable_of s3 c = None"
          "q = p \<or> h_pt s3 (hi_mm jt2, item_va jt2) = Some p" by blast
      then show ?thesis
      proof cases
        case 1
        then show ?thesis unfolding eq by simp
      next
        case s3: (2 s3)
        let ?u = "if et_split w then upd_page p (\<lambda>pg. pg\<lparr>pg_compound := False\<rparr>) s3 else s3"
        have u: "only_pages s3 ?u" by (auto simp: only_pages_def pages_step_def upd_page_def)
        from report_error_ok [OF only_pages_inv [OF s3(2) u], of HOST_MERGE_TWO_FAILED e] obtain s4 where
          s4: "report_error E HOST_MERGE_TWO_FAILED e ?u = Inr s4" "host_inv s4" "h_items s4 = h_items ?u" "stable_of s4 = stable_of ?u"
            "err_log s4 = err_log ?u @ [e\<lparr>ev_type := HOST_MERGE_TWO_FAILED\<rparr>] \<or> s4 = ?u \<and> \<not> al_block (he_alloc E (h_errors ?u))" by blast
        have "stable_of s4 = stable_of s3" using s4(4) only_pages_stable [OF u] by simp
        moreover have "h_items s4 = h_items s3" using s4(3) u by (simp add: only_pages_def)
        then have "same_items s s4" using h2 s3(3) by (simp add: same_items_def)
        moreover have "stable_of s3 c = stable_of s c \<or> stable_of s3 c = None" for c using s3(6) h2 by metis
        moreover have "apply_unstable_merge E w e (Some a) (Some b) s = Inr s4" unfolding eq s3(1) using s4(1) by simp
        ultimately show ?thesis using s3(4,5) s4(2,5) by (intro disjI2 exI [of _ s4]) (auto simp: reported_def)
      next
        case s3: (3 s3)
        from insert_both_ok [where slot = "et_slot w" and kpage = p, OF s3(2) slot [THEN spec] ab _ _ s3(4,5)]
          same_itemsD [OF s3(3) it2(1)] same_itemsD [OF s3(3) it2(3)]
        have "stable_tree_insert E (et_slot w) p s3 \<in> {Inr (None, s4) | s4. True} \<or>
          (\<exists>n s4 s5 s6. stable_tree_insert E (et_slot w) p s3 = Inr (Some n, s4) \<and> stable_tree_append b n s4 = Inr s5 \<and>
             stable_tree_append a n s5 = Inr s6 \<and> host_inv s6 \<and> same_items s3 s6 \<and> h_pt s6 = h_pt s3 \<and>
             (\<forall>c. stable_of s6 c = (if c = a \<or> c = b then Some n else stable_of s3 c)) \<and> map_option hn_kpfn (h_nodes s6 n) = Some p)"
          by blast
        then show ?thesis
        proof (elim disjE exE conjE)
          assume "stable_tree_insert E (et_slot w) p s3 \<in> {Inr (None, s4) | s4. True}"
          then show ?thesis unfolding eq s3(1) by auto
        next
          fix n s4 s5 s6 assume s6: "stable_tree_insert E (et_slot w) p s3 = Inr (Some n, s4)" "stable_tree_append b n s4 = Inr s5"
            "stable_tree_append a n s5 = Inr s6" "host_inv s6" "same_items s3 s6" "h_pt s6 = h_pt s3"
            "\<forall>c. stable_of s6 c = (if c = a \<or> c = b then Some n else stable_of s3 c)" "map_option hn_kpfn (h_nodes s6 n) = Some p"
          have "apply_unstable_merge E w e (Some a) (Some b) s = Inr s6" unfolding eq s3(1) using s6(1-3) by simp
          moreover have "same_items s s6" using h2 s3(3) s6(5) same_items_trans by blast
          moreover have "stable_of s3 c = stable_of s c \<or> stable_of s3 c = None" for c using s3(6) h2 by metis
          then have "\<forall>c. c \<noteq> a \<longrightarrow> c \<noteq> b \<longrightarrow> stable_of s6 c = stable_of s c \<or> stable_of s6 c = None" using s6(7) by simp
          moreover have "q = p \<or> h_pt s6 (hi_mm jt, item_va jt) = Some p" using s3(7) s6(6) it2(4) by (simp add: core_def)
          then have "stable_of s6 a = Some n" "shares b (hi_mm jt, item_va jt) q n p s6" using s6(7,8) by (simp_all add: shares_def)
          ultimately show ?thesis using s6(4) by blast
        qed
      qed
    qed
  qed
qed

text \<open>An entry for a stale node: the node and all its items leave the stable tree.\<close>

lemma apply_stale_node_ok:
  assumes inv: "host_inv s" and it: "h_items s a = Some it" "hi_head it = Some n"
  shows "\<forall>s'. apply_stale_node E e (Some a) s = Inr s' \<longrightarrow> host_inv s' \<and> same_items s s' \<and>
    (\<forall>b. stable_of s' b = (if stable_of s b = Some n then None else stable_of s b))"
proof (intro allI impI)
  fix s' assume r: "apply_stale_node E e (Some a) s = Inr s'"
  then obtain nd where nd: "h_nodes s n = Some nd" using it by (auto simp: apply_stale_node_def deref_def rbind_eq_Inr split: option.splits)
  have nc: "\<not> is_stable_node_chain nd"
    using get_ksm_page_chain [OF inv nd, of GET_KSM_PAGE_LOCK] r it nd by (auto simp: apply_stale_node_def rbind_eq_Inr)
  let ?k = "hn_kpfn nd"
  let ?g = "set_page_stable_node ?k None (get_page ?k s)"
  from get_ksm_page_ok [OF inv nd nc, of GET_KSM_PAGE_LOCK] r it nd
  have m: "pg_mapping (h_pages s ?k) = Ksm_Mapping (Some n)" "0 < pg_count (h_pages s ?k)"
    and get: "get_ksm_page E GET_KSM_PAGE_LOCK n s = Inr (Ksm_Page ?k, get_page ?k s)"
    by (auto simp: apply_stale_node_def rbind_eq_Inr)
  have op: "only_pages s ?g" by (auto simp: only_pages_def pages_step_def get_page_def upd_page_def set_page_stable_node_def m)
  have un: "pg_count (h_pages ?g p) = 0" if "pg_mapping (h_pages ?g p) = Ksm_Mapping (Some n)" for p
  proof (rule ccontr)
    assume c: "pg_count (h_pages ?g p) \<noteq> 0"
    have "p \<noteq> ?k" using that by (auto simp: get_page_def upd_page_def set_page_stable_node_def)
    moreover from this that c have "pg_mapping (h_pages s p) = Ksm_Mapping (Some n)" "0 < pg_count (h_pages s p)"
      by (simp_all add: get_page_def upd_page_def set_page_stable_node_def)
    then have "?k = p" using inv nd unfolding host_inv_def mapping_ok_def by fastforce
    ultimately show False by simp
  qed
  have "h_nodes ?g n = Some nd" using nd by (simp add: get_page_def upd_page_def set_page_stable_node_def)
  from remove_node_ok [OF only_pages_inv [OF inv op] this nc un] obtain s1 where
    s1: "remove_node_from_stable_tree n ?g = Inr s1" "host_inv s1" "same_items ?g s1"
      "\<forall>a. stable_of s1 a = (if stable_of ?g a = Some n then None else stable_of ?g a)" by blast
  have s': "s' = put_page ?k s1" using r it nd get s1(1) by (auto simp: apply_stale_node_def rbind_eq_Inr guard_stop_def split: if_splits)
  note put = put_page_ok [OF s1(2), of ?k]
  have "same_items s s'" using only_pages_stable [OF op] s1(3) put(8) same_items_trans s' by blast
  moreover have "\<forall>b. stable_of s' b = (if stable_of s b = Some n then None else stable_of s b)"
    using s1(4) put(2) s' only_pages_stable [OF op] by simp
  ultimately show "host_inv s' \<and> same_items s s' \<and> (\<forall>b. stable_of s' b = (if stable_of s b = Some n then None else stable_of s b))"
    using put(1) s' by blast
qed

lemma apply_state_change_ok:
  assumes "host_inv s" "apply_state_change E (Some a) s = Inr s'"
  shows "shrinks s s' \<and> stable_of s' a = None"
proof -
  from assms(2) obtain it where it: "h_items s a = Some it" "remove_rmap_item_from_tree E a s = Inr s'"
    by (auto simp: apply_state_change_def deref_def rbind_eq_Inr split: option.splits)
  from remove_rmap_item_ok [OF assms(1) it(1)] it(2) show ?thesis by auto
qed

lemma stable_merge_page:
  assumes inv: "host_inv s" and Some: "page_stable_node (h_pages s (stable_merge_kpfn e)) = Some n"
    and r: "apply_stable_merge E mt e (Some a) s = Inr s'"
  shows "\<exists>k. pg_mapping (h_pages s k) = Ksm_Mapping (Some n) \<and> 0 < pg_count (h_pages s k) \<and>
    (\<forall>nd. h_nodes s n = Some nd \<longrightarrow> hn_rmap_hlist_len nd \<noteq> he_max_page_sharing E)"
proof -
  note D = r [unfolded apply_stable_merge_def, simplified Some, simplified]
  obtain nd where nd: "h_nodes s n = Some nd" using D by (cases "h_nodes s n") (simp_all add: deref_def)
  have room: "hn_rmap_hlist_len nd \<noteq> he_max_page_sharing E"
    by (rule ccontr) (use D nd in \<open>simp add: guard_stop_def\<close>)
  obtain kpfn t where get: "get_ksm_page E GET_KSM_PAGE_NOLOCK n s = Inr (Ksm_Page kpfn, t)"
  proof (cases "get_ksm_page E GET_KSM_PAGE_NOLOCK n s")
    case (Inr x)
    then show ?thesis using D nd room that by (cases x; cases "fst x") simp_all
  qed (use D nd room in simp)
  have nc: "\<not> is_stable_node_chain nd" using get_ksm_page_chain [OF inv nd, of GET_KSM_PAGE_NOLOCK] get by auto
  from get_ksm_page_ok [OF inv nd nc, of GET_KSM_PAGE_NOLOCK] get
  have m: "pg_mapping (h_pages s (hn_kpfn nd)) = Ksm_Mapping (Some n)" "0 < pg_count (h_pages s (hn_kpfn nd))" by auto
  then show ?thesis using nd room by auto
qed

lemma stable_merge_keeps:
  assumes inv: "host_inv s" and it: "h_items s a = Some it" and page: "hi_data it = Page_Ptr (Some p)"
    and r: "apply_stable_merge E mt e (Some a) s = Inr s'"
  shows "host_inv s' \<and> same_items s s'"
proof (cases "page_stable_node (h_pages s (stable_merge_kpfn e))")
  case None
  then show ?thesis using r inv by (simp add: apply_stable_merge_def)
next
  case (Some n)
  from stable_merge_page [OF inv Some r] obtain k where
    k: "pg_mapping (h_pages s k) = Ksm_Mapping (Some n)" "0 < pg_count (h_pages s k)"
      "\<forall>nd. h_nodes s n = Some nd \<longrightarrow> hn_rmap_hlist_len nd \<noteq> he_max_page_sharing E" by blast
  from apply_stable_merge_ok [OF inv it page Some k, of mt] r show ?thesis by auto
qed

lemma apply_entry_keeps:
  assumes inv: "host_inv s" and fits: "entry_fits XA mms s e" and slot: "\<forall>t m. et_slot w t = Some m \<longrightarrow> h_nodes t m \<noteq> None"
    and r: "apply_entry E XA mms w e s = Inr s'"
  shows "host_inv s' \<and> same_items s s'"
proof (cases "ev_type e")
  case DPU_STABLE_MERGE
  with fits obtain a it p where a: "lookup_item XA mms (stable_merge_from_mm_id e) (stable_merge_from_va e) = Inr (Some a)"
    "h_items s a = Some it" "hi_data it = Page_Ptr (Some p)" by (auto simp: entry_fits_def item_at_def)
  then have "apply_stable_merge E (fst (et_merges w)) e (Some a) s = Inr s'" using r DPU_STABLE_MERGE by (simp add: apply_entry_def)
  then show ?thesis using stable_merge_keeps [OF inv a(2,3)] by blast
next
  case DPU_UNSTABLE_MERGE
  with fits obtain a it p b jt q where a: "lookup_item XA mms (unstable_merge_from_mm_id e) (unstable_merge_from_va e) = Inr (Some a)"
    "h_items s a = Some it" "hi_data it = Page_Ptr (Some p)"
    and b: "lookup_item XA mms (unstable_merge_to_mm_id e) (unstable_merge_to_va e) = Inr (Some b)"
    "h_items s b = Some jt" "hi_data jt = Page_Ptr (Some q)" "a \<noteq> b" by (auto simp: entry_fits_def item_at_def)
  then have "apply_unstable_merge E w e (Some a) (Some b) s = Inr s'"
    using r DPU_UNSTABLE_MERGE by (auto simp: apply_entry_def guard_stop_def rbind_eq_Inr split: if_split_asm)
  then show ?thesis using apply_unstable_merge_ok [OF inv b(4) a(2) b(2) a(3) b(3) slot, of e] by auto
next
  case DPU_STALE_STABLE_NODE
  with r obtain to where "apply_stale_node E e to s = Inr s'" by (auto simp: apply_entry_def rbind_eq_Inr)
  then obtain a it n where "apply_stale_node E e (Some a) s = Inr s'" "h_items s a = Some it" "hi_head it = Some n"
    by (auto simp: apply_stale_node_def deref_def rbind_eq_Inr split: option.split_asm)
  then show ?thesis using apply_stale_node_ok [OF inv] by blast
next
  case DPU_ITEM_STATE_CHANGE
  with r obtain to where "apply_state_change E to s = Inr s'" by (auto simp: apply_entry_def rbind_eq_Inr)
  moreover from this obtain a where "to = Some a" by (auto simp: apply_state_change_def split: option.split_asm)
  ultimately show ?thesis using apply_state_change_ok [OF inv] by (auto simp: shrinks_def)
qed (use r in \<open>simp_all add: apply_entry_def\<close>)

lemma entry_fits_same: "same_items s s' \<Longrightarrow> entry_fits XA mms s e \<Longrightarrow> entry_fits XA mms s' e"
  unfolding entry_fits_def using item_at_same by (cases "ev_type e") (simp_all, blast+)

lemma apply_entries_keep:
  assumes "host_inv s" "\<forall>x \<in> set es. entry_fits XA mms s (snd x)" "\<forall>i t m. et_slot (ws i) t = Some m \<longrightarrow> h_nodes t m \<noteq> None"
    and "rfold (\<lambda>(i, e). apply_entry E XA mms (ws i) e) es s = Inr s'"
  shows "host_inv s' \<and> same_items s s'"
  using assms
proof (induction es arbitrary: s)
  case (Cons ie es)
  obtain i e where ie: "ie = (i, e)" by (cases ie)
  from Cons.prems(4) ie obtain s1 where s1: "apply_entry E XA mms (ws i) e s = Inr s1"
    "rfold (\<lambda>(i, e). apply_entry E XA mms (ws i) e) es s1 = Inr s'" by (auto simp: rbind_eq_Inr)
  have k: "host_inv s1" "same_items s s1"
    using apply_entry_keeps [OF Cons.prems(1) _ _ s1(1)] Cons.prems(2,3) ie by auto
  have "\<forall>x \<in> set es. entry_fits XA mms s1 (snd x)" using Cons.prems(2) entry_fits_same [OF k(2)] by auto
  from Cons.IH [OF k(1) this Cons.prems(3) s1(2)] show ?case using k(2) same_items_trans by blast
qed simp

end

end
