(* ===== verification/Host_Properties.thy ===== *)
theory Host_Properties
  imports Host_Apply Server_Properties
begin

text \<open>
  The properties of applying a log on the host, and how they fit the server: merges, accounting,
  reports and what the server makes of them.
\<close>

section \<open>An allocator\<close>

text \<open>
  A provider for the environment: slab caches that hand out the lowest free address below \<open>cap\<close>,
  and memory for the error table as long as it has fewer than \<open>room\<close> entries.
\<close>

definition slab_env :: "nat \<Rightarrow> nat \<Rightarrow> int \<Rightarrow> bool \<Rightarrow> ksm_event_log \<Rightarrow> host_env" where
  "slab_env cap room max_sharing zero_pages junk =
     \<lparr>he_alloc = (\<lambda>t. (let ok = ht_cnt (er_entries t) < room in \<lparr>al_block = ok, al_ptrs = ok\<rparr>)), he_junk = junk,
      he_new_node = (\<lambda>h. find (\<lambda>a. h a = None) [1..<cap]),
      he_new_item = (\<lambda>h. find (\<lambda>a. h a = None) [1..<cap]),
      he_max_page_sharing = max_sharing, he_use_zero_pages = zero_pages\<rparr>"

interpretation slab: host_runtime "slab_env cap room max_sharing zero_pages junk"
  for cap room max_sharing zero_pages junk
  by unfold_locales (auto simp: slab_env_def Let_def find_Some_iff)

section \<open>A sample state\<close>

definition sample_log :: ksm_event_log where
  "sample_log = \<lparr>ev_type = DPU_STABLE_MERGE, ev_w0 = 0x1000, ev_w1 = 16, ev_i0 = 1, ev_i1 = 0\<rparr>"

definition sample_host_item :: "int \<Rightarrow> u64 \<Rightarrow> ksm_rmap_item" where
  "sample_host_item mm p = \<lparr>hi_rmap_list = None, hi_anon_vma = None, hi_mm = mm, hi_address = 0x1000,
     hi_data = Page_Ptr (Some p), hi_head = None\<rparr>"

definition anon_page :: host_page where
  "anon_page = \<lparr>pg_mapping = Anon_Mapping, pg_count = 1, pg_mapcount = 1, pg_swapcache = False, pg_locked = False, pg_compound = False\<rparr>"

text \<open>Two processes with one page each, frames 7 and 16.\<close>

definition sample_host :: host where
  "sample_host = \<lparr>h_items = [1 \<mapsto> sample_host_item 1 7, 2 \<mapsto> sample_host_item 2 16], h_nodes = Map.empty,
     h_pages = (\<lambda>_. anon_page), h_pt = [(1, 0x1000) \<mapsto> 7, (2, 0x1000) \<mapsto> 16], h_tree = [], h_migrate = [], h_unstable = [],
     h_seqnr = 0, pages_shared = 0, pages_sharing = 0, pages_unshared = 0, rmap_items = 2, mm_merging = (\<lambda>_. 0),
     mm_rmap_items = (\<lambda>_. 1), stable_node_chains = 0, stable_node_dups = 0, fail_reason_cnts = (\<lambda>_. 0), h_offload = True,
     h_errors = the (create_error_table (True, True, True) sample_log 0)\<rparr>"

text \<open>The same, with the second page in the stable tree.\<close>

definition sample_host_shared :: host where
  "sample_host_shared = sample_host\<lparr>
     h_items := (h_items sample_host)(2 \<mapsto> (sample_host_item 2 16)\<lparr>hi_address := 0x1000 OR STABLE_FLAG, hi_head := Some 5\<rparr>),
     h_nodes := [5 \<mapsto> \<lparr>hn_hlist = [2], hn_dups = [], hn_kpfn = 16, hn_rmap_hlist_len = 1, hn_place = Tree_Node\<rparr>],
     h_pages := (\<lambda>_. anon_page)(16 := anon_page\<lparr>pg_mapping := Ksm_Mapping (Some 5)\<rparr>),
     h_tree := [5], pages_shared := 1, mm_merging := (\<lambda>_. 0)(2 := 1)\<rparr>"

definition sample_try :: "bool \<Rightarrow> merge_try" where
  "sample_try ok = \<lparr>mt_vma = Some 3, mt_trylock = True, mt_split = True, mt_write_protect = None, mt_identical = ok,
     mt_replace = True, mt_break = Some 11\<rparr>"

definition sample_entry :: "bool \<Rightarrow> entry_try" where
  "sample_entry ok = \<lparr>et_merges = (sample_try True, sample_try ok), et_slot = (\<lambda>_. None), et_split = False\<rparr>"

definition sample_unstable_log :: ksm_event_log where
  "sample_unstable_log = \<lparr>ev_type = DPU_UNSTABLE_MERGE, ev_w0 = 0x1000, ev_w1 = 0x1000, ev_i0 = 1, ev_i1 = 2\<rparr>"

definition sample_mms :: "(u64, addr) rbt shadow_mm list" where
  "sample_mms = map (\<lambda>i. \<lparr>sm_mm_id = int i, sm_pt_map = \<lparr>ht_arrays = None, ht_array_cnt = 0, ht_cnt = 0, ht_capacity = 0\<rparr>,
     sm_page_xa = RBT.insert 1 i RBT.empty\<rparr>) [1, 2]"

definition sample_slab :: host_env where
  "sample_slab = slab_env 100 100 256 False sample_log"

lemma create_error_table_wf:
  assumes "create_error_table allocs junk registered = Some tbl"
  shows "err_table_wf (er_entries tbl) \<and> contents (er_entries tbl) = []"
proof -
  have "packed MAX_RESULT_TABLE_ENTRIES [replicate logs_per_page junk]" by (simp add: packed_def host_sizes)
  moreover have "\<exists>j. logs_per_page = logs_per_page * 2 ^ j" by (rule exI [of _ 0]) simp
  ultimately show ?thesis using assms
    by (auto simp: create_error_table_def table_wf_def contents_def split: if_splits prod.splits)
qed

lemma sample_errors_wf: "err_table_wf (er_entries (the (create_error_table (True, True, True) sample_log 0)))"
  using create_error_table_wf [of "(True, True, True)" sample_log 0] by (simp add: create_error_table_def)

lemma sample_host_inv: "host_inv sample_host"
  using sample_errors_wf
  by (simp add: host_inv_def sample_host_def links_ok_def mapping_ok_def anon_page_def msum_def sample_host_item_def
      is_unstable_def is_stable_def merging_w_def UNSTABLE_FLAG_def STABLE_FLAG_def)

lemma sample_host_shared_inv: "host_inv sample_host_shared"
  using sample_errors_wf
  by (auto simp: host_inv_def sample_host_shared_def sample_host_def links_ok_def node_ok_def mapping_ok_def anon_page_def msum_def
      sample_host_item_def is_stable_node_chain_def STABLE_NODE_CHAIN_def shared_w_def sharing_w_def
      is_unstable_def is_stable_def merging_w_def UNSTABLE_FLAG_def STABLE_FLAG_def split: if_splits)

lemma sample_slab_ok: "host_runtime sample_slab"
  unfolding sample_slab_def by (rule slab.host_runtime_axioms)

lemmas sample_defs = sample_slab_def slab_env_def sample_try_def sample_log_def sample_host_shared_def sample_host_def
  sample_host_item_def anon_page_def page_stable_node_def deref_def guard_stop_def get_ksm_page_def need_def page_of_def
  remove_rmap_item_from_tree_def is_stable_def is_unstable_def STABLE_FLAG_def UNSTABLE_FLAG_def get_page_def put_page_def upd_page_def
  try_to_merge_with_ksm_page_def try_to_merge_one_page_def PageAnon_def replace_page_def Let_def item_va_def PAGE_MASK_def
  upd_item_def stable_tree_append_def upd_node_def stable_of_def

lemma slab_first: "[Suc 0..<100] = Suc 0 # [2..<100]"
  by (simp add: upt_conv_Cons)

lemma msum_merging:
  assumes "finite (dom h)"
  shows "msum (merging_w m) h = int (card {a. \<exists>it. h a = Some it \<and> is_stable it \<and> hi_mm it = m})"
proof -
  have "{a \<in> dom h. is_stable (the (h a)) \<and> hi_mm (the (h a)) = m} = {a. \<exists>it. h a = Some it \<and> is_stable it \<and> hi_mm it = m}"
    by auto
  then show ?thesis using assms by (simp add: msum_def merging_w_def sum.If_cases Int_def flip: of_nat_sum)
qed

section \<open>Reports\<close>

context host_runtime
begin

lemma apply_result_keeps:
  assumes "host_inv s" "\<forall>e \<in> set result. entry_fits XA mms s e" "\<forall>i t m. et_slot (ws i) t = Some m \<longrightarrow> h_nodes t m \<noteq> None"
    and "apply_result E XA mms ws result s = Inr s'"
  shows "host_inv s' \<and> same_items s s'"
proof -
  let ?s = "s\<lparr>fail_reason_cnts := (\<lambda>_. 0)\<rparr>"
  have "host_inv ?s" using assms(1) by (simp add: host_inv_def)
  moreover have "\<forall>x \<in> set (enumerate 0 result). entry_fits XA mms ?s (snd x)"
    using assms(2) by (auto simp: entry_fits_def item_at_def in_set_enumerate_eq split: event_tag.splits)
  moreover have "rfold (\<lambda>(i, e). apply_entry E XA mms (ws i) e) (enumerate 0 result) ?s = Inr s'"
    using assms(4) by (simp add: apply_result_def)
  ultimately have "host_inv s'" "same_items ?s s'" using apply_entries_keep [OF _ _ assms(3)] by blast+
  then show ?thesis by (simp add: same_items_def)
qed

lemma stable_merge_reported:
  assumes inv: "host_inv s" and it: "h_items s a = Some it" "hi_data it = Page_Ptr (Some p)"
    and n: "page_stable_node (h_pages s (stable_merge_kpfn e)) = Some n"
    and r: "apply_stable_merge E mt e (Some a) s = Inr s'" "stable_of s' a = None"
  shows "reported E (e\<lparr>ev_type := HOST_MERGE_ONE_FAILED\<rparr>) s'"
proof -
  from stable_merge_page [OF inv n r(1)] obtain k where
    k: "pg_mapping (h_pages s k) = Ksm_Mapping (Some n)" "0 < pg_count (h_pages s k)"
      "\<forall>nd. h_nodes s n = Some nd \<longrightarrow> hn_rmap_hlist_len nd \<noteq> he_max_page_sharing E" by blast
  from apply_stable_merge_ok [OF inv it n k, of mt] r show ?thesis by (auto simp: shares_def)
qed

lemma stale_reported:
  assumes al: "al_block (he_alloc E (h_errors s))" and inv: "host_inv s" and off: "h_offload s" and n: "h_nodes s n = Some nd"
    "\<not> is_stable_node_chain nd" "pg_mapping (h_pages s (hn_kpfn nd)) \<noteq> Ksm_Mapping (Some n)"
  shows "\<exists>s' l. stale_ksm_page E n kpfn s = Inr (Ksm_Gone, s') \<and> h_nodes s' n = None \<and> err_log s' = err_log s @ [l] \<and>
    ev_type l = HOST_STALE_STABLE_NODE"
proof -
  have "pg_count (h_pages s p) = 0" if "pg_mapping (h_pages s p) = Ksm_Mapping (Some n)" for p
    using inv that n unfolding host_inv_def mapping_ok_def by fastforce
  from remove_node_ok [OF inv n(1,2) this] obtain s1 where
    s1: "remove_node_from_stable_tree n s = Inr s1" "host_inv s1" "h_nodes s1 n = None" "h_errors s1 = h_errors s"
      "h_offload s1 = h_offload s" by blast
  let ?log = "(he_junk E)\<lparr>ev_type := HOST_STALE_STABLE_NODE, ev_w1 := kpfn\<rparr>"
  have wf: "err_table_wf (er_entries (h_errors s1))" using s1(2) by (simp add: host_inv_def)
  from insert_error_ok [OF wf, of HOST_STALE_STABLE_NODE ?log] al obtain tbl where
    t: "insert_error_log (he_alloc E (h_errors s1)) (he_junk E) HOST_STALE_STABLE_NODE ?log (h_errors s1) = Inr (0, tbl)"
      "contents (er_entries tbl) = err_log s1 @ [?log\<lparr>ev_type := HOST_STALE_STABLE_NODE\<rparr>]" by (auto simp: s1(4))
  then show ?thesis using s1 off by (simp add: stale_ksm_page_def err_log_def)
qed

end

lemma sharing_item:
  assumes "sharing E s k = Some f"
  shows "\<exists>a it n nd. rmap_lookup E s k = Some a \<and> items s a = Some it \<and> ri_state it = Stable \<and>
    frame_of s a = Some f \<and> ri_stable_node it = Some n \<and> nodes s n = Some nd \<and> sn_pfn nd = f"
  using assms
  by (auto simp: sharing_def frame_of_def item_frame_def pfn_of_def bind_eq_Some_conv split: if_splits)

section \<open>Merging on the host\<close>

text \<open>
  C15. A log entry for a stable merge, applied on the host. If the frame of the entry is a KSM page in use with room for another
  page, then, unless ksmd waits for ever for a page in the swap cache, the entry is applied: either the item
  of the page shares the stable node of that frame and its address maps the frame, or it shares no node, its mapping is
  as before, and the entry is reported in the error table, if there was memory for it. No other item
  joins a node, and the invariant with the counters of shared and sharing pages holds again.
\<close>

theorem host_stable_merge:
  assumes "host_runtime E" and "host_inv s" and "h_items s a = Some it" and "hi_data it = Page_Ptr (Some p)"
    and "page_stable_node (h_pages s (stable_merge_kpfn e)) = Some n" and "0 < pg_count (h_pages s (stable_merge_kpfn e))"
    and "\<forall>nd. h_nodes s n = Some nd \<longrightarrow> hn_rmap_hlist_len nd \<noteq> he_max_page_sharing E"
  shows "apply_stable_merge E mt e (Some a) s = Inl Diverged \<or>
    (\<exists>s'. apply_stable_merge E mt e (Some a) s = Inr s' \<and> host_inv s' \<and> same_items s s' \<and>
       (\<forall>b. b \<noteq> a \<longrightarrow> stable_of s' b = stable_of s b \<or> stable_of s' b = None) \<and>
       (shares a (hi_mm it, item_va it) p n (stable_merge_kpfn e) s' \<or>
        stable_of s' a = None \<and> h_pt s' = h_pt s \<and> reported E (e\<lparr>ev_type := HOST_MERGE_ONE_FAILED\<rparr>) s'))"
proof -
  have "pg_mapping (h_pages s (stable_merge_kpfn e)) = Ksm_Mapping (Some n)"
    using assms(5) by (simp add: page_stable_node_def split: page_mapping.splits)
  then show ?thesis
    using host_runtime.apply_stable_merge_ok [OF assms(1-5) _ assms(6,7)] by blast
qed

theorem host_stable_merge_witness:
  "\<exists>s'. apply_stable_merge sample_slab (sample_try True) sample_log (Some 1) sample_host_shared = Inr s' \<and> host_inv s' \<and>
     shares 1 (1, 0x1000) 7 5 16 s' \<and> pages_shared s' = 1 \<and> pages_sharing s' = 1"
proof -
  obtain s' where s': "apply_stable_merge sample_slab (sample_try True) sample_log (Some 1) sample_host_shared = Inr s'"
    "pages_shared s' = 1" "pages_sharing s' = 1" "stable_of s' 1 \<noteq> None"
    by (simp add: apply_stable_merge_def sample_defs)
  have it: "h_items sample_host_shared 1 = Some (sample_host_item 1 7)" by (simp add: sample_host_shared_def sample_host_def)
  have "hi_data (sample_host_item 1 7) = Page_Ptr (Some 7)" by (simp add: sample_host_item_def)
  from host_stable_merge [OF sample_slab_ok sample_host_shared_inv it this, of sample_log 5 "sample_try True"] s'
  show ?thesis
    by (auto simp: sample_host_item_def sample_host_shared_def sample_log_def page_stable_node_def anon_page_def sample_slab_def
        slab_env_def item_va_def PAGE_MASK_def)
qed

text \<open>
  C16. A log entry for an unstable merge of the pages of two different items. Unless ksmd waits for ever
  for a page in the swap cache, or the kernel stops because it cannot allocate the stable node, the entry is
  applied: both items share a new node for the frame of the first, which the address of the second maps
  from then on; or neither shares a node and the entry is reported, if there was memory for it. No other
  item joins a node, and the invariant holds again.
\<close>

theorem host_unstable_merge:
  assumes "host_runtime E" and "host_inv s" and "a \<noteq> b" and "h_items s a = Some it" and "h_items s b = Some jt"
    and "hi_data it = Page_Ptr (Some p)" and "hi_data jt = Page_Ptr (Some q)"
    and "\<forall>t m. et_slot w t = Some m \<longrightarrow> h_nodes t m \<noteq> None"
  shows "apply_unstable_merge E w e (Some a) (Some b) s = Inl Diverged \<or>
    apply_unstable_merge E w e (Some a) (Some b) s = Inl (Stopped ''Failed to insert stable node in UNSTABLE_MERGE'') \<or>
    (\<exists>s'. apply_unstable_merge E w e (Some a) (Some b) s = Inr s' \<and> host_inv s' \<and> same_items s s' \<and>
       (\<forall>c. c \<noteq> a \<longrightarrow> c \<noteq> b \<longrightarrow> stable_of s' c = stable_of s c \<or> stable_of s' c = None) \<and>
       ((\<exists>n. stable_of s' a = Some n \<and> shares b (hi_mm jt, item_va jt) q n p s') \<or>
        stable_of s' a = None \<and> stable_of s' b = None \<and> reported E (e\<lparr>ev_type := HOST_MERGE_TWO_FAILED\<rparr>) s'))"
  by (rule host_runtime.apply_unstable_merge_ok [OF assms])

theorem host_unstable_merge_witness:
  "\<exists>s' n. apply_unstable_merge sample_slab (sample_entry True) sample_unstable_log (Some 1) (Some 2) sample_host = Inr s' \<and> host_inv s' \<and>
     stable_of s' 1 = Some n \<and> shares 2 (2, 0x1000) 16 n 7 s' \<and> pages_shared s' = 1 \<and> pages_sharing s' = 1"
proof -
  obtain s' where s': "apply_unstable_merge sample_slab (sample_entry True) sample_unstable_log (Some 1) (Some 2) sample_host = Inr s'"
    "pages_shared s' = 1" "pages_sharing s' = 1" "stable_of s' 1 \<noteq> None"
    by (simp add: apply_unstable_merge_def sample_entry_def try_to_merge_two_pages_def stable_tree_insert_def set_page_stable_node_def
      slab_first sample_defs)
  have it: "h_items sample_host 1 = Some (sample_host_item 1 7)" "h_items sample_host 2 = Some (sample_host_item 2 16)"
    by (simp_all add: sample_host_def)
  have d: "hi_data (sample_host_item 1 7) = Page_Ptr (Some 7)" "hi_data (sample_host_item 2 16) = Page_Ptr (Some 16)"
    by (simp_all add: sample_host_item_def)
  from host_unstable_merge [OF sample_slab_ok sample_host_inv _ it d, of "sample_entry True" sample_unstable_log] s'
  show ?thesis by (auto simp: sample_host_item_def sample_entry_def item_va_def PAGE_MASK_def)
qed

text \<open>
  C13. Applying the log of a round keeps the accounts. If every merge in the log names live items with a
  page, and an unstable merge two different ones, then when the log has been applied, the items are
  those of before with the same addresses and pages, the stable items are exactly the ones their nodes
  list, every KSM page in use belongs to a live node, and the counters \<open>ksm_pages_shared\<close>, \<open>ksm_pages_sharing\<close> and
  \<open>ksm_merging_pages\<close> of every process count the nodes in use, the further sharers and the stable items.
\<close>

theorem apply_result_keeps_accounts:
  assumes "host_runtime E" and "host_inv s" and "\<forall>e \<in> set result. entry_fits XA mms s e"
    and "\<forall>i t m. et_slot (ws i) t = Some m \<longrightarrow> h_nodes t m \<noteq> None"
    and "apply_result E XA mms ws result s = Inr s'"
  shows "same_items s s' \<and> links_ok (h_items s') (h_nodes s') \<and> mapping_ok (h_pages s') (h_nodes s') \<and>
    pages_shared s' = (\<Sum>n \<in> dom (h_nodes s'). if hn_hlist (the (h_nodes s' n)) = [] then 0 else 1) \<and>
    pages_sharing s' = (\<Sum>n \<in> dom (h_nodes s'). int (length (hn_hlist (the (h_nodes s' n))) - 1)) \<and>
    (\<forall>m. mm_merging s' m = int (card {a. \<exists>it. h_items s' a = Some it \<and> is_stable it \<and> hi_mm it = m}))"
proof -
  have k: "host_inv s'" "same_items s s'"
    using host_runtime.apply_result_keeps [OF assms(1-5)] by blast+
  note i = k(1) [unfolded host_inv_def]
  have "msum (merging_w m) (h_items s') = int (card {a. \<exists>it. h_items s' a = Some it \<and> is_stable it \<and> hi_mm it = m})" for m
    using msum_merging [of "h_items s'" m] i by blast
  then show ?thesis using i k(2) by (simp add: msum_def shared_w_def sharing_w_def)
qed

theorem apply_result_keeps_accounts_witness:
  "\<exists>s'. apply_result sample_slab rbt_xa sample_mms (\<lambda>_. sample_entry True) [sample_unstable_log] sample_host = Inr s' \<and>
     mm_merging s' 1 = 1 \<and> pages_shared s' = 1 \<and>
     (\<Sum>n \<in> dom (h_nodes s'). if hn_hlist (the (h_nodes s' n)) = [] then 0 else 1) = (1::int)"
proof -
  have look: "lookup_item rbt_xa sample_mms 1 0x1000 = Inr (Some 1)" "lookup_item rbt_xa sample_mms 2 0x1000 = Inr (Some 2)"
    by (simp_all add: lookup_item_def sample_mms_def shadow_mm_lookup_def rbt_xa_def page_number_def)
  obtain s' where s': "apply_result sample_slab rbt_xa sample_mms (\<lambda>_. sample_entry True) [sample_unstable_log] sample_host = Inr s'"
    "mm_merging s' 1 = 1" "pages_shared s' = 1"
    by (simp add: apply_result_def apply_entry_def sample_unstable_log_def look apply_unstable_merge_def sample_entry_def
      try_to_merge_two_pages_def stable_tree_insert_def set_page_stable_node_def slab_first sample_defs)
  have "\<forall>e \<in> set [sample_unstable_log]. entry_fits rbt_xa sample_mms sample_host e"
    using look by (simp add: entry_fits_def item_at_def sample_unstable_log_def sample_host_def sample_host_item_def)
  from apply_result_keeps_accounts [OF sample_slab_ok sample_host_inv this _ s'(1)] s' show ?thesis
    by (auto simp: sample_entry_def)
qed

section \<open>What the server makes of the reports\<close>

text \<open>
  C17. Host and server agree again after a failed stable merge. When the host, with memory for its error
  table, applied the entry and the item shares no node afterwards, the last report in its error table
  is the entry; if the server shares the page with the frame of the entry, as it does after logging
  it, then handling that report takes exactly this page out of the server's sharing.
\<close>

theorem failed_merge_is_undone:
  assumes "host_runtime E" and "al_block (he_alloc E (h_errors s'))" and "host_inv s" and "h_items s a = Some it"
    and "hi_data it = Page_Ptr (Some p)" and "page_stable_node (h_pages s (stable_merge_kpfn e)) = Some n"
    and "apply_stable_merge E mt e (Some a) s = Inr s'" and "stable_of s' a = None"
    and "server_runtime ES" and "server_inv ES srv"
    and "sharing ES srv (stable_merge_from_mm_id e, stable_merge_from_va e) = Some (stable_merge_kpfn e)"
  shows "\<exists>srv'. err_log s' \<noteq> [] \<and> handle_error_entry ES (last (err_log s')) srv = Inr srv' \<and> server_inv ES srv' \<and>
    sharing ES srv' = (sharing ES srv)((stable_merge_from_mm_id e, stable_merge_from_va e) := None)"
proof -
  have "reported E (e\<lparr>ev_type := HOST_MERGE_ONE_FAILED\<rparr>) s'"
    using host_runtime.stable_merge_reported [OF assms(1,3-8)] .
  then obtain ls where ls: "err_log s' = ls @ [e\<lparr>ev_type := HOST_MERGE_ONE_FAILED\<rparr>]" using assms(2) by (auto simp: reported_def)
  from sharing_item [OF assms(11)] obtain b jt m nd where
    "rmap_lookup ES srv (ev_i0 e, ev_w0 e) = Some b" "items srv b = Some jt" "ri_state jt = Stable"
    "ri_stable_node jt = Some m" "nodes srv m = Some nd" "sn_pfn nd = ev_w1 e" "frame_of srv b = Some (ev_w1 e)" by blast
  then have "\<exists>srv'. undo_merge_one ES (e\<lparr>ev_type := HOST_MERGE_ONE_FAILED\<rparr>) srv = Inr srv' \<and> server_inv ES srv' \<and>
      sharing ES srv' = (sharing ES srv)((ev_i0 e, ev_w0 e) := None)"
    using server_runtime.undo_merge_one_ok [OF assms(9,10), of "e\<lparr>ev_type := HOST_MERGE_ONE_FAILED\<rparr>"] by fastforce
  then show ?thesis unfolding ls by (simp add: handle_error_entry_def)
qed

theorem failed_merge_is_undone_witness:
  "\<exists>s' srv'. apply_stable_merge sample_slab (sample_try False) sample_log (Some 1) sample_host_shared = Inr s' \<and> err_log s' \<noteq> [] \<and>
     handle_error_entry sample_env (last (err_log s')) sample_shared = Inr srv' \<and> sharing sample_env srv' (1, 0x1000) = None \<and>
     sharing sample_env srv' (2, 0x1000) = Some 16"
proof -
  obtain s' where s': "apply_stable_merge sample_slab (sample_try False) sample_log (Some 1) sample_host_shared = Inr s'"
    "stable_of s' 1 = None" "al_block (he_alloc sample_slab (h_errors s'))"
    by (simp add: apply_stable_merge_def count_fail_def report_error_def insert_error_log_def insert_entry_def store_entry_def
        create_error_table_def logs_per_page_def PAGE_SIZE_def MAX_RESULT_TABLE_ENTRIES_def sample_defs)
  have it: "h_items sample_host_shared 1 = Some (sample_host_item 1 7)" "hi_data (sample_host_item 1 7) = Page_Ptr (Some 7)"
    "page_stable_node (h_pages sample_host_shared (stable_merge_kpfn sample_log)) = Some 5"
    by (simp_all add: sample_host_shared_def sample_host_def sample_host_item_def page_stable_node_def sample_log_def)
  have "sharing sample_env sample_shared (stable_merge_from_mm_id sample_log, stable_merge_from_va sample_log) = Some (stable_merge_kpfn sample_log)"
    using sample_sharing by (simp add: sample_log_def)
  from failed_merge_is_undone [OF sample_slab_ok s'(3) sample_host_shared_inv it s'(1,2) sample.server_runtime_axioms sample_shared_inv this]
  show ?thesis using s'(1) sample_sharing by (auto simp: sample_log_def)
qed

text \<open>
  C20. A stale node that the host reports stops the server. In offload mode, \<open>get_ksm_page\<close> on a node whose page
  no longer points back to it removes the node and reports \<open>HOST_STALE_STABLE_NODE\<close>; the handler of
  the server treats this report as a fatal error, whatever its state.
\<close>

theorem stale_report_stops_server:
  assumes "host_runtime E" and "al_block (he_alloc E (h_errors s))" and "host_inv s" and "h_offload s" and "h_nodes s n = Some nd"
    and "\<not> is_stable_node_chain nd" and "pg_mapping (h_pages s (hn_kpfn nd)) \<noteq> Ksm_Mapping (Some n)"
  shows "\<exists>s' l. get_ksm_page E flags n s = Inr (Ksm_Gone, s') \<and> h_nodes s' n = None \<and> err_log s' = err_log s @ [l] \<and>
    handle_error_entry ES l srv = Inl (Stopped ''HOST_STALE_STABLE_NODE'')"
proof -
  from host_runtime.stale_reported [OF assms(1-7)] obtain s' l where
    "stale_ksm_page E n (hn_kpfn nd) s = Inr (Ksm_Gone, s')" "h_nodes s' n = None" "err_log s' = err_log s @ [l]"
    "ev_type l = HOST_STALE_STABLE_NODE" by blast
  then show ?thesis using assms(5,7) by (auto simp: get_ksm_page_def handle_error_entry_def Let_def)
qed

theorem stale_report_stops_server_witness:
  "\<exists>s' l. get_ksm_page sample_slab GET_KSM_PAGE_NOLOCK 5 (sample_host_shared\<lparr>h_pages := (\<lambda>_. anon_page)\<rparr>) = Inr (Ksm_Gone, s') \<and>
     err_log s' = [l] \<and> handle_error_entry sample_env l sample_shared = Inl (Stopped ''HOST_STALE_STABLE_NODE'')"
proof -
  let ?s = "sample_host_shared\<lparr>h_pages := (\<lambda>_. anon_page)\<rparr>"
  let ?nd = "\<lparr>hn_hlist = [2], hn_dups = [], hn_kpfn = 16, hn_rmap_hlist_len = 1, hn_place = Tree_Node\<rparr>"
  have "host_inv ?s" using sample_host_shared_inv by (simp add: host_inv_def mapping_ok_def anon_page_def)
  moreover have "h_nodes ?s 5 = Some ?nd" "h_offload ?s" by (simp_all add: sample_host_shared_def sample_host_def)
  moreover have "al_block (he_alloc sample_slab (h_errors ?s))" "err_log ?s = []"
    by (simp_all add: sample_slab_def slab_env_def sample_host_shared_def sample_host_def create_error_table_def err_log_def contents_def)
  ultimately show ?thesis
    using stale_report_stops_server [OF sample_slab_ok, of ?s 5 ?nd GET_KSM_PAGE_NOLOCK sample_env sample_shared]
    by (auto simp: is_stable_node_chain_def STABLE_NODE_CHAIN_def anon_page_def)
qed

end
