(* ===== verification/Walk_Correct.thy ===== *)
theory Walk_Correct
  imports Host_Lists Host_Properties
begin

text \<open>
  The walk over the page tables of a process is correct: afterwards the list of its items is the
  anonymous pages walked, in order, its shadow page table is filled from them, and every page has one
  more reference per mapping.
\<close>

section \<open>The anonymous pages of a walk\<close>

fun anon_pages :: "(u64 \<Rightarrow> host_page) \<Rightarrow> (u64 \<times> host_pte) list \<Rightarrow> (u64 \<times> u64) list" where
  "anon_pages pages [] = []"
| "anon_pages pages ((va, Pte_Page p) # es) =
     (if PageAnon (pages p) then (va, p) # anon_pages pages es else anon_pages pages es)"
| "anon_pages pages ((va, pte) # es) = anon_pages pages es"

text \<open>The references the walk takes.\<close>

definition referenced :: "(u64 \<times> u64) list \<Rightarrow> (u64 \<Rightarrow> host_page) \<Rightarrow> u64 \<Rightarrow> host_page" where
  "referenced sc pages p = (pages p)\<lparr>pg_count := pg_count (pages p) + count_list (map snd sc) p\<rparr>"

lemma referenced_Nil [simp]: "referenced [] pages = pages"
  by (simp add: referenced_def fun_eq_iff)

lemma referenced_anon [simp]: "PageAnon (referenced sc pages p) = PageAnon (pages p)"
  by (simp add: referenced_def PageAnon_def)

definition table_pairs :: "'x shadow_mm \<Rightarrow> (u64 \<times> u64) list" where
  "table_pairs sm = map (\<lambda>pte. (pte_va pte, pte_kpfn pte)) (contents (sm_pt_map sm))"

text \<open>
  The state of the walk after the pages \<open>sc\<close>: the items behind the cursor are theirs, the shadow
  page table lists some of them (those that could be inserted), each with its item.
\<close>

definition walk_at :: "nat \<Rightarrow> 'x xa_ops \<Rightarrow> int \<Rightarrow> host \<Rightarrow> (u64 \<times> u64) list \<Rightarrow> 'x walk \<Rightarrow> addr list \<Rightarrow> addr list \<Rightarrow> bool" where
  "walk_at fuel XA mm h0 sc w seen rest \<longleftrightarrow>
     wk_cursor w = cursor_at seen \<and> host_inv (wk_host w) \<and> calm (wk_host w) \<and>
     h_pages (wk_host w) = referenced sc (h_pages h0) \<and> others_kept mm h0 (wk_host w) \<and> he_same h0 (wk_host w) \<and>
     proc_list (h_items (wk_host w)) (wk_head w) mm (seen @ rest) \<and> length rest < fuel \<and>
     map (idents (h_items (wk_host w))) seen = map (\<lambda>(va, p). Some (mm, va, Page_Ptr (Some p))) sc \<and>
     shadow_wf XA (wk_shadow w) \<and> subseq (table_pairs (wk_shadow w)) sc \<and>
     (\<forall>pte \<in> set (contents (sm_pt_map (wk_shadow w))). \<exists>a \<in> set seen. xa_load XA (sm_page_xa (wk_shadow w)) (page_number (pte_va pte)) = Some a \<and>
        idents (h_items (wk_host w)) a = Some (mm, pte_va pte, Page_Ptr (Some (pte_kpfn pte))))"

definition items_run_out :: "host_env \<Rightarrow> bool" where
  "items_run_out E \<longleftrightarrow> (\<exists>items. he_new_item E items = None)"

definition plenty :: "'x xa_ops \<Rightarrow> 'x walk_env \<Rightarrow> bool" where
  "plenty XA W \<longleftrightarrow> (\<forall>sm. al_block (we_alloc W sm)) \<and> (\<forall>x k v. xa_load XA x k = None \<longrightarrow> xa_insert XA x k v \<noteq> None)"

lemma proc_list_data:
  assumes l: "proc_list (h_items h) head mm as" and a: "h_items h a = Some it"
  shows "proc_list (h_items (upd_item a (\<lambda>it. it\<lparr>hi_data := d\<rparr>) h)) head mm as"
proof -
  let ?h = "upd_item a (\<lambda>it. it\<lparr>hi_data := d\<rparr>) h"
  have "link (h_items ?h) b = link (h_items h) b" for b using a by (simp add: link_def upd_item_def)
  then have "rlist (h_items ?h) head as None \<longleftrightarrow> rlist (h_items h) head as None" by (intro rlist_cong)
  moreover have "va_of (h_items ?h) = va_of (h_items h)" using a by (simp add: fun_eq_iff va_of_def upd_item_def item_va_def)
  moreover have "\<forall>b \<in> set as. \<exists>it. h_items ?h b = Some it \<and> hi_mm it = mm"
    using l a by (auto simp: proc_list_def upd_item_def)
  ultimately show ?thesis using l by (simp add: proc_list_def)
qed

lemma idents_data:
  "h_items h a = Some it \<Longrightarrow> idents (h_items (upd_item a (\<lambda>it. it\<lparr>hi_data := d\<rparr>) h)) b =
     (if b = a then Some (hi_mm it, item_va it, d) else idents (h_items h) b)"
  by (simp add: idents_def upd_item_def ident_def item_va_def)

lemma get_page_ok:
  assumes "host_inv h" "calm h" "0 < pg_count (h_pages h p)"
  shows "host_inv (get_page p h)" "calm (get_page p h)" "h_items (get_page p h) = h_items h" "he_same h (get_page p h)"
proof -
  have "only_pages h (get_page p h)" using assms(3) by (auto simp: only_pages_def pages_step_def get_page_def upd_page_def)
  then show "host_inv (get_page p h)" using only_pages_inv [OF assms(1)] by blast
qed (use assms in \<open>auto simp: calm_def get_page_def upd_page_def intro: he_same_refl\<close>)

lemma referenced_snoc:
  "h_pages h = referenced sc pages \<Longrightarrow> h_pages (get_page p h) = referenced (sc @ [(va, p)]) pages"
  by (auto simp: get_page_def upd_page_def referenced_def fun_eq_iff)

text \<open>
  What is known of the entries of a walk: ascending addresses of pages, and a page that is mapped has a
  reference.
\<close>

definition walkable :: "(u64 \<Rightarrow> host_page) \<Rightarrow> (u64 \<times> host_pte) list \<Rightarrow> bool" where
  "walkable pages es \<longleftrightarrow> sorted_wrt (<) (map fst es) \<and> (\<forall>e \<in> set es. fst e AND PAGE_MASK = fst e) \<and>
     (\<forall>va p. (va, Pte_Page p) \<in> set es \<longrightarrow> 0 < pg_count (pages p))"

lemma anon_pages_subseq: "subseq (map fst (anon_pages pages es)) (map fst es)"
  by (induction pages es rule: anon_pages.induct) auto

section \<open>One entry\<close>

lemma put_get_page [simp]: "put_page p (get_page p h) = h"
  by (rule host.equality) (simp_all add: put_page_def get_page_def upd_page_def)

context xarray
begin

text \<open>The new entry of the shadow page table, or the table as before.\<close>

lemma insert_shadow_walk:
  assumes wf: "shadow_wf XA sm" and al: "al_block al \<longrightarrow> al_ptrs al" and sub: "subseq (table_pairs sm) sc"
    and old: "\<forall>pte \<in> set (contents (sm_pt_map sm)). \<exists>a \<in> S. xa_load XA (sm_page_xa sm) (page_number (pte_va pte)) = Some a \<and> I a = Some (mm, pte_va pte, Page_Ptr (Some (pte_kpfn pte)))"
    and new: "I' a = Some (mm, va, Page_Ptr (Some p))" "\<forall>b \<in> S. I' b = I b" "a \<in> S'" "S \<subseteq> S'"
  shows "\<exists>err sm'. insert_entry_to_shadow_mm XA al junk va p a sm = Inr (err, sm') \<and> shadow_wf XA sm' \<and> sm_mm_id sm' = sm_mm_id sm \<and>
    subseq (table_pairs sm') (sc @ [(va, p)]) \<and>
    (\<forall>pte \<in> set (contents (sm_pt_map sm')). \<exists>a \<in> S'. xa_load XA (sm_page_xa sm') (page_number (pte_va pte)) = Some a \<and> I' a = Some (mm, pte_va pte, Page_Ptr (Some (pte_kpfn pte)))) \<and>
    (al_block al \<and> xa_insert XA (sm_page_xa sm) (page_number va) a \<noteq> None \<longrightarrow> table_pairs sm' = table_pairs sm @ [(va, p)])"
proof -
  consider (ok) sm' where "insert_entry_to_shadow_mm XA al junk va p a sm = Inr (0, sm')" "shadow_wf XA sm'"
    "contents (sm_pt_map sm') = contents (sm_pt_map sm) @ [\<lparr>pte_va = va, pte_kpfn = p\<rparr>]"
    "xa_load XA (sm_page_xa sm') = (xa_load XA (sm_page_xa sm))(page_number va \<mapsto> a)"
    "xa_load XA (sm_page_xa sm) (page_number va) = None" "sm_mm_id sm' = sm_mm_id sm"
    | (no) sm' where "insert_entry_to_shadow_mm XA al junk va p a sm = Inr (- 1, sm')" "shadow_wf XA sm'"
    "contents (sm_pt_map sm') = contents (sm_pt_map sm)" "sm_page_xa sm' = sm_page_xa sm" "sm_mm_id sm' = sm_mm_id sm"
    "\<not> al_block al \<or> xa_insert XA (sm_page_xa sm) (page_number va) a = None"
    using shadow_insert_ok [OF wf al, of junk va p a] by blast
  then show ?thesis
  proof cases
    case s: (ok sm')
  have t: "table_pairs sm' = table_pairs sm @ [(va, p)]" using s(3) by (simp add: table_pairs_def)
  have "\<exists>b \<in> S'. xa_load XA (sm_page_xa sm') (page_number (pte_va pte)) = Some b \<and> I' b = Some (mm, pte_va pte, Page_Ptr (Some (pte_kpfn pte)))"
    if "pte \<in> set (contents (sm_pt_map sm'))" for pte
  proof (cases "pte \<in> set (contents (sm_pt_map sm))")
    case True
    with old obtain b where b: "b \<in> S" "xa_load XA (sm_page_xa sm) (page_number (pte_va pte)) = Some b"
      "I b = Some (mm, pte_va pte, Page_Ptr (Some (pte_kpfn pte)))" by blast
    then have "page_number (pte_va pte) \<noteq> page_number va" using s(5) by auto
    then show ?thesis using b new(2,4) s(4) by auto
  next
    case False
    then have "pte = \<lparr>pte_va = va, pte_kpfn = p\<rparr>" using that s(3) by simp
    then show ?thesis using new(1,3) s(4) by auto
  qed
  moreover have "subseq (table_pairs sm') (sc @ [(va, p)])" using sub unfolding t by (intro list_emb_append_mono) auto
  ultimately show ?thesis using s(1,2,6) t by blast
  next
    case s: (no sm')
  have "subseq (table_pairs sm') (sc @ [(va, p)])"
    using list_emb_append_mono [OF sub list_emb_Nil, of "[(va, p)]"] s(3) by (simp add: table_pairs_def)
  moreover have "\<exists>a \<in> S'. xa_load XA (sm_page_xa sm') (page_number (pte_va pte)) = Some a \<and> I' a = Some (mm, pte_va pte, Page_Ptr (Some (pte_kpfn pte)))"
    if pte: "pte \<in> set (contents (sm_pt_map sm'))" for pte
  proof -
    from old pte s(3) obtain b where "b \<in> S" "xa_load XA (sm_page_xa sm) (page_number (pte_va pte)) = Some b"
      "I b = Some (mm, pte_va pte, Page_Ptr (Some (pte_kpfn pte)))" by auto
    then show ?thesis using new(2,4) s(4) by auto
  qed
  ultimately show ?thesis using s(1,2,5,6) by blast
  qed
qed

end

text \<open>
  What the walk needs of the kernel: fresh items, a working xarray, and memory for the array of
  arrays whenever there is memory for an array.
\<close>

locale host_walk = host_alloc E + xarray XA for E :: host_env and XA :: "'x xa_ops" +
  fixes W :: "'x walk_env"
  assumes walk_ptrs: "al_block (we_alloc W sm) \<Longrightarrow> al_ptrs (we_alloc W sm)"
begin

lemma scan_anon_ok:
  assumes at: "walk_at fuel XA mm h0 sc w seen rest" and va: "va AND PAGE_MASK = va" and order: "\<forall>e \<in> set sc. fst e < va"
    and page: "0 < pg_count (h_pages h0 p)" "PageAnon (h_pages h0 p)"
  shows "scan_pte_entry fuel E XA W mm (va, Pte_Page p) w = Inl (Stopped ''Failed to get rmap item'') \<and> items_run_out E \<or>
    (\<exists>w' seen' rest'. scan_pte_entry fuel E XA W mm (va, Pte_Page p) w = Inr w' \<and> walk_at fuel XA mm h0 (sc @ [(va, p)]) w' seen' rest' \<and>
       wk_address w' = va \<and> sm_mm_id (wk_shadow w') = sm_mm_id (wk_shadow w) \<and>
       (plenty XA W \<longrightarrow> xa_load XA (sm_page_xa (wk_shadow w)) (page_number va) = None \<longrightarrow> table_pairs (wk_shadow w') = table_pairs (wk_shadow w) @ [(va, p)]))"
proof -
  note a0 = at [unfolded walk_at_def]
  let ?g = "get_page p (wk_host w)"
  have pg: "0 < pg_count (h_pages (wk_host w) p)" "h_pages (wk_host w) = referenced sc (h_pages h0)" using a0 page(1) by (auto simp: referenced_def)
  note g = get_page_ok [OF _ _ pg(1)]
  have g1: "host_inv ?g" "calm ?g" "h_items ?g = h_items (wk_host w)" "he_same (wk_host w) ?g" using g a0 by blast+
  have gp: "h_pages ?g = referenced (sc @ [(va, p)]) (h_pages h0)" using referenced_snoc [OF pg(2)] .
  have anon: "PageAnon (h_pages ?g p)" using page(2) by (simp add: gp)
  have l: "proc_list (h_items ?g) (wk_head w) mm (seen @ rest)" using a0 g1(3) by simp
  have ids: "map (idents (h_items ?g)) seen = map (\<lambda>(va, p). Some (mm, va, Page_Ptr (Some p))) sc" using a0 g1(3) by simp
  have ord: "\<forall>b \<in> set seen. va_of (h_items ?g) b < va"
  proof
    fix b assume b: "b \<in> set seen"
    then have "idents (h_items ?g) b \<in> set (map (\<lambda>(va, p). Some (mm, va, Page_Ptr (Some p))) sc)"
      unfolding ids [symmetric] by simp
    then show "va_of (h_items ?g) b < va" using order by (auto simp: idents_def ident_def va_of_def)
  qed
  have fuel: "length rest < fuel" using a0 by blast
  from get_next_rmap_item_ok [OF g1(1,2) l va ord fuel] show ?thesis
  proof (elim disjE exE conjE)
    fix h' head' assume "get_next_rmap_item fuel E mm (cursor_at seen) va (?g, wk_head w) = Inr (None, h', head')" "he_new_item E (h_items h') = None"
    then show ?thesis using anon a0 by (auto simp: scan_pte_entry_def Let_def items_run_out_def)
  next
    fix a h2 head2 gone rest' assume s: "get_next_rmap_item fuel E mm (cursor_at seen) va (?g, wk_head w) = Inr (Some a, h2, head2)"
      "length rest' \<le> length rest" "steps_to mm gone ?g h2" "gone \<inter> set seen = {}"
      "proc_list (h_items h2) head2 mm (seen @ a # rest')" "va_of (h_items h2) a = va"
    note st = s(3) [unfolded steps_to_def]
    from proc_list_mm [OF s(5), of a] obtain it where it: "h_items h2 a = Some it" "hi_mm it = mm" by auto
    have va_it: "item_va it = va" using s(6) it(1) by (simp add: va_of_def)
    have na: "a \<notin> set seen" using s(5) by (auto simp: proc_list_def)
    let ?h = "upd_item a (\<lambda>it. it\<lparr>hi_data := Page_Ptr (Some p)\<rparr>) h2"
    have ida: "idents (h_items ?h) a = Some (mm, va, Page_Ptr (Some p))" using idents_data [OF it(1)] it(2) va_it by simp
    have idb: "idents (h_items ?h) b = idents (h_items (wk_host w)) b" if "b \<in> set seen" for b
    proof -
      have "b \<noteq> a" "b \<notin> gone" using that na s(4) by auto
      then show ?thesis using idents_data [OF it(1), of "Page_Ptr (Some p)" b] st g1(3) by simp
    qed
    have inv: "host_inv ?h"
      using host_inv_item_upd(1) [where f = "\<lambda>it. it\<lparr>hi_data := Page_Ptr (Some p)\<rparr>", OF steps_to_inv [OF s(3)] it(1)]
      by (simp add: is_stable_def is_unstable_def)
    have pl: "proc_list (h_items ?h) head2 mm ((seen @ [a]) @ rest')" using proc_list_data [OF s(5) it(1)] by simp
    have oth: "others_kept mm h0 ?h"
    proof -
      have "others_kept mm (wk_host w) h2" using st g1(3) by (simp add: others_kept_def)
      moreover have "others_kept mm h2 ?h" using it by (auto simp: others_kept_def upd_item_def)
      ultimately show ?thesis using a0 others_kept_trans by blast
    qed
    have he: "he_same h0 ?h"
    proof -
      have "he_same h2 ?h" by (intro he_same_refl) (simp_all add: upd_item_def)
      moreover have "he_same h0 (wk_host w)" "he_same ?g h2" using a0 st by blast+
      ultimately show ?thesis using he_same_trans [OF he_same_trans [OF he_same_trans]] g1(4) by blast
    qed
    have pgs: "h_pages ?h = referenced (sc @ [(va, p)]) (h_pages h0)" using st gp by (simp add: upd_item_def)
    have cm: "calm ?h" using steps_to_calm [OF s(3) g1(2)] by (simp add: calm_def upd_item_def)
    have same: "\<forall>b \<in> set seen. idents (h_items ?h) b = idents (h_items (wk_host w)) b" using idb by blast
    have wf0: "shadow_wf XA (wk_shadow w)" "subseq (table_pairs (wk_shadow w)) sc" and old0: "\<forall>pte \<in> set (contents (sm_pt_map (wk_shadow w))).
        \<exists>a \<in> set seen. xa_load XA (sm_page_xa (wk_shadow w)) (page_number (pte_va pte)) = Some a \<and>
          idents (h_items (wk_host w)) a = Some (mm, pte_va pte, Page_Ptr (Some (pte_kpfn pte)))" using a0 by blast+
    have ptr: "al_block (we_alloc W (wk_shadow w)) \<longrightarrow> al_ptrs (we_alloc W (wk_shadow w))" using walk_ptrs by blast
    have sub: "a \<in> set (seen @ [a])" "set seen \<subseteq> set (seen @ [a])" by auto
    from insert_shadow_walk [where sm = "wk_shadow w" and al = "we_alloc W (wk_shadow w)" and sc = sc and S = "set seen" and
        I = "idents (h_items (wk_host w))" and mm = mm and I' = "idents (h_items ?h)" and a = a and va = va and p = p and
        S' = "set (seen @ [a])" and junk = "we_junk W", OF wf0(1) ptr wf0(2) old0 ida same sub] obtain err sm where
      sm: "insert_entry_to_shadow_mm XA (we_alloc W (wk_shadow w)) (we_junk W) va p a (wk_shadow w) = Inr (err, sm)" "shadow_wf XA sm"
        "sm_mm_id sm = sm_mm_id (wk_shadow w)" "subseq (table_pairs sm) (sc @ [(va, p)])"
        "\<forall>pte \<in> set (contents (sm_pt_map sm)). \<exists>a \<in> set (seen @ [a]). xa_load XA (sm_page_xa sm) (page_number (pte_va pte)) = Some a \<and>
           idents (h_items ?h) a = Some (mm, pte_va pte, Page_Ptr (Some (pte_kpfn pte)))"
        "al_block (we_alloc W (wk_shadow w)) \<and> xa_insert XA (sm_page_xa (wk_shadow w)) (page_number va) a \<noteq> None \<longrightarrow>
           table_pairs sm = table_pairs (wk_shadow w) @ [(va, p)]" by blast
    let ?w = "w\<lparr>wk_host := ?h, wk_head := head2, wk_cursor := Behind a, wk_address := va, wk_shadow := sm\<rparr>"
    have "scan_pte_entry fuel E XA W mm (va, Pte_Page p) w = Inr ?w"
      using anon a0 s(1) it(1) va_it sm(1) by (simp add: scan_pte_entry_def Let_def)
    moreover have "map (idents (h_items ?h)) (seen @ [a]) = map (\<lambda>(va, p). Some (mm, va, Page_Ptr (Some p))) (sc @ [(va, p)])"
    proof -
      have m: "map (idents (h_items ?h)) seen = map (idents (h_items (wk_host w))) seen" using same by (simp add: map_eq_conv)
      show ?thesis unfolding map_append m using ids ida g1(3) by simp
    qed
    then have "walk_at fuel XA mm h0 (sc @ [(va, p)]) ?w (seen @ [a]) rest'"
      unfolding walk_at_def using inv pl oth he pgs cm s(2) fuel sm(2,4,5) by simp
    moreover have "plenty XA W \<longrightarrow> xa_load XA (sm_page_xa (wk_shadow w)) (page_number va) = None \<longrightarrow> table_pairs sm = table_pairs (wk_shadow w) @ [(va, p)]"
      using sm(6) by (simp add: plenty_def)
    ultimately show ?thesis using sm(3) by (intro disjI2 exI [of _ ?w]) auto
  qed
qed

lemma walk_pte_aligned:
  assumes "walk_at fuel XA mm h0 sc w seen rest" "pte \<in> set (contents (sm_pt_map (wk_shadow w)))"
  shows "pte_va pte AND PAGE_MASK = pte_va pte"
proof -
  from assms obtain a where "idents (h_items (wk_host w)) a = Some (mm, pte_va pte, Page_Ptr (Some (pte_kpfn pte)))"
    unfolding walk_at_def by blast
  then obtain it where "item_va it = pte_va pte" by (auto simp: idents_def ident_def)
  then show ?thesis using mask_idem [of "hi_address it"] by (simp add: item_va_def)
qed

lemma walk_fresh:
  assumes at: "walk_at fuel XA mm h0 sc w seen rest" and va: "va AND PAGE_MASK = va" and order: "\<forall>e \<in> set sc. fst e < va"
  shows "xa_load XA (sm_page_xa (wk_shadow w)) (page_number va) = None"
proof (rule ccontr)
  assume "xa_load XA (sm_page_xa (wk_shadow w)) (page_number va) \<noteq> None"
  then have "page_number va \<in> dom (xa_load XA (sm_page_xa (wk_shadow w)))" by (simp add: domIff)
  moreover have "shadow_wf XA (wk_shadow w)" using at by (simp add: walk_at_def)
  ultimately obtain pte where pte: "pte \<in> set (contents (sm_pt_map (wk_shadow w)))" "page_number va = page_number (pte_va pte)"
    unfolding shadow_wf_def by auto
  have "subseq (table_pairs (wk_shadow w)) sc" using at by (simp add: walk_at_def)
  moreover have "(pte_va pte, pte_kpfn pte) \<in> set (table_pairs (wk_shadow w))" using pte(1) by (auto simp: table_pairs_def)
  ultimately have "(pte_va pte, pte_kpfn pte) \<in> set sc" by (auto dest: list_emb_set)
  then have "pte_va pte < va" using order by fastforce
  then show False using page_number_less [OF walk_pte_aligned [OF at pte(1)] va] pte(2) by simp
qed

lemma walk_filled:
  assumes "walk_at fuel XA mm h0 sc w seen rest"
  shows "shadow_filled XA (h_items (wk_host w)) (wk_shadow w)"
proof -
  note a0 = assms [unfolded walk_at_def]
  have l: "proc_list (h_items (wk_host w)) (wk_head w) mm (seen @ rest)" using a0 by blast
  have ids: "map (idents (h_items (wk_host w))) seen = map (\<lambda>(va, p). Some (mm, va, Page_Ptr (Some p))) sc" using a0 by blast
  have v: "map (va_of (h_items (wk_host w))) seen = map fst sc"
  proof (rule nth_equalityI)
    show len: "length (map (va_of (h_items (wk_host w))) seen) = length (map fst sc)" using arg_cong [OF ids, of length] by simp
    fix i assume i: "i < length (map (va_of (h_items (wk_host w))) seen)"
    then have "idents (h_items (wk_host w)) (seen ! i) = (\<lambda>(va, p). Some (mm, va, Page_Ptr (Some p))) (sc ! i)"
      using arg_cong [OF ids, of "\<lambda>xs. xs ! i"] len by simp
    then show "map (va_of (h_items (wk_host w))) seen ! i = map fst sc ! i"
      using i len by (auto simp: idents_def ident_def va_of_def split: prod.splits)
  qed
  have "sorted_wrt (<) (map (va_of (h_items (wk_host w))) seen)" using l by (simp add: proc_list_def sorted_wrt_append)
  then have "sorted_wrt (<) (map fst sc)" unfolding v .
  moreover have "subseq (table_pairs (wk_shadow w)) sc" using a0 by blast
  then have "subseq (map fst (table_pairs (wk_shadow w))) (map fst sc)" by (rule subseq_map)
  ultimately have "sorted_wrt (<) (map fst (table_pairs (wk_shadow w)))" using sorted_wrt_subseq by blast
  then have "sorted_wrt (<) (map pte_va (contents (sm_pt_map (wk_shadow w))))" by (simp add: table_pairs_def comp_def)
  moreover have "shadow_wf XA (wk_shadow w)" using a0 by blast
  moreover have "\<exists>a it. xa_load XA (sm_page_xa (wk_shadow w)) (page_number (pte_va pte)) = Some a \<and> h_items (wk_host w) a = Some it \<and>
      item_va it = pte_va pte \<and> hi_data it = Page_Ptr (Some (pte_kpfn pte))" if "pte \<in> set (contents (sm_pt_map (wk_shadow w)))" for pte
  proof -
    from a0 that obtain a where "xa_load XA (sm_page_xa (wk_shadow w)) (page_number (pte_va pte)) = Some a"
      "idents (h_items (wk_host w)) a = Some (mm, pte_va pte, Page_Ptr (Some (pte_kpfn pte)))" by blast
    then show ?thesis by (auto simp: idents_def ident_def)
  qed
  ultimately show ?thesis unfolding shadow_filled_def using walk_pte_aligned [OF assms] by blast
qed

lemma walk_ok:
  assumes "walk_at fuel XA mm h0 sc w seen rest" "sorted_wrt (<) (map fst (sc @ anon_pages (h_pages h0) es))"
    and "\<forall>e \<in> set es. fst e AND PAGE_MASK = fst e" "\<forall>va p. (va, Pte_Page p) \<in> set es \<longrightarrow> 0 < pg_count (h_pages h0 p)"
  shows "rfold (scan_pte_entry fuel E XA W mm) es w = Inl (Stopped ''Failed to get rmap item'') \<and> items_run_out E \<or>
    (\<exists>w' seen' rest'. rfold (scan_pte_entry fuel E XA W mm) es w = Inr w' \<and> walk_at fuel XA mm h0 (sc @ anon_pages (h_pages h0) es) w' seen' rest' \<and>
       sm_mm_id (wk_shadow w') = sm_mm_id (wk_shadow w) \<and>
       wk_address w' = (if anon_pages (h_pages h0) es = [] then wk_address w else fst (last (anon_pages (h_pages h0) es))) \<and>
       (plenty XA W \<longrightarrow> table_pairs (wk_shadow w') = table_pairs (wk_shadow w) @ anon_pages (h_pages h0) es))"
  using assms
proof (induction es arbitrary: sc w seen rest)
  case Nil
  then show ?case by auto
next
  case (Cons e es)
  obtain va pte where e: "e = (va, pte)" by (cases e)
  show ?case
  proof (cases "\<exists>p. pte = Pte_Page p \<and> PageAnon (h_pages h0 p)")
    case True
    then obtain p where p: "pte = Pte_Page p" "PageAnon (h_pages h0 p)" by blast
    let ?as = "anon_pages (h_pages h0) es"
    have an: "anon_pages (h_pages h0) (e # es) = (va, p) # ?as" using e p by simp
    have va: "va AND PAGE_MASK = va" and cnt: "0 < pg_count (h_pages h0 p)" using Cons.prems(3,4) e p by auto
    have order: "\<forall>e \<in> set sc. fst e < va" using Cons.prems(2) unfolding an by (auto simp: sorted_wrt_append)
    from scan_anon_ok [OF Cons.prems(1) va order cnt p(2)] consider
      "scan_pte_entry fuel E XA W mm e w = Inl (Stopped ''Failed to get rmap item'')" "items_run_out E"
      | w1 seen1 rest1 where "scan_pte_entry fuel E XA W mm e w = Inr w1" "walk_at fuel XA mm h0 (sc @ [(va, p)]) w1 seen1 rest1"
        "wk_address w1 = va" "sm_mm_id (wk_shadow w1) = sm_mm_id (wk_shadow w)"
        "plenty XA W \<longrightarrow> table_pairs (wk_shadow w1) = table_pairs (wk_shadow w) @ [(va, p)]"
      unfolding e p(1) using walk_fresh [OF Cons.prems(1) va order] by blast
    then show ?thesis
    proof cases
      case 1
      then show ?thesis by simp
    next
      case (2 w1 seen1 rest1)
      have "sorted_wrt (<) (map fst ((sc @ [(va, p)]) @ ?as))" using Cons.prems(2) unfolding an by simp
      from Cons.IH [OF 2(2) this] Cons.prems(3,4) consider
        "rfold (scan_pte_entry fuel E XA W mm) es w1 = Inl (Stopped ''Failed to get rmap item'')" "items_run_out E"
        | w2 seen2 rest2 where "rfold (scan_pte_entry fuel E XA W mm) es w1 = Inr w2" "walk_at fuel XA mm h0 ((sc @ [(va, p)]) @ ?as) w2 seen2 rest2"
          "sm_mm_id (wk_shadow w2) = sm_mm_id (wk_shadow w1)" "wk_address w2 = (if ?as = [] then wk_address w1 else fst (last ?as))"
          "plenty XA W \<longrightarrow> table_pairs (wk_shadow w2) = table_pairs (wk_shadow w1) @ ?as"
        by (metis list.set_intros(2))
      then show ?thesis
      proof cases
        case 1
        then show ?thesis using 2(1) by simp
      next
        case w2: (2 w2 seen2 rest2)
        have "rfold (scan_pte_entry fuel E XA W mm) (e # es) w = Inr w2" using 2(1) w2(1) by simp
        moreover have "walk_at fuel XA mm h0 (sc @ anon_pages (h_pages h0) (e # es)) w2 seen2 rest2" using w2(2) unfolding an by simp
        moreover have "wk_address w2 = (if anon_pages (h_pages h0) (e # es) = [] then wk_address w else fst (last (anon_pages (h_pages h0) (e # es))))"
          unfolding an using w2(4) 2(3) by simp
        moreover have "plenty XA W \<longrightarrow> table_pairs (wk_shadow w2) = table_pairs (wk_shadow w) @ anon_pages (h_pages h0) (e # es)"
          unfolding an using w2(5) 2(5) by simp
        moreover have "sm_mm_id (wk_shadow w2) = sm_mm_id (wk_shadow w)" using w2(3) 2(4) by simp
        ultimately show ?thesis by blast
      qed
    qed
  next
    case False
    have an: "anon_pages (h_pages h0) (e # es) = anon_pages (h_pages h0) es" using e False by (cases pte) auto
    have "h_pages (wk_host w) = referenced sc (h_pages h0)" using Cons.prems(1) by (simp add: walk_at_def)
    then have "h_pages (get_page p (wk_host w)) = referenced (sc @ [(va, p)]) (h_pages h0)" for p by (rule referenced_snoc)
    then have "scan_pte_entry fuel E XA W mm e w = Inr w"
      using False e by (auto simp: scan_pte_entry_def Let_def split: host_pte.splits)
    then have rf: "rfold (scan_pte_entry fuel E XA W mm) (e # es) w = rfold (scan_pte_entry fuel E XA W mm) es w" by simp
    show ?thesis unfolding rf an by (rule Cons.IH [OF Cons.prems(1)]) (use Cons.prems(2-4) an in auto)
  qed
qed

text \<open>The walk of a whole process.\<close>

lemma create_shadow_mm_ok:
  assumes inv: "host_inv h" and calm: "calm h" and l: "proc_list (h_items h) head mm as" and fuel: "length as < fuel"
    and walk: "walkable (h_pages h) (walked_ptes vmas)" and sc: "sc = anon_pages (h_pages h) (walked_ptes vmas)"
  shows "(\<exists>msg. create_shadow_mm fuel E XA W cb allocs owner vmas mm (h, head) = Inl (Stopped msg)) \<and>
      (create_empty XA cb allocs (we_junk W) (case owner of None \<Rightarrow> - 1 | Some pid \<Rightarrow> pid) = None \<or> items_run_out E) \<or>
    (\<exists>w seen rest. create_shadow_mm fuel E XA W cb allocs owner vmas mm (h, head) = Inr w \<and> walk_at fuel XA mm h sc w seen rest \<and>
       sm_mm_id (wk_shadow w) = (case owner of None \<Rightarrow> - 1 | Some pid \<Rightarrow> pid) \<and>
       wk_address w = (if sc = [] then 0 else fst (last sc)) \<and> (plenty XA W \<longrightarrow> table_pairs (wk_shadow w) = sc))"
proof (cases "create_empty XA cb allocs (we_junk W) (case owner of None \<Rightarrow> - 1 | Some pid \<Rightarrow> pid)")
  case None
  then show ?thesis by (simp add: create_shadow_mm_def)
next
  case (Some sm)
  note c = create_empty_ok [OF Some]
  let ?w = "\<lparr>wk_host = h, wk_head = head, wk_cursor = At_Head, wk_address = 0, wk_shadow = sm\<rparr>"
  have at: "walk_at fuel XA mm h [] ?w [] as"
    using inv calm l fuel c by (simp add: walk_at_def others_kept_refl he_same_refl table_pairs_def)
  have "sorted_wrt (<) (map fst ([] @ sc))"
    using walk sorted_wrt_subseq [OF anon_pages_subseq, of "(<)" "walked_ptes vmas" "h_pages h"] by (simp add: walkable_def sc)
  from walk_ok [OF at, of "walked_ptes vmas"] this walk consider
    "rfold (scan_pte_entry fuel E XA W mm) (walked_ptes vmas) ?w = Inl (Stopped ''Failed to get rmap item'')" "items_run_out E"
    | w seen rest where "rfold (scan_pte_entry fuel E XA W mm) (walked_ptes vmas) ?w = Inr w" "walk_at fuel XA mm h sc w seen rest"
      "sm_mm_id (wk_shadow w) = sm_mm_id sm" "wk_address w = (if sc = [] then 0 else fst (last sc))"
      "plenty XA W \<longrightarrow> table_pairs (wk_shadow w) = table_pairs sm @ sc"
    unfolding walkable_def sc by auto
  then show ?thesis
  proof cases
    case 1
    then show ?thesis using Some by (simp add: create_shadow_mm_def)
  next
    case (2 w seen rest)
    have "create_shadow_mm fuel E XA W cb allocs owner vmas mm (h, head) = Inr w" using Some 2(1) by (simp add: create_shadow_mm_def)
    moreover have "table_pairs sm = []" using c by (simp add: table_pairs_def)
    ultimately show ?thesis using 2(2-5) c by auto
  qed
qed

end

section \<open>What a walk leaves\<close>

text \<open>
  C22. The walk over the page tables of a process (\<open>create_shadow_mm\<close>). Unless the kernel runs out of memory for
  the shadow page table or an item and stops, the list of the items of the process afterwards begins
  with one item per anonymous page of its mergeable areas, in the order of their addresses and
  pointing to the page; items of addresses passed that are not mapped any more are gone. The shadow page
  table is filled from these pages, with all of them if memory allows, each indexed by its item. Every such page has one more reference per
  mapping, items of other processes are as before, and the invariant of the merging state holds.
\<close>

theorem walk_fills_shadow:
  assumes "host_walk E XA W" and "host_inv h" and "calm h" and "proc_list (h_items h) head mm as" and "length as < fuel"
    and "walkable (h_pages h) (walked_ptes vmas)"
  shows "(\<exists>msg. create_shadow_mm fuel E XA W cb allocs owner vmas mm (h, head) = Inl (Stopped msg)) \<and>
      (create_empty XA cb allocs (we_junk W) (case owner of None \<Rightarrow> - 1 | Some pid \<Rightarrow> pid) = None \<or> items_run_out E) \<or>
    (\<exists>w seen rest. create_shadow_mm fuel E XA W cb allocs owner vmas mm (h, head) = Inr w \<and> host_inv (wk_host w) \<and>
       proc_list (h_items (wk_host w)) (wk_head w) mm (seen @ rest) \<and>
       map (idents (h_items (wk_host w))) seen =
         map (\<lambda>(va, p). Some (mm, va, Page_Ptr (Some p))) (anon_pages (h_pages h) (walked_ptes vmas)) \<and>
       shadow_filled XA (h_items (wk_host w)) (wk_shadow w) \<and>
       subseq (table_pairs (wk_shadow w)) (anon_pages (h_pages h) (walked_ptes vmas)) \<and>
       (plenty XA W \<longrightarrow> table_pairs (wk_shadow w) = anon_pages (h_pages h) (walked_ptes vmas)) \<and>
       h_pages (wk_host w) = referenced (anon_pages (h_pages h) (walked_ptes vmas)) (h_pages h) \<and> others_kept mm h (wk_host w))"
proof -
  let ?sc = "anon_pages (h_pages h) (walked_ptes vmas)"
  from host_walk.create_shadow_mm_ok [OF assms(1-6) refl, of cb allocs owner] consider
    msg where "create_shadow_mm fuel E XA W cb allocs owner vmas mm (h, head) = Inl (Stopped msg)"
      "create_empty XA cb allocs (we_junk W) (case owner of None \<Rightarrow> - 1 | Some pid \<Rightarrow> pid) = None \<or> items_run_out E"
    | w seen rest where "create_shadow_mm fuel E XA W cb allocs owner vmas mm (h, head) = Inr w" "walk_at fuel XA mm h ?sc w seen rest"
      "plenty XA W \<longrightarrow> table_pairs (wk_shadow w) = ?sc" by blast
  then show ?thesis
  proof cases
    case (2 w seen rest)
    from host_walk.walk_filled [OF assms(1) 2(2)] have "shadow_filled XA (h_items (wk_host w)) (wk_shadow w)" .
    then show ?thesis using 2(1,3) 2(2) [unfolded walk_at_def] by blast
  qed blast
qed

section \<open>A sample walk\<close>

definition sample_vmas :: "host_vma list" where
  "sample_vmas = [\<lparr>vm_mergeable = True, vm_anon_vma = True, vm_ptes = [(0x1000, Pte_Page 7), (0x2000, Pte_Absent), (0x3000, Pte_Page 8)]\<rparr>,
     \<lparr>vm_mergeable = False, vm_anon_vma = True, vm_ptes = [(0x9000, Pte_Page 16)]\<rparr>]"

definition sample_walk_env :: "(u64, addr) rbt walk_env" where
  "sample_walk_env = \<lparr>we_alloc = (\<lambda>_. \<lparr>al_block = True, al_ptrs = True\<rparr>), we_junk = \<lparr>pte_va = 0, pte_kpfn = 0\<rparr>\<rparr>"

interpretation slab_alloc: host_alloc "slab_env cap room max_sharing zero_pages junk"
  for cap room max_sharing zero_pages junk
  by unfold_locales (auto simp: slab_env_def find_Some_iff)

interpretation sample_walk: host_walk "slab_env cap room max_sharing zero_pages junk" rbt_xa sample_walk_env
  for cap room max_sharing zero_pages junk
  by unfold_locales (simp_all add: sample_walk_env_def)

lemma sample_walk_ok: "host_walk sample_slab rbt_xa sample_walk_env"
  unfolding sample_slab_def by (rule sample_walk.host_walk_axioms)

lemma sample_plenty: "plenty rbt_xa sample_walk_env"
  by (simp add: plenty_def sample_walk_env_def rbt_xa_def)

lemma sample_calm: "calm sample_host"
  by (simp add: calm_def sample_host_def anon_page_def)

lemma sample_proc_list: "proc_list (h_items sample_host) (Some 1) 1 [1]"
  by (simp add: proc_list_def sample_host_def sample_host_item_def)

lemma sample_anon: "anon_pages (h_pages sample_host) (walked_ptes sample_vmas) = [(0x1000, 7), (0x3000, 8)]"
  by (simp add: walked_ptes_def sample_vmas_def anon_test_walk_def sample_host_def anon_page_def PageAnon_def)

lemma sample_walkable: "walkable (h_pages sample_host) (walked_ptes sample_vmas)"
  by (auto simp: walkable_def walked_ptes_def sample_vmas_def anon_test_walk_def sample_host_def anon_page_def PAGE_MASK_def)

lemma slab_third: "find (\<lambda>a. h a = None) [Suc 0..<100] = Some 3" if "h 1 \<noteq> None" "h 2 \<noteq> None" "h 3 = None" for h :: "nat \<Rightarrow> 'a option"
proof -
  have "[Suc 0..<100] = Suc 0 # 2 # 3 # [4..<100]" by (simp add: upt_conv_Cons)
  then show ?thesis using that by simp
qed

lemmas pass_five = pass_items.simps(2) [where fuel = 4, unfolded Suc_numeral add_num_simps]

lemma walk_sample:
  "\<exists>w. create_shadow_mm 5 sample_slab rbt_xa sample_walk_env True (True, True, True) (Some 42) sample_vmas 1 (sample_host, Some 1) = Inr w \<and>
     h_errors (wk_host w) = h_errors sample_host"
proof -
  let ?al = "\<lparr>al_block = True, al_ptrs = True\<rparr>" and ?junk = "\<lparr>pte_va = 0, pte_kpfn = 0\<rparr>"
  obtain sm where sm: "create_empty rbt_xa True (True, True, True) ?junk 42 = Some sm" by (simp add: create_empty_def)
  then have wf: "shadow_wf rbt_xa sm" using rbt_xa.create_empty_ok by blast
  obtain e1 sm1 where s1: "insert_entry_to_shadow_mm rbt_xa ?al ?junk 0x1000 7 (Suc 0) sm = Inr (e1, sm1)" "shadow_wf rbt_xa sm1"
    using rbt_xa.shadow_insert_ok [OF wf, of ?al ?junk "0x1000" 7 "Suc 0"] by auto
  obtain e2 sm2 where s2: "insert_entry_to_shadow_mm rbt_xa ?al ?junk 0x3000 8 3 sm1 = Inr (e2, sm2)"
    using rbt_xa.shadow_insert_ok [OF s1(2), of ?al ?junk "0x3000" 8 3] by auto
  have "walked_ptes sample_vmas = [(0x1000, Pte_Page 7), (0x2000, Pte_Absent), (0x3000, Pte_Page 8)]"
    by (simp add: walked_ptes_def sample_vmas_def anon_test_walk_def)
  then show ?thesis
    by (simp add: pass_five create_shadow_mm_def scan_pte_entry_def get_next_rmap_item_def read_cursor_def write_cursor_def
      sample_walk_env_def slab_third sample_defs sm s1 s2)
qed

theorem walk_fills_shadow_witness:
  "\<exists>w. create_shadow_mm 5 sample_slab rbt_xa sample_walk_env True (True, True, True) (Some 42) sample_vmas 1 (sample_host, Some 1) = Inr w \<and>
     table_pairs (wk_shadow w) = [(0x1000, 7), (0x3000, 8)] \<and> shadow_filled rbt_xa (h_items (wk_host w)) (wk_shadow w)"
proof -
  note walk_sample
  then show ?thesis
    using walk_fills_shadow [OF sample_walk_ok sample_host_inv sample_calm sample_proc_list, of 5 sample_vmas True "(True, True, True)" "Some 42"]
      sample_walkable sample_plenty sample_anon by auto
qed

end
