(* ===== verification/Prepare_Correct.thy ===== *)
theory Prepare_Correct
  imports Walk_Correct
begin

text \<open>
  The walks of one round over all processes: the shadow page tables that \<open>prepare_metadata\<close> leaves are those of
  the processes with anonymous pages, each filled and in step with the items, and registering them gives the
  server a request it can work on.
\<close>

section \<open>One process\<close>

text \<open>The pages of a process that the round offers, and the id the server knows it by.\<close>

definition pages_of :: "(int \<Rightarrow> mm_world) \<Rightarrow> (u64 \<Rightarrow> host_page) \<Rightarrow> int \<Rightarrow> (u64 \<times> u64) list" where
  "pages_of world pages mm =
     (if mw_exit (world mm) then [] else anon_pages pages (walked_ptes (mw_vmas (world mm))))"

definition owner_id :: "(int \<Rightarrow> mm_world) \<Rightarrow> int \<Rightarrow> int" where
  "owner_id world mm = (case mw_owner (world mm) of None \<Rightarrow> - 1 | Some pid \<Rightarrow> pid)"

text \<open>The shadow page table lists exactly these pages, each with an item of the process.\<close>

definition table_of :: "'x xa_ops \<Rightarrow> (addr \<Rightarrow> ksm_rmap_item option) \<Rightarrow> (u64 \<times> u64) list \<Rightarrow> int \<Rightarrow> int \<Rightarrow> 'x shadow_mm \<Rightarrow> bool" where
  "table_of XA heap pgs pid mm sm \<longleftrightarrow> shadow_wf XA sm \<and> table_pairs sm = pgs \<and> sm_mm_id sm = pid \<and>
     sorted_wrt (<) (map pte_va (contents (sm_pt_map sm))) \<and>
     (\<forall>pte \<in> set (contents (sm_pt_map sm)). \<exists>a. xa_load XA (sm_page_xa sm) (page_number (pte_va pte)) = Some a \<and>
        idents heap a = Some (mm, pte_va pte, Page_Ptr (Some (pte_kpfn pte))))"

lemma table_of_filled:
  assumes "table_of XA heap pgs pid mm sm"
  shows "shadow_filled XA heap sm"
proof -
  have "pte_va pte AND PAGE_MASK = pte_va pte \<and> (\<exists>a it. xa_load XA (sm_page_xa sm) (page_number (pte_va pte)) = Some a \<and> heap a = Some it \<and>
      item_va it = pte_va pte \<and> hi_data it = Page_Ptr (Some (pte_kpfn pte)))" if "pte \<in> set (contents (sm_pt_map sm))" for pte
  proof -
    from assms that obtain a where a: "xa_load XA (sm_page_xa sm) (page_number (pte_va pte)) = Some a"
      "idents heap a = Some (mm, pte_va pte, Page_Ptr (Some (pte_kpfn pte)))" unfolding table_of_def by blast
    then obtain it where it: "heap a = Some it" "item_va it = pte_va pte" "hi_data it = Page_Ptr (Some (pte_kpfn pte))"
      by (auto simp: idents_def ident_def)
    have "item_va it AND PAGE_MASK = item_va it" using mask_idem [of "hi_address it"] by (simp add: item_va_def)
    then show ?thesis using a(1) it by auto
  qed
  then show ?thesis using assms unfolding shadow_filled_def table_of_def by blast
qed

text \<open>The items of processes outside \<open>M\<close> are as before.\<close>

definition kept_except :: "int set \<Rightarrow> host \<Rightarrow> host \<Rightarrow> bool" where
  "kept_except M h h' \<longleftrightarrow>
     (\<forall>a it. h_items h a = Some it \<longrightarrow> hi_mm it \<notin> M \<longrightarrow> (\<exists>it'. h_items h' a = Some it' \<and> core it' = core it))"

lemma kept_except_one: "others_kept mm h h' \<longleftrightarrow> kept_except {mm} h h'"
  by (simp add: others_kept_def kept_except_def)

lemma kept_except_refl: "kept_except M h h"
  by (simp add: kept_except_def)

lemma kept_except_trans:
  assumes "kept_except M h h'" "kept_except N h' h''"
  shows "kept_except (M \<union> N) h h''"
  unfolding kept_except_def
proof (intro allI impI)
  fix a it assume it: "h_items h a = Some it" "hi_mm it \<notin> M \<union> N"
  then obtain it' where it': "h_items h' a = Some it'" "core it' = core it" using assms(1) by (auto simp: kept_except_def)
  then have "hi_mm it' \<notin> N" using it(2) by (simp add: core_def)
  then show "\<exists>it'. h_items h'' a = Some it' \<and> core it' = core it" using assms(2) it' unfolding kept_except_def by metis
qed

lemma kept_except_idents:
  assumes "kept_except M h h'" "idents (h_items h) a = Some (m, va, d)" "m \<notin> M"
  shows "idents (h_items h') a = Some (m, va, d)"
proof -
  from assms(2) obtain it where "h_items h a = Some it" "hi_mm it = m" "item_va it = va" "hi_data it = d"
    by (auto simp: idents_def ident_def)
  moreover with assms(1,3) obtain it' where "h_items h' a = Some it'" "core it' = core it" by (auto simp: kept_except_def)
  ultimately show ?thesis by (simp add: idents_def ident_def core_def)
qed

lemma table_of_kept:
  assumes "table_of XA (h_items h) pgs pid m sm" "kept_except M h h'" "m \<notin> M"
  shows "table_of XA (h_items h') pgs pid m sm"
  using assms(1) kept_except_idents [OF assms(2) _ assms(3)] unfolding table_of_def by blast

lemma proc_list_kept:
  assumes "proc_list (h_items h) head m as" "kept_except M h h'" "m \<notin> M"
  shows "proc_list (h_items h') head m as"
proof (rule proc_list_cong [OF assms(1)])
  have k: "\<exists>it it'. h_items h a = Some it \<and> h_items h' a = Some it' \<and> core it' = core it" if "a \<in> set as" for a
    using proc_list_mm [OF assms(1) that] assms(2,3) unfolding kept_except_def by blast
  have "link (h_items h') a = link (h_items h) a" if "a \<in> set as" for a
    using k [OF that] by (auto simp: link_def core_def)
  then show "rlist (h_items h') head as None" using assms(1) rlist_cong [of as "h_items h'" "h_items h"] by (auto simp: proc_list_def)
  fix a assume "a \<in> set as"
  from k [OF this] show "idents (h_items h') a = idents (h_items h) a" by (auto simp: idents_def ident_def core_def)
qed auto

lemma anon_pages_referenced [simp]: "anon_pages (referenced sc pages) es = anon_pages pages es"
  by (induction pages es rule: anon_pages.induct) auto

lemma pages_of_referenced [simp]: "pages_of world (referenced sc pages) mm = pages_of world pages mm"
  by (simp add: pages_of_def)

lemma walkable_referenced: "walkable pages es \<Longrightarrow> walkable (referenced sc pages) es"
  by (auto simp: walkable_def referenced_def)

lemma referenced_append: "referenced ts (referenced sc pages) = referenced (sc @ ts) pages"
  by (simp add: referenced_def fun_eq_iff)

text \<open>
  A table without pages is freed as if \<open>pages_sgt_cnt\<close> said how many lists it has, though it was never set: with 0
  or 1 in that memory nothing happens.
\<close>

lemma free_no_sgls: "n \<le> 1 \<Longrightarrow> free_sgls False C 0 n [0..<n] [] = Inr (replicate n [])"
  by (cases n) (auto simp: free_sgl_def sg_iters_def)

lemma stray_sgls:
  assumes "0 < C" "1 < n"
  shows "free_sgls False C 0 n [0..<n] [] = Inl Null_Deref"
proof -
  have "[0..<n] = 0 # [1..<n]" "[0..<sg_iters C MAX_PAGES_IN_SGL] = 0 # [1..<sg_iters C MAX_PAGES_IN_SGL]"
    using assms by (auto simp: upt_conv_Cons sg_iters_def Let_def)
  then show ?thesis using assms by (simp add: free_sgl_def sg_iters_def MAX_PAGES_IN_SGL_def)
qed

text \<open>What a round of \<open>prepare_metadata\<close> leaves of a process.\<close>

definition slot_done :: "'x xa_ops \<Rightarrow> (int \<Rightarrow> mm_world) \<Rightarrow> ksm_mm_slot \<Rightarrow> (u64 \<times> u64) list \<Rightarrow> host \<Rightarrow> ksm_mm_slot option \<times> 'x shadow_mm option \<times> host \<Rightarrow> bool" where
  "slot_done XA world slot pgs h r \<longleftrightarrow> (case r of (kept, shadow, h') \<Rightarrow>
     host_inv h' \<and> calm h' \<and> he_same h h' \<and> others_kept (ms_mm slot) h h' \<and> h_pages h' = referenced pgs (h_pages h) \<and>
     (if pgs = [] then kept = None \<and> shadow = None
      else \<exists>head as sm. kept = Some (slot\<lparr>ms_rmap_list := head\<rparr>) \<and> shadow = Some sm \<and> proc_list (h_items h') head (ms_mm slot) as \<and>
        table_of XA (h_items h') pgs (owner_id world (ms_mm slot)) (ms_mm slot) sm))"

text \<open>There is not enough memory for a table or an item.\<close>

definition memory_short :: "host_env \<Rightarrow> 'x xa_ops \<Rightarrow> 'x walk_env \<Rightarrow> bool \<Rightarrow> mm_world \<Rightarrow> bool" where
  "memory_short E XA W cb mw \<longleftrightarrow>
     create_empty XA cb (mw_allocs mw) (we_junk W) (case mw_owner mw of None \<Rightarrow> - 1 | Some pid \<Rightarrow> pid) = None \<or> items_run_out E"

text \<open>What the round needs of the slots, and what it leaves of them and of the tables.\<close>

definition slots_ok :: "nat \<Rightarrow> (int \<Rightarrow> mm_world) \<Rightarrow> ksm_mm_slot list \<Rightarrow> host \<Rightarrow> bool" where
  "slots_ok fuel world slots h \<longleftrightarrow> distinct (map ms_mm slots) \<and>
     (\<forall>slot \<in> set slots. (\<exists>as. proc_list (h_items h) (ms_rmap_list slot) (ms_mm slot) as \<and> length as < fuel) \<and>
        walkable (h_pages h) (walked_ptes (mw_vmas (world (ms_mm slot)))) \<and> mw_sgt_cnt (world (ms_mm slot)) \<le> 1)"

definition round_done :: "'x xa_ops \<Rightarrow> (int \<Rightarrow> mm_world) \<Rightarrow> int list \<Rightarrow> host \<Rightarrow> ksm_mm_slot list \<Rightarrow> 'x shadow_mm list \<Rightarrow> host \<Rightarrow> bool" where
  "round_done XA world mms h slots' tables h' \<longleftrightarrow>
     host_inv h' \<and> calm h' \<and> he_same h h' \<and> kept_except (set mms) h h' \<and>
     h_pages h' = referenced (concat (map (pages_of world (h_pages h)) mms)) (h_pages h) \<and>
     map ms_mm slots' = filter (\<lambda>mm. pages_of world (h_pages h) mm \<noteq> []) mms \<and>
     (\<forall>slot \<in> set slots'. \<exists>as. proc_list (h_items h') (ms_rmap_list slot) (ms_mm slot) as) \<and>
     list_all2 (\<lambda>mm sm. table_of XA (h_items h') (pages_of world (h_pages h) mm) (owner_id world mm) mm sm)
       (rev (map ms_mm slots')) tables"

lemma slots_ok_tail:
  assumes ok: "slots_ok fuel world (slot # slots) h" and d: "slot_done XA world slot pgs h (kept, shadow, h')"
  shows "slots_ok fuel world slots h'"
proof -
  have k: "kept_except {ms_mm slot} h h'" "h_pages h' = referenced pgs (h_pages h)" using d by (simp_all add: slot_done_def kept_except_one)
  have "(\<exists>as. proc_list (h_items h') (ms_rmap_list s) (ms_mm s) as \<and> length as < fuel) \<and>
      walkable (h_pages h') (walked_ptes (mw_vmas (world (ms_mm s)))) \<and> mw_sgt_cnt (world (ms_mm s)) \<le> 1" if s: "s \<in> set slots" for s
  proof -
    have "ms_mm slot \<notin> ms_mm ` set slots" using ok by (simp add: slots_ok_def)
    then have "ms_mm s \<noteq> ms_mm slot" using s by (metis image_eqI)
    moreover obtain as where "proc_list (h_items h) (ms_rmap_list s) (ms_mm s) as" "length as < fuel" using ok s by (auto simp: slots_ok_def)
    moreover have "walkable (h_pages h) (walked_ptes (mw_vmas (world (ms_mm s))))" "mw_sgt_cnt (world (ms_mm s)) \<le> 1"
      using ok s by (auto simp: slots_ok_def)
    ultimately show ?thesis using proc_list_kept [OF _ k(1)] walkable_referenced by (auto simp: k(2))
  qed
  then show ?thesis using ok by (simp add: slots_ok_def)
qed

context host_walk
begin

lemma free_empty_shadow:
  assumes "shadow_filled XA (h_items h) sm" "ht_cnt (sm_pt_map sm) = 0" "n \<le> 1"
  shows "free_shadow_mm XA C False it n [] sm h = Inr h"
proof -
  have "contents (sm_pt_map sm) = []" using assms(2) by (simp add: contents_def)
  then have "xa_entries XA (sm_page_xa sm) = []" using filled_entries [OF assms(1)] by simp
  then show ?thesis using assms(2,3) by (simp add: free_shadow_mm_def free_no_sgls)
qed

text \<open>A walk whose memory suffices leaves the table of the process.\<close>

lemma walk_table_of:
  assumes at: "walk_at fuel XA mm h0 sc w seen rest" and all: "table_pairs (wk_shadow w) = sc" and id: "sm_mm_id (wk_shadow w) = pid"
  shows "table_of XA (h_items (wk_host w)) sc pid mm (wk_shadow w)"
proof -
  have "sorted_wrt (<) (map pte_va (contents (sm_pt_map (wk_shadow w))))" using walk_filled [OF at] by (simp add: shadow_filled_def)
  moreover have "shadow_wf XA (wk_shadow w)" using at by (simp add: walk_at_def)
  moreover have "\<exists>a. xa_load XA (sm_page_xa (wk_shadow w)) (page_number (pte_va pte)) = Some a \<and>
      idents (h_items (wk_host w)) a = Some (mm, pte_va pte, Page_Ptr (Some (pte_kpfn pte)))"
    if "pte \<in> set (contents (sm_pt_map (wk_shadow w)))" for pte
    using at that unfolding walk_at_def by blast
  ultimately show ?thesis unfolding table_of_def using all id by blast
qed

text \<open>A walk that meets no anonymous page changes nothing and cannot fail.\<close>

lemma walk_nothing:
  assumes "anon_pages (h_pages (wk_host w)) es = []"
  shows "rfold (scan_pte_entry fuel E XA W mm) es w = Inr w"
  using assms
proof (induction es)
  case (Cons e es)
  obtain va pte where e: "e = (va, pte)" by (cases e)
  have "PageAnon (h_pages (get_page p (wk_host w)) p) = PageAnon (h_pages (wk_host w) p)" for p
    by (simp add: get_page_def upd_page_def PageAnon_def)
  then have "scan_pte_entry fuel E XA W mm e w = Inr w \<and> anon_pages (h_pages (wk_host w)) es = []"
    using Cons.prems by (cases pte) (auto simp: e scan_pte_entry_def Let_def split: if_splits)
  then show ?case using Cons.IH by simp
qed simp

lemma prepare_idle_slot:
  assumes inv: "host_inv h" and calm: "calm h" and l: "proc_list (h_items h) (ms_rmap_list slot) (ms_mm slot) as" and fuel: "length as < fuel"
    and none: "anon_pages (h_pages h) (walked_ptes (mw_vmas (world (ms_mm slot)))) = []" and live: "\<not> mw_exit (world (ms_mm slot))"
    and sm: "create_empty XA cb (mw_allocs (world (ms_mm slot))) (we_junk W) (owner_id world (ms_mm slot)) = Some sm"
    and sgt: "mw_sgt_cnt (world (ms_mm slot)) \<le> 1"
  shows "\<exists>h'. prepare_slot fuel E XA W C cb world slot h = Inr (None, None, h') \<and> steps_to (ms_mm slot) (set as) h h'"
proof -
  from remove_trailing_ok [OF inv calm, of "ms_rmap_list slot" "ms_mm slot" "[]" as fuel] l fuel obtain h' head' where
    h': "remove_trailing_rmap_items fuel E At_Head (h, ms_rmap_list slot) = Inr (h', head')" "steps_to (ms_mm slot) (set as) h h'" by auto
  note c = create_empty_ok [OF sm]
  have cnt: "ht_cnt (sm_pt_map sm) = 0" using c length_contents [where t = "sm_pt_map sm"] by (auto simp: shadow_wf_def)
  have "shadow_filled XA (h_items h) sm" using c by (simp add: shadow_filled_def)
  note f = free_empty_shadow [OF this cnt sgt, of C 0]
  have "create_shadow_mm fuel E XA W cb (mw_allocs (world (ms_mm slot))) (mw_owner (world (ms_mm slot))) (mw_vmas (world (ms_mm slot)))
      (ms_mm slot) (h, ms_rmap_list slot) =
      Inr \<lparr>wk_host = h, wk_head = ms_rmap_list slot, wk_cursor = At_Head, wk_address = 0, wk_shadow = sm\<rparr>"
    using sm none by (simp add: create_shadow_mm_def owner_id_def walk_nothing)
  then have "prepare_slot fuel E XA W C cb world slot h = Inr (None, None, h')"
    using live cnt f h'(1) by (simp add: prepare_slot_def init_shadow_for_mm_def Let_def)
  then show ?thesis using h'(2) by blast
qed

lemma idle_slot_strays:
  assumes none: "anon_pages (h_pages h) (walked_ptes (mw_vmas (world (ms_mm slot)))) = []" and live: "\<not> mw_exit (world (ms_mm slot))"
    and sm: "create_empty XA cb (mw_allocs (world (ms_mm slot))) (we_junk W) (owner_id world (ms_mm slot)) = Some sm"
    and C: "0 < C" and sgt: "\<not> mw_sgt_cnt (world (ms_mm slot)) \<le> 1"
  shows "prepare_slot fuel E XA W C cb world slot h = Inl Null_Deref"
proof -
  note c = create_empty_ok [OF sm]
  have cnt: "ht_cnt (sm_pt_map sm) = 0" using c length_contents [where t = "sm_pt_map sm"] by (auto simp: shadow_wf_def)
  have "shadow_filled XA (h_items h) sm" using c by (simp add: shadow_filled_def)
  then have "xa_entries XA (sm_page_xa sm) = []" using filled_entries c by fastforce
  then have f: "free_shadow_mm XA C False 0 (mw_sgt_cnt (world (ms_mm slot))) [] sm h = Inl Null_Deref"
    using stray_sgls [where 'a = u64, OF C] sgt cnt by (simp add: free_shadow_mm_def)
  have "create_shadow_mm fuel E XA W cb (mw_allocs (world (ms_mm slot))) (mw_owner (world (ms_mm slot))) (mw_vmas (world (ms_mm slot)))
      (ms_mm slot) (h, ms_rmap_list slot) =
      Inr \<lparr>wk_host = h, wk_head = ms_rmap_list slot, wk_cursor = At_Head, wk_address = 0, wk_shadow = sm\<rparr>"
    using sm none by (simp add: create_shadow_mm_def owner_id_def walk_nothing)
  then show ?thesis using live cnt f by (simp add: prepare_slot_def init_shadow_for_mm_def Let_def)
qed

lemma prepare_slot_ok:
  assumes inv: "host_inv h" and calm: "calm h" and l: "proc_list (h_items h) (ms_rmap_list slot) (ms_mm slot) as" and fuel: "length as < fuel"
    and walk: "walkable (h_pages h) (walked_ptes (mw_vmas (world (ms_mm slot))))" and plenty: "plenty XA W" and sgt: "mw_sgt_cnt (world (ms_mm slot)) \<le> 1"
  shows "(\<exists>msg. prepare_slot fuel E XA W C cb world slot h = Inl (Stopped msg)) \<and> memory_short E XA W cb (world (ms_mm slot)) \<or>
    (\<exists>r. prepare_slot fuel E XA W C cb world slot h = Inr r \<and> slot_done XA world slot (pages_of world (h_pages h) (ms_mm slot)) h r)"
proof -
  let ?mm = "ms_mm slot" and ?mw = "world (ms_mm slot)"
  let ?sc = "anon_pages (h_pages h) (walked_ptes (mw_vmas ?mw))"
  show ?thesis
  proof (cases "mw_exit ?mw")
    case True
    from remove_trailing_ok [OF inv calm, of "ms_rmap_list slot" ?mm "[]" as fuel] l fuel obtain h' head' where
      h': "remove_trailing_rmap_items fuel E At_Head (h, ms_rmap_list slot) = Inr (h', head')" "steps_to ?mm (set as) h h'" by auto
    then have "prepare_slot fuel E XA W C cb world slot h = Inr (None, None, h')"
      using True by (simp add: prepare_slot_def init_shadow_for_mm_def Let_def)
    moreover have "slot_done XA world slot [] h (None, None, h')"
      using h'(2) steps_to_calm [OF h'(2) calm] by (simp add: slot_done_def steps_to_def)
    ultimately show ?thesis using True by (simp add: pages_of_def)
  next
    case False
    then have pg: "pages_of world (h_pages h) ?mm = ?sc" by (simp add: pages_of_def)
    from create_shadow_mm_ok [OF inv calm l fuel walk refl, of cb "mw_allocs ?mw" "mw_owner ?mw"] plenty consider
      msg where "create_shadow_mm fuel E XA W cb (mw_allocs ?mw) (mw_owner ?mw) (mw_vmas ?mw) ?mm (h, ms_rmap_list slot) = Inl (Stopped msg)"
        "memory_short E XA W cb ?mw"
      | w seen rest where "create_shadow_mm fuel E XA W cb (mw_allocs ?mw) (mw_owner ?mw) (mw_vmas ?mw) ?mm (h, ms_rmap_list slot) = Inr w"
        "walk_at fuel XA ?mm h ?sc w seen rest" "sm_mm_id (wk_shadow w) = owner_id world ?mm"
        "wk_address w = (if ?sc = [] then 0 else fst (last ?sc))" "table_pairs (wk_shadow w) = ?sc"
      unfolding owner_id_def memory_short_def by blast
    then show ?thesis
    proof cases
      case 1
      then show ?thesis using False by (simp add: prepare_slot_def init_shadow_for_mm_def Let_def)
    next
      case (2 w seen rest)
      note at = 2(2) [unfolded walk_at_def]
      note tab = walk_table_of [OF 2(2,5,3)]
      have cnt: "ht_cnt (sm_pt_map (wk_shadow w)) = length ?sc"
        using length_contents [where t = "sm_pt_map (wk_shadow w)"] at arg_cong [OF 2(5), of length] by (auto simp: shadow_wf_def table_pairs_def)
      show ?thesis
      proof (cases "?sc = []")
        case none: True
        have fr: "free_shadow_mm XA C False 0 (mw_sgt_cnt ?mw) [] (wk_shadow w) (wk_host w) = Inr (wk_host w)"
          using free_empty_shadow [OF walk_filled [OF 2(2)] _ sgt] cnt none by simp
        have rem: "\<exists>h' head'. remove_trailing_rmap_items fuel E (wk_cursor w) (wk_host w, wk_head w) = Inr (h', head') \<and> steps_to ?mm (set rest) (wk_host w) h'"
          using remove_trailing_ok [of "wk_host w" "wk_head w" ?mm seen rest fuel] at by auto
        then obtain h' head' where h': "remove_trailing_rmap_items fuel E (wk_cursor w) (wk_host w, wk_head w) = Inr (h', head')"
          "steps_to ?mm (set rest) (wk_host w) h'" by blast
        have "prepare_slot fuel E XA W C cb world slot h = Inr (None, None, h')"
          using False 2(1,4) cnt none fr h'(1) by (simp add: prepare_slot_def init_shadow_for_mm_def Let_def)
        moreover have "slot_done XA world slot [] h (None, None, h')"
        proof -
          have "he_same h (wk_host w)" "others_kept ?mm h (wk_host w)" "calm (wk_host w)" "h_pages (wk_host w) = h_pages h" using at none by simp_all
          moreover have "he_same h h'" "others_kept ?mm h h'" 
            using h'(2) calculation he_same_trans others_kept_trans unfolding steps_to_def by blast+
          ultimately show ?thesis using h'(2) steps_to_calm [OF h'(2)] by (simp add: slot_done_def steps_to_def)
        qed
        ultimately show ?thesis using none pg by simp
      next
        case some: False
        have "prepare_slot fuel E XA W C cb world slot h = Inr (Some (slot\<lparr>ms_rmap_list := wk_head w\<rparr>), Some (wk_shadow w), wk_host w)"
          using False 2(1) cnt some by (simp add: prepare_slot_def init_shadow_for_mm_def)
        moreover have "slot_done XA world slot ?sc h (Some (slot\<lparr>ms_rmap_list := wk_head w\<rparr>), Some (wk_shadow w), wk_host w)"
          unfolding slot_done_def using at tab some by auto
        ultimately show ?thesis using pg by simp
      qed
    qed
  qed
qed

text \<open>The whole loop; the tables are those of the processes with pages, the last one first.\<close>

lemma round_done_Cons:
  assumes ok: "slots_ok fuel world (slot # slots) h"
    and d: "slot_done XA world slot (pages_of world (h_pages h) (ms_mm slot)) h (kept, shadow, h1)"
    and rd: "round_done XA world (map ms_mm slots) h1 slots' tables h'"
  shows "round_done XA world (map ms_mm (slot # slots)) h (case kept of None \<Rightarrow> slots' | Some s \<Rightarrow> s # slots')
    (tables @ (case shadow of None \<Rightarrow> [] | Some sm \<Rightarrow> [sm])) h'"
proof -
  let ?pgs = "pages_of world (h_pages h)" and ?m = "ms_mm slot" and ?ms = "map ms_mm slots"
  have 1: "he_same h h1" "kept_except {?m} h h1" "h_pages h1 = referenced (?pgs ?m) (h_pages h)"
    using d by (simp_all add: slot_done_def kept_except_one)
  have pg: "pages_of world (h_pages h1) = ?pgs" by (simp add: 1(3) fun_eq_iff)
  note R = rd [unfolded round_done_def pg]
  have m: "?m \<notin> set ?ms" using ok by (simp add: slots_ok_def)
  have "he_same h h'" using he_same_trans [OF 1(1)] R by blast
  moreover have "kept_except (set ?ms) h1 h'" using R by blast
  moreover from kept_except_trans [OF 1(2) this] have "kept_except (set (map ms_mm (slot # slots))) h h'" by simp
  moreover have "h_pages h' = referenced (concat (map ?pgs (map ms_mm (slot # slots)))) (h_pages h)"
    using R by (simp add: 1(3) referenced_append)
  moreover have "(if ?pgs ?m = [] then kept = None \<and> shadow = None
      else \<exists>head as sm. kept = Some (slot\<lparr>ms_rmap_list := head\<rparr>) \<and> shadow = Some sm \<and> proc_list (h_items h') head ?m as \<and>
        table_of XA (h_items h') (?pgs ?m) (owner_id world ?m) ?m sm)"
    using d proc_list_kept [OF _ calculation(2) m] table_of_kept [OF _ calculation(2) m]
    unfolding slot_done_def by (fastforce split: if_splits)
  ultimately show ?thesis
    using R unfolding round_done_def by (auto split: if_splits simp: list_all2_appendI) (rule exI)
qed

lemma prepare_slots_ok:
  assumes "host_inv h" "calm h" "slots_ok fuel world slots h" "plenty XA W"
  shows "(\<exists>msg. prepare_slots fuel E XA W C cb world slots mms h = Inl (Stopped msg)) \<and>
      (\<exists>slot \<in> set slots. memory_short E XA W cb (world (ms_mm slot))) \<or>
    (\<exists>slots' tables h'. prepare_slots fuel E XA W C cb world slots mms h = Inr (slots', tables @ mms, h') \<and>
       round_done XA world (map ms_mm slots) h slots' tables h')"
  using assms
proof (induction slots arbitrary: mms h)
  case Nil
  then show ?case by (simp add: round_done_def kept_except_refl he_same_refl)
next
  case (Cons slot slots)
  from Cons.prems(3) obtain as where "proc_list (h_items h) (ms_rmap_list slot) (ms_mm slot) as" "length as < fuel"
    "walkable (h_pages h) (walked_ptes (mw_vmas (world (ms_mm slot))))" "mw_sgt_cnt (world (ms_mm slot)) \<le> 1"
    by (auto simp: slots_ok_def)
  from prepare_slot_ok [where world = world, OF Cons.prems(1,2) this(1-3) Cons.prems(4) this(4)] consider
    msg where "prepare_slot fuel E XA W C cb world slot h = Inl (Stopped msg)" "memory_short E XA W cb (world (ms_mm slot))"
    | kept shadow h1 where "prepare_slot fuel E XA W C cb world slot h = Inr (kept, shadow, h1)"
      "slot_done XA world slot (pages_of world (h_pages h) (ms_mm slot)) h (kept, shadow, h1)" by (metis prod_cases3)
  then show ?case
  proof cases
    case 1
    then show ?thesis by simp
  next
    case (2 kept shadow h1)
    let ?mms = "case shadow of None \<Rightarrow> mms | Some sm \<Rightarrow> sm # mms"
    have "host_inv h1" "calm h1" using 2(2) by (simp_all add: slot_done_def)
    from Cons.IH [OF this slots_ok_tail [OF Cons.prems(3) 2(2)] Cons.prems(4), of ?mms] consider
      msg where "prepare_slots fuel E XA W C cb world slots ?mms h1 = Inl (Stopped msg)"
        "\<exists>slot \<in> set slots. memory_short E XA W cb (world (ms_mm slot))"
      | slots' tables h' where "prepare_slots fuel E XA W C cb world slots ?mms h1 = Inr (slots', tables @ ?mms, h')"
        "round_done XA world (map ms_mm slots) h1 slots' tables h'" by blast
    then show ?thesis
    proof cases
      case 1
      then show ?thesis using 2(1) by simp
    next
      case r: (2 slots' tables h')
      have "prepare_slots fuel E XA W C cb world (slot # slots) mms h =
          Inr (case kept of None \<Rightarrow> slots' | Some s \<Rightarrow> s # slots', (tables @ (case shadow of None \<Rightarrow> [] | Some sm \<Rightarrow> [sm])) @ mms, h')"
        using 2(1) r(1) by (simp split: option.split)
      then show ?thesis using round_done_Cons [OF Cons.prems(3) 2(2) r(2)] by blast
    qed
  qed
qed

end

section \<open>All processes\<close>

text \<open>
  C23. One round of walks (the loop of \<open>prepare_metadata\<close>). The kernel stops only when memory for a shadow page
  table or an item runs out; otherwise every process is walked. The shadow page tables left are those of the processes
  that have anonymous pages in mergeable areas and are not exiting, the last one first; each lists exactly these pages in
  order, with the item of each. Only the slots of these processes stay in the scan. Every page walked has one more
  reference per mapping, and the invariant of the merging state holds.
\<close>

theorem prepare_round:
  assumes "host_walk E XA W" and "plenty XA W" and "host_inv h" and "calm h" and "slots_ok fuel world slots h"
  shows "(\<exists>msg. prepare_slots fuel E XA W C cb world slots [] h = Inl (Stopped msg)) \<and>
      (\<exists>slot \<in> set slots. memory_short E XA W cb (world (ms_mm slot))) \<or>
    (\<exists>slots' tables h'. prepare_slots fuel E XA W C cb world slots [] h = Inr (slots', tables, h') \<and>
       round_done XA world (map ms_mm slots) h slots' tables h')"
  using host_walk.prepare_slots_ok [OF assms(1,3-5,2), of C cb "[]"] by simp

text \<open>
  C40. A process that has no anonymous page in its mergeable areas at the moment of the walk, such as one that has not touched
  them yet, leaves the scan for good, though it is not exiting: its slot is freed. Its empty shadow page table
  is freed with the number of scatter lists that happens to be in the memory the table was allocated in; if
  that number is more than one, the first of them is a stray pointer that is followed.
\<close>

theorem idle_process_forgotten:
  assumes "host_walk E XA W" and "host_inv h" and "calm h" and "proc_list (h_items h) (ms_rmap_list slot) (ms_mm slot) as"
    and "length as < fuel" and "anon_pages (h_pages h) (walked_ptes (mw_vmas (world (ms_mm slot)))) = []"
    and "\<not> mw_exit (world (ms_mm slot))" and "create_empty XA cb (mw_allocs (world (ms_mm slot))) (we_junk W) (owner_id world (ms_mm slot)) = Some sm"
    and "0 < C"
  shows "if mw_sgt_cnt (world (ms_mm slot)) \<le> 1
    then \<exists>h'. prepare_slot fuel E XA W C cb world slot h = Inr (None, None, h') \<and> host_inv h' \<and> others_kept (ms_mm slot) h h'
    else prepare_slot fuel E XA W C cb world slot h = Inl Null_Deref"
proof (cases "mw_sgt_cnt (world (ms_mm slot)) \<le> 1")
  case True
  with host_walk.prepare_idle_slot [where world = world, OF assms(1-8) True, of C] show ?thesis by (auto simp: steps_to_def)
next
  case False
  with host_walk.idle_slot_strays [where world = world and h = h and slot = slot, OF assms(1,6-9)] show ?thesis by simp
qed

text \<open>A process whose only area is mergeable but not touched yet.\<close>

definition sample_idle :: "nat \<Rightarrow> mm_world" where
  "sample_idle n = \<lparr>mw_exit = False, mw_owner = Some 42, mw_vmas = [\<lparr>vm_mergeable = True, vm_anon_vma = True, vm_ptes = [(0x1000, Pte_Absent)]\<rparr>],
     mw_allocs = (True, True, True), mw_sgt_cnt = n\<rparr>"

theorem idle_process_forgotten_witness:
  "(\<exists>h'. prepare_slot 5 sample_slab rbt_xa sample_walk_env 128 True (\<lambda>_. sample_idle 0) \<lparr>ms_mm = 1, ms_rmap_list = Some 1\<rparr> sample_host = Inr (None, None, h')) \<and>
   prepare_slot 5 sample_slab rbt_xa sample_walk_env 128 True (\<lambda>_. sample_idle 77) \<lparr>ms_mm = 1, ms_rmap_list = Some 1\<rparr> sample_host = Inl Null_Deref"
proof -
  have none: "anon_pages (h_pages sample_host) (walked_ptes (mw_vmas (sample_idle n))) = []" for n
    by (simp add: sample_idle_def walked_ptes_def anon_test_walk_def)
  obtain sm where "create_empty rbt_xa True (True, True, True) (we_junk sample_walk_env) 42 = Some sm" by (simp add: create_empty_def)
  then have sm: "create_empty rbt_xa True (mw_allocs (sample_idle n)) (we_junk sample_walk_env) (owner_id (\<lambda>_. sample_idle n) 1) = Some sm" for n
    by (simp add: sample_idle_def owner_id_def)
  have "\<not> mw_exit (sample_idle n)" "mw_sgt_cnt (sample_idle n) = n" for n by (simp_all add: sample_idle_def)
  then show ?thesis
    using idle_process_forgotten [OF sample_walk_ok sample_host_inv sample_calm, of "\<lparr>ms_mm = 1, ms_rmap_list = Some 1\<rparr>" "[1]" 5 "\<lambda>_. sample_idle 0" True sm 128]
      idle_process_forgotten [OF sample_walk_ok sample_host_inv sample_calm, of "\<lparr>ms_mm = 1, ms_rmap_list = Some 1\<rparr>" "[1]" 5 "\<lambda>_. sample_idle 77" True sm 128]
      sample_proc_list none sm by auto
qed

section \<open>The request\<close>

text \<open>The processes of a round in the order of their descriptors, and the entries of a table for pages.\<close>

definition offered :: "(int \<Rightarrow> mm_world) \<Rightarrow> ksm_mm_slot list \<Rightarrow> host \<Rightarrow> int list" where
  "offered world slots h = rev (filter (\<lambda>mm. pages_of world (h_pages h) mm \<noteq> []) (map ms_mm slots))"

definition ptes_of :: "(u64 \<times> u64) list \<Rightarrow> shadow_pte list" where
  "ptes_of pgs = map (\<lambda>(va, p). \<lparr>pte_va = va, pte_kpfn = p\<rparr>) pgs"

text \<open>
  What the pages of a process need to be offered: fewer than 32 GB, not the page at address 0, no page whose hash is
  the null hash, and the resources to register them.
\<close>

definition pages_offerable ::
  "('t, 'h) server_env \<Rightarrow> nat \<Rightarrow> register_ops \<Rightarrow> (u64 \<Rightarrow> u8 list) \<Rightarrow> (nat \<Rightarrow> nat \<Rightarrow> hash_pair option) \<Rightarrow> (u64 \<times> u64) list \<Rightarrow> bool" where
  "pages_offerable E C ops mem hashes pgs \<longleftrightarrow>
     length pgs < MAX_CAPACITY_PER_TABLE * MAX_VA_ARRAYS \<and> registrable C (ro_kz ops) (ro_mrs ops) (length pgs) \<and>
     ro_map_kz ops \<and> ro_map_mr ops \<noteq> None \<and> fst (hd pgs) \<noteq> 0 \<and>
     (\<forall>j x. \<forall>pg \<in> set pgs. calculate_hash_pair E (hashes j x) (mem (snd pg)) \<noteq> null_hash)"

lemma table_of_contents: "table_of XA heap pgs pid mm sm \<Longrightarrow> contents (sm_pt_map sm) = ptes_of pgs"
  unfolding table_of_def table_pairs_def ptes_of_def by (auto simp: comp_def intro!: map_idI [symmetric])

lemma table_of_offerable:
  assumes tab: "table_of XA heap pgs pid mm sm" and ne: "pgs \<noteq> []" and off: "pages_offerable E C ops mem hashes pgs"
  shows "offerable E XA heap C ops mem hashes sm"
proof -
  note c = table_of_contents [OF tab] and o = off [unfolded pages_offerable_def]
  have wf: "va_table_wf (sm_pt_map sm)" "MAX_CAPACITY_PER_TABLE * (ht_array_cnt (sm_pt_map sm) - 1) \<le> ht_cnt (sm_pt_map sm)"
    using tab by (auto simp: table_of_def shadow_wf_def)
  have cnt: "ht_cnt (sm_pt_map sm) = length pgs" using length_contents [OF wf(1)] c by (simp add: ptes_of_def)
  have "MAX_CAPACITY_PER_TABLE * (ht_array_cnt (sm_pt_map sm) - 1) < MAX_CAPACITY_PER_TABLE * MAX_VA_ARRAYS" using wf(2) cnt o by linarith
  then have "ht_array_cnt (sm_pt_map sm) - 1 < MAX_VA_ARRAYS" by simp
  then have "ht_array_cnt (sm_pt_map sm) \<le> MAX_VA_ARRAYS" by linarith
  moreover have "pte_va (hd (contents (sm_pt_map sm))) \<noteq> 0" "contents (sm_pt_map sm) \<noteq> []"
    using ne o by (auto simp: c ptes_of_def hd_map split: prod.splits)
  moreover have "calculate_hash_pair E (hashes j x) (mem (pte_kpfn pte)) \<noteq> null_hash" if "pte \<in> set (contents (sm_pt_map sm))" for j x pte
    using that o by (fastforce simp: c ptes_of_def)
  ultimately show ?thesis unfolding offerable_def cnt using table_of_filled [OF tab] o by blast
qed

text \<open>The tables the walks leave, and that they can be offered.\<close>

lemma prepared_tables:
  assumes "host_walk HE XA W" and "plenty XA W" and "host_inv h" and "calm h" and "slots_ok fuel world slots h"
    and prep: "prepare_slots fuel HE XA W C cb world slots [] h = Inr (slots', mms, h')" and M: "M = offered world slots h"
    and off: "\<forall>i < length M. pages_offerable SE C (ops i) mem (hashes i) (pages_of world (h_pages h) (M ! i))"
  shows "round_done XA world (map ms_mm slots) h slots' mms h'"
    and "list_all2 (\<lambda>mm sm. table_of XA (h_items h') (pages_of world (h_pages h) mm) (owner_id world mm) mm sm) M mms"
    and "\<And>i. i < length mms \<Longrightarrow> offerable SE XA (h_items h') C (ops i) mem (hashes i) (mms ! i)"
proof -
  let ?pgs = "pages_of world (h_pages h)"
  from host_walk.prepare_slots_ok [OF assms(1,3-5,2), of C cb "[]"] prep
  show rd: "round_done XA world (map ms_mm slots) h slots' mms h'" by auto
  then show tabs: "list_all2 (\<lambda>mm sm. table_of XA (h_items h') (?pgs mm) (owner_id world mm) mm sm) M mms"
    unfolding round_done_def M offered_def by auto
  fix i assume "i < length mms"
  then have i: "i < length M" using tabs by (simp add: list_all2_lengthD)
  have "?pgs (M ! i) \<noteq> []" using nth_mem [OF i] by (simp add: M offered_def)
  then show "offerable SE XA (h_items h') C (ops i) mem (hashes i) (mms ! i)"
    using table_of_offerable [OF list_all2_nthD [OF tabs i]] off i by blast
qed

lemma prepared_request:
  assumes "host_walk HE XA W" and "plenty XA W" and "host_inv h" and "calm h" and "slots_ok fuel world slots h"
    and prep: "prepare_slots fuel HE XA W C cb world slots [] h = Inr (slots', mms, h')"
    and M: "M = offered world slots h" "M \<noteq> []" "length M \<le> MAX_MM_DESCS" "distinct (map (owner_id world) M)"
    and off: "\<forall>i < length M. pages_offerable SE C (ops i) mem (hashes i) (pages_of world (h_pages h) (M ! i))"
    and frame: "\<forall>mm \<in> set M. \<forall>(va, p) \<in> set (pages_of world (h_pages h) mm). frame (owner_id world mm, va) = p"
    and err: "registrable C kz mrs (error_pages (ht_cnt (er_entries (h_errors h'))))" "undoable_all SE (err_log h') (start_round later s)"
  shows "\<exists>tbl regs desc errs. prepare_metadata fuel HE XA W C cb world ops kz mrs slots h = Inr (slots', mms, h'\<lparr>h_errors := tbl\<rparr>, Some (regs, desc, errs)) \<and>
    valid_request SE (registered_io mem hashes (map snd regs) errs) frame later
      \<lparr>md_pt_cnt = length M, md_pt_descs = map fst regs, md_et_descs = desc\<rparr> (err_log h')
      (\<lambda>i. if i < length M then ptes_of (pages_of world (h_pages h) (M ! i)) else []) s"
proof -
  let ?pgs = "pages_of world (h_pages h)"
  note pt = prepared_tables [OF assms(1-5) prep M(1) off]
  have inv: "host_inv h'" using pt(1) by (simp add: round_done_def)
  have len: "length mms = length M" using pt(2) by (simp add: list_all2_lengthD)
  have tab: "table_of XA (h_items h') (?pgs (M ! i)) (owner_id world (M ! i)) (M ! i) (mms ! i)" if "i < length M" for i
    using list_all2_nthD [OF pt(2) that] .
  have ids: "map sm_mm_id mms = map (owner_id world) M"
    by (rule nth_equalityI) (use tab len in \<open>auto simp: table_of_def\<close>)
  have fr: "frame (sm_mm_id sm, pte_va pte) = pte_kpfn pte" if sm: "sm \<in> set mms" "pte \<in> set (contents (sm_pt_map sm))" for sm pte
  proof -
    from sm(1) obtain i where i: "i < length M" "sm = mms ! i" using len by (auto simp: in_set_conv_nth)
    then have "?pgs (M ! i) = map (\<lambda>pte. (pte_va pte, pte_kpfn pte)) (contents (sm_pt_map sm))"
      using tab [OF i(1)] by (simp add: table_of_def table_pairs_def)
    then have "(pte_va pte, pte_kpfn pte) \<in> set (?pgs (M ! i))" using sm(2) by auto
    moreover have "sm_mm_id sm = owner_id world (M ! i)" using tab [OF i(1)] i(2) by (simp add: table_of_def)
    ultimately show ?thesis using frame i(1) by (auto dest: nth_mem)
  qed
  have xa: "xarray XA" using assms(1) by (simp add: host_walk_def)
  have wf: "err_table_wf (er_entries (h_errors h'))" using inv by (simp add: host_inv_def)
  from registered_request_valid [where ops = ops and frame = frame, OF xa pt(3) _ _ fr wf err(1) err(2) [unfolded err_log_def]] M(3,4) len ids
  obtain regs tbl desc errs where r: "rdma_register_shadow_mms XA (h_items h') C ops 0 mms = Inr regs"
    "rdma_register_error_table kz C mrs (h_errors h') = Inr (tbl, desc, errs)"
    "valid_request SE (registered_io mem hashes (map snd regs) errs) frame later
      \<lparr>md_pt_cnt = length mms, md_pt_descs = map fst regs, md_et_descs = desc\<rparr> (err_log h') (\<lambda>i. contents (sm_pt_map (mms ! i))) s"
    by (auto simp: err_log_def)
  have "mms \<noteq> []" using len M(2) by auto
  then have "prepare_metadata fuel HE XA W C cb world ops kz mrs slots h = Inr (slots', mms, h'\<lparr>h_errors := tbl\<rparr>, Some (regs, desc, errs))"
    using prep r(1,2) by (simp add: prepare_metadata_def)
  moreover have "contents (sm_pt_map (mms ! i)) = ptes_of (?pgs (M ! i))" if "i < length M" for i using table_of_contents [OF tab [OF that]] .
  then have "request_ok SE io frame \<lparr>md_pt_cnt = length mms, md_pt_descs = d, md_et_descs = desc\<rparr> (\<lambda>i. contents (sm_pt_map (mms ! i))) \<longleftrightarrow>
      request_ok SE io frame \<lparr>md_pt_cnt = length mms, md_pt_descs = d, md_et_descs = desc\<rparr> (\<lambda>i. if i < length M then ptes_of (?pgs (M ! i)) else [])" for io d
    using len by (auto simp: request_ok_def)
  ultimately show ?thesis using r(3) len by (auto simp: valid_request_def)
qed

text \<open>
  C24. From the page tables of the processes to the request of a round. When the walks of \<open>prepare_metadata\<close> return
  and leave at most \<open>MAX_MM_DESCS\<close> processes with different ids and pages that can be offered, registering
  succeeds, and the request the server gets is valid: its page table for each process lists the anonymous pages of
  the mergeable areas of the process, its pages are their contents, and its error table is the one of the host.
\<close>

theorem prepare_metadata_request:
  assumes "host_walk HE XA W" and "plenty XA W" and "host_inv h" and "calm h" and "slots_ok fuel world slots h"
    and prep: "prepare_slots fuel HE XA W C cb world slots [] h = Inr (slots', mms, h')"
    and M: "M = offered world slots h" "M \<noteq> []" "length M \<le> MAX_MM_DESCS" "distinct (map (owner_id world) M)"
    and off: "\<forall>i < length M. pages_offerable SE C (ops i) mem (hashes i) (pages_of world (h_pages h) (M ! i))"
    and frame: "\<forall>mm \<in> set M. \<forall>(va, p) \<in> set (pages_of world (h_pages h) mm). frame (owner_id world mm, va) = p"
    and err: "registrable C kz mrs (error_pages (ht_cnt (er_entries (h_errors h'))))" "undoable_all SE (err_log h') (start_round later s)"
  shows "\<exists>tbl regs desc errs. prepare_metadata fuel HE XA W C cb world ops kz mrs slots h = Inr (slots', mms, h'\<lparr>h_errors := tbl\<rparr>, Some (regs, desc, errs)) \<and>
    valid_request SE (registered_io mem hashes (map snd regs) errs) frame later
      \<lparr>md_pt_cnt = length M, md_pt_descs = map fst regs, md_et_descs = desc\<rparr> (err_log h')
      (\<lambda>i. if i < length M then ptes_of (pages_of world (h_pages h) (M ! i)) else []) s"
  by (rule prepared_request [OF assms])

section \<open>A sample round\<close>

text \<open>Process 1 has two anonymous pages, process 2 none.\<close>

definition sample_world :: "int \<Rightarrow> mm_world" where
  "sample_world mm = \<lparr>mw_exit = False, mw_owner = Some (mm + 41), mw_vmas = (if mm = 1 then sample_vmas else []),
     mw_allocs = (True, True, True), mw_sgt_cnt = 0\<rparr>"

definition sample_slots :: "ksm_mm_slot list" where
  "sample_slots = [\<lparr>ms_mm = 1, ms_rmap_list = Some 1\<rparr>, \<lparr>ms_mm = 2, ms_rmap_list = Some 2\<rparr>]"

lemma sample_slots_ok: "slots_ok 5 sample_world sample_slots sample_host"
proof -
  have "proc_list (h_items sample_host) (Some 2) 2 [2]" by (simp add: proc_list_def sample_host_def sample_host_item_def)
  moreover have "walkable (h_pages sample_host) (walked_ptes [])" by (simp add: walkable_def walked_ptes_def)
  ultimately show ?thesis using sample_proc_list sample_walkable
    by (auto simp: slots_ok_def sample_slots_def sample_world_def intro: exI [of _ "[1]"] exI [of _ "[2]"])
qed

lemma sample_pages: "pages_of sample_world (h_pages sample_host) 1 = [(0x1000, 7), (0x3000, 8)]" "pages_of sample_world (h_pages sample_host) 2 = []"
  using sample_anon by (simp_all add: pages_of_def sample_world_def walked_ptes_def [of "[]"])

lemma sample_first_slot:
  "\<exists>kept shadow h'. prepare_slot 5 sample_slab rbt_xa sample_walk_env C True sample_world \<lparr>ms_mm = 1, ms_rmap_list = Some 1\<rparr> sample_host =
     Inr (kept, shadow, h') \<and> h_errors h' = h_errors sample_host"
proof -
  from walk_sample obtain w where
    w: "create_shadow_mm 5 sample_slab rbt_xa sample_walk_env True (True, True, True) (Some 42) sample_vmas 1 (sample_host, Some 1) = Inr w" "h_errors (wk_host w) = h_errors sample_host" by blast
  from host_walk.create_shadow_mm_ok [OF sample_walk_ok sample_host_inv sample_calm sample_proc_list _ sample_walkable refl,
      of 5 True "(True, True, True)" "Some 42"] w sample_plenty sample_anon
  obtain seen rest where at: "walk_at 5 rbt_xa 1 sample_host [(0x1000, 7), (0x3000, 8)] w seen rest"
    and tp: "table_pairs (wk_shadow w) = [(0x1000, 7), (0x3000, 8)]" by auto
  have "va_table_wf (sm_pt_map (wk_shadow w))" using at by (simp add: walk_at_def shadow_wf_def)
  from length_contents [OF this] have "ht_cnt (sm_pt_map (wk_shadow w)) = 2" using arg_cong [OF tp, of length] by (simp add: table_pairs_def)
  then show ?thesis using w by (simp add: prepare_slot_def init_shadow_for_mm_def sample_world_def)
qed

lemma sample_prepare:
  "\<exists>slots' mms h'. prepare_slots 5 sample_slab rbt_xa sample_walk_env C True sample_world sample_slots [] sample_host = Inr (slots', mms, h')"
proof -
  let ?s1 = "\<lparr>ms_mm = 1, ms_rmap_list = Some 1\<rparr>" and ?s2 = "\<lparr>ms_mm = 2, ms_rmap_list = Some (2 :: addr)\<rparr>"
  from sample_first_slot [of C] obtain kept shadow h1 where
    1: "prepare_slot 5 sample_slab rbt_xa sample_walk_env C True sample_world ?s1 sample_host = Inr (kept, shadow, h1)" by blast
  have "walkable (h_pages sample_host) (walked_ptes (mw_vmas (sample_world (ms_mm ?s1))))" "mw_sgt_cnt (sample_world (ms_mm ?s1)) \<le> 1"
    using sample_walkable by (simp_all add: sample_world_def)
  from host_walk.prepare_slot_ok [where world = sample_world and slot = ?s1 and fuel = 5 and C = C and cb = True,
      OF sample_walk_ok sample_host_inv sample_calm _ _ this(1) sample_plenty this(2), of "[1]"] sample_proc_list 1
  have d: "slot_done rbt_xa sample_world ?s1 (pages_of sample_world (h_pages sample_host) 1) sample_host (kept, shadow, h1)" by auto
  then have h1: "host_inv h1" "calm h1" "kept_except {1} sample_host h1" "h_pages h1 = referenced [(0x1000, 7), (0x3000, 8)] (h_pages sample_host)"
    by (simp_all add: slot_done_def kept_except_one sample_pages)
  have "proc_list (h_items sample_host) (Some 2) 2 [2]" by (simp add: proc_list_def sample_host_def sample_host_item_def)
  then have l: "proc_list (h_items h1) (ms_rmap_list ?s2) (ms_mm ?s2) [2]" using proc_list_kept [OF _ h1(3)] by simp
  obtain sm where "create_empty rbt_xa True (mw_allocs (sample_world (ms_mm ?s2))) (we_junk sample_walk_env) (owner_id sample_world (ms_mm ?s2)) = Some sm"
    by (simp add: create_empty_def sample_world_def owner_id_def)
  from host_walk.prepare_idle_slot [where world = sample_world and slot = ?s2 and fuel = 5 and C = C,
      OF sample_walk_ok h1(1,2) l _ _ _ this] obtain h2 where
    "prepare_slot 5 sample_slab rbt_xa sample_walk_env C True sample_world ?s2 h1 = Inr (None, None, h2)"
    by (auto simp: sample_world_def walked_ptes_def)
  then show ?thesis using 1 by (simp add: sample_slots_def)
qed

text \<open>Only process 1 is offered, with its two pages; the slot of process 2 is gone.\<close>

theorem prepare_round_witness:
  "\<exists>slots' sm h'. prepare_slots 5 sample_slab rbt_xa sample_walk_env 128 True sample_world sample_slots [] sample_host = Inr (slots', [sm], h') \<and>
     map ms_mm slots' = [1] \<and> host_inv h' \<and> table_of rbt_xa (h_items h') [(0x1000, 7), (0x3000, 8)] 42 1 sm"
proof -
  from sample_prepare [of 128] prepare_round [OF sample_walk_ok sample_plenty sample_host_inv sample_calm sample_slots_ok, of 128 True]
  obtain slots' tables h' where p: "prepare_slots 5 sample_slab rbt_xa sample_walk_env 128 True sample_world sample_slots [] sample_host = Inr (slots', tables, h')"
    "round_done rbt_xa sample_world (map ms_mm sample_slots) sample_host slots' tables h'" by auto
  then have "map ms_mm slots' = [1]" by (simp add: round_done_def sample_slots_def sample_pages)
  moreover have "owner_id sample_world 1 = 42" by (simp add: owner_id_def sample_world_def)
  ultimately show ?thesis using p by (auto simp: round_done_def sample_slots_def sample_pages list_all2_Cons1)
qed

lemma sample_offerable:
  "pages_offerable sample_env 128 sample_register_ops (\<lambda>_. sample_page 7) (\<lambda>_ _. None) [(0x1000, 7), (0x3000, 8)]"
  using sample_registrable [of "Suc (Suc 0)"]
  by (simp add: pages_offerable_def sample_register_ops_def va_table_dims sample_calculate_hash sample_hash_pair_null MAX_PAGES_IN_SGL_def)

lemma sample_no_reports: "err_log sample_host = []" "ht_cnt (er_entries (h_errors sample_host)) = 0"
  by (simp_all add: err_log_def sample_host_def create_error_table_def contents_def)

theorem prepare_metadata_request_witness:
  "\<exists>slots' sm h' regs desc errs. prepare_metadata 5 sample_slab rbt_xa sample_walk_env 128 True sample_world (\<lambda>_. sample_register_ops) (\<lambda>_ _. True)
      (\<lambda>_. Some \<lparr>mr_rkey = 7, mr_iova = 0x7000\<rparr>) (take 1 sample_slots) sample_host = Inr (slots', sm, h', Some (regs, desc, errs)) \<and>
    valid_request sample_env (registered_io (\<lambda>_. sample_page 7) (\<lambda>_ _ _. None) (map snd regs) errs) (\<lambda>k. if k = (42, 0x1000) then 7 else 8) False
      \<lparr>md_pt_cnt = 1, md_pt_descs = map fst regs, md_et_descs = desc\<rparr> []
      (\<lambda>i. if i < 1 then [\<lparr>pte_va = 0x1000, pte_kpfn = 7\<rparr>, \<lparr>pte_va = 0x3000, pte_kpfn = 8\<rparr>] else []) (init_server sample_env default_config)"
proof -
  let ?slots = "take 1 sample_slots"
  from sample_first_slot [of 128] obtain slots' mms h' where
    p: "prepare_slots 5 sample_slab rbt_xa sample_walk_env 128 True sample_world ?slots [] sample_host = Inr (slots', mms, h')"
      "h_errors h' = h_errors sample_host" by (auto simp: sample_slots_def)
  have ok: "slots_ok 5 sample_world ?slots sample_host" using sample_slots_ok by (simp add: slots_ok_def sample_slots_def)
  have M: "offered sample_world ?slots sample_host = [1]" by (simp add: offered_def sample_slots_def sample_pages)
  have id: "owner_id sample_world 1 = 42" by (simp add: owner_id_def sample_world_def)
  have e: "err_log h' = []" "ht_cnt (er_entries (h_errors h')) = 0" using sample_no_reports p(2) by (simp_all add: err_log_def)
  show ?thesis
    using prepare_metadata_request [where ops = "\<lambda>_. sample_register_ops" and kz = "\<lambda>_ _. True" and mem = "\<lambda>_. sample_page 7" and
        mrs = "\<lambda>_. Some \<lparr>mr_rkey = 7, mr_iova = 0x7000\<rparr>" and hashes = "\<lambda>_ _ _. None" and later = False and
        frame = "\<lambda>k. if k = (42, 0x1000) then 7 else 8" and s = "init_server sample_env default_config" and SE = sample_env,
        OF sample_walk_ok sample_plenty sample_host_inv sample_calm ok p(1) M [symmetric]]
      sample_offerable sample_registrable [of "error_pages 0"]
    by (auto simp: MAX_MM_DESCS_def id e sample_pages ptes_of_def error_pages_def cong: if_cong)
qed

end
