(* ===== verification/Client_Stub.thy ===== *)
theory Client_Stub
  imports Wire_Types
begin

text \<open>
  The RDMA client of the host (\<open>bask/client_stub.c\<close>, \<open>client_stub.h\<close>): the state of the connection, the handlers
  that interrupts run, the calls of ksmd that wait for them, and the reserve of large blocks.
\<close>

section \<open>Definitions\<close>

subsection \<open>The state of the connection\<close>

datatype ksm_rdma_state =
    KSM_IDLE
  | KSM_CONNECT_REQUEST
  | KSM_ADDR_RESOLVED
  | KSM_ROUTE_RESOLVED
  | KSM_CONNECTED
  | KSM_MEM_REG_WAIT
  | KSM_MEM_REG_COMPLETE
  | KSM_RDMA_READ_WAIT
  | KSM_RDMA_READ_COMPLETE
  | KSM_RDMA_WRITE_COMPLETE
  | KSM_RDMA_SEND_COMPLETE
  | KSM_RDMA_RECV_COMPLETE
  | KSM_MR_INVALIDATE_WAIT
  | KSM_MR_INVALIDATE_COMPLETE
  | KSM_ERROR

text \<open>The code compares states by the values of the enumeration.\<close>

primrec state_code :: "ksm_rdma_state \<Rightarrow> nat" where
  "state_code KSM_IDLE = 1"
| "state_code KSM_CONNECT_REQUEST = 2"
| "state_code KSM_ADDR_RESOLVED = 3"
| "state_code KSM_ROUTE_RESOLVED = 4"
| "state_code KSM_CONNECTED = 5"
| "state_code KSM_MEM_REG_WAIT = 6"
| "state_code KSM_MEM_REG_COMPLETE = 7"
| "state_code KSM_RDMA_READ_WAIT = 8"
| "state_code KSM_RDMA_READ_COMPLETE = 9"
| "state_code KSM_RDMA_WRITE_COMPLETE = 10"
| "state_code KSM_RDMA_SEND_COMPLETE = 11"
| "state_code KSM_RDMA_RECV_COMPLETE = 12"
| "state_code KSM_MR_INVALIDATE_WAIT = 13"
| "state_code KSM_MR_INVALIDATE_COMPLETE = 14"
| "state_code KSM_ERROR = 15"

lemma state_code_inject: "state_code x = state_code y \<longleftrightarrow> x = y"
  by (cases x; cases y) simp_all

instantiation ksm_rdma_state :: linorder
begin

definition less_eq_ksm_rdma_state :: "ksm_rdma_state \<Rightarrow> ksm_rdma_state \<Rightarrow> bool" where
  "less_eq_ksm_rdma_state x y \<longleftrightarrow> state_code x \<le> state_code y"

definition less_ksm_rdma_state :: "ksm_rdma_state \<Rightarrow> ksm_rdma_state \<Rightarrow> bool" where
  "less_ksm_rdma_state x y \<longleftrightarrow> state_code x < state_code y"

instance
  by standard (auto simp: less_eq_ksm_rdma_state_def less_ksm_rdma_state_def state_code_inject)

end

lemmas state_order = less_eq_ksm_rdma_state_def less_ksm_rdma_state_def

subsection \<open>Events\<close>

text \<open>Events of the connection manager; \<open>CM_ADDR_RESOLVED\<close> with the result of \<open>rdma_resolve_route\<close>.\<close>

datatype cm_event =
    CM_ADDR_RESOLVED int
  | CM_ROUTE_RESOLVED
  | CM_CONNECT_REQUEST
  | CM_ESTABLISHED
  | CM_ADDR_ERROR
  | CM_ROUTE_ERROR
  | CM_CONNECT_ERROR
  | CM_UNREACHABLE
  | CM_REJECTED
  | CM_DISCONNECTED
  | CM_DEVICE_REMOVAL
  | CM_OTHER

text \<open>A message the client receives, and a work completion.\<close>

datatype message = Result_Desc result_desc | Op_Result operation_result

datatype wc_opcode = WC_SEND | WC_RDMA_WRITE | WC_RDMA_READ | WC_RECV message | WC_REG_MR | WC_LOCAL_INV | WC_OTHER

datatype wc_status = WC_SUCCESS | WC_FLUSH_ERR | WC_FAILED

record ib_wc =
  wc_status :: wc_status
  wc_wr_id :: ksm_wr_tag
  wc_opcode :: wc_opcode

text \<open>
  What happens beside the program: an event of the connection manager, a completion that the device puts into the
  completion queue (a message has then been written to memory), and the interrupt of the
  completion queue, with whether polling it ends in an error.
\<close>

datatype happening = Cm_Event cm_event | Complete ib_wc | Cq_Interrupt bool

record ksm_cb =
  cb_state :: ksm_rdma_state
  cb_qp :: bool
  cb_cq :: "ib_wc list"
  cb_recvs :: nat
  cb_result_desc :: result_desc
  cb_single_op_desc :: operation_descriptor
  cb_single_op_result :: operation_result

definition ksm_rdma_cma_event_handler :: "cm_event \<Rightarrow> ksm_cb \<Rightarrow> ksm_cb" where
  "ksm_rdma_cma_event_handler event cb =
     (case event of
        CM_ADDR_RESOLVED ret \<Rightarrow> cb\<lparr>cb_state := KSM_ADDR_RESOLVED\<rparr>
      | CM_ROUTE_RESOLVED \<Rightarrow> cb\<lparr>cb_state := KSM_ROUTE_RESOLVED\<rparr>
      | CM_CONNECT_REQUEST \<Rightarrow> cb\<lparr>cb_state := KSM_ERROR\<rparr>
      | CM_ESTABLISHED \<Rightarrow> cb\<lparr>cb_state := KSM_CONNECTED\<rparr>
      | CM_OTHER \<Rightarrow> cb
      | _ \<Rightarrow> cb\<lparr>cb_state := KSM_ERROR\<rparr>)"

text \<open>The loop of the handler of the completion queue; a finished registration ends it.\<close>

definition completion_state :: "wc_opcode \<Rightarrow> ksm_rdma_state option" where
  "completion_state opcode =
     (case opcode of
        WC_SEND \<Rightarrow> Some KSM_RDMA_SEND_COMPLETE
      | WC_RDMA_WRITE \<Rightarrow> Some KSM_RDMA_WRITE_COMPLETE
      | WC_RDMA_READ \<Rightarrow> Some KSM_RDMA_READ_COMPLETE
      | WC_RECV m \<Rightarrow> Some KSM_RDMA_RECV_COMPLETE
      | WC_REG_MR \<Rightarrow> Some KSM_MEM_REG_COMPLETE
      | WC_LOCAL_INV \<Rightarrow> Some KSM_MR_INVALIDATE_COMPLETE
      | WC_OTHER \<Rightarrow> None)"

primrec cq_drain :: "bool \<Rightarrow> ib_wc list \<Rightarrow> ksm_cb \<Rightarrow> ksm_cb" where
  "cq_drain poll_error [] cb = (if poll_error then cb\<lparr>cb_cq := [], cb_state := KSM_ERROR\<rparr> else cb\<lparr>cb_cq := []\<rparr>)"
| "cq_drain poll_error (wc # wcs) cb =
     (case wc_status wc of
        WC_FLUSH_ERR \<Rightarrow> cq_drain poll_error wcs cb
      | WC_FAILED \<Rightarrow> cb\<lparr>cb_cq := wcs, cb_state := KSM_ERROR\<rparr>
      | WC_SUCCESS \<Rightarrow>
          if wc_wr_id wc = WR_REG_MR then cb\<lparr>cb_cq := wcs, cb_state := KSM_MEM_REG_COMPLETE\<rparr>
          else (case completion_state (wc_opcode wc) of
                  Some st \<Rightarrow> cq_drain poll_error wcs (cb\<lparr>cb_state := st\<rparr>)
                | None \<Rightarrow> cb\<lparr>cb_cq := wcs, cb_state := KSM_ERROR\<rparr>))"

definition ksm_rdma_cq_event_handler :: "bool \<Rightarrow> ksm_cb \<Rightarrow> ksm_cb" where
  "ksm_rdma_cq_event_handler poll_error cb =
     (if cb_state cb = KSM_ERROR then cb else cq_drain poll_error (cb_cq cb) cb)"

definition deliver :: "message \<Rightarrow> ksm_cb \<Rightarrow> ksm_cb" where
  "deliver m cb =
     (case m of
        Result_Desc d \<Rightarrow> cb\<lparr>cb_recvs := cb_recvs cb - 1, cb_result_desc := d\<rparr>
      | Op_Result r \<Rightarrow> cb\<lparr>cb_recvs := cb_recvs cb - 1, cb_single_op_result := r\<rparr>)"

definition happen :: "happening \<Rightarrow> ksm_cb \<Rightarrow> ksm_cb" where
  "happen e cb =
     (case e of
        Cm_Event event \<Rightarrow> ksm_rdma_cma_event_handler event cb
      | Complete wc \<Rightarrow>
          (let cb = cb\<lparr>cb_cq := cb_cq cb @ [wc]\<rparr>
           in case (wc_status wc, wc_opcode wc) of (WC_SUCCESS, WC_RECV m) \<Rightarrow> deliver m cb | _ \<Rightarrow> cb)
      | Cq_Interrupt poll_error \<Rightarrow> ksm_rdma_cq_event_handler poll_error cb)"

text \<open>
  \<open>wait_event_interruptible\<close>: the condition is checked again and again, and any number of things happens
  before each check. The list says what happens before each of the checks to come; ksmd waits for ever if
  there is none at which the condition holds.
\<close>

type_synonym schedule = "happening list list"

primrec wait_event :: "(ksm_rdma_state \<Rightarrow> bool) \<Rightarrow> schedule \<Rightarrow> ksm_cb \<Rightarrow> (schedule \<times> ksm_cb) res" where
  "wait_event c [] cb = Inl Diverged"
| "wait_event c (es # ess) cb =
     (let cb = fold happen es cb in if c (cb_state cb) then Inr (ess, cb) else wait_event c ess cb)"

subsection \<open>Connecting\<close>

text \<open>The answers of the RDMA and memory subsystems to one attempt to connect.\<close>

record attempt =
  at_create_id :: int
  at_resolve_addr :: int
  at_pd :: int
  at_cq :: int
  at_notify :: int
  at_qp :: int
  at_map_md :: bool
  at_map_result :: bool
  at_map_op_desc :: bool
  at_map_op_result :: bool
  at_post_recv :: int
  at_connect :: int
  at_early :: "happening list"

definition ksm_cb_setup_client :: "attempt \<Rightarrow> ksm_cb \<Rightarrow> int \<times> ksm_cb" where
  "ksm_cb_setup_client att cb = (at_create_id att, cb\<lparr>cb_state := KSM_IDLE\<rparr>)"

definition ksm_rdma_bind_client :: "attempt \<Rightarrow> schedule \<Rightarrow> ksm_cb \<Rightarrow> (int \<times> schedule \<times> ksm_cb) res" where
  "ksm_rdma_bind_client att ess cb =
     (if at_resolve_addr att \<noteq> 0 then Inr (at_resolve_addr att, ess, cb)
      else rbind (wait_event (\<lambda>st. KSM_ROUTE_RESOLVED \<le> st) ess cb) (\<lambda>(ess, cb).
             Inr (if cb_state cb \<noteq> KSM_ROUTE_RESOLVED then - 4 else 0, ess, cb)))"

text \<open>
  The result of \<open>rdma_create_qp\<close> is kept in a variable of the inner block, so the check behind the block sees
  the 0 of \<open>ib_req_notify_cq\<close>.
\<close>

definition ksm_cb_setup_qp :: "attempt \<Rightarrow> ksm_cb \<Rightarrow> int \<times> ksm_cb" where
  "ksm_cb_setup_qp att cb =
     (if at_pd att \<noteq> 0 then (at_pd att, cb)
      else if at_cq att \<noteq> 0 then (at_cq att, cb)
      else
        (let cb = cb\<lparr>cb_cq := []\<rparr>
         in if at_notify att \<noteq> 0 then (at_notify att, cb)
            else (0, if at_qp att = 0 then cb\<lparr>cb_qp := True\<rparr> else cb)))"

definition ksm_cb_setup_buffer :: "attempt \<Rightarrow> int" where
  "ksm_cb_setup_buffer att =
     (if \<not> at_map_md att then - 1
      else if \<not> at_map_result att then - 1
      else if \<not> at_map_op_desc att then - 1
      else 0)"

definition ib_post_recv :: "int \<Rightarrow> ksm_cb \<Rightarrow> (int \<times> ksm_cb) res" where
  "ib_post_recv ret cb =
     (if \<not> cb_qp cb then Inl Null_Deref
      else Inr (ret, if ret = 0 then cb\<lparr>cb_recvs := cb_recvs cb + 1\<rparr> else cb))"

text \<open>\<open>rdma_connect\<close> has been called when the state is set: \<open>at_early\<close> is what happens in between.\<close>

definition ksm_connect_client :: "attempt \<Rightarrow> schedule \<Rightarrow> ksm_cb \<Rightarrow> (int \<times> schedule \<times> ksm_cb) res" where
  "ksm_connect_client att ess cb =
     (if at_connect att \<noteq> 0 then Inr (at_connect att, ess, cb)
      else
        (let cb = fold happen (at_early att) cb
         in rbind (wait_event (\<lambda>st. KSM_CONNECTED \<le> st) ess (cb\<lparr>cb_state := KSM_CONNECT_REQUEST\<rparr>)) (\<lambda>(ess, cb).
              Inr (if cb_state cb = KSM_ERROR then - 1 else 0, ess, cb))))"

text \<open>
  One round of the loop of \<open>ksm_rdma_create_connection\<close>: whether it connected. A failed round gives up what it has
  created (\<open>err1\<close>, \<open>err0\<close>); the queue pair and its receives go with it. \<open>rdma_destroy_id\<close> also gets the error
  pointer that a failed \<open>rdma_create_id\<close> returned.
\<close>

definition give_up :: "schedule \<Rightarrow> ksm_cb \<Rightarrow> (bool \<times> schedule \<times> ksm_cb) res" where
  "give_up ess cb = (if \<not> cb_qp cb then Inl Null_Deref else Inr (False, ess, cb\<lparr>cb_qp := False, cb_recvs := 0\<rparr>))"

definition try_connect :: "offload_mode \<Rightarrow> attempt \<Rightarrow> schedule \<Rightarrow> ksm_cb \<Rightarrow> (bool \<times> schedule \<times> ksm_cb) res" where
  "try_connect mode att ess cb =
     (let (ret, cb) = ksm_cb_setup_client att cb
      in if ret \<noteq> 0 then Inl Null_Deref
         else
           rbind (ksm_rdma_bind_client att ess cb) (\<lambda>(ret, ess, cb).
             if ret \<noteq> 0 then Inr (False, ess, cb)
             else
               (let (ret, cb) = ksm_cb_setup_qp att cb
                in if ret \<noteq> 0 then Inr (False, ess, cb)
                   else if ksm_cb_setup_buffer att \<noteq> 0 then give_up ess cb
                   else if mode = NO_OFFLOAD then give_up ess cb
                   else
                     rbind (ib_post_recv (at_post_recv att) cb) (\<lambda>(ret, cb).
                       if ret \<noteq> 0 then give_up ess cb
                       else
                         rbind (ksm_connect_client att ess cb) (\<lambda>(ret, ess, cb).
                           if ret \<noteq> 0 then give_up ess cb else Inr (True, ess, cb))))))"

text \<open>It tries again for ever; each attempt comes with what happens during it.\<close>

primrec connect_loop :: "offload_mode \<Rightarrow> (attempt \<times> schedule) list \<Rightarrow> ksm_cb \<Rightarrow> ksm_cb res" where
  "connect_loop mode [] cb = Inl Diverged"
| "connect_loop mode (a # as) cb =
     rbind (try_connect mode (fst a) (snd a) cb) (\<lambda>(connected, _, cb). if connected then Inr cb else connect_loop mode as cb)"

definition ksm_rdma_create_connection :: "bool \<Rightarrow> offload_mode \<Rightarrow> (attempt \<times> schedule) list \<Rightarrow> ksm_cb \<Rightarrow> ksm_cb res" where
  "ksm_rdma_create_connection tag_ok mode attempts cb = (if \<not> tag_ok then Inr cb else connect_loop mode attempts cb)"

subsection \<open>The reserve of large blocks\<close>

definition MAX_HUGE_ALLOC :: nat where "MAX_HUGE_ALLOC = 128"

record huge_alloc_reserve =
  ha_used :: int
  ha_ptrs :: "addr option list"

text \<open>The blocks \<open>kmalloc\<close> returns; the first failure ends the initialisation.\<close>

primrec fill_reserve :: "addr option list \<Rightarrow> addr option list \<Rightarrow> int \<times> addr option list" where
  "fill_reserve [] ptrs = (0, ptrs)"
| "fill_reserve (p # ps) ptrs = (case p of None \<Rightarrow> (- 1, ptrs @ None # map (\<lambda>_. None) ps) | Some a \<Rightarrow> fill_reserve ps (ptrs @ [Some a]))"

definition ksm_rdma_huge_alloc_init :: "(nat \<Rightarrow> addr option) \<Rightarrow> int \<times> huge_alloc_reserve" where
  "ksm_rdma_huge_alloc_init kmalloc =
     (let (ret, ptrs) = fill_reserve (map kmalloc [0..<MAX_HUGE_ALLOC]) [] in (ret, \<lparr>ha_used = 0, ha_ptrs = ptrs\<rparr>))"

fun take_first :: "'a option list \<Rightarrow> ('a \<times> 'a option list) option" where
  "take_first [] = None"
| "take_first (Some p # ps) = Some (p, None # ps)"
| "take_first (None # ps) = map_option (\<lambda>(p, ps). (p, None # ps)) (take_first ps)"

fun put_first :: "'a \<Rightarrow> 'a option list \<Rightarrow> 'a option list option" where
  "put_first x [] = None"
| "put_first x (None # ps) = Some (Some x # ps)"
| "put_first x (Some p # ps) = map_option (\<lambda>ps. Some p # ps) (put_first x ps)"

definition ksm_rdma_huge_alloc :: "huge_alloc_reserve \<Rightarrow> addr option \<times> huge_alloc_reserve" where
  "ksm_rdma_huge_alloc h =
     (case take_first (ha_ptrs h) of
        None \<Rightarrow> (None, h)
      | Some (p, ptrs) \<Rightarrow> (Some p, h\<lparr>ha_used := ha_used h + 1, ha_ptrs := ptrs\<rparr>))"

definition ksm_rdma_huge_dealloc :: "addr \<Rightarrow> huge_alloc_reserve \<Rightarrow> huge_alloc_reserve" where
  "ksm_rdma_huge_dealloc p h =
     (case put_first p (ha_ptrs h) of
        None \<Rightarrow> h
      | Some ptrs \<Rightarrow> h\<lparr>ha_used := ha_used h - 1, ha_ptrs := ptrs\<rparr>)"

subsection \<open>A round\<close>

text \<open>The callers of these functions have checked that there is a \<open>ksm_cb\<close>.\<close>

definition ksm_rdma_meta_send :: "int \<Rightarrow> schedule \<Rightarrow> ksm_cb \<Rightarrow> (int \<times> schedule \<times> ksm_cb) res" where
  "ksm_rdma_meta_send posted ess cb =
     (if posted \<noteq> 0 then Inr (posted, ess, cb)
      else rbind (wait_event (\<lambda>st. KSM_RDMA_SEND_COMPLETE \<le> st) ess cb) (\<lambda>(ess, cb).
             Inr (if cb_state cb \<noteq> KSM_RDMA_SEND_COMPLETE \<and> cb_state cb \<noteq> KSM_RDMA_RECV_COMPLETE then - 1 else 0, ess, cb)))"

record result_table =
  rt_entry_tables :: "(addr \<times> ksm_event_log list) list"
  rt_tables_cnt :: nat
  rt_total_cnt :: nat

record client =
  cl_cb :: ksm_cb
  cl_huge :: huge_alloc_reserve
  cl_pages_scanned :: u64

text \<open>
  The answers while the log is read: the three small allocations, and per table the mapping for the device
  and the posting of the read. \<open>remote key addr n\<close> are \<open>n\<close> entries in the memory of the server.
\<close>

record result_try =
  rs_table :: bool
  rs_unmap_addrs :: bool
  rs_entry_tables :: bool
  rs_mapped :: "nat \<Rightarrow> bool"
  rs_posted :: "nat \<Rightarrow> int"
  rs_post_recv :: int

definition table_size :: "nat \<Rightarrow> nat \<Rightarrow> nat \<Rightarrow> nat" where
  "table_size log_cnt tables_cnt i = (if i = tables_cnt - 1 then log_cnt - i * MAX_RESULT_TABLE_ENTRIES else MAX_RESULT_TABLE_ENTRIES)"

text \<open>The loop over the tables; \<open>None\<close> is an early return of \<open>NULL\<close>. A block that was allocated or read before is
  then not put back into the reserve.\<close>

primrec read_tables ::
  "(u64 \<Rightarrow> u64 \<Rightarrow> nat \<Rightarrow> ksm_event_log list) \<Rightarrow> result_try \<Rightarrow> nat \<Rightarrow> nat list \<Rightarrow> schedule \<Rightarrow> (addr \<times> ksm_event_log list) list \<Rightarrow> client \<Rightarrow>
   ((addr \<times> ksm_event_log list) list option \<times> schedule \<times> client) res" where
  "read_tables remote rt tables_cnt [] ess tabs cl = Inr (Some tabs, ess, cl)"
| "read_tables remote rt tables_cnt (i # is) ess tabs cl =
     (let desc = cb_result_desc (cl_cb cl);
          this_size = table_size (rd_log_cnt desc) tables_cnt i;
          (entries, huge) = ksm_rdma_huge_alloc (cl_huge cl);
          cl = cl\<lparr>cl_huge := huge\<rparr>
      in case entries of
           None \<Rightarrow> Inr (None, ess, cl)
         | Some p \<Rightarrow>
             if \<not> rs_mapped rt i then Inr (None, ess, cl)
             else
               (let cb = (cl_cb cl)\<lparr>cb_state := KSM_RDMA_READ_WAIT\<rparr>
                in if rs_posted rt i \<noteq> 0 then Inr (None, ess, cl\<lparr>cl_cb := cb\<rparr>)
                   else
                     rbind (wait_event (\<lambda>st. KSM_RDMA_READ_COMPLETE \<le> st) ess cb) (\<lambda>(ess, cb).
                       if cb_state cb \<noteq> KSM_RDMA_READ_COMPLETE then Inr (None, ess, cl\<lparr>cl_cb := cb\<rparr>)
                       else read_tables remote rt tables_cnt is ess
                              (tabs @ [(p, remote (rd_rkey desc) (rd_result_table_addr desc + of_nat (i * MAX_RESULT_TABLE_ENTRIES * sizeof_ksm_event_log)) this_size)])
                              (cl\<lparr>cl_cb := cb\<rparr>))))"

definition no_result :: result_desc where
  "no_result = \<lparr>rd_total_scanned_cnt = 0, rd_log_cnt = 0, rd_rkey = 0, rd_result_table_addr = 0\<rparr>"

definition ksm_rdma_result_recv ::
  "(u64 \<Rightarrow> u64 \<Rightarrow> nat \<Rightarrow> ksm_event_log list) \<Rightarrow> result_try \<Rightarrow> schedule \<Rightarrow> client \<Rightarrow> (result_table option \<times> schedule \<times> client) res" where
  "ksm_rdma_result_recv remote rt ess cl =
     rbind (wait_event (\<lambda>st. KSM_RDMA_RECV_COMPLETE \<le> st) ess (cl_cb cl)) (\<lambda>(ess, cb).
       (let cl = cl\<lparr>cl_cb := cb\<rparr>
        in if cb_state cb \<noteq> KSM_RDMA_RECV_COMPLETE then Inr (None, ess, cl)
           else if \<not> rs_table rt then Inr (None, ess, cl)
           else
             (let desc = cb_result_desc cb;
                  cl = cl\<lparr>cl_pages_scanned := cl_pages_scanned cl + word_of_int (rd_total_scanned_cnt desc)\<rparr>;
                  tables_cnt = (rd_log_cnt desc + MAX_RESULT_TABLE_ENTRIES - 1) div MAX_RESULT_TABLE_ENTRIES
              in if \<not> rs_unmap_addrs rt \<or> \<not> rs_entry_tables rt then Inr (None, ess, cl)
                 else
                   rbind (read_tables remote rt tables_cnt [0..<tables_cnt] ess [] cl) (\<lambda>(tabs, ess, cl).
                     case tabs of
                       None \<Rightarrow> Inr (None, ess, cl)
                     | Some tabs \<Rightarrow>
                         rbind (ib_post_recv (rs_post_recv rt) ((cl_cb cl)\<lparr>cb_result_desc := no_result\<rparr>)) (\<lambda>(_, cb).
                           Inr (Some \<lparr>rt_entry_tables = tabs, rt_tables_cnt = tables_cnt, rt_total_cnt = rd_log_cnt desc\<rparr>, ess, cl\<lparr>cl_cb := cb\<rparr>))))))"

text \<open>\<open>free_result_table\<close> (\<open>mm/ksm_rdma.c\<close>) puts the blocks back; the two arrays of the table are not freed.\<close>

definition free_result_table :: "result_table \<Rightarrow> huge_alloc_reserve \<Rightarrow> huge_alloc_reserve" where
  "free_result_table result h = fold (\<lambda>i. ksm_rdma_huge_dealloc (fst (rt_entry_tables result ! i))) [0..<rt_tables_cnt result] h"

subsection \<open>Registering memory and single operations\<close>

primrec reg_poll :: "ib_wc list \<Rightarrow> ksm_cb \<Rightarrow> ksm_cb res" where
  "reg_poll [] cb = Inr (cb\<lparr>cb_cq := []\<rparr>)"
| "reg_poll (wc # wcs) cb =
     (case wc_status wc of
        WC_FLUSH_ERR \<Rightarrow> reg_poll wcs cb
      | WC_FAILED \<Rightarrow> Inl (Stopped ''reg mr cq completion failed'')
      | WC_SUCCESS \<Rightarrow>
          if wc_wr_id wc = WR_REG_MR then Inr (cb\<lparr>cb_cq := wcs, cb_state := KSM_MEM_REG_COMPLETE\<rparr>)
          else Inl (Stopped ''reg mr cq completion with unexpected wr_id''))"

text \<open>What happens before the queue is polled is the argument \<open>es\<close>.\<close>

definition ksm_rdma_reg_mr :: "int \<Rightarrow> happening list \<Rightarrow> ksm_cb \<Rightarrow> (int \<times> ksm_cb) res" where
  "ksm_rdma_reg_mr posted es cb =
     (let cb = cb\<lparr>cb_state := KSM_MEM_REG_WAIT\<rparr>
      in if posted \<noteq> 0 then Inr (posted, cb)
         else (let cb = fold happen es cb in rbind (reg_poll (cb_cq cb) cb) (\<lambda>cb. Inr (0, cb))))"

definition ksm_rdma_invalidate_mr :: "int \<Rightarrow> ksm_cb \<Rightarrow> int \<times> ksm_cb" where
  "ksm_rdma_invalidate_mr posted cb = (posted, cb\<lparr>cb_state := KSM_MR_INVALIDATE_WAIT\<rparr>)"

text \<open>
  The answers during one operation, and the region of its pages (key and address). What happens before the
  poll of the registration is \<open>so_reg\<close>.
\<close>

record styx_try =
  so_sgt :: bool
  so_mr :: bool
  so_reg_posted :: int
  so_reg :: "happening list"
  so_posted :: int
  so_post_recv :: int
  so_inv_posted :: int
  so_rkey :: u64
  so_iova :: u64

definition no_op_result :: operation_result where
  "no_op_result = \<lparr>or_cmd = PAGE_COMPARE, or_id = 0, or_xxhash = 0\<rparr>"

definition styx_operation ::
  "operation_cmd \<Rightarrow> nat \<Rightarrow> styx_try \<Rightarrow> u64 \<Rightarrow> schedule \<Rightarrow> ksm_cb \<Rightarrow> (operation_result option \<times> u64 \<times> schedule \<times> ksm_cb) res" where
  "styx_operation cmd page_num so iteration ess cb =
     (if \<not> so_sgt so \<or> \<not> so_mr so then Inr (None, iteration, ess, cb)
      else
        rbind (ksm_rdma_reg_mr (so_reg_posted so) (so_reg so) cb) (\<lambda>(_, cb).
          (let cb = cb\<lparr>cb_single_op_desc := \<lparr>od_cmd = cmd, od_id = ucast iteration, od_rkey = so_rkey so, od_iova = so_iova so, od_page_num = page_num\<rparr>,
                       cb_state := KSM_CONNECTED\<rparr>
           in rbind (guard_stop ''ib_post_send failed'' (so_posted so = 0)) (\<lambda>_.
              rbind (wait_event (\<lambda>st. KSM_RDMA_RECV_COMPLETE \<le> st) ess cb) (\<lambda>(ess, cb).
              rbind (guard_stop ''wait for RECV_COMPLETE'' (cb_state cb = KSM_RDMA_RECV_COMPLETE)) (\<lambda>_.
                (let result = cb_single_op_result cb
                 in rbind (ib_post_recv (so_post_recv so) (cb\<lparr>cb_single_op_result := no_op_result\<rparr>)) (\<lambda>(_, cb).
                    Inr (Some result, iteration + 1, ess, snd (ksm_rdma_invalidate_mr (so_inv_posted so) cb))))))))))"

definition ksm_rdma_styx_memcmp :: "styx_try \<Rightarrow> u64 \<Rightarrow> schedule \<Rightarrow> ksm_cb \<Rightarrow> (int \<times> u64 \<times> schedule \<times> ksm_cb) res" where
  "ksm_rdma_styx_memcmp so iteration ess cb =
     rbind (styx_operation PAGE_COMPARE 2 so iteration ess cb) (\<lambda>(r, rest). Inr (case r of None \<Rightarrow> - 1 | Some r \<Rightarrow> or_value r, rest))"

text \<open>The hash is taken from the \<open>value\<close> of the result, an \<open>int\<close>.\<close>

definition ksm_rdma_styx_hash :: "styx_try \<Rightarrow> u64 \<Rightarrow> schedule \<Rightarrow> ksm_cb \<Rightarrow> (u64 \<times> u64 \<times> schedule \<times> ksm_cb) res" where
  "ksm_rdma_styx_hash so iteration ess cb =
     rbind (styx_operation PAGE_HASH 1 so iteration ess cb) (\<lambda>(r, rest). Inr (case r of None \<Rightarrow> - 1 | Some r \<Rightarrow> word_of_int (or_value r), rest))"

end
