(* ===== verification/Client_Correct.thy ===== *)
theory Client_Correct
  imports Client_Stub "HOL-Library.Multiset"
begin

text \<open>
  The RDMA client: how the result of a round gets from the memory of the server to ksmd under every schedule in
  which the messages complete in order, what the reserve of large blocks loses, and the schedules and failures
  that make ksmd wait for ever.
\<close>

section \<open>Waiting\<close>

definition run :: "schedule \<Rightarrow> ksm_cb \<Rightarrow> ksm_cb" where
  "run ess cb = fold happen (concat ess) cb"

lemma run_simps [simp]: "run [] cb = cb" "run (es # ess) cb = run ess (fold happen es cb)" "run (ess @ ess') cb = run ess' (run ess cb)"
  by (simp_all add: run_def)

text \<open>A wait ends at the latest when the condition holds at the end of a part of the schedule.\<close>

lemma wait_event_hits:
  assumes "pre \<noteq> []" "c (cb_state (run pre cb))"
  shows "\<exists>p r. pre = p @ r \<and> p \<noteq> [] \<and> c (cb_state (run p cb)) \<and> wait_event c (pre @ post) cb = Inr (r @ post, run p cb)"
  using assms
proof (induction pre arbitrary: cb)
  case (Cons es pre)
  show ?case
  proof (cases "c (cb_state (fold happen es cb))")
    case True
    then show ?thesis by (intro exI [of _ "[es]"] exI [of _ pre]) simp
  next
    case False
    then have "pre \<noteq> []" using Cons.prems(2) by auto
    moreover have "c (cb_state (run pre (fold happen es cb)))" using Cons.prems(2) by simp
    ultimately obtain p r where "pre = p @ r" "c (cb_state (run p (fold happen es cb)))"
      "wait_event c (pre @ post) (fold happen es cb) = Inr (r @ post, run p (fold happen es cb))"
      using Cons.IH [of "fold happen es cb"] by blast
    then show ?thesis using False by (intro exI [of _ "es # p"] exI [of _ r]) simp
  qed
qed simp

lemma wait_event_never:
  assumes "\<And>n. \<not> c (cb_state (run (take (Suc n) ess) cb))"
  shows "wait_event c ess cb = Inl Diverged"
  using assms
proof (induction ess arbitrary: cb)
  case (Cons es ess)
  have "\<not> c (cb_state (run (take (Suc n) ess) (fold happen es cb)))" for n using Cons.prems [of "Suc n"] by simp
  then show ?case using Cons.IH Cons.prems [of 0] by simp
qed simp

section \<open>The messages of a round\<close>

definition wc_ok :: "ksm_wr_tag \<Rightarrow> wc_opcode \<Rightarrow> happening" where
  "wc_ok tag opcode = Complete \<lparr>wc_status = WC_SUCCESS, wc_wr_id = tag, wc_opcode = opcode\<rparr>"

definition sent :: "happening list" where
  "sent = [wc_ok WR_SEND_METADATA WC_SEND, Cq_Interrupt False]"

definition received :: "result_desc \<Rightarrow> happening list" where
  "received d = [wc_ok WR_RECV_RESULT (WC_RECV (Result_Desc d)), Cq_Interrupt False]"

definition table_read :: "happening list" where
  "table_read = [wc_ok WR_READ_RESULT WC_RDMA_READ, Cq_Interrupt False]"

primrec reads_arrive :: "nat \<Rightarrow> schedule \<Rightarrow> bool" where
  "reads_arrive 0 ess \<longleftrightarrow> True"
| "reads_arrive (Suc n) ess \<longleftrightarrow> (\<exists>pre post. ess = pre @ post \<and> concat pre = table_read \<and> reads_arrive n post)"

lemmas happen_defs = happen_def ksm_rdma_cq_event_handler_def completion_state_def deliver_def Let_def wc_ok_def sent_def received_def table_read_def

lemma append_eq_Cons4:
  assumes "xs @ ys = [a, b, c, d]"
  shows "xs = [] \<or> xs = [a] \<or> xs = [a, b] \<or> xs = [a, b, c] \<or> xs = [a, b, c, d] \<and> ys = []"
  using assms by (auto simp: append_eq_Cons_conv)

lemma append_eq_Cons2:
  assumes "xs @ ys = [a, b]"
  shows "xs = [] \<or> xs = [a] \<or> xs = [a, b] \<and> ys = []"
  using assms by (auto simp: append_eq_Cons_conv)

lemma run_received:
  assumes "cb_state cb < KSM_RDMA_SEND_COMPLETE" "cb_cq cb = []" "concat p @ r = sent @ received d"
  shows "KSM_RDMA_SEND_COMPLETE \<le> cb_state (run p cb) \<Longrightarrow> cb_state (run p cb) \<in> {KSM_RDMA_SEND_COMPLETE, KSM_RDMA_RECV_COMPLETE}"
    and "KSM_RDMA_RECV_COMPLETE \<le> cb_state (run p cb) \<Longrightarrow> r = []"
    and "r = [] \<Longrightarrow> run p cb = cb\<lparr>cb_state := KSM_RDMA_RECV_COMPLETE, cb_recvs := cb_recvs cb - 1, cb_result_desc := d\<rparr>"
proof -
  have st: "cb_state cb \<noteq> KSM_ERROR" using assms(1) by (auto simp: state_order)
  from append_eq_Cons4 [OF assms(3) [unfolded sent_def received_def append.simps]]
  show "KSM_RDMA_SEND_COMPLETE \<le> cb_state (run p cb) \<Longrightarrow> cb_state (run p cb) \<in> {KSM_RDMA_SEND_COMPLETE, KSM_RDMA_RECV_COMPLETE}"
    using assms(1,2) st by (elim disjE conjE) (simp_all add: run_def happen_defs)
  from append_eq_Cons4 [OF assms(3) [unfolded sent_def received_def append.simps]]
  show "KSM_RDMA_RECV_COMPLETE \<le> cb_state (run p cb) \<Longrightarrow> r = []"
    using assms(1,2) st by (elim disjE conjE) (simp_all add: run_def happen_defs state_order)
  show "r = [] \<Longrightarrow> run p cb = cb\<lparr>cb_state := KSM_RDMA_RECV_COMPLETE, cb_recvs := cb_recvs cb - 1, cb_result_desc := d\<rparr>"
    using assms st by (simp add: run_def happen_defs)
qed

lemma run_read:
  assumes "cb_state cb = KSM_RDMA_READ_WAIT" "cb_cq cb = []" "concat p @ r = table_read"
  shows "KSM_RDMA_READ_COMPLETE \<le> cb_state (run p cb) \<Longrightarrow> r = []"
    and "r = [] \<Longrightarrow> run p cb = cb\<lparr>cb_state := KSM_RDMA_READ_COMPLETE\<rparr>"
proof -
  from append_eq_Cons2 [OF assms(3) [unfolded table_read_def]]
  show "KSM_RDMA_READ_COMPLETE \<le> cb_state (run p cb) \<Longrightarrow> r = []"
    using assms(1,2) by (elim disjE conjE) (simp_all add: run_def happen_defs state_order)
  show "r = [] \<Longrightarrow> run p cb = cb\<lparr>cb_state := KSM_RDMA_READ_COMPLETE\<rparr>"
    using assms by (simp add: run_def happen_defs)
qed

text \<open>The wait for one table: the events of the table come, in whatever groups, and then the state is right.\<close>

lemma run_nothing: "concat ess = [] \<Longrightarrow> run ess cb = cb"
  unfolding run_def by (simp only: fold.simps id_apply)

lemma wait_read:
  assumes "cb_state cb = KSM_RDMA_READ_WAIT" "cb_cq cb = []" "concat idle = []" "concat pre = table_read"
  shows "\<exists>idle'. concat idle' = [] \<and>
    wait_event (\<lambda>st. KSM_RDMA_READ_COMPLETE \<le> st) ((idle @ pre) @ post) cb = Inr (idle' @ post, cb\<lparr>cb_state := KSM_RDMA_READ_COMPLETE\<rparr>)"
proof -
  have all: "concat (idle @ pre) = table_read" using assms(3,4) by simp
  then have "idle @ pre \<noteq> []" by (auto simp: table_read_def)
  moreover have "KSM_RDMA_READ_COMPLETE \<le> cb_state (run (idle @ pre) cb)"
    using run_read(2) [OF assms(1,2), of "idle @ pre" "[]"] all by simp
  ultimately obtain p r where p: "idle @ pre = p @ r" "KSM_RDMA_READ_COMPLETE \<le> cb_state (run p cb)"
    "wait_event (\<lambda>st. KSM_RDMA_READ_COMPLETE \<le> st) ((idle @ pre) @ post) cb = Inr (r @ post, run p cb)"
    using wait_event_hits [of "idle @ pre" "\<lambda>st. KSM_RDMA_READ_COMPLETE \<le> st" cb post] by blast
  have c: "concat p @ concat r = table_read" using all p(1) by (metis concat_append)
  have "concat r = []" using run_read(1) [OF assms(1,2) c p(2)] .
  moreover have "run p cb = cb\<lparr>cb_state := KSM_RDMA_READ_COMPLETE\<rparr>" using run_read(2) [OF assms(1,2) c calculation] .
  ultimately show ?thesis using p(3) by auto
qed

section \<open>The reserve\<close>

fun held :: "'a option list \<Rightarrow> 'a list" where
  "held [] = []"
| "held (None # ps) = held ps"
| "held (Some p # ps) = p # held ps"

lemma take_first_held: "take_first ps = Some (p, ps') \<Longrightarrow> held ps = p # held ps' \<and> length ps' = length ps"
  by (induction ps arbitrary: ps' rule: take_first.induct) auto

lemma take_first_None: "take_first ps = None \<Longrightarrow> held ps = []"
  by (induction ps rule: take_first.induct) auto

lemma held_le: "length (held ps) \<le> length ps"
  by (induction ps rule: held.induct) auto

lemma put_first_held:
  "length (held ps) < length ps \<Longrightarrow> \<exists>ps'. put_first x ps = Some ps' \<and> mset (held ps') = add_mset x (mset (held ps)) \<and> length ps' = length ps"
  by (induction x ps rule: put_first.induct) auto

definition blocks :: "huge_alloc_reserve \<Rightarrow> addr multiset" where
  "blocks h = mset (held (ha_ptrs h))"

lemma huge_alloc_blocks:
  "(case ksm_rdma_huge_alloc h of
      (None, h') \<Rightarrow> h' = h \<and> blocks h = {#}
    | (Some p, h') \<Rightarrow> blocks h = add_mset p (blocks h') \<and> length (ha_ptrs h') = length (ha_ptrs h) \<and> ha_used h' = ha_used h + 1)"
  by (auto simp: ksm_rdma_huge_alloc_def blocks_def dest: take_first_held take_first_None split: option.splits)

lemma huge_dealloc_blocks:
  assumes "size (blocks h) < length (ha_ptrs h)"
  shows "blocks (ksm_rdma_huge_dealloc p h) = add_mset p (blocks h) \<and> length (ha_ptrs (ksm_rdma_huge_dealloc p h)) = length (ha_ptrs h) \<and>
    ha_used (ksm_rdma_huge_dealloc p h) = ha_used h - 1"
  using put_first_held [of "ha_ptrs h" p] assms by (auto simp: ksm_rdma_huge_dealloc_def blocks_def)

lemma dealloc_all:
  assumes "size (blocks h) + length ps \<le> length (ha_ptrs h)"
  shows "blocks (fold ksm_rdma_huge_dealloc ps h) = mset ps + blocks h \<and> ha_used (fold ksm_rdma_huge_dealloc ps h) = ha_used h - int (length ps)"
  using assms
proof (induction ps arbitrary: h)
  case (Cons p ps)
  have "size (blocks h) < length (ha_ptrs h)" using Cons.prems by simp
  note d = huge_dealloc_blocks [OF this, of p]
  then show ?case using Cons.IH [of "ksm_rdma_huge_dealloc p h"] Cons.prems by auto
qed simp

lemma free_result_table_fold:
  assumes "rt_tables_cnt r = length (rt_entry_tables r)"
  shows "free_result_table r h = fold ksm_rdma_huge_dealloc (map fst (rt_entry_tables r)) h"
proof -
  have "map (\<lambda>i. fst (rt_entry_tables r ! i)) [0..<rt_tables_cnt r] = map fst (rt_entry_tables r)"
    by (rule nth_equalityI) (simp_all add: assms)
  then show ?thesis unfolding free_result_table_def by (simp only: fold_map comp_def flip: \<open>map _ _ = _\<close>)
qed

section \<open>Reading the tables\<close>

definition reads_work :: "result_try \<Rightarrow> nat \<Rightarrow> bool" where
  "reads_work rt n \<longleftrightarrow> rs_table rt \<and> rs_unmap_addrs rt \<and> rs_entry_tables rt \<and> (\<forall>i < n. rs_mapped rt i \<and> rs_posted rt i = 0)"

definition table_addr :: "result_desc \<Rightarrow> nat \<Rightarrow> u64" where
  "table_addr d i = rd_result_table_addr d + of_nat (i * MAX_RESULT_TABLE_ENTRIES * sizeof_ksm_event_log)"

lemma read_tables_ok:
  assumes "\<forall>i \<in> set is. rs_mapped rt i \<and> rs_posted rt i = 0" "cb_cq (cl_cb cl) = []" "length is \<le> size (blocks (cl_huge cl))" "concat idle = []" "reads_arrive (length is) post"
    and "cb_result_desc (cl_cb cl) = d"
  shows "\<exists>tabs' ess' cl'. read_tables remote rt n is (idle @ post) tabs cl = Inr (Some (tabs @ tabs'), ess', cl') \<and>
    map snd tabs' = map (\<lambda>i. remote (rd_rkey d) (table_addr d i) (table_size (rd_log_cnt d) n i)) is \<and>
    blocks (cl_huge cl) = mset (map fst tabs') + blocks (cl_huge cl') \<and> length (ha_ptrs (cl_huge cl')) = length (ha_ptrs (cl_huge cl)) \<and>
    ha_used (cl_huge cl') = ha_used (cl_huge cl) + int (length is) \<and> cl_pages_scanned cl' = cl_pages_scanned cl \<and>
    cl_cb cl' = (if is = [] then cl_cb cl else (cl_cb cl)\<lparr>cb_state := KSM_RDMA_READ_COMPLETE\<rparr>)"
  using assms
proof (induction "is" arbitrary: idle post tabs cl)
  case Nil
  then show ?case by simp
next
  case (Cons i "is")
  from Cons.prems(3) obtain p h' where al: "ksm_rdma_huge_alloc (cl_huge cl) = (Some p, h')"
    using huge_alloc_blocks [of "cl_huge cl"] by (cases "ksm_rdma_huge_alloc (cl_huge cl)"; cases "fst (ksm_rdma_huge_alloc (cl_huge cl))") auto
  have b: "blocks (cl_huge cl) = add_mset p (blocks h')" "length (ha_ptrs h') = length (ha_ptrs (cl_huge cl))" "ha_used h' = ha_used (cl_huge cl) + 1"
    using huge_alloc_blocks [of "cl_huge cl"] al by simp_all
  from Cons.prems(5) obtain pre post' where post: "post = pre @ post'" "concat pre = table_read" "reads_arrive (length is) post'" by auto
  let ?cb = "(cl_cb cl)\<lparr>cb_state := KSM_RDMA_READ_WAIT\<rparr>"
  from wait_read [of ?cb idle pre post'] Cons.prems(2,4) post(2) obtain idle' where
    w: "concat idle' = []" "wait_event (\<lambda>st. KSM_RDMA_READ_COMPLETE \<le> st) (idle @ post) ?cb = Inr (idle' @ post', (cl_cb cl)\<lparr>cb_state := KSM_RDMA_READ_COMPLETE\<rparr>)"
    unfolding post(1) by auto
  let ?cl = "cl\<lparr>cl_huge := h', cl_cb := (cl_cb cl)\<lparr>cb_state := KSM_RDMA_READ_COMPLETE\<rparr>\<rparr>"
  let ?t = "(p, remote (rd_rkey d) (table_addr d i) (table_size (rd_log_cnt d) n i))"
  have step: "read_tables remote rt n (i # is) (idle @ post) tabs cl = read_tables remote rt n is (idle' @ post') (tabs @ [?t]) ?cl"
    using Cons.prems(1) al w(2) Cons.prems(6) by (simp add: Let_def table_addr_def)
  have "cb_cq (cl_cb ?cl) = []" "length is \<le> size (blocks (cl_huge ?cl))" "cb_result_desc (cl_cb ?cl) = d" using Cons.prems(2,3,6) b(1) by simp_all
  from Cons.IH [OF _ this(1,2) w(1) post(3) this(3), of "tabs @ [?t]"] Cons.prems(1) obtain tabs' ess' cl' where
    1: "read_tables remote rt n is (idle' @ post') (tabs @ [?t]) ?cl = Inr (Some ((tabs @ [?t]) @ tabs'), ess', cl')"
    and 2: "map snd tabs' = map (\<lambda>i. remote (rd_rkey d) (table_addr d i) (table_size (rd_log_cnt d) n i)) is"
      "blocks (cl_huge ?cl) = mset (map fst tabs') + blocks (cl_huge cl')" "length (ha_ptrs (cl_huge cl')) = length (ha_ptrs (cl_huge ?cl))"
      "ha_used (cl_huge cl') = ha_used (cl_huge ?cl) + int (length is)" "cl_pages_scanned cl' = cl_pages_scanned ?cl"
      "cl_cb cl' = (if is = [] then cl_cb ?cl else (cl_cb ?cl)\<lparr>cb_state := KSM_RDMA_READ_COMPLETE\<rparr>)" by (auto simp del: append_assoc)
  show ?case unfolding step by (intro exI [of _ "?t # tabs'"] exI [of _ ess'] exI [of _ cl']) (use 1 2 b in auto)
qed

lemma chunks:
  assumes "0 < m"
  shows "concat (map (\<lambda>i. take m (drop (i * m) xs)) [0..<n]) = take (n * m) xs"
proof (induction n)
  case (Suc n)
  have "Suc n * m = n * m + m" by simp
  then have "take (Suc n * m) xs = take (n * m) xs @ take m (drop (n * m) xs)" by (simp only: take_add)
  then show ?case using Suc by simp
qed simp

definition slices :: "ksm_event_log list \<Rightarrow> nat \<Rightarrow> ksm_event_log list list" where
  "slices log n = map (\<lambda>i. take (table_size (length log) n i) (drop (i * MAX_RESULT_TABLE_ENTRIES) log)) [0..<n]"

lemma slices_eq:
  assumes "n = (length log + MAX_RESULT_TABLE_ENTRIES - 1) div MAX_RESULT_TABLE_ENTRIES"
  shows "slices log n = map (\<lambda>i. take MAX_RESULT_TABLE_ENTRIES (drop (i * MAX_RESULT_TABLE_ENTRIES) log)) [0..<n]"
    and "length log \<le> n * MAX_RESULT_TABLE_ENTRIES" and "0 < MAX_RESULT_TABLE_ENTRIES"
proof -
  let ?m = MAX_RESULT_TABLE_ENTRIES
  show m: "0 < ?m" by (simp add: MAX_RESULT_TABLE_ENTRIES_def)
  show len: "length log \<le> n * ?m"
    using DIV_ROUND_UP_le_iff [OF m, of "length log" n] assms by (simp add: DIV_ROUND_UP_def)
  have "take (table_size (length log) n i) (drop (i * ?m) log) = take ?m (drop (i * ?m) log)" if "i < n" for i
  proof (cases "i = n - 1")
    case True
    then have "n * ?m = i * ?m + ?m" using that by (cases n) auto
    then show ?thesis using True len by (simp add: table_size_def)
  qed (simp add: table_size_def)
  then show "slices log n = map (\<lambda>i. take ?m (drop (i * ?m) log)) [0..<n]" by (simp add: slices_def)
qed

lemma tables_cover:
  assumes "n = (length log + MAX_RESULT_TABLE_ENTRIES - 1) div MAX_RESULT_TABLE_ENTRIES"
  shows "concat (slices log n) = log"
  using chunks [OF slices_eq(3) [OF assms], of log n] slices_eq(1,2) [OF assms] by simp

lemma slices_nth:
  assumes "n = (length log + MAX_RESULT_TABLE_ENTRIES - 1) div MAX_RESULT_TABLE_ENTRIES" "i < length log"
  shows "slices log n ! (i div MAX_RESULT_TABLE_ENTRIES) ! (i mod MAX_RESULT_TABLE_ENTRIES) = log ! i"
proof -
  let ?m = MAX_RESULT_TABLE_ENTRIES
  note s = slices_eq [OF assms(1)]
  have "i < n * ?m" using assms(2) s(2) by simp
  then have "i div ?m < n" by (simp add: less_mult_imp_div_less)
  moreover have "i div ?m * ?m \<le> length log" using assms(2) div_times_less_eq_dividend [of i ?m] by linarith
  ultimately show ?thesis using s(1,3) by (simp add: nth_drop)
qed

section \<open>The result of a round\<close>

lemma result_recv_ok:
  assumes "cb_state (cl_cb cl) < KSM_RDMA_SEND_COMPLETE" and "cb_cq (cl_cb cl) = []" and "cb_qp (cl_cb cl)" and "reads_work rt tables" and "rs_post_recv rt = 0"
    and "concat pre = sent @ received d" and "reads_arrive tables post"
    and "tables = (rd_log_cnt d + MAX_RESULT_TABLE_ENTRIES - 1) div MAX_RESULT_TABLE_ENTRIES" and "tables \<le> size (blocks (cl_huge cl))"
    and "rd_log_cnt d = length log"
    and "\<And>i n. i < tables \<Longrightarrow> remote (rd_rkey d) (table_addr d i) n = take n (drop (i * MAX_RESULT_TABLE_ENTRIES) log)"
  shows "\<exists>ess cb result ess' cl'. ksm_rdma_meta_send 0 (pre @ [] # post) (cl_cb cl) = Inr (0, ess, cb) \<and>
    ksm_rdma_result_recv remote rt ess (cl\<lparr>cl_cb := cb\<rparr>) = Inr (Some result, ess', cl') \<and>
    map snd (rt_entry_tables result) = slices log tables \<and> rt_total_cnt result = length log \<and> rt_tables_cnt result = tables \<and>
    cl_pages_scanned cl' = cl_pages_scanned cl + word_of_int (rd_total_scanned_cnt d) \<and>
    cb_recvs (cl_cb cl') = cb_recvs (cl_cb cl) - 1 + 1 \<and> cb_qp (cl_cb cl') \<and> cb_cq (cl_cb cl') = [] \<and>
    blocks (cl_huge cl) = mset (map fst (rt_entry_tables result)) + blocks (cl_huge cl') \<and>
    blocks (free_result_table result (cl_huge cl')) = blocks (cl_huge cl) \<and> ha_used (free_result_table result (cl_huge cl')) = ha_used (cl_huge cl)"
proof -
  let ?cb = "cl_cb cl" and ?rcv = "(cl_cb cl)\<lparr>cb_state := KSM_RDMA_RECV_COMPLETE, cb_recvs := cb_recvs (cl_cb cl) - 1, cb_result_desc := d\<rparr>"
  note rc = run_received [OF assms(1,2)]
  have fin: "run (pre @ [[]]) ?cb = ?rcv" using rc(3) [of pre "[]"] assms(6) by simp
  have "pre \<noteq> []" using assms(6) by (auto simp: sent_def)
  moreover have "KSM_RDMA_SEND_COMPLETE \<le> cb_state (run pre ?cb)" using fin by (simp add: state_order)
  ultimately obtain p r where p: "pre = p @ r" "KSM_RDMA_SEND_COMPLETE \<le> cb_state (run p ?cb)"
    "wait_event (\<lambda>st. KSM_RDMA_SEND_COMPLETE \<le> st) (pre @ [] # post) ?cb = Inr (r @ [] # post, run p ?cb)"
    using wait_event_hits [of pre "\<lambda>st. KSM_RDMA_SEND_COMPLETE \<le> st" ?cb "[] # post"] by blast
  have cp: "concat p @ concat r = sent @ received d" using p(1) assms(6) by simp
  have meta: "ksm_rdma_meta_send 0 (pre @ [] # post) ?cb = Inr (0, r @ [] # post, run p ?cb)"
    using rc(1) [OF cp p(2)] p(3) by (auto simp: ksm_rdma_meta_send_def)
  have "KSM_RDMA_RECV_COMPLETE \<le> cb_state (run (r @ [[]]) (run p ?cb))" using fin p(1) by simp
  then obtain p' r' where p': "r @ [[]] = p' @ r'" "KSM_RDMA_RECV_COMPLETE \<le> cb_state (run p' (run p ?cb))"
    "wait_event (\<lambda>st. KSM_RDMA_RECV_COMPLETE \<le> st) ((r @ [[]]) @ post) (run p ?cb) = Inr (r' @ post, run p' (run p ?cb))"
    using wait_event_hits [of "r @ [[]]" "\<lambda>st. KSM_RDMA_RECV_COMPLETE \<le> st" "run p ?cb" post] by blast
  have "concat (p @ p') @ concat r' = sent @ received d" using cp arg_cong [OF p'(1), of concat] by simp
  from rc(2) [OF this] p'(2) have idle: "concat r' = []" by simp
  have rcv: "run p' (run p ?cb) = ?rcv"
    using rc(3) [of "p @ p'" "concat r'"] \<open>concat (p @ p') @ concat r' = _\<close> idle by simp
  let ?cl = "cl\<lparr>cl_cb := ?rcv, cl_pages_scanned := cl_pages_scanned cl + word_of_int (rd_total_scanned_cnt d)\<rparr>"
  have "cb_cq (cl_cb ?cl) = []" "length [0..<tables] \<le> size (blocks (cl_huge ?cl))" "reads_arrive (length [0..<tables]) post" "cb_result_desc (cl_cb ?cl) = d"
    using assms(2,7,9) by simp_all
  moreover have sl: "map (\<lambda>i. remote (rd_rkey d) (table_addr d i) (table_size (rd_log_cnt d) tables i)) [0..<tables] =
      slices log tables"
    using assms(10,11) by (simp add: slices_def)
  ultimately have pr: "cb_cq (cl_cb ?cl) = []" "length [0..<tables] \<le> size (blocks (cl_huge ?cl))" "reads_arrive (length [0..<tables]) post" "cb_result_desc (cl_cb ?cl) = d"
    by blast+
  have "\<forall>i \<in> set [0..<tables]. rs_mapped rt i \<and> rs_posted rt i = 0" using assms(4) by (simp add: reads_work_def)
  from read_tables_ok [OF this pr(1,2) idle pr(3,4), of remote tables "[]"] obtain tabs ess' cl' where
    t: "read_tables remote rt tables [0..<tables] (r' @ post) [] ?cl = Inr (Some tabs, ess', cl')"
      "map snd tabs = slices log tables"
      "blocks (cl_huge cl) = mset (map fst tabs) + blocks (cl_huge cl')" "length (ha_ptrs (cl_huge cl')) = length (ha_ptrs (cl_huge cl))"
      "ha_used (cl_huge cl') = ha_used (cl_huge cl) + int tables" "cl_pages_scanned cl' = cl_pages_scanned ?cl"
      "cl_cb cl' = (if tables = 0 then ?rcv else ?rcv\<lparr>cb_state := KSM_RDMA_READ_COMPLETE\<rparr>)"
    using sl by auto
  let ?res = "\<lparr>rt_entry_tables = tabs, rt_tables_cnt = tables, rt_total_cnt = length log\<rparr>"
  let ?cl' = "cl'\<lparr>cl_cb := (cl_cb cl')\<lparr>cb_result_desc := no_result, cb_recvs := cb_recvs (cl_cb cl') + 1\<rparr>\<rparr>"
  have "ksm_rdma_result_recv remote rt (r @ [] # post) (cl\<lparr>cl_cb := run p ?cb\<rparr>) = Inr (Some ?res, ess', ?cl')"
    using p'(3) t(1,7) rcv assms(3-5,8,10) by (simp add: ksm_rdma_result_recv_def reads_work_def Let_def ib_post_recv_def)
  moreover have "map snd tabs = slices log tables" using t(2) .
  moreover have len: "length tabs = tables" using arg_cong [OF t(2), of length] by (simp add: slices_def)
  moreover have "size (blocks (cl_huge cl)) = length tabs + size (blocks (cl_huge cl'))" using t(3) by simp
  then have "size (blocks (cl_huge cl')) + length tabs \<le> length (ha_ptrs (cl_huge cl'))" using held_le [of "ha_ptrs (cl_huge cl)"] t(4) by (simp add: blocks_def)
  then have "blocks (free_result_table ?res (cl_huge cl')) = blocks (cl_huge cl) \<and> ha_used (free_result_table ?res (cl_huge cl')) = ha_used (cl_huge cl)"
    using dealloc_all [of "cl_huge cl'" "map fst tabs"] free_result_table_fold [of ?res] len t(3,5) by simp
  ultimately show ?thesis using meta t(3,6,7) assms(2,3)
    by (intro exI [of _ "r @ [] # post"] exI [of _ "run p ?cb"] exI [of _ ?res] exI [of _ ess'] exI [of _ ?cl']) simp
qed

text \<open>
  C26. The log of the server reaches the host. Whatever groups the completions of the request, of the answer and of the reads come
  in, as long as the request completes before the answer: ksmd does not wait for ever, the tables it has read are, one
  after the other, the log in the memory of the server, the pages scanned are added up, a new receive is posted,
  and the tables lie in blocks of the reserve. Freeing the table gives all blocks back.
\<close>

theorem result_reaches_host:
  assumes "cb_state (cl_cb cl) < KSM_RDMA_SEND_COMPLETE" and "cb_cq (cl_cb cl) = []" and "cb_qp (cl_cb cl)" and "reads_work rt tables" and "rs_post_recv rt = 0"
    and "concat pre = sent @ received d" and "reads_arrive tables post"
    and "tables = (rd_log_cnt d + MAX_RESULT_TABLE_ENTRIES - 1) div MAX_RESULT_TABLE_ENTRIES" and "tables \<le> size (blocks (cl_huge cl))"
    and "rd_log_cnt d = length log"
    and "\<And>i n. i < tables \<Longrightarrow> remote (rd_rkey d) (table_addr d i) n = take n (drop (i * MAX_RESULT_TABLE_ENTRIES) log)"
  shows "\<exists>ess cb result ess' cl'. ksm_rdma_meta_send 0 (pre @ [] # post) (cl_cb cl) = Inr (0, ess, cb) \<and>
    ksm_rdma_result_recv remote rt ess (cl\<lparr>cl_cb := cb\<rparr>) = Inr (Some result, ess', cl') \<and>
    concat (map snd (rt_entry_tables result)) = log \<and> rt_total_cnt result = length log \<and>
    cl_pages_scanned cl' = cl_pages_scanned cl + word_of_int (rd_total_scanned_cnt d) \<and>
    cb_recvs (cl_cb cl') = cb_recvs (cl_cb cl) - 1 + 1 \<and> cb_qp (cl_cb cl') \<and> cb_cq (cl_cb cl') = [] \<and>
    blocks (cl_huge cl) = mset (map fst (rt_entry_tables result)) + blocks (cl_huge cl') \<and>
    blocks (free_result_table result (cl_huge cl')) = blocks (cl_huge cl) \<and> ha_used (free_result_table result (cl_huge cl')) = ha_used (cl_huge cl)"
proof -
  have "concat (slices log tables) = log" using tables_cover [of tables log] assms(8,10) by simp
  then show ?thesis using result_recv_ok [of cl rt tables pre d post log remote, OF assms] by fastforce
qed

text \<open>A round with a log of one entry.\<close>

definition sample_cb :: ksm_cb where
  "sample_cb = \<lparr>cb_state = KSM_MEM_REG_COMPLETE, cb_qp = True, cb_cq = [], cb_recvs = 1, cb_result_desc = no_result,
     cb_single_op_desc = \<lparr>od_cmd = PAGE_COMPARE, od_id = 0, od_rkey = 0, od_iova = 0, od_page_num = 0\<rparr>, cb_single_op_result = no_op_result\<rparr>"

definition sample_client :: client where
  "sample_client = \<lparr>cl_cb = sample_cb, cl_huge = \<lparr>ha_used = 0, ha_ptrs = [Some 11, Some 12]\<rparr>, cl_pages_scanned = 100\<rparr>"

definition sample_result_try :: result_try where
  "sample_result_try = \<lparr>rs_table = True, rs_unmap_addrs = True, rs_entry_tables = True, rs_mapped = (\<lambda>_. True), rs_posted = (\<lambda>_. 0), rs_post_recv = 0\<rparr>"

definition sample_result :: result_desc where
  "sample_result = \<lparr>rd_total_scanned_cnt = 5, rd_log_cnt = 1, rd_rkey = 3, rd_result_table_addr = 0x7000\<rparr>"

definition sample_merge_log :: ksm_event_log where
  "sample_merge_log = \<lparr>ev_type = DPU_STABLE_MERGE, ev_w0 = 0x1000, ev_w1 = 16, ev_i0 = 1, ev_i1 = 0\<rparr>"

theorem result_reaches_host_witness:
  "\<exists>ess cb result ess' cl'. ksm_rdma_meta_send 0 [sent @ [hd (received sample_result)], [Cq_Interrupt False], [], table_read] sample_cb = Inr (0, ess, cb) \<and>
    ksm_rdma_result_recv (\<lambda>_ _ n. take n [sample_merge_log]) sample_result_try ess (sample_client\<lparr>cl_cb := cb\<rparr>) = Inr (Some result, ess', cl') \<and>
    concat (map snd (rt_entry_tables result)) = [sample_merge_log] \<and> cl_pages_scanned cl' = 105 \<and>
    blocks (free_result_table result (cl_huge cl')) = {#11, 12#}"
proof -
  have "reads_arrive 1 [table_read]" by (auto intro: exI [of _ "[table_read]"])
  moreover have "concat [sent @ [hd (received sample_result)], [Cq_Interrupt False]] = sent @ received sample_result" by (simp add: received_def)
  ultimately show ?thesis
    using result_reaches_host [of sample_client sample_result_try 1 "[sent @ [hd (received sample_result)], [Cq_Interrupt False]]" sample_result "[table_read]"
        "[sample_merge_log]" "\<lambda>_ _ n. take n [sample_merge_log]"]
    by (auto simp: sample_client_def sample_cb_def sample_result_try_def sample_result_def reads_work_def state_order blocks_def MAX_RESULT_TABLE_ENTRIES_def)
qed

section \<open>A result that overtakes the request\<close>

text \<open>
  C37. Requests and answers complete in different queues. If the completion of the answer is handled before that of the
  request, ksmd may see the state of the answer, take the request for sent and go on to wait for the answer; when the completion
  of the request is handled by then, it has overwritten the state, and ksmd waits for ever with the answer in its memory.
\<close>

theorem overtaken_request_waits:
  assumes "cb_state (cl_cb cl) < KSM_RDMA_SEND_COMPLETE" and "cb_cq (cl_cb cl) = []"
  shows "\<exists>cb. ksm_rdma_meta_send 0 (received d # sent # replicate n []) (cl_cb cl) = Inr (0, sent # replicate n [], cb) \<and>
    cb_result_desc cb = d \<and> ksm_rdma_result_recv remote rt (sent # replicate n []) (cl\<lparr>cl_cb := cb\<rparr>) = Inl Diverged"
proof -
  let ?cb = "(cl_cb cl)\<lparr>cb_state := KSM_RDMA_RECV_COMPLETE, cb_recvs := cb_recvs (cl_cb cl) - 1, cb_result_desc := d\<rparr>"
  have st: "cb_state (cl_cb cl) \<noteq> KSM_ERROR" using assms(1) by (auto simp: state_order)
  have r: "fold happen (received d) (cl_cb cl) = ?cb" using assms(2) st by (simp add: happen_defs)
  have "run (take k (replicate n [])) cb = cb" for k cb by (simp add: run_def flip: replicate_append_same)
  then have "cb_state (run (take (Suc k) (sent # replicate n [])) ?cb) = KSM_RDMA_SEND_COMPLETE" for k
    using assms(2) by (simp add: happen_defs)
  then have "wait_event (\<lambda>st. KSM_RDMA_RECV_COMPLETE \<le> st) (sent # replicate n []) ?cb = Inl Diverged"
    by (intro wait_event_never) (simp add: state_order)
  then show ?thesis using r by (intro exI [of _ ?cb]) (simp add: ksm_rdma_meta_send_def ksm_rdma_result_recv_def state_order)
qed

theorem overtaken_request_waits_witness:
  "\<exists>cb. ksm_rdma_meta_send 0 (received sample_result # sent # replicate 9 []) sample_cb = Inr (0, sent # replicate 9 [], cb) \<and>
    cb_result_desc cb = sample_result \<and>
    ksm_rdma_result_recv (\<lambda>_ _ n. take n [sample_merge_log]) sample_result_try (sent # replicate 9 []) (sample_client\<lparr>cl_cb := cb\<rparr>) = Inl Diverged"
  using overtaken_request_waits [of sample_client sample_result 9] by (simp add: sample_client_def sample_cb_def state_order)

section \<open>A disconnect between two rounds\<close>

definition flushed :: "happening \<Rightarrow> bool" where
  "flushed e \<longleftrightarrow> e = Cq_Interrupt False \<or> (\<exists>wc. e = Complete wc \<and> wc_status wc = WC_FLUSH_ERR)"

lemma drain_flushed: "\<forall>wc \<in> set wcs. wc_status wc = WC_FLUSH_ERR \<Longrightarrow> cq_drain False wcs cb = cb\<lparr>cb_cq := []\<rparr>"
  by (induction wcs) simp_all

lemma happen_flushed:
  assumes "\<forall>e \<in> set es. flushed e" "\<forall>wc \<in> set (cb_cq cb). wc_status wc = WC_FLUSH_ERR"
  shows "cb_state (fold happen es cb) = cb_state cb \<and> (\<forall>wc \<in> set (cb_cq (fold happen es cb)). wc_status wc = WC_FLUSH_ERR)"
  using assms
proof (induction es arbitrary: cb)
  case (Cons e es)
  have "cb_state (happen e cb) = cb_state cb \<and> (\<forall>wc \<in> set (cb_cq (happen e cb)). wc_status wc = WC_FLUSH_ERR)"
    using Cons.prems drain_flushed [of "cb_cq cb" cb] by (auto simp: flushed_def happen_def ksm_rdma_cq_event_handler_def split: if_splits)
  moreover from this have "cb_state (fold happen es (happen e cb)) = cb_state (happen e cb) \<and>
      (\<forall>wc \<in> set (cb_cq (fold happen es (happen e cb))). wc_status wc = WC_FLUSH_ERR)"
    using Cons.prems(1) by (intro Cons.IH) simp_all
  ultimately show ?case by simp
qed simp

lemma reg_poll_flushed: "\<forall>wc \<in> set wcs. wc_status wc = WC_FLUSH_ERR \<Longrightarrow> reg_poll wcs cb = Inr (cb\<lparr>cb_cq := []\<rparr>)"
  by (induction wcs) simp_all

text \<open>
  C38. A server that goes away between two rounds is not noticed. The disconnect sets \<open>KSM_ERROR\<close>, but the next
  registration of memory sets the state again and, with its work request flushed, succeeds; sending the
  request then waits for a completion that cannot come, as flushed requests are skipped by the handler: ksmd
  waits for ever instead of going back to its own scan.
\<close>

theorem disconnect_forgotten:
  assumes "cb_cq cb = []" and "\<forall>e \<in> set es. flushed e" and "\<forall>es' \<in> set ess. \<forall>e \<in> set es'. flushed e"
  shows "cb_state (happen (Cm_Event CM_DISCONNECTED) cb) = KSM_ERROR \<and>
    (\<exists>cb'. ksm_rdma_reg_mr 0 es (happen (Cm_Event CM_DISCONNECTED) cb) = Inr (0, cb') \<and> ksm_rdma_meta_send 0 ess cb' = Inl Diverged)"
proof -
  let ?cb = "(happen (Cm_Event CM_DISCONNECTED) cb)\<lparr>cb_state := KSM_MEM_REG_WAIT\<rparr>"
  let ?cb' = "(fold happen es ?cb)\<lparr>cb_cq := []\<rparr>"
  have cq: "\<forall>wc \<in> set (cb_cq ?cb). wc_status wc = WC_FLUSH_ERR" using assms(1) by (simp add: happen_def ksm_rdma_cma_event_handler_def)
  note f = happen_flushed [OF assms(2) cq]
  have "ksm_rdma_reg_mr 0 es (happen (Cm_Event CM_DISCONNECTED) cb) = Inr (0, ?cb')"
    using reg_poll_flushed f by (simp add: ksm_rdma_reg_mr_def Let_def)
  moreover have "cb_state (run (take (Suc n) ess) ?cb') = KSM_MEM_REG_WAIT" for n
    using happen_flushed [of "concat (take (Suc n) ess)" ?cb'] assms(3) f by (auto simp: run_def dest: in_set_takeD)
  then have "wait_event (\<lambda>st. KSM_RDMA_SEND_COMPLETE \<le> st) ess ?cb' = Inl Diverged" by (intro wait_event_never) (simp add: state_order)
  then have "ksm_rdma_meta_send 0 ess ?cb' = Inl Diverged" by (simp add: ksm_rdma_meta_send_def)
  ultimately show ?thesis by (simp add: happen_def ksm_rdma_cma_event_handler_def)
qed

definition sample_flush :: "ksm_wr_tag \<Rightarrow> happening" where
  "sample_flush tag = Complete \<lparr>wc_status = WC_FLUSH_ERR, wc_wr_id = tag, wc_opcode = WC_OTHER\<rparr>"

theorem disconnect_forgotten_witness:
  "\<exists>cb'. ksm_rdma_reg_mr 0 [sample_flush WR_REG_MR] (happen (Cm_Event CM_DISCONNECTED) sample_cb) = Inr (0, cb') \<and>
     ksm_rdma_meta_send 0 [[sample_flush WR_SEND_METADATA, Cq_Interrupt False], []] cb' = Inl Diverged"
  using disconnect_forgotten [of sample_cb "[sample_flush WR_REG_MR]" "[[sample_flush WR_SEND_METADATA, Cq_Interrupt False], []]"]
  by (simp add: sample_cb_def flushed_def sample_flush_def)

section \<open>A read that fails\<close>

lemma read_tables_append:
  "read_tables remote rt n (is @ js) ess tabs cl =
     rbind (read_tables remote rt n is ess tabs cl) (\<lambda>(t, ess, cl).
       case t of None \<Rightarrow> Inr (None, ess, cl) | Some t \<Rightarrow> read_tables remote rt n js ess t cl)"
proof (induction "is" arbitrary: ess tabs cl)
  case (Cons i "is")
  then show ?case by (simp add: Let_def rbind_def split: prod.splits option.splits sum.splits)
qed simp

text \<open>
  C39. A failed read costs blocks of the reserve. When the read of a table cannot be posted, the result is given
  up, and neither the block of this table nor those of the tables read before go back to the reserve.
\<close>

theorem failed_read_loses_blocks:
  assumes "cb_cq (cl_cb cl) = []" and "cb_result_desc (cl_cb cl) = d" and "\<forall>i < k. rs_mapped rt i \<and> rs_posted rt i = 0" and "rs_posted rt k \<noteq> 0"
    and "k < n" and "n \<le> size (blocks (cl_huge cl))" and "reads_arrive k post"
  shows "\<exists>ess cl'. read_tables remote rt n [0..<n] post [] cl = Inr (None, ess, cl') \<and> size (blocks (cl_huge cl')) + Suc k = size (blocks (cl_huge cl))"
proof -
  have "[0..<n] = [0..<k] @ k # [Suc k..<n]" using assms(5) by (metis le0 less_imp_le_nat upt_add_eq_append upt_conv_Cons le_add_diff_inverse add_0)
  moreover have "\<forall>i \<in> set [0..<k]. rs_mapped rt i \<and> rs_posted rt i = 0" "length [0..<k] \<le> size (blocks (cl_huge cl))" "reads_arrive (length [0..<k]) post"
    using assms(3,5-7) by simp_all
  from read_tables_ok [OF this(1) assms(1) this(2) _ this(3) assms(2), of "[]" remote n "[]"] obtain tabs ess cl1 where
    1: "read_tables remote rt n [0..<k] post [] cl = Inr (Some tabs, ess, cl1)"
      "map snd tabs = map (\<lambda>i. remote (rd_rkey d) (table_addr d i) (table_size (rd_log_cnt d) n i)) [0..<k]"
      "blocks (cl_huge cl) = mset (map fst tabs) + blocks (cl_huge cl1)" by auto
  have len: "length tabs = k" using arg_cong [OF 1(2), of length] by simp
  then have "blocks (cl_huge cl1) \<noteq> {#}" using 1(3) assms(5,6) by auto
  then obtain p h' where h': "ksm_rdma_huge_alloc (cl_huge cl1) = (Some p, h')" "blocks (cl_huge cl1) = add_mset p (blocks h')"
    using huge_alloc_blocks [of "cl_huge cl1"] by (auto split: prod.splits option.splits)
  then have "\<exists>ess' cl'. read_tables remote rt n (k # [Suc k..<n]) ess tabs cl1 = Inr (None, ess', cl') \<and> cl_huge cl' = h'"
    using assms(4) by (simp add: Let_def)
  ultimately show ?thesis using 1(1,3) len h'(2) by (auto simp: read_tables_append)
qed

theorem failed_read_loses_blocks_witness:
  "\<exists>ess cl'. read_tables (\<lambda>_ _ _. []) (sample_result_try\<lparr>rs_posted := (\<lambda>i. if i = 0 then 0 else - 11)\<rparr>) 2 [0..<2] [table_read] [] sample_client =
     Inr (None, ess, cl') \<and> blocks (cl_huge cl') = {#}"
proof -
  have "reads_arrive 1 [table_read]" by (auto intro: exI [of _ "[table_read]"])
  then show ?thesis
    using failed_read_loses_blocks [of sample_client no_result 1 "sample_result_try\<lparr>rs_posted := (\<lambda>i. if i = 0 then 0 else - 11)\<rparr>" 2 "[table_read]" "\<lambda>_ _ _. []"]
    by (auto simp: sample_client_def sample_cb_def sample_result_try_def blocks_def)
qed

section \<open>Connecting\<close>

lemma happen_qp [simp]: "cb_qp (happen e cb) = cb_qp cb"
proof -
  have d: "cb_qp (cq_drain err wcs cb) = cb_qp cb" for err wcs cb
    by (induction wcs arbitrary: cb) (auto split: wc_status.splits option.splits)
  show ?thesis
    by (auto simp: happen_def ksm_rdma_cma_event_handler_def ksm_rdma_cq_event_handler_def deliver_def d Let_def
        split: happening.splits cm_event.splits wc_status.splits wc_opcode.splits message.splits)
qed

lemma fold_happen_qp [simp]: "cb_qp (fold happen es cb) = cb_qp cb"
  by (induction es arbitrary: cb) simp_all

lemma wait_event_qp:
  assumes "wait_event c ess cb = Inr (ess', cb')"
  shows "cb_qp cb' = cb_qp cb \<and> c (cb_state cb')"
  using assms
proof (induction ess arbitrary: cb)
  case (Cons es ess)
  then show ?case by (cases "c (cb_state (fold happen es cb))") fastforce+
qed simp

lemma try_connect_ready:
  assumes "try_connect mode att ess cb = Inr (True, ess', cb')"
  shows "mode \<noteq> NO_OFFLOAD \<and> cb_qp cb' \<and> KSM_CONNECTED \<le> cb_state cb' \<and> cb_state cb' \<noteq> KSM_ERROR"
proof -
  have give: "give_up e c \<noteq> Inr (True, ess', cb')" for e c by (simp add: give_up_def)
  from assms obtain e1 c1 e2 c2 c3 where
    1: "mode \<noteq> NO_OFFLOAD" "ib_post_recv (at_post_recv att) c1 = Inr (0, c2)" "ksm_connect_client att e1 c2 = Inr (0, ess', cb')"
    unfolding try_connect_def
    by (auto simp: Let_def rbind_eq_Inr give split: prod.splits if_splits)
  have "cb_qp c2" using 1(2) by (auto simp: ib_post_recv_def split: if_splits)
  with 1(1,3) show ?thesis
    by (auto simp: ksm_connect_client_def Let_def rbind_eq_Inr dest!: wait_event_qp split: if_splits)
qed

lemma connect_loop_ready:
  "connect_loop mode as cb = Inr cb' \<Longrightarrow> mode \<noteq> NO_OFFLOAD \<and> cb_qp cb' \<and> KSM_CONNECTED \<le> cb_state cb' \<and> cb_state cb' \<noteq> KSM_ERROR"
proof (induction "as" arbitrary: cb)
  case (Cons a "as")
  then show ?case by (auto simp: rbind_eq_Inr dest: try_connect_ready split: if_splits)
qed simp

text \<open>An attempt at which nothing fails.\<close>

definition good_attempt :: "attempt \<Rightarrow> bool" where
  "good_attempt att \<longleftrightarrow> at_create_id att = 0 \<and> at_resolve_addr att = 0 \<and> at_pd att = 0 \<and> at_cq att = 0 \<and> at_notify att = 0 \<and> at_qp att = 0 \<and>
     at_map_md att \<and> at_map_result att \<and> at_map_op_desc att \<and> at_post_recv att = 0 \<and> at_connect att = 0 \<and> at_early att = []"

lemma wait_cm:
  assumes "concat idle = []" "concat pre = map Cm_Event evs" "evs \<noteq> []"
    and "\<And>k. k < length evs \<Longrightarrow> \<not> c (cb_state (fold happen (map Cm_Event (take k evs)) cb))" "c (cb_state (fold happen (map Cm_Event evs) cb))"
  shows "\<exists>idle'. concat idle' = [] \<and> wait_event c ((idle @ pre) @ post) cb = Inr (idle' @ post, fold happen (map Cm_Event evs) cb)"
proof -
  have all: "concat (idle @ pre) = map Cm_Event evs" using assms(1,2) by simp
  then have "idle @ pre \<noteq> []" using assms(3) by auto
  moreover have "c (cb_state (run (idle @ pre) cb))" using all assms(5) by (simp only: run_def)
  ultimately obtain p r where p: "idle @ pre = p @ r" "c (cb_state (run p cb))" "wait_event c ((idle @ pre) @ post) cb = Inr (r @ post, run p cb)"
    using wait_event_hits [of "idle @ pre" c cb post] by blast
  have cp: "concat p @ concat r = map Cm_Event evs" using all p(1) by simp
  then have tk: "concat p = map Cm_Event (take (length (concat p)) evs)" by (metis append_eq_conv_conj take_map)
  then have "\<not> length (concat p) < length evs" using assms(4) p(2) unfolding run_def by metis
  then have "concat r = []" "concat p = map Cm_Event evs" using cp tk by (auto simp: append_eq_append_conv2 dest: arg_cong [of _ _ length])
  then show ?thesis using p(3) by (auto simp: run_def)
qed

lemma good_attempt_connects:
  assumes "good_attempt att" "mode \<noteq> NO_OFFLOAD" "concat pre1 = [Cm_Event (CM_ADDR_RESOLVED 0), Cm_Event CM_ROUTE_RESOLVED]"
    and "concat pre2 = [Cm_Event CM_ESTABLISHED]"
  shows "\<exists>ess' cb'. try_connect mode att (pre1 @ pre2 @ rest) cb = Inr (True, ess', cb') \<and> cb_state cb' = KSM_CONNECTED \<and> 0 < cb_recvs cb' \<and> cb_qp cb' \<and> cb_cq cb' = []"
proof -
  note g = assms(1) [unfolded good_attempt_def]
  let ?cb0 = "cb\<lparr>cb_state := KSM_IDLE\<rparr>" and ?evs = "[CM_ADDR_RESOLVED 0, CM_ROUTE_RESOLVED]"
  have "\<not> KSM_ROUTE_RESOLVED \<le> cb_state (fold happen (map Cm_Event (take k ?evs)) ?cb0)" if "k < length ?evs" for k
    using that by (cases k) (auto simp: happen_def ksm_rdma_cma_event_handler_def state_order less_Suc_eq)
  from wait_cm [of "[]" pre1 ?evs "\<lambda>st. KSM_ROUTE_RESOLVED \<le> st" ?cb0 "pre2 @ rest", OF _ _ _ this] assms(3) obtain idle where
    i: "concat idle = []" "wait_event (\<lambda>st. KSM_ROUTE_RESOLVED \<le> st) (pre1 @ pre2 @ rest) ?cb0 = Inr (idle @ pre2 @ rest, cb\<lparr>cb_state := KSM_ROUTE_RESOLVED\<rparr>)"
    by (auto simp: happen_def ksm_rdma_cma_event_handler_def)
  let ?cb1 = "cb\<lparr>cb_cq := [], cb_qp := True, cb_recvs := Suc (cb_recvs cb), cb_state := KSM_CONNECT_REQUEST\<rparr>"
  from wait_cm [of idle pre2 "[CM_ESTABLISHED]" "\<lambda>st. KSM_CONNECTED \<le> st" ?cb1 rest] i(1) assms(4) obtain idle' where
    j: "wait_event (\<lambda>st. KSM_CONNECTED \<le> st) (idle @ pre2 @ rest) ?cb1 = Inr (idle' @ rest, ?cb1\<lparr>cb_state := KSM_CONNECTED\<rparr>)"
    by (auto simp: happen_def ksm_rdma_cma_event_handler_def state_order)
  show ?thesis
    using g assms(2) i(2) j
    by (simp add: try_connect_def ksm_cb_setup_client_def ksm_rdma_bind_client_def ksm_cb_setup_qp_def ksm_cb_setup_buffer_def ib_post_recv_def ksm_connect_client_def)
qed

text \<open>
  C27. Connecting. \<open>ksm_rdma_create_connection\<close> returns only with a live queue pair and a connection that is not in error, and after
  any number of attempts that are refused, the first at which nothing fails connects, in whatever groups the events of
  the connection manager come; it leaves a receive posted for the first result.
\<close>

theorem connection_is_made:
  assumes "mode \<noteq> NO_OFFLOAD" and "\<forall>a \<in> set as. \<forall>cb. \<exists>ess' cb'. try_connect mode (fst a) (snd a) cb = Inr (False, ess', cb')"
    and "good_attempt att" and "concat pre1 = [Cm_Event (CM_ADDR_RESOLVED 0), Cm_Event CM_ROUTE_RESOLVED]" and "concat pre2 = [Cm_Event CM_ESTABLISHED]"
  shows "(\<exists>cb'. ksm_rdma_create_connection True mode (as @ (att, pre1 @ pre2 @ rest) # later) cb = Inr cb' \<and>
      cb_state cb' = KSM_CONNECTED \<and> 0 < cb_recvs cb' \<and> cb_qp cb' \<and> cb_cq cb' = []) \<and>
    (\<forall>attempts cb cb'. ksm_rdma_create_connection True mode attempts cb = Inr cb' \<longrightarrow>
      cb_qp cb' \<and> KSM_CONNECTED \<le> cb_state cb' \<and> cb_state cb' \<noteq> KSM_ERROR)"
proof
  show "\<exists>cb'. ksm_rdma_create_connection True mode (as @ (att, pre1 @ pre2 @ rest) # later) cb = Inr cb' \<and>
      cb_state cb' = KSM_CONNECTED \<and> 0 < cb_recvs cb' \<and> cb_qp cb' \<and> cb_cq cb' = []"
    using assms(2)
  proof (induction "as" arbitrary: cb)
    case Nil
    then show ?case using good_attempt_connects [OF assms(3,1,4,5), of rest cb] by (auto simp: ksm_rdma_create_connection_def)
  next
    case (Cons a "as")
    have "\<forall>cb. \<exists>ess' cb'. try_connect mode (fst a) (snd a) cb = Inr (False, ess', cb')" using Cons.prems by simp
    then obtain ess' cb' where "try_connect mode (fst a) (snd a) cb = Inr (False, ess', cb')" by blast
    then show ?case using Cons.IH [of cb'] Cons.prems by (auto simp: ksm_rdma_create_connection_def)
  qed
qed (auto simp: ksm_rdma_create_connection_def dest: connect_loop_ready)

definition sample_attempt :: attempt where
  "sample_attempt = \<lparr>at_create_id = 0, at_resolve_addr = 0, at_pd = 0, at_cq = 0, at_notify = 0, at_qp = 0, at_map_md = True, at_map_result = True,
     at_map_op_desc = True, at_map_op_result = True, at_post_recv = 0, at_connect = 0, at_early = []\<rparr>"

theorem connection_is_made_witness:
  "\<exists>cb'. ksm_rdma_create_connection True KSM_OFFLOAD
     [(sample_attempt, [[Cm_Event CM_UNREACHABLE]]), (sample_attempt, [[Cm_Event (CM_ADDR_RESOLVED 0)], [Cm_Event CM_ROUTE_RESOLVED], [], [Cm_Event CM_ESTABLISHED]])]
     sample_cb = Inr cb' \<and> cb_state cb' = KSM_CONNECTED \<and> 0 < cb_recvs cb'"
proof -
  have "\<forall>cb. \<exists>ess' cb'. try_connect KSM_OFFLOAD sample_attempt [[Cm_Event CM_UNREACHABLE]] cb = Inr (False, ess', cb')"
    by (simp add: try_connect_def ksm_cb_setup_client_def ksm_rdma_bind_client_def sample_attempt_def happen_def ksm_rdma_cma_event_handler_def state_order)
  then show ?thesis
    using connection_is_made [of KSM_OFFLOAD "[(sample_attempt, [[Cm_Event CM_UNREACHABLE]])]" sample_attempt
        "[[Cm_Event (CM_ADDR_RESOLVED 0)], [Cm_Event CM_ROUTE_RESOLVED]]" "[[], [Cm_Event CM_ESTABLISHED]]" "[]" "[]" sample_cb]
    by (auto simp: good_attempt_def sample_attempt_def)
qed

lemma wait_idle: "\<not> c (cb_state cb) \<Longrightarrow> wait_event c (replicate n []) cb = Inl Diverged"
  by (induction n) simp_all

text \<open>
  Three failures of connecting. A failed \<open>rdma_create_qp\<close> is not noticed (its result is kept in a variable that shadows the one
  that is checked), and posting a receive uses the missing queue pair. A failed \<open>rdma_resolve_route\<close> wakes ksmd but leaves
  a state it does not wait for, and a connection that is established before ksmd has noted that it asked for one is
  forgotten: with nothing else to happen it waits for ever in both cases.
\<close>

theorem connecting_can_hang:
  assumes "mode \<noteq> NO_OFFLOAD" and "good_attempt att" and "\<not> cb_qp cb" and "err \<noteq> 0"
  shows "try_connect mode (att\<lparr>at_qp := err\<rparr>) ([Cm_Event (CM_ADDR_RESOLVED 0), Cm_Event CM_ROUTE_RESOLVED] # ess) cb = Inl Null_Deref \<and>
    try_connect mode att ([Cm_Event (CM_ADDR_RESOLVED err)] # replicate n []) cb = Inl Diverged \<and>
    try_connect mode (att\<lparr>at_early := [Cm_Event CM_ESTABLISHED]\<rparr>)
      ([Cm_Event (CM_ADDR_RESOLVED 0), Cm_Event CM_ROUTE_RESOLVED] # replicate n []) cb = Inl Diverged"
  using assms
  by (simp add: good_attempt_def try_connect_def ksm_cb_setup_client_def ksm_rdma_bind_client_def ksm_cb_setup_qp_def ksm_cb_setup_buffer_def
      ib_post_recv_def ksm_connect_client_def happen_def ksm_rdma_cma_event_handler_def wait_idle state_order)

theorem connecting_can_hang_witness:
  "try_connect KSM_OFFLOAD sample_attempt ([Cm_Event (CM_ADDR_RESOLVED (- 110))] # replicate 5 []) (sample_cb\<lparr>cb_qp := False\<rparr>) = Inl Diverged"
  using connecting_can_hang [of KSM_OFFLOAD sample_attempt "sample_cb\<lparr>cb_qp := False\<rparr>" "- 110" "[]" 5]
  by (simp add: good_attempt_def sample_attempt_def)

section \<open>Single operations\<close>

definition op_received :: "operation_result \<Rightarrow> happening list" where
  "op_received r = [wc_ok WR_RECV_SINGLE_RESULT (WC_RECV (Op_Result r)), Cq_Interrupt False]"

definition op_works :: "styx_try \<Rightarrow> bool" where
  "op_works so \<longleftrightarrow> so_sgt so \<and> so_mr so \<and> so_reg_posted so = 0 \<and> so_posted so = 0 \<and> so_post_recv so = 0 \<and>
     so_reg so = [wc_ok WR_REG_MR WC_REG_MR]"

lemma run_op_received:
  assumes "cb_state cb = KSM_CONNECTED" "cb_cq cb = []" "concat p @ rest = op_received r"
  shows "KSM_RDMA_RECV_COMPLETE \<le> cb_state (run p cb) \<Longrightarrow> rest = []"
    and "rest = [] \<Longrightarrow> run p cb = cb\<lparr>cb_state := KSM_RDMA_RECV_COMPLETE, cb_recvs := cb_recvs cb - 1, cb_single_op_result := r\<rparr>"
proof -
  from append_eq_Cons2 [OF assms(3) [unfolded op_received_def]]
  show "KSM_RDMA_RECV_COMPLETE \<le> cb_state (run p cb) \<Longrightarrow> rest = []"
    using assms(1,2) by (elim disjE conjE) (simp_all add: run_def happen_defs state_order)
  show "rest = [] \<Longrightarrow> run p cb = cb\<lparr>cb_state := KSM_RDMA_RECV_COMPLETE, cb_recvs := cb_recvs cb - 1, cb_single_op_result := r\<rparr>"
    using assms by (simp add: run_def happen_defs op_received_def)
qed

lemma styx_operation_ok:
  assumes "op_works so" "cb_cq cb = []" "cb_qp cb" "concat pre = op_received r"
  shows "\<exists>ess' cb'. styx_operation cmd n so iteration (pre @ post) cb = Inr (Some r, iteration + 1, ess', cb') \<and>
    cb_recvs cb' = cb_recvs cb - 1 + 1 \<and> cb_cq cb' = [] \<and> cb_qp cb' \<and>
    cb_single_op_desc cb' = \<lparr>od_cmd = cmd, od_id = ucast iteration, od_rkey = so_rkey so, od_iova = so_iova so, od_page_num = n\<rparr>"
proof -
  note o = assms(1) [unfolded op_works_def]
  let ?desc = "\<lparr>od_cmd = cmd, od_id = ucast iteration, od_rkey = so_rkey so, od_iova = so_iova so, od_page_num = n\<rparr>"
  let ?cb = "cb\<lparr>cb_cq := [], cb_single_op_desc := ?desc, cb_state := KSM_CONNECTED\<rparr>"
  have reg: "ksm_rdma_reg_mr 0 (so_reg so) cb = Inr (0, cb\<lparr>cb_cq := [], cb_state := KSM_MEM_REG_COMPLETE\<rparr>)"
    using o assms(2) by (simp add: ksm_rdma_reg_mr_def happen_def wc_ok_def)
  have "pre \<noteq> []" using assms(4) by (auto simp: op_received_def)
  moreover have "KSM_RDMA_RECV_COMPLETE \<le> cb_state (run pre ?cb)"
    using run_op_received(2) [of ?cb pre "[]" r] assms(4) by simp
  ultimately obtain p rest where p: "pre = p @ rest" "KSM_RDMA_RECV_COMPLETE \<le> cb_state (run p ?cb)"
    "wait_event (\<lambda>st. KSM_RDMA_RECV_COMPLETE \<le> st) (pre @ post) ?cb = Inr (rest @ post, run p ?cb)"
    using wait_event_hits [of pre "\<lambda>st. KSM_RDMA_RECV_COMPLETE \<le> st" ?cb post] by blast
  have c: "concat p @ concat rest = op_received r" using p(1) assms(4) by simp
  have "run p ?cb = ?cb\<lparr>cb_state := KSM_RDMA_RECV_COMPLETE, cb_recvs := cb_recvs cb - 1, cb_single_op_result := r\<rparr>"
    using run_op_received [OF _ _ c, of ?cb] p(2) by simp
  then show ?thesis using o p(3) reg assms(3) by (simp add: styx_operation_def Let_def ib_post_recv_def ksm_rdma_invalidate_mr_def)
qed

lemma low_extended: "(ucast (word_of_int (sint y) :: u64) :: u32) = y" for y :: u32
  by transfer (simp add: take_bit_signed_take_bit)

lemma sint_extended: "sint (word_of_int (sint y) :: u64) = sint y" for y :: u32
  by transfer (simp add: signed_take_bit_signed_take_bit)

text \<open>
  Comparing and hashing pages on the SmartNIC. When the answer arrives, in whatever groups its events come, the comparison
  returns the number in it. The hash that is returned is not the 64-bit hash of the server but its low half with the sign
  extended: ksmd keeps 32 bits of it as the checksum of the page, and these are the low 32 bits of the hash.
\<close>

theorem styx_operations_answer:
  assumes "op_works so" and "cb_cq cb = []" and "cb_qp cb" and "concat pre = op_received r"
  shows "(\<exists>rest. ksm_rdma_styx_memcmp so iteration (pre @ post) cb = Inr (sint (ucast (or_xxhash r) :: u32), rest)) \<and>
    (\<exists>hash rest. ksm_rdma_styx_hash so iteration (pre @ post) cb = Inr (hash, rest) \<and> (ucast hash :: u32) = ucast (or_xxhash r) \<and>
       (hash = or_xxhash r \<longleftrightarrow> sint (or_xxhash r) = sint (ucast (or_xxhash r) :: u32)))"
proof
  show "\<exists>rest. ksm_rdma_styx_memcmp so iteration (pre @ post) cb = Inr (sint (ucast (or_xxhash r) :: u32), rest)"
    using styx_operation_ok [OF assms, of PAGE_COMPARE 2 iteration post] by (auto simp: ksm_rdma_styx_memcmp_def or_value_def)
  let ?h = "word_of_int (sint (ucast (or_xxhash r) :: u32)) :: u64"
  have "\<exists>rest. ksm_rdma_styx_hash so iteration (pre @ post) cb = Inr (?h, rest)"
    using styx_operation_ok [OF assms, of PAGE_HASH 1 iteration post] by (auto simp: ksm_rdma_styx_hash_def or_value_def)
  moreover have "?h = or_xxhash r \<longleftrightarrow> sint (or_xxhash r) = sint (ucast (or_xxhash r) :: u32)"
    using sint_extended [of "ucast (or_xxhash r)"] by (metis signed_word_eqI)
  ultimately show "\<exists>hash rest. ksm_rdma_styx_hash so iteration (pre @ post) cb = Inr (hash, rest) \<and> (ucast hash :: u32) = ucast (or_xxhash r) \<and>
       (hash = or_xxhash r \<longleftrightarrow> sint (or_xxhash r) = sint (ucast (or_xxhash r) :: u32))"
    using low_extended by blast
qed

theorem styx_operations_answer_witness:
  "\<exists>hash rest. ksm_rdma_styx_hash \<lparr>so_sgt = True, so_mr = True, so_reg_posted = 0, so_reg = [wc_ok WR_REG_MR WC_REG_MR], so_posted = 0,
       so_post_recv = 0, so_inv_posted = 0, so_rkey = 7, so_iova = 0x7000\<rparr> 1
     [op_received \<lparr>or_cmd = PAGE_HASH, or_id = 1, or_xxhash = 0x123456789ABCDEF0\<rparr>] sample_cb = Inr (hash, rest) \<and>
     (ucast hash :: u32) = 0x9ABCDEF0 \<and> hash \<noteq> 0x123456789ABCDEF0"
proof -
  let ?r = "\<lparr>or_cmd = PAGE_HASH, or_id = 1, or_xxhash = 0x123456789ABCDEF0\<rparr>"
  let ?so = "\<lparr>so_sgt = True, so_mr = True, so_reg_posted = 0, so_reg = [wc_ok WR_REG_MR WC_REG_MR], so_posted = 0,
       so_post_recv = 0, so_inv_posted = 0, so_rkey = 7, so_iova = 0x7000\<rparr>"
  have "op_works ?so" by (simp add: op_works_def)
  from styx_operations_answer [OF this, of sample_cb "[op_received ?r]" ?r 1 "[]"] show ?thesis by (auto simp: sample_cb_def)
qed

end
