(* ===== verification/Host_Round.thy ===== *)
theory Host_Round
  imports Prepare_Correct Client_Correct
begin

text \<open>
  A round of the offloaded scan on the host, \<open>ksm_do_scan\<close> (\<open>mm/ksm.c\<close>): collect and register the pages,
  send the request, wait for the result, apply it, and give everything back. With a server that answers the
  request, the round ends with the merging state consistent and the resources returned.
\<close>

section \<open>Definitions\<close>

text \<open>Unregistering: every table of the list is freed with the scatter lists it was registered with.\<close>

definition rdma_unregister_shadow_mms ::
  "'x xa_ops \<Rightarrow> nat \<Rightarrow> bool \<Rightarrow> int \<Rightarrow> ('x shadow_mm \<times> registered_mm) list \<Rightarrow> host \<Rightarrow> host res" where
  "rdma_unregister_shadow_mms XA C disconnected curr_iteration entries h =
     rfold (\<lambda>(entry, reg). free_shadow_mm XA C disconnected curr_iteration (length (rm_pages reg)) (rm_pages reg) entry) entries h"

text \<open>\<open>apply_result\<close> reads entry \<open>i\<close> of the log through the tables.\<close>

definition result_entries :: "result_table \<Rightarrow> ksm_event_log list" where
  "result_entries result =
     map (\<lambda>i. snd (rt_entry_tables result ! (i div MAX_RESULT_TABLE_ENTRIES)) ! (i mod MAX_RESULT_TABLE_ENTRIES)) [0..<rt_total_cnt result]"

record ksmd =
  kd_host :: host
  kd_slots :: "ksm_mm_slot list"
  kd_client :: client
  kd_status :: remote_status
  kd_smart_scan :: bool
  kd_iter_cnt :: int

text \<open>
  What surrounds a round: the processes, the answers of the RDMA and memory subsystems, what happens meanwhile, the memory
  of the server, and how the merges turn out.
\<close>

record 'x round_world =
  rw_fuel :: nat
  rw_env :: host_env
  rw_xa :: "'x xa_ops"
  rw_walk :: "'x walk_env"
  rw_chunk :: nat
  rw_mm :: "int \<Rightarrow> mm_world"
  rw_ops :: "nat \<Rightarrow> register_ops"
  rw_kz :: "nat \<Rightarrow> nat \<Rightarrow> bool"
  rw_mrs :: "nat \<Rightarrow> ib_mr option"
  rw_posted :: int
  rw_schedule :: schedule
  rw_remote :: "u64 \<Rightarrow> u64 \<Rightarrow> nat \<Rightarrow> ksm_event_log list"
  rw_result :: result_try
  rw_merges :: "nat \<Rightarrow> entry_try"

text \<open>The result is applied, or the server is taken to be gone.\<close>

definition commit_result ::
  "'x round_world \<Rightarrow> 'x shadow_mm list \<Rightarrow> result_table option \<Rightarrow> host \<Rightarrow> ksmd \<Rightarrow> (host \<times> ksmd) res" where
  "commit_result w mms result h k =
     (case result of
        Some r \<Rightarrow>
          rbind (apply_result (rw_env w) (rw_xa w) mms (rw_merges w) (result_entries r) h) (\<lambda>h.
            Inr (h, k\<lparr>kd_client := (kd_client k)\<lparr>cl_huge := free_result_table r (cl_huge (kd_client k))\<rparr>\<rparr>))
      | None \<Rightarrow> Inr (h, k\<lparr>kd_status := DISCONNECTED, kd_smart_scan := False\<rparr>))"

text \<open>
  The branch of \<open>ksm_do_scan\<close> that \<open>is_ksm_offload\<close> selects. The result of sending the request is only printed.
\<close>

definition ksm_do_scan_offload :: "'x round_world \<Rightarrow> ksmd \<Rightarrow> ksmd res" where
  "ksm_do_scan_offload w k =
     rbind (prepare_metadata (rw_fuel w) (rw_env w) (rw_xa w) (rw_walk w) (rw_chunk w) True (rw_mm w) (rw_ops w) (rw_kz w) (rw_mrs w)
              (kd_slots k) (kd_host k)) (\<lambda>(slots, mms, h, registered).
       case registered of
         None \<Rightarrow> Inr (k\<lparr>kd_host := h, kd_slots := slots, kd_iter_cnt := kd_iter_cnt k + 1\<rparr>)
       | Some (regs, desc, errs) \<Rightarrow>
           rbind (ksm_rdma_meta_send (rw_posted w) (rw_schedule w) (cl_cb (kd_client k))) (\<lambda>(_, ess, cb).
           rbind (ksm_rdma_result_recv (rw_remote w) (rw_result w) ess ((kd_client k)\<lparr>cl_cb := cb\<rparr>)) (\<lambda>(result, _, cl).
           rbind (rdma_unregister_error_table (rw_chunk w) errs (h_errors h)) (\<lambda>_.
           rbind (clear_error_table (h_errors h)) (\<lambda>tbl.
           rbind (commit_result w mms result (h\<lparr>h_errors := tbl\<rparr>) (k\<lparr>kd_slots := slots, kd_client := cl\<rparr>)) (\<lambda>(h, k).
           rbind (rdma_unregister_shadow_mms (rw_xa w) (rw_chunk w) (kd_status k = DISCONNECTED) (kd_iter_cnt k) (zip mms (map snd regs)) h) (\<lambda>h.
             Inr (k\<lparr>kd_host := h, kd_iter_cnt := kd_iter_cnt k + 1\<rparr>))))))))"

section \<open>Giving the tables back\<close>

text \<open>The references on the frames \<open>ps\<close> that freeing a table puts back: none on a KSM page.\<close>

definition released :: "u64 list \<Rightarrow> (u64 \<Rightarrow> host_page) \<Rightarrow> u64 \<Rightarrow> host_page" where
  "released ps pages p =
     (if PageKsm (pages p) then pages p else (pages p)\<lparr>pg_count := pg_count (pages p) - count_list ps p\<rparr>)"

lemma released_Nil [simp]: "released [] pages = pages"
  by (simp add: released_def fun_eq_iff)

lemma released_append: "released qs (released ps pages) = released (ps @ qs) pages"
  by (auto simp: released_def fun_eq_iff PageKsm_def)

lemma released_one: "h_pages (if \<not> PageKsm (h_pages h p) then put_page p h else h) = released [p] (h_pages h)"
  by (auto simp: released_def put_page_def upd_page_def fun_eq_iff)

lemma put_item_pages_ok:
  assumes "list_all2 (\<lambda>e p. \<exists>it. h_items h (snd e) = Some it \<and> hi_data it = Page_Ptr (Some p)) es ps"
  shows "put_item_pages False it es h = Inr (h\<lparr>h_pages := released ps (h_pages h)\<rparr>)"
  using assms
proof (induction es arbitrary: h ps)
  case Nil
  then show ?case by simp
next
  case (Cons e es)
  then obtain p qs jt where ps: "ps = p # qs" and jt: "h_items h (snd e) = Some jt" "hi_data jt = Page_Ptr (Some p)"
    and l: "list_all2 (\<lambda>e p. \<exists>it. h_items h (snd e) = Some it \<and> hi_data it = Page_Ptr (Some p)) es qs"
    by (auto simp: list_all2_Cons1)
  let ?h = "if \<not> PageKsm (h_pages h p) then put_page p h else h"
  have h: "?h = h\<lparr>h_pages := released [p] (h_pages h)\<rparr>" using released_one [of h p] by (auto simp: put_page_def upd_page_def split: if_splits)
  have "put_item_pages False it (e # es) h = put_item_pages False it es ?h" using jt by (simp add: Let_def)
  also have "\<dots> = Inr (?h\<lparr>h_pages := released qs (h_pages ?h)\<rparr>)" by (rule Cons.IH) (use l in \<open>simp add: h\<close>)
  also have "\<dots> = Inr (h\<lparr>h_pages := released ps (h_pages h)\<rparr>)" unfolding h by (simp add: released_append ps)
  finally show ?case .
qed

lemma registered_sgls_free:
  assumes "2 \<le> C" "n = ht_cnt (sm_pt_map sm)" "rm_pages reg = map (registration C pg mrs n) [0..<DIV_ROUND_UP n MAX_PAGES_IN_SGL]"
  shows "\<exists>deads. free_sgls False C n (length (rm_pages reg)) [0..<length (rm_pages reg)] (rm_pages reg) = Inr deads"
  using free_sgls_ok [OF assms(1) refl, of "[0..<length (rm_pages reg)]" n False pg mrs] assms(2,3) by simp

context host_walk
begin

lemma free_shadow_mm_ok:
  assumes C: "2 \<le> C" and tab: "table_of XA (h_items h) pgs pid mm sm" and reg: "registered_as C mrs sm (d, reg)"
  shows "free_shadow_mm XA C False it (length (rm_pages reg)) (rm_pages reg) sm h = Inr (h\<lparr>h_pages := released (map snd pgs) (h_pages h)\<rparr>)"
proof -
  note filled = table_of_filled [OF tab] and c = table_of_contents [OF tab]
  let ?f = "\<lambda>pte. (page_number (pte_va pte), the (xa_load XA (sm_page_xa sm) (page_number (pte_va pte))))"
  have la: "list_all2 (\<lambda>e p. \<exists>it. h_items h (snd e) = Some it \<and> hi_data it = Page_Ptr (Some p))
      (xa_entries XA (sm_page_xa sm)) (map pte_kpfn (contents (sm_pt_map sm)))"
  proof -
    have "\<exists>it. h_items h (snd (?f pte)) = Some it \<and> hi_data it = Page_Ptr (Some (pte_kpfn pte))" if "pte \<in> set (contents (sm_pt_map sm))" for pte
      using filled that unfolding shadow_filled_def by force
    then show ?thesis unfolding filled_entries [OF filled] by (simp add: list_all2_map1 list_all2_map2 list_all2_same)
  qed
  have m: "map pte_kpfn (contents (sm_pt_map sm)) = map snd pgs" unfolding c by (auto simp: ptes_of_def)
  from put_item_pages_ok [OF la, of it]
  have "put_item_pages False it (xa_entries XA (sm_page_xa sm)) h = Inr (h\<lparr>h_pages := released (map snd pgs) (h_pages h)\<rparr>)" unfolding m .
  moreover obtain deads where "free_sgls False C (ht_cnt (sm_pt_map sm)) (length (rm_pages reg)) [0..<length (rm_pages reg)] (rm_pages reg) = Inr deads"
    using registered_sgls_free [OF C refl, of reg _ _ sm] reg by (auto simp: registered_as_def Let_def)
  ultimately show ?thesis by (simp add: free_shadow_mm_def)
qed

lemma unregister_ok:
  assumes "2 \<le> C" "list_all2 (\<lambda>mm sm. table_of XA (h_items h) (pgs mm) (pid mm) mm sm) M mms" "length regs = length mms"
    and "\<And>i. i < length mms \<Longrightarrow> registered_as C (mrs i) (mms ! i) (regs ! i)"
  shows "rdma_unregister_shadow_mms XA C False it (zip mms (map snd regs)) h =
    Inr (h\<lparr>h_pages := released (concat (map (\<lambda>mm. map snd (pgs mm)) M)) (h_pages h)\<rparr>)"
  using assms(2-4)
proof (induction M arbitrary: mms regs mrs h)
  case Nil
  then show ?case by (simp add: rdma_unregister_shadow_mms_def)
next
  case (Cons mm M)
  then obtain sm sms r rs where ms: "mms = sm # sms" "regs = r # rs" "table_of XA (h_items h) (pgs mm) (pid mm) mm sm"
    "list_all2 (\<lambda>mm sm. table_of XA (h_items h) (pgs mm) (pid mm) mm sm) M sms" "length rs = length sms"
    by (cases regs) (auto simp: list_all2_Cons1)
  have "registered_as C (mrs 0) sm (fst r, snd r)" using Cons.prems(3) [of 0] ms(1,2) by simp
  from free_shadow_mm_ok [OF assms(1) ms(3) this, of it]
  have 1: "free_shadow_mm XA C False it (length (rm_pages (snd r))) (rm_pages (snd r)) sm h = Inr (h\<lparr>h_pages := released (map snd (pgs mm)) (h_pages h)\<rparr>)" .
  have reg: "registered_as C (mrs (Suc i)) (sms ! i) (rs ! i)" if "i < length sms" for i using Cons.prems(3) [of "Suc i"] that ms(1,2) by simp
  let ?h = "h\<lparr>h_pages := released (map snd (pgs mm)) (h_pages h)\<rparr>"
  have "list_all2 (\<lambda>mm sm. table_of XA (h_items ?h) (pgs mm) (pid mm) mm sm) M sms" using ms(4) by simp
  from Cons.IH [OF this ms(5), of "\<lambda>i. mrs (Suc i)"] reg
  have "rdma_unregister_shadow_mms XA C False it (zip sms (map snd rs)) ?h =
      Inr (?h\<lparr>h_pages := released (concat (map (\<lambda>mm. map snd (pgs mm)) M)) (h_pages ?h)\<rparr>)" by blast
  then show ?case using 1 ms(1,2) by (simp add: rdma_unregister_shadow_mms_def released_append)
qed

lemma register_ok:
  assumes "host_inv h" "\<And>i. i < length mms \<Longrightarrow> offerable SE XA (h_items h) C (ops i) mem (hashes i) (mms ! i)" "length mms \<le> MAX_MM_DESCS"
    and "registrable C kz mrs (error_pages (ht_cnt (er_entries (h_errors h))))"
  shows "\<exists>regs desc errs deads. rdma_register_shadow_mms XA (h_items h) C ops 0 mms = Inr regs \<and> length regs = length mms \<and>
    (\<forall>i < length mms. registered_as C (ro_mrs (ops i)) (mms ! i) (regs ! i)) \<and>
    rdma_register_error_table kz C mrs (h_errors h) = Inr ((h_errors h)\<lparr>er_registered := ht_cnt (er_entries (h_errors h))\<rparr>, desc, errs) \<and>
    rdma_unregister_error_table C errs ((h_errors h)\<lparr>er_registered := ht_cnt (er_entries (h_errors h))\<rparr>) = Inr deads"
proof -
  from register_shadow_mms_ok [of mms SE "h_items h" C ops 0 mem hashes] assms(2,3) obtain regs where
    r: "rdma_register_shadow_mms XA (h_items h) C ops 0 mms = Inr regs" "length regs = length mms"
      "\<forall>i < length mms. registered_as C (ro_mrs (ops i)) (mms ! i) (regs ! i)" by auto
  have wf: "err_table_wf (er_entries (h_errors h))" using assms(1) by (simp add: host_inv_def)
  then obtain as where as: "ht_arrays (er_entries (h_errors h)) = Some as" by (auto simp: table_wf_def)
  let ?n = "ht_cnt (er_entries (h_errors h))"
  let ?errs = "map (registration C (error_page (concat as)) mrs (error_pages ?n)) [0..<DIV_ROUND_UP (error_pages ?n) MAX_PAGES_IN_SGL]"
  from register_error_table_ok [OF as wf assms(4)] obtain d where
    e: "rdma_register_error_table kz C mrs (h_errors h) = Inr ((h_errors h)\<lparr>er_registered := ?n\<rparr>, d, ?errs)" by blast
  have C: "2 \<le> C" using assms(4) by (simp add: registrable_def)
  have "\<exists>deads. rdma_unregister_error_table C ?errs ((h_errors h)\<lparr>er_registered := ?n\<rparr>) = Inr deads"
    using free_sgls_ok [OF C refl, of "[0..<DIV_ROUND_UP (error_pages ?n) MAX_PAGES_IN_SGL]" "error_pages ?n" True "error_page (concat as)" mrs]
    by (simp add: rdma_unregister_error_table_def)
  then show ?thesis using r e by blast
qed

end

lemma table_of_same:
  assumes "same_items h h'" "table_of XA (h_items h) pgs pid mm sm"
  shows "table_of XA (h_items h') pgs pid mm sm"
proof -
  have "idents (h_items h') a = idents (h_items h) a" for a
    using assms(1) core_idents unfolding same_items_def idents_def by metis
  then show ?thesis using assms(2) by (simp add: table_of_def)
qed

lemma host_inv_released: "host_inv h \<Longrightarrow> host_inv (h\<lparr>h_pages := released ps (h_pages h)\<rparr>)"
  by (auto simp: host_inv_def mapping_ok_def released_def PageKsm_def split: if_splits)

lemma result_entries_log:
  assumes "map snd (rt_entry_tables r) = slices log n" "n = (length log + MAX_RESULT_TABLE_ENTRIES - 1) div MAX_RESULT_TABLE_ENTRIES"
    and "rt_total_cnt r = length log"
  shows "result_entries r = log"
proof (rule nth_equalityI)
  show "length (result_entries r) = length log" by (simp add: result_entries_def assms(3))
  fix i assume "i < length (result_entries r)"
  then have i: "i < length log" by (simp add: result_entries_def assms(3))
  have len: "length (rt_entry_tables r) = n" using arg_cong [OF assms(1), of length] by (simp add: slices_def)
  have "i div MAX_RESULT_TABLE_ENTRIES < n"
    using slices_eq(2) [OF assms(2)] i by (simp add: less_mult_imp_div_less)
  then have "snd (rt_entry_tables r ! (i div MAX_RESULT_TABLE_ENTRIES)) = slices log n ! (i div MAX_RESULT_TABLE_ENTRIES)"
    using len by (simp flip: assms(1))
  then show "result_entries r ! i = log ! i" using i slices_nth [OF assms(2) i] by (simp add: result_entries_def assms(3))
qed

section \<open>A round\<close>

text \<open>The walks have returned with \<open>slots'\<close>, \<open>mms\<close> and \<open>h'\<close>, and what they leave can be registered.\<close>

definition round_prepared ::
  "('t, 'h) server_env \<Rightarrow> (u64 \<Rightarrow> u8 list) \<Rightarrow> (nat \<Rightarrow> nat \<Rightarrow> nat \<Rightarrow> hash_pair option) \<Rightarrow> 'x round_world \<Rightarrow> ksmd \<Rightarrow>
   ksm_mm_slot list \<Rightarrow> 'x shadow_mm list \<Rightarrow> host \<Rightarrow> bool" where
  "round_prepared SE mem hashes w k slots' mms h' \<longleftrightarrow>
     host_walk (rw_env w) (rw_xa w) (rw_walk w) \<and> plenty (rw_xa w) (rw_walk w) \<and> host_inv (kd_host k) \<and> calm (kd_host k) \<and>
     slots_ok (rw_fuel w) (rw_mm w) (kd_slots k) (kd_host k) \<and>
     prepare_slots (rw_fuel w) (rw_env w) (rw_xa w) (rw_walk w) (rw_chunk w) True (rw_mm w) (kd_slots k) [] (kd_host k) = Inr (slots', mms, h') \<and>
     offered (rw_mm w) (kd_slots k) (kd_host k) \<noteq> [] \<and> length (offered (rw_mm w) (kd_slots k) (kd_host k)) \<le> MAX_MM_DESCS \<and>
     (\<forall>i < length (offered (rw_mm w) (kd_slots k) (kd_host k)). pages_offerable SE (rw_chunk w) (rw_ops w i) mem (hashes i)
        (pages_of (rw_mm w) (h_pages (kd_host k)) (offered (rw_mm w) (kd_slots k) (kd_host k) ! i))) \<and>
     registrable (rw_chunk w) (rw_kz w) (rw_mrs w) (error_pages (ht_cnt (er_entries (h_errors h'))))"

text \<open>The server answers with \<open>d\<close> and has \<open>log\<close> in its memory; the answer completes after the request.\<close>

definition round_answered :: "'x round_world \<Rightarrow> client \<Rightarrow> result_desc \<Rightarrow> ksm_event_log list \<Rightarrow> bool" where
  "round_answered w cl d log \<longleftrightarrow>
     (let tables = (length log + MAX_RESULT_TABLE_ENTRIES - 1) div MAX_RESULT_TABLE_ENTRIES
      in cb_state (cl_cb cl) < KSM_RDMA_SEND_COMPLETE \<and> cb_cq (cl_cb cl) = [] \<and> cb_qp (cl_cb cl) \<and> rw_posted w = 0 \<and>
         reads_work (rw_result w) tables \<and> rs_post_recv (rw_result w) = 0 \<and> tables \<le> size (blocks (cl_huge cl)) \<and> rd_log_cnt d = length log \<and>
         (\<exists>pre post. rw_schedule w = pre @ [] # post \<and> concat pre = sent @ received d \<and> reads_arrive tables post) \<and>
         (\<forall>i < tables. \<forall>n. rw_remote w (rd_rkey d) (table_addr d i) n = take n (drop (i * MAX_RESULT_TABLE_ENTRIES) log)))"

definition no_reports :: "host \<Rightarrow> host" where
  "no_reports h = h\<lparr>h_errors := \<lparr>er_entries = (er_entries (h_errors h))\<lparr>ht_cnt := 0\<rparr>, er_registered = 0\<rparr>\<rparr>"

lemma no_reports_ok:
  assumes "host_inv h"
  shows "host_inv (no_reports h)" "err_log (no_reports h) = []" "same_items h (no_reports h)" "h_pages (no_reports h) = h_pages h"
  using assms by (auto simp: no_reports_def host_inv_def err_log_def contents_def table_wf_def same_items_def)

lemma scan_prepared:
  assumes "round_prepared SE mem hashes w k slots' mms h'"
  shows "\<exists>regs desc errs deads. prepare_metadata (rw_fuel w) (rw_env w) (rw_xa w) (rw_walk w) (rw_chunk w) True (rw_mm w) (rw_ops w) (rw_kz w) (rw_mrs w)
      (kd_slots k) (kd_host k) =
      Inr (slots', mms, h'\<lparr>h_errors := (h_errors h')\<lparr>er_registered := ht_cnt (er_entries (h_errors h'))\<rparr>\<rparr>, Some (regs, desc, errs)) \<and>
    length regs = length mms \<and> (\<forall>i < length mms. registered_as (rw_chunk w) (ro_mrs (rw_ops w i)) (mms ! i) (regs ! i)) \<and>
    rdma_unregister_error_table (rw_chunk w) errs ((h_errors h')\<lparr>er_registered := ht_cnt (er_entries (h_errors h'))\<rparr>) = Inr deads"
proof -
  note p = assms [unfolded round_prepared_def]
  have hw: "host_walk (rw_env w) (rw_xa w) (rw_walk w)" using p by blast
  note pt = prepared_tables [where ops = "rw_ops w" and hashes = hashes and SE = SE and mem = mem, OF hw _ _ _ _ _ refl]
  have rd: "round_done (rw_xa w) (rw_mm w) (map ms_mm (kd_slots k)) (kd_host k) slots' mms h'" using pt(1) p by blast
  have l: "length mms = length (offered (rw_mm w) (kd_slots k) (kd_host k))" using pt(2) [THEN list_all2_lengthD] p by auto
  have off: "offerable SE (rw_xa w) (h_items h') (rw_chunk w) (rw_ops w i) mem (hashes i) (mms ! i)" if "i < length mms" for i
    using pt(3) [OF _ _ _ _ _ _ that] p by blast
  have "host_inv h'" using rd by (simp add: round_done_def)
  from host_walk.register_ok [where ops = "rw_ops w" and hashes = hashes and mms = mms, OF hw this off, of "rw_kz w" "rw_mrs w"] l p obtain regs desc errs deads where
    r: "rdma_register_shadow_mms (rw_xa w) (h_items h') (rw_chunk w) (rw_ops w) 0 mms = Inr regs" "length regs = length mms"
      "\<forall>i < length mms. registered_as (rw_chunk w) (ro_mrs (rw_ops w i)) (mms ! i) (regs ! i)"
      "rdma_register_error_table (rw_kz w) (rw_chunk w) (rw_mrs w) (h_errors h') = Inr ((h_errors h')\<lparr>er_registered := ht_cnt (er_entries (h_errors h'))\<rparr>, desc, errs)"
      "rdma_unregister_error_table (rw_chunk w) errs ((h_errors h')\<lparr>er_registered := ht_cnt (er_entries (h_errors h'))\<rparr>) = Inr deads" by auto
  moreover have "mms \<noteq> []" using l p by auto
  ultimately show ?thesis using p by (simp add: prepare_metadata_def)
qed

lemma round_client:
  assumes "round_answered w cl d log"
  shows "\<exists>ess cb r ess' cl'. ksm_rdma_meta_send (rw_posted w) (rw_schedule w) (cl_cb cl) = Inr (0, ess, cb) \<and>
    ksm_rdma_result_recv (rw_remote w) (rw_result w) ess (cl\<lparr>cl_cb := cb\<rparr>) = Inr (Some r, ess', cl') \<and> result_entries r = log \<and>
    cl_pages_scanned cl' = cl_pages_scanned cl + word_of_int (rd_total_scanned_cnt d) \<and>
    blocks (free_result_table r (cl_huge cl')) = blocks (cl_huge cl)"
proof -
  let ?n = "(length log + MAX_RESULT_TABLE_ENTRIES - 1) div MAX_RESULT_TABLE_ENTRIES"
  note a = assms [unfolded round_answered_def Let_def]
  from a obtain pre post where s: "rw_schedule w = pre @ [] # post" "concat pre = sent @ received d" "reads_arrive ?n post" by blast
  have "?n = (rd_log_cnt d + MAX_RESULT_TABLE_ENTRIES - 1) div MAX_RESULT_TABLE_ENTRIES" using a by simp
  from result_recv_ok [where cl = cl and rt = "rw_result w" and remote = "rw_remote w" and log = log, OF _ _ _ _ _ s(2,3) this] a s(1)
  obtain ess cb r ess' cl' where r: "ksm_rdma_meta_send (rw_posted w) (rw_schedule w) (cl_cb cl) = Inr (0, ess, cb)"
    "ksm_rdma_result_recv (rw_remote w) (rw_result w) ess (cl\<lparr>cl_cb := cb\<rparr>) = Inr (Some r, ess', cl')"
    "map snd (rt_entry_tables r) = slices log ?n" "rt_total_cnt r = length log"
    "cl_pages_scanned cl' = cl_pages_scanned cl + word_of_int (rd_total_scanned_cnt d)"
    "blocks (free_result_table r (cl_huge cl')) = blocks (cl_huge cl)" by auto
  then show ?thesis using result_entries_log [OF r(3) refl r(4)] by blast
qed

text \<open>
  The merges of a log name pages the round offered, each under the id of its process, and no page is merged with itself.
\<close>

definition page_offered :: "(int \<Rightarrow> mm_world) \<Rightarrow> ksm_mm_slot list \<Rightarrow> host \<Rightarrow> int \<Rightarrow> u64 \<Rightarrow> bool" where
  "page_offered world slots h mm_id va \<longleftrightarrow>
     (\<exists>mm \<in> set (offered world slots h). owner_id world mm = mm_id \<and> va \<in> fst ` set (pages_of world (h_pages h) mm))"

definition merges_offered :: "(int \<Rightarrow> mm_world) \<Rightarrow> ksm_mm_slot list \<Rightarrow> host \<Rightarrow> ksm_event_log \<Rightarrow> bool" where
  "merges_offered world slots h e \<longleftrightarrow>
     (case ev_type e of
        DPU_STABLE_MERGE \<Rightarrow> page_offered world slots h (stable_merge_from_mm_id e) (stable_merge_from_va e)
      | DPU_UNSTABLE_MERGE \<Rightarrow>
          page_offered world slots h (unstable_merge_from_mm_id e) (unstable_merge_from_va e) \<and>
          page_offered world slots h (unstable_merge_to_mm_id e) (unstable_merge_to_va e) \<and>
          (unstable_merge_from_mm_id e, unstable_merge_from_va e) \<noteq> (unstable_merge_to_mm_id e, unstable_merge_to_va e)
      | _ \<Rightarrow> True)"

lemma get_shadow_mm_nth:
  "distinct (map sm_mm_id mms) \<Longrightarrow> i < length mms \<Longrightarrow> get_shadow_mm mms (sm_mm_id (mms ! i)) = Some (mms ! i)"
proof (induction mms arbitrary: i)
  case (Cons m mms)
  then show ?case by (cases i) auto
qed simp

lemma offered_item:
  assumes tabs: "list_all2 (\<lambda>mm sm. table_of XA heap (pages_of world (h_pages h) mm) (owner_id world mm) mm sm) (offered world slots h) mms"
    and ids: "distinct (map (owner_id world) (offered world slots h))" and off: "page_offered world slots h mm_id va"
  shows "\<exists>a mm p. lookup_item XA mms mm_id va = Inr (Some a) \<and> owner_id world mm = mm_id \<and> idents heap a = Some (mm, va, Page_Ptr (Some p))"
proof -
  let ?M = "offered world slots h"
  from off obtain m where m: "m \<in> set ?M" "owner_id world m = mm_id" "va \<in> fst ` set (pages_of world (h_pages h) m)"
    unfolding page_offered_def by blast
  from m(1) obtain i where "i < length ?M" "?M ! i = m" unfolding in_set_conv_nth by blast
  with m have i: "i < length ?M" "owner_id world (?M ! i) = mm_id" "va \<in> fst ` set (pages_of world (h_pages h) (?M ! i))" by simp_all
  have l: "length ?M = length mms" using tabs by (rule list_all2_lengthD)
  have t: "table_of XA heap (pages_of world (h_pages h) (?M ! j)) (owner_id world (?M ! j)) (?M ! j) (mms ! j)" if "j < length mms" for j
    using list_all2_nthD2 [OF tabs that] .
  then have id: "map sm_mm_id mms = map (owner_id world) ?M" using l by (intro nth_equalityI) (auto simp: table_of_def)
  have "get_shadow_mm mms mm_id = Some (mms ! i)" using get_shadow_mm_nth [of mms i] ids id i(1,2) l t [of i] by (simp add: table_of_def)
  moreover obtain pte where "pte \<in> set (contents (sm_pt_map (mms ! i)))" "pte_va pte = va"
    using i(3) table_of_contents [OF t [of i]] i(1) l by (force simp: ptes_of_def)
  ultimately show ?thesis using t [of i] i l unfolding table_of_def lookup_item_def shadow_mm_lookup_def by auto
qed

lemma merges_offered_fits:
  assumes tabs: "list_all2 (\<lambda>mm sm. table_of XA (h_items s) (pages_of world (h_pages h) mm) (owner_id world mm) mm sm) (offered world slots h) mms"
    and ids: "distinct (map (owner_id world) (offered world slots h))" and off: "merges_offered world slots h e"
  shows "entry_fits XA mms s e"
proof -
  note item = offered_item [OF tabs ids]
  have at: "item_at XA mms s i va a" if "lookup_item XA mms i va = Inr (Some a)" "idents (h_items s) a = Some (mm, va, Page_Ptr (Some p))" for i va a mm p
    using that by (auto simp: item_at_def idents_def ident_def)
  show ?thesis
  proof (cases "ev_type e")
    case DPU_STABLE_MERGE
    with off have "page_offered world slots h (stable_merge_from_mm_id e) (stable_merge_from_va e)" by (simp add: merges_offered_def)
    from item [OF this] at DPU_STABLE_MERGE show ?thesis unfolding entry_fits_def by (simp only: event_tag.case) blast
  next
    case DPU_UNSTABLE_MERGE
    with off have o: "page_offered world slots h (unstable_merge_from_mm_id e) (unstable_merge_from_va e)"
      "page_offered world slots h (unstable_merge_to_mm_id e) (unstable_merge_to_va e)"
      "(unstable_merge_from_mm_id e, unstable_merge_from_va e) \<noteq> (unstable_merge_to_mm_id e, unstable_merge_to_va e)"
      by (simp_all add: merges_offered_def)
    from item [OF o(1)] obtain a mm p where a: "lookup_item XA mms (unstable_merge_from_mm_id e) (unstable_merge_from_va e) = Inr (Some a)"
      "owner_id world mm = unstable_merge_from_mm_id e" "idents (h_items s) a = Some (mm, unstable_merge_from_va e, Page_Ptr (Some p))" by blast
    from item [OF o(2)] obtain b mm' q where b: "lookup_item XA mms (unstable_merge_to_mm_id e) (unstable_merge_to_va e) = Inr (Some b)"
      "owner_id world mm' = unstable_merge_to_mm_id e" "idents (h_items s) b = Some (mm', unstable_merge_to_va e, Page_Ptr (Some q))" by blast
    have "a \<noteq> b" using o(3) a(2,3) b(2,3) by auto
    then show ?thesis using at [OF a(1,3)] at [OF b(1,3)] DPU_UNSTABLE_MERGE by (auto simp: entry_fits_def)
  qed (simp_all add: entry_fits_def)
qed

text \<open>
  A round ends when the walks have returned, the pages can be registered, the server answers with a log that only merges pages of
  the round, and applying it returns.
\<close>

lemma offload_round_ok:
  assumes prep: "round_prepared SE mem hashes w k slots' mms h'" and ans: "round_answered w (kd_client k) d log"
    and "kd_status k \<noteq> DISCONNECTED"
    and app: "apply_result (rw_env w) (rw_xa w) mms (rw_merges w) log (no_reports h') = Inr h2"
    and off: "\<forall>e \<in> set log. merges_offered (rw_mm w) (kd_slots k) (kd_host k) e"
    and ids: "distinct (map (owner_id (rw_mm w)) (offered (rw_mm w) (kd_slots k) (kd_host k)))"
    and slot: "\<forall>i t m. et_slot (rw_merges w i) t = Some m \<longrightarrow> h_nodes t m \<noteq> None"
  shows "\<exists>k'. ksm_do_scan_offload w k = Inr k' \<and> host_inv (kd_host k') \<and> same_items h' (kd_host k') \<and> err_log (kd_host k') = err_log h2 \<and>
    h_pages (kd_host k') =
      released (concat (map (\<lambda>mm. map snd (pages_of (rw_mm w) (h_pages (kd_host k)) mm)) (offered (rw_mm w) (kd_slots k) (kd_host k)))) (h_pages h2) \<and>
    kd_slots k' = slots' \<and> kd_status k' = kd_status k \<and> kd_iter_cnt k' = kd_iter_cnt k + 1 \<and>
    blocks (cl_huge (kd_client k')) = blocks (cl_huge (kd_client k)) \<and>
    cl_pages_scanned (kd_client k') = cl_pages_scanned (kd_client k) + word_of_int (rd_total_scanned_cnt d)"
proof -
  note p = prep [unfolded round_prepared_def]
  let ?M = "offered (rw_mm w) (kd_slots k) (kd_host k)" and ?pgs = "pages_of (rw_mm w) (h_pages (kd_host k))"
  have hw: "host_walk (rw_env w) (rw_xa w) (rw_walk w)" using p by blast
  from scan_prepared [OF prep] obtain regs desc errs deads where
    pm: "prepare_metadata (rw_fuel w) (rw_env w) (rw_xa w) (rw_walk w) (rw_chunk w) True (rw_mm w) (rw_ops w) (rw_kz w) (rw_mrs w) (kd_slots k) (kd_host k) =
        Inr (slots', mms, h'\<lparr>h_errors := (h_errors h')\<lparr>er_registered := ht_cnt (er_entries (h_errors h'))\<rparr>\<rparr>, Some (regs, desc, errs))"
      "length regs = length mms" "\<forall>i < length mms. registered_as (rw_chunk w) (ro_mrs (rw_ops w i)) (mms ! i) (regs ! i)"
      "rdma_unregister_error_table (rw_chunk w) errs ((h_errors h')\<lparr>er_registered := ht_cnt (er_entries (h_errors h'))\<rparr>) = Inr deads" by blast
  from round_client [OF ans] obtain ess cb r ess' cl where
    c: "ksm_rdma_meta_send (rw_posted w) (rw_schedule w) (cl_cb (kd_client k)) = Inr (0, ess, cb)"
      "ksm_rdma_result_recv (rw_remote w) (rw_result w) ess ((kd_client k)\<lparr>cl_cb := cb\<rparr>) = Inr (Some r, ess', cl)"
      "result_entries r = log" "cl_pages_scanned cl = cl_pages_scanned (kd_client k) + word_of_int (rd_total_scanned_cnt d)"
      "blocks (free_result_table r (cl_huge cl)) = blocks (cl_huge (kd_client k))" by blast
  have inv': "host_inv h'" and tabs: "list_all2 (\<lambda>mm sm. table_of (rw_xa w) (h_items h') (?pgs mm) (owner_id (rw_mm w) mm) mm sm) ?M mms"
    using prepared_tables(1,2) [where hashes = hashes and ops = "rw_ops w" and SE = SE and mem = mem, OF hw _ _ _ _ _ refl] p
    unfolding round_done_def by blast+
  note nr = no_reports_ok [OF inv']
  have "h_items (no_reports h') = h_items h'" by (simp add: no_reports_def)
  then have fits: "\<forall>e \<in> set log. entry_fits (rw_xa w) mms (no_reports h') e" using merges_offered_fits [OF _ ids, of "rw_xa w" "no_reports h'" mms] tabs off by simp
  have h2: "host_inv h2" "same_items h' h2"
    using host_runtime.apply_result_keeps [OF _ nr(1) fits slot app] hw same_items_trans [OF nr(3)] by (auto simp: host_walk_def host_alloc_def)
  have C: "2 \<le> rw_chunk w" using p by (simp add: registrable_def)
  have t2: "list_all2 (\<lambda>mm sm. table_of (rw_xa w) (h_items h2) (?pgs mm) (owner_id (rw_mm w) mm) mm sm) ?M mms"
    by (rule list_all2_mono [OF tabs]) (rule table_of_same [OF h2(2)])
  let ?h = "h2\<lparr>h_pages := released (concat (map (\<lambda>mm. map snd (?pgs mm)) ?M)) (h_pages h2)\<rparr>"
  have un: "rdma_unregister_shadow_mms (rw_xa w) (rw_chunk w) False (kd_iter_cnt k) (zip mms (map snd regs)) h2 = Inr ?h"
    using host_walk.unregister_ok [OF hw C t2 pm(2), of "\<lambda>i. ro_mrs (rw_ops w i)" "kd_iter_cnt k"] pm(3) by blast
  have cl: "clear_error_table ((h_errors h')\<lparr>er_registered := ht_cnt (er_entries (h_errors h'))\<rparr>) = Inr (h_errors (no_reports h'))"
    by (simp add: clear_error_table_def no_reports_def)
  have nr': "h'\<lparr>h_errors := h_errors (no_reports h')\<rparr> = no_reports h'" by (simp add: no_reports_def)
  have "ksm_do_scan_offload w k = Inr (k\<lparr>kd_slots := slots', kd_client := cl\<lparr>cl_huge := free_result_table r (cl_huge cl)\<rparr>,
      kd_host := ?h, kd_iter_cnt := kd_iter_cnt k + 1\<rparr>)"
    using assms(3) by (simp add: ksm_do_scan_offload_def pm(1,4) c(1,2) cl commit_result_def c(3) nr' app un)
  moreover have "same_items h' ?h" using h2(2) by (simp add: same_items_def)
  moreover have "err_log ?h = err_log h2" by (simp add: err_log_def)
  ultimately show ?thesis using host_inv_released [OF h2(1)] c(4,5)
    by (intro exI [of _ "k\<lparr>kd_slots := slots', kd_client := cl\<lparr>cl_huge := free_result_table r (cl_huge cl)\<rparr>, kd_host := ?h, kd_iter_cnt := kd_iter_cnt k + 1\<rparr>"]) simp
qed

end
