(* ===== verification/Bask_Round.thy ===== *)
theory Bask_Round
  imports Host_Round
begin

text \<open>
  A round of both machines: what \<open>ksm_do_scan\<close> of the host registers and sends is answered by \<open>server_round\<close>
  of the server, and the log of the server is what the host reads and applies.
\<close>

section \<open>The request and its log\<close>

text \<open>Every page offered has one frame.\<close>

lemma frame_exists:
  assumes tabs: "list_all2 (\<lambda>mm sm. table_of XA heap (pgs mm) (pid mm) mm sm) M mms" and ids: "distinct (map pid M)"
  shows "\<exists>frame. \<forall>mm \<in> set M. \<forall>(va, p) \<in> set (pgs mm). frame (pid mm, va) = p"
proof -
  have uniq: "p = q" if mm: "mm \<in> set M" and p: "(va, p) \<in> set (pgs mm)" "(va, q) \<in> set (pgs mm)" for mm va p q
  proof -
    from mm obtain i where "i < length M" "mm = M ! i" by (auto simp: in_set_conv_nth)
    with list_all2_nthD [OF tabs, of i] obtain sm where "table_of XA heap (pgs mm) (pid mm) mm sm" by blast
    note t = this
    have "contents (sm_pt_map sm) = ptes_of (pgs mm)" using table_of_contents [OF t] .
    moreover have "sorted_wrt (<) (map pte_va (contents (sm_pt_map sm)))" using t by (simp add: table_of_def)
    ultimately have "distinct (map fst (pgs mm))" by (simp add: ptes_of_def comp_def case_prod_beta strict_sorted_iff)
    then show ?thesis using p by (rule eq_key_imp_eq_value)
  qed
  have "\<exists>p. \<forall>mm \<in> set M. \<forall>q. pid mm = fst k \<and> (snd k, q) \<in> set (pgs mm) \<longrightarrow> q = p" for k
  proof (cases "\<exists>mm \<in> set M. \<exists>p. pid mm = fst k \<and> (snd k, p) \<in> set (pgs mm)")
    case True
    then obtain m p where m: "m \<in> set M" "pid m = fst k" "(snd k, p) \<in> set (pgs m)" by blast
    have "q = p" if "mm \<in> set M" "pid mm = fst k" "(snd k, q) \<in> set (pgs mm)" for mm q
    proof -
      have "mm = m" using ids that(1,2) m(1,2) by (auto simp: distinct_map inj_on_def)
      then show ?thesis using uniq [OF m(1) _ m(3)] that(3) by blast
    qed
    then show ?thesis by blast
  qed blast
  then have "\<exists>frame. \<forall>k. \<forall>mm \<in> set M. \<forall>q. pid mm = fst k \<and> (snd k, q) \<in> set (pgs mm) \<longrightarrow> q = frame k" by (intro choice allI)
  then obtain frame where f: "\<And>k mm q. mm \<in> set M \<Longrightarrow> pid mm = fst k \<Longrightarrow> (snd k, q) \<in> set (pgs mm) \<Longrightarrow> q = frame k" by blast
  have "\<forall>mm \<in> set M. \<forall>(va, p) \<in> set (pgs mm). frame (pid mm, va) = p" using f [of _ "(pid _, _)"] by fastforce
  then show ?thesis by blast
qed

text \<open>The keys of the request are the pages offered.\<close>

lemma merge_within_offered:
  assumes "merge_within K L e" and "\<And>k. k \<in> K \<union> L \<Longrightarrow> page_offered world slots h (fst k) (snd k)"
  shows "merges_offered world slots h e"
  using assms(1) assms(2) [of "(ev_i0 e, ev_w0 e)"] assms(2) [of "(ev_i1 e, ev_w1 e)"]
  unfolding merge_within_def merges_offered_def by (cases "ev_type e") auto

lemma requested_offered:
  assumes "length regs = length M" and "\<And>i. i < length M \<Longrightarrow> sd_mm_id (fst (regs ! i)) = owner_id world (M ! i)" and M: "M = offered world slots h"
    and k: "k \<in> requested_keys \<lparr>md_pt_cnt = length M, md_pt_descs = map fst regs, md_et_descs = desc\<rparr>
      (\<lambda>i. if i < length M then ptes_of (pages_of world (h_pages h) (M ! i)) else [])"
  shows "page_offered world slots h (fst k) (snd k)"
proof -
  from k obtain i pte where i: "i < length M" "pte \<in> set (ptes_of (pages_of world (h_pages h) (M ! i)))" "k = (sd_mm_id (map fst regs ! i), pte_va pte)"
    by (auto simp: requested_keys_def page_keys_def split: if_splits)
  then have "k = (owner_id world (M ! i), pte_va pte)" using assms(1,2) by simp
  moreover have "pte_va pte \<in> fst ` set (pages_of world (h_pages h) (M ! i))" using i(2) by (force simp: ptes_of_def)
  ultimately show ?thesis using i(1) M nth_mem [of i M] by (auto simp: page_offered_def)
qed

lemma requested_pages_offered:
  assumes "length regs = length M" and "\<And>i. i < length M \<Longrightarrow> sd_entry_cnt (fst (regs ! i)) = length (f (M ! i))"
  shows "requested_pages \<lparr>md_pt_cnt = length M, md_pt_descs = map fst regs, md_et_descs = desc\<rparr> = length (concat (map f M))"
proof -
  have "(\<Sum>i\<leftarrow>[0..<length M]. sd_entry_cnt (map fst regs ! i)) = (\<Sum>i\<leftarrow>[0..<length M]. length (f (M ! i)))"
    by (intro arg_cong [of _ _ sum_list] map_cong refl) (use assms in simp)
  also have "map (\<lambda>i. length (f (M ! i))) [0..<length M] = map (length \<circ> f) M" by (rule nth_equalityI) simp_all
  finally show ?thesis by (simp add: requested_pages_def length_concat comp_def)
qed

section \<open>Both machines\<close>

text \<open>What \<open>prepare_metadata\<close> returned, as the server sees it, and the answer of the server.\<close>

definition request_of :: "'x shadow_mm list \<Rightarrow> (shadow_pt_descriptor \<times> registered_mm) list \<Rightarrow> error_table_descriptor \<Rightarrow> metadata_descriptor" where
  "request_of mms regs desc = \<lparr>md_pt_cnt = length mms, md_pt_descs = map fst regs, md_et_descs = desc\<rparr>"

lemma server_answers_host:
  assumes prep: "round_prepared SE mem hashes w k slots' mms h'"
    and srv: "server_runtime SE" "realloc_never_fails SE" "server_reaches SE later work s" "undoable_all SE (err_log h') (start_round later s)"
    and M: "M = offered (rw_mm w) (kd_slots k) (kd_host k)" and ids: "distinct (map (owner_id (rw_mm w)) M)"
    and req: "prepare_metadata (rw_fuel w) (rw_env w) (rw_xa w) (rw_walk w) (rw_chunk w) True (rw_mm w) (rw_ops w) (rw_kz w) (rw_mrs w)
        (kd_slots k) (kd_host k) = Inr (slots', mms, h1, Some (regs, desc, errs))"
    and ran: "server_round SE (cmp_and_merge_one SE) (registered_io mem hashes (map snd regs) errs) later (request_of mms regs desc) work s =
        Inr (Some (n, log), work', s')"
  shows "server_reaches SE True work' s'" and "n = int (length (concat (map (pages_of (rw_mm w) (h_pages (kd_host k))) M)))"
    and "\<forall>e \<in> set log. merges_offered (rw_mm w) (kd_slots k) (kd_host k) e"
proof -
  note p = prep [unfolded round_prepared_def]
  let ?pgs = "pages_of (rw_mm w) (h_pages (kd_host k))"
  have hw: "host_walk (rw_env w) (rw_xa w) (rw_walk w)" using p by blast
  have ps: "prepare_slots (rw_fuel w) (rw_env w) (rw_xa w) (rw_walk w) (rw_chunk w) True (rw_mm w) (kd_slots k) [] (kd_host k) = Inr (slots', mms, h')"
    using p by blast
  have tabs: "list_all2 (\<lambda>mm sm. table_of (rw_xa w) (h_items h') (?pgs mm) (owner_id (rw_mm w) mm) mm sm) M mms"
    using prepared_tables(2) [where hashes = hashes and ops = "rw_ops w" and SE = SE and mem = mem, OF hw _ _ _ _ ps M] p M by blast
  have len: "length mms = length M" using tabs by (simp add: list_all2_lengthD)
  from frame_exists [OF tabs ids] obtain frame where fr: "\<forall>mm \<in> set M. \<forall>(va, pg) \<in> set (?pgs mm). frame (owner_id (rw_mm w) mm, va) = pg" by blast
  let ?ptes = "\<lambda>i. if i < length M then ptes_of (?pgs (M ! i)) else []" and ?md = "\<lparr>md_pt_cnt = length M, md_pt_descs = map fst regs, md_et_descs = desc\<rparr>"
  have md: "request_of mms regs desc = ?md" by (simp add: request_of_def len)
  have "\<exists>tbl regs' desc' errs'. prepare_metadata (rw_fuel w) (rw_env w) (rw_xa w) (rw_walk w) (rw_chunk w) True (rw_mm w) (rw_ops w) (rw_kz w) (rw_mrs w)
        (kd_slots k) (kd_host k) = Inr (slots', mms, h'\<lparr>h_errors := tbl\<rparr>, Some (regs', desc', errs')) \<and>
      valid_request SE (registered_io mem hashes (map snd regs') errs') frame later
        \<lparr>md_pt_cnt = length M, md_pt_descs = map fst regs', md_et_descs = desc'\<rparr> (err_log h') ?ptes s"
    by (rule prepared_request [where hashes = hashes and ops = "rw_ops w" and SE = SE and mem = mem and later = later and s = s and kz = "rw_kz w" and mrs = "rw_mrs w",
      OF hw _ _ _ _ ps M _ _ ids _ fr _ srv(4)]) (use p M in simp_all)
  with req have v: "valid_request SE (registered_io mem hashes (map snd regs) errs) frame later ?md (err_log h') ?ptes s" by auto
  show "server_reaches SE True work' s'" by (rule server_reaches.round [OF srv(3) v]) (use ran md in simp)
  from scan_prepared [OF prep] req have reg: "length regs = length mms"
    "\<forall>i < length mms. registered_as (rw_chunk w) (ro_mrs (rw_ops w i)) (mms ! i) (regs ! i)" by auto
  have d: "sd_mm_id (fst (regs ! i)) = owner_id (rw_mm w) (M ! i) \<and> sd_entry_cnt (fst (regs ! i)) = length (?pgs (M ! i))" if "i < length M" for i
  proof -
    have t: "table_of (rw_xa w) (h_items h') (?pgs (M ! i)) (owner_id (rw_mm w) (M ! i)) (M ! i) (mms ! i)" using list_all2_nthD [OF tabs that] .
    have "length (contents (sm_pt_map (mms ! i))) = ht_cnt (sm_pt_map (mms ! i))" using t length_contents by (auto simp: table_of_def shadow_wf_def)
    then show ?thesis using reg(2) that len t table_of_contents [OF t] by (auto simp: registered_as_def Let_def table_of_def ptes_of_def)
  qed
  note ready = server_reaches_ready [OF srv(3,1,2)] and v' = v [unfolded valid_request_def]
  from server_runtime.server_round_ok [where frame = frame and later = later and es = "err_log h'" and ptes = ?ptes and meta_desc = ?md
      and io = "registered_io mem hashes (map snd regs) errs", OF srv(1) _ _ _ _ _ _ _ _ srv(2), of s work] ready v' ran md
  obtain evs1 evs2 evs3 where e: "log = evs1 @ evs2 @ evs3" "n = int (requested_pages ?md)" "\<forall>e \<in> set (evs1 @ evs3). merge_within {} {} e"
    "\<forall>e \<in> set evs2. merge_within (requested_keys ?md ?ptes) (requested_keys ?md ?ptes) e" by auto
  show "n = int (length (concat (map ?pgs M)))" using e(2) requested_pages_offered [of regs M ?pgs desc] reg(1) len d by simp
  have "page_offered (rw_mm w) (kd_slots k) (kd_host k) (fst x) (snd x)" if "x \<in> requested_keys ?md ?ptes" for x
    by (rule requested_offered [OF _ _ M that]) (use reg(1) len d in simp_all)
  then show "\<forall>e \<in> set log. merges_offered (rw_mm w) (kd_slots k) (kd_host k) e"
    using merge_within_offered [of "{}" "{}"] merge_within_offered [of "requested_keys ?md ?ptes" "requested_keys ?md ?ptes"] e(1,3,4) by auto
qed


section \<open>A sample round\<close>

text \<open>A page the server has never seen.\<close>

lemma first_fit_low:
  "h 1 = None \<Longrightarrow> first_fit h = Some 1" "h 1 \<noteq> None \<Longrightarrow> h 2 = None \<Longrightarrow> first_fit h = Some 2"
proof -
  have "[1..<64] = 1 # 2 # [Suc 2..<64]" using upt_conv_Cons [of 1 64] upt_conv_Cons [of 2 64] by (simp only: Suc_1)
  then show "h 1 = None \<Longrightarrow> first_fit h = Some 1" "h 1 \<noteq> None \<Longrightarrow> h 2 = None \<Longrightarrow> first_fit h = Some 2"
    by (simp_all only: first_fit_def find.simps) simp_all
qed

lemma fresh_page:
  assumes "rmap_lookup sample_env s (mm, va) = None" "first_fit (items s) = Some a" "calculate_hash_pair sample_env pre page \<noteq> null_hash"
  shows "\<exists>s'. scan_one_page sample_env (cmp_and_merge_one sample_env) mm (\<lparr>pte_va = va, pte_kpfn = p\<rparr>, pre, page) s = Inr s' \<and>
    log_table s' = log_table s \<and> unstable_hash_table s' = unstable_hash_table s \<and> total_accessed_cnt s' = total_accessed_cnt s + 1 \<and>
    rmap_tree s' = g_insert (tree_ops sample_env) (rmap_tree s) (mm, va) a \<and> (\<exists>it. items s' = (items s)(a \<mapsto> it))"
proof -
  have m: "malloc_item sample_env (items s) = Some (a, sample_junk)" using assms(2) by (simp add: sample_env_def)
  show ?thesis using assms(1,3) m
    by (auto simp: scan_one_page_def lookup_rmap_item_def touch_item_def init_rmap_item_def sample_junk_def sample_item_def item_key_def
        cmp_and_merge_one_def numeral_2_eq_2 scan_volatile_def should_skip_item_def skip_volatile_def Let_def compare_hash_pair_equal_iff
        split: if_splits)
qed

lemma fresh_two_pages:
  assumes "calculate_hash_pair sample_env pre1 page1 \<noteq> null_hash" "calculate_hash_pair sample_env pre2 page2 \<noteq> null_hash" "va1 \<noteq> va2"
  shows "\<exists>s'. rfold (scan_one_page sample_env (cmp_and_merge_one sample_env) mm)
      [(\<lparr>pte_va = va1, pte_kpfn = p1\<rparr>, pre1, page1), (\<lparr>pte_va = va2, pte_kpfn = p2\<rparr>, pre2, page2)] (init_server sample_env default_config) = Inr s' \<and>
    log_table s' = log_table (init_server sample_env default_config) \<and> unstable_hash_table s' = [] \<and> total_accessed_cnt s' = 2 \<and>
    length (g_entries (tree_ops sample_env) (rmap_tree s')) = 2"
proof -
  let ?s = "init_server sample_env default_config"
  have 0: "rmap_lookup sample_env ?s (mm, va1) = None" "items ?s = Map.empty" "unstable_hash_table ?s = []" "rmap_tree ?s = []" "total_accessed_cnt ?s = 0"
    by (simp_all add: init_server_def sample_env_def alist_gops_def)
  from fresh_page [OF 0(1) first_fit_low(1) assms(1), of p1] 0(2) obtain s1 it where
    1: "scan_one_page sample_env (cmp_and_merge_one sample_env) mm (\<lparr>pte_va = va1, pte_kpfn = p1\<rparr>, pre1, page1) ?s = Inr s1"
      "log_table s1 = log_table ?s" "unstable_hash_table s1 = []" "total_accessed_cnt s1 = 1" "rmap_tree s1 = [((mm, va1), 1)]" "items s1 = [1 \<mapsto> it]"
    using 0 by (auto simp: sample_env_def alist_gops_def)
  have "rmap_lookup sample_env s1 (mm, va2) = None" using 1(5) assms(3) by (simp add: sample_env_def alist_gops_def)
  from fresh_page [OF this first_fit_low(2) assms(2), of p2] 1(6) obtain s2 where
    2: "scan_one_page sample_env (cmp_and_merge_one sample_env) mm (\<lparr>pte_va = va2, pte_kpfn = p2\<rparr>, pre2, page2) s1 = Inr s2"
      "log_table s2 = log_table s1" "unstable_hash_table s2 = []" "total_accessed_cnt s2 = 2"
      "rmap_tree s2 = g_insert (tree_ops sample_env) (rmap_tree s1) (mm, va2) 2"
    using 1(3,4) by auto
  have "length (g_entries (tree_ops sample_env) (rmap_tree s2)) = 2"
    using 2(5) 1(5) assms(3) by (simp add: sample_env_def alist_gops_def)
  then show ?thesis using 1(1,2) 2 by simp
qed

lemma fresh_round:
  assumes md: "md_pt_cnt md = 1" "md_pt_descs md = [d]" "sd_entry_cnt d = 2" "et_total_cnt (md_et_descs md) = 0" "et_desc_cnt (md_et_descs md) = 0"
    and ok: "process_ok sample_env io frame 0 d [\<lparr>pte_va = va1, pte_kpfn = p1\<rparr>, \<lparr>pte_va = va2, pte_kpfn = p2\<rparr>]"
  shows "\<exists>work' s'. server_round sample_env (cmp_and_merge_one sample_env) io False md init_worker (init_server sample_env default_config) =
    Inr (Some (2, []), work', s')"
proof -
  let ?s = "init_server sample_env default_config" and ?ptes = "[\<lparr>pte_va = va1, pte_kpfn = p1\<rparr>, \<lparr>pte_va = va2, pte_kpfn = p2\<rparr>]"
  have n: "sgl_nums 2 = 1" "this_sgl_size 2 0 = 2" by (simp_all add: sgl_nums_def this_sgl_size_def DIV_ROUND_UP_def MAX_PAGES_IN_SGL_def)
  have o: "read_map io 0 = Some ?ptes" "va1 \<noteq> 0" "va1 \<noteq> va2" "batches_ok sample_env io 0 2" using ok md(3) by (simp_all add: process_ok_def)
  then obtain buf where buf: "read_pages io 0 0 = Some buf" "length buf = 2"
    "\<forall>x < 2. calculate_hash_pair sample_env (pre_hashes io 0 0 x) (buf ! x) \<noteq> null_hash" using n by (auto simp: batches_ok_def)
  let ?work = "\<lparr>wj_mm_id = sd_mm_id d, wj_va2dma_map = ?ptes, wj_pages_buf = buf, wj_num_pages = 2, wj_idx_adjust = 0, wj_status = DATA_READY\<rparr>"
  have "[0..<2] = [0, 1::nat]" by (simp add: upt_rec)
  then have pages: "job_pages ?work (pre_hashes io 0 0) = [(?ptes ! 0, pre_hashes io 0 0 0, buf ! 0), (?ptes ! 1, pre_hashes io 0 0 1, buf ! 1)]"
    by (simp add: job_pages_def)
  from fresh_two_pages [of "pre_hashes io 0 0 0" "buf ! 0" "pre_hashes io 0 0 1" "buf ! 1" va1 va2 "sd_mm_id d" p1 p2] buf(3) o(3) obtain s1 where
    1: "rfold (scan_one_page sample_env (cmp_and_merge_one sample_env) (sd_mm_id d)) (job_pages ?work (pre_hashes io 0 0)) ?s = Inr s1"
      "log_table s1 = log_table ?s" "unstable_hash_table s1 = []" "total_accessed_cnt s1 = 2" "length (g_entries (tree_ops sample_env) (rmap_tree s1)) = 2"
    unfolding pages by auto
  have "ksm_page_worker sample_env (cmp_and_merge_one sample_env) (pre_hashes io 0 0) ?work ?s = Inr (?work\<lparr>wj_status := WORK_DONE\<rparr>, s1)"
    by (subst ksm_page_worker_pages) (use 1(1) buf(2) in \<open>simp_all add: job_in_bounds_def\<close>)
  then have "scan_processes sample_env (cmp_and_merge_one sample_env) io (md_pt_descs md) [0..<md_pt_cnt md] 0 init_worker ?s =
      Inr (Some 2, idle_worker (?work\<lparr>wj_status := WORK_DONE\<rparr>), s1)"
    using o(1,2) buf(1) n md by (simp add: scan_process_def init_worker_def)
  moreover have "prune_metadata sample_env s1 = Inr (s1\<lparr>unstable_hash_table := []\<rparr>)"
    using 1(3,4,5) by (simp add: prune_metadata_def clean_up_unstable_tree_def RMAP_PRUNE_MARGIN_def sample_env_def alist_gops_def)
  ultimately have "do_ksm_v3 sample_env (cmp_and_merge_one sample_env) io md init_worker ?s =
      Inr (2, idle_worker (?work\<lparr>wj_status := WORK_DONE\<rparr>), s1\<lparr>unstable_hash_table := [], total_accessed_cnt := 0\<rparr>)"
    by (simp add: do_ksm_v3_def)
  moreover have "do_handle_error sample_env (read_errors io) (md_et_descs md) ?s = Inr (0, ?s)" using md(4,5) by (simp add: do_handle_error_def)
  moreover have "logged (log_table s1) = []" using 1(2) by (simp add: logged_def init_server_def)
  ultimately show ?thesis by (simp add: server_round_def start_round_def)
qed

text \<open>The answer of the server after its first round, and what surrounds it on the host.\<close>

definition first_answer :: result_desc where
  "first_answer = \<lparr>rd_total_scanned_cnt = 2, rd_log_cnt = 0, rd_rkey = 3, rd_result_table_addr = 0x7000\<rparr>"

definition sample_round :: "(u64, addr) rbt round_world" where
  "sample_round = \<lparr>rw_fuel = 5, rw_env = sample_slab, rw_xa = rbt_xa, rw_walk = sample_walk_env, rw_chunk = 128, rw_mm = sample_world,
     rw_ops = (\<lambda>_. sample_register_ops), rw_kz = (\<lambda>_ _. True), rw_mrs = (\<lambda>_. Some \<lparr>mr_rkey = 7, mr_iova = 0x7000\<rparr>), rw_posted = 0,
     rw_schedule = [sent @ received first_answer, []], rw_remote = (\<lambda>_ _ _. []), rw_result = sample_result_try,
     rw_merges = (\<lambda>_. sample_entry True)\<rparr>"

definition sample_ksmd :: ksmd where
  "sample_ksmd = \<lparr>kd_host = sample_host, kd_slots = take 1 sample_slots, kd_client = sample_client, kd_status = INITIALIZED,
     kd_smart_scan = True, kd_iter_cnt = 3\<rparr>"

lemma sample_answered: "round_answered sample_round sample_client first_answer []"
proof -
  have "\<exists>pre post. rw_schedule sample_round = pre @ [] # post \<and> concat pre = sent @ received first_answer \<and> reads_arrive 0 post"
    by (rule exI [of _ "[sent @ received first_answer]"]) (simp add: sample_round_def)
  then show ?thesis unfolding round_answered_def Let_def
    by (simp add: sample_round_def sample_client_def sample_cb_def sample_result_try_def first_answer_def reads_work_def state_order
      MAX_RESULT_TABLE_ENTRIES_def)
qed

lemma sample_offered: "offered sample_world (kd_slots sample_ksmd) sample_host = [1]"
  by (simp add: sample_ksmd_def offered_def sample_slots_def sample_pages)

text \<open>The host walks, registers two pages of process 42, and the server scans them for the first time.\<close>

lemma sample_rounds:
  "\<exists>slots' mms h' h1 regs desc errs work' s'. round_prepared sample_env (\<lambda>_. sample_page 7) (\<lambda>_ _ _. None) sample_round sample_ksmd slots' mms h' \<and>
     err_log h' = [] \<and>
     prepare_metadata (rw_fuel sample_round) (rw_env sample_round) (rw_xa sample_round) (rw_walk sample_round) (rw_chunk sample_round) True
       (rw_mm sample_round) (rw_ops sample_round) (rw_kz sample_round) (rw_mrs sample_round) (kd_slots sample_ksmd) (kd_host sample_ksmd) =
       Inr (slots', mms, h1, Some (regs, desc, errs)) \<and>
     server_round sample_env (cmp_and_merge_one sample_env) (registered_io (\<lambda>_. sample_page 7) (\<lambda>_ _ _. None) (map snd regs) errs) False
       (request_of mms regs desc) init_worker (init_server sample_env default_config) = Inr (Some (2, []), work', s')"
proof -
  let ?slots = "take 1 sample_slots" and ?frame = "\<lambda>k. if k = (42, 0x1000) then 7 else 8" and ?mem = "\<lambda>_::u64. sample_page 7"
  from sample_first_slot [of 128] obtain slots' mms h' where
    p: "prepare_slots 5 sample_slab rbt_xa sample_walk_env 128 True sample_world ?slots [] sample_host = Inr (slots', mms, h')"
      "h_errors h' = h_errors sample_host" by (auto simp: sample_slots_def)
  have ok: "slots_ok 5 sample_world ?slots sample_host" using sample_slots_ok by (simp add: slots_ok_def sample_slots_def)
  have M: "offered sample_world ?slots sample_host = [1]" by (simp add: offered_def sample_slots_def sample_pages)
  have id: "owner_id sample_world 1 = 42" by (simp add: owner_id_def sample_world_def)
  have e: "err_log h' = []" "ht_cnt (er_entries (h_errors h')) = 0" using sample_no_reports p(2) by (simp_all add: err_log_def)
  have prep: "round_prepared sample_env ?mem (\<lambda>_ _ _. None) sample_round sample_ksmd slots' mms h'"
    using sample_walk_ok sample_plenty sample_host_inv sample_calm ok p(1) M sample_offerable sample_registrable [of "error_pages 0"]
    by (simp add: round_prepared_def sample_round_def sample_ksmd_def sample_pages MAX_MM_DESCS_def e error_pages_def)
  from prepared_request [where ops = "\<lambda>_. sample_register_ops" and kz = "\<lambda>_ _. True" and mem = ?mem and
        mrs = "\<lambda>_. Some \<lparr>mr_rkey = 7, mr_iova = 0x7000\<rparr>" and hashes = "\<lambda>_ _ _. None" and later = False and
        frame = ?frame and s = "init_server sample_env default_config" and SE = sample_env,
        OF sample_walk_ok sample_plenty sample_host_inv sample_calm ok p(1) M [symmetric]]
      sample_offerable sample_registrable [of "error_pages 0"]
  obtain h1 regs desc errs where r: "prepare_metadata 5 sample_slab rbt_xa sample_walk_env 128 True sample_world (\<lambda>_. sample_register_ops) (\<lambda>_ _. True)
      (\<lambda>_. Some \<lparr>mr_rkey = 7, mr_iova = 0x7000\<rparr>) ?slots sample_host = Inr (slots', mms, h1, Some (regs, desc, errs))"
    "valid_request sample_env (registered_io ?mem (\<lambda>_ _ _. None) (map snd regs) errs) ?frame False
      \<lparr>md_pt_cnt = 1, md_pt_descs = map fst regs, md_et_descs = desc\<rparr> []
      (\<lambda>i. if i < 1 then [\<lparr>pte_va = 0x1000, pte_kpfn = 7\<rparr>, \<lparr>pte_va = 0x3000, pte_kpfn = 8\<rparr>] else []) (init_server sample_env default_config)"
    by (auto simp: MAX_MM_DESCS_def id e sample_pages ptes_of_def error_pages_def cong: if_cong)
  have req: "prepare_metadata (rw_fuel sample_round) (rw_env sample_round) (rw_xa sample_round) (rw_walk sample_round) (rw_chunk sample_round) True
       (rw_mm sample_round) (rw_ops sample_round) (rw_kz sample_round) (rw_mrs sample_round) (kd_slots sample_ksmd) (kd_host sample_ksmd) =
       Inr (slots', mms, h1, Some (regs, desc, errs))" using r(1) by (simp add: sample_round_def sample_ksmd_def)
  have "list_all2 (\<lambda>mm sm. table_of rbt_xa (h_items h') (pages_of sample_world (h_pages sample_host) mm) (owner_id sample_world mm) mm sm) [1] mms"
    using prepared_tables(2) [where ops = "\<lambda>_. sample_register_ops" and hashes = "\<lambda>_ _ _. None" and SE = sample_env and mem = ?mem,
      OF sample_walk_ok sample_plenty sample_host_inv sample_calm ok p(1) M [symmetric]] sample_offerable by (simp add: sample_pages)
  then have len: "length mms = 1" by (simp add: list_all2_lengthD [symmetric])
  then obtain reg where reg: "regs = [reg]" using scan_prepared [OF prep] req by (cases regs) auto
  let ?io = "registered_io ?mem (\<lambda>_ _ _. None) (map snd regs) errs"
  have "process_ok sample_env ?io ?frame 0 (fst reg) [\<lparr>pte_va = 0x1000, pte_kpfn = 7\<rparr>, \<lparr>pte_va = 0x3000, pte_kpfn = 8\<rparr>]"
    using r(2) by (simp add: valid_request_def request_ok_def reg)
  moreover from this have "sd_entry_cnt (fst reg) = 2" by (simp add: process_ok_def)
  moreover have "et_total_cnt desc = 0" "et_desc_cnt desc = 0" using r(2) by (simp_all add: valid_request_def)
  ultimately obtain work' s' where "server_round sample_env (cmp_and_merge_one sample_env) ?io False (request_of mms regs desc) init_worker
      (init_server sample_env default_config) = Inr (Some (2, []), work', s')"
    using fresh_round [of "request_of mms regs desc" "fst reg" ?io ?frame "0x1000" 7 "0x3000" 8] by (auto simp: request_of_def len reg)
  then show ?thesis using prep e(1) req by blast
qed


end
