(* ===== verification/Server_Ops.thy ===== *)
theory Server_Ops
  imports Client_Correct Host_Items
begin

text \<open>
  The other mode of the server (\<open>on_established_ops_offload_mode\<close> in \<open>server.c\<close>): it compares two pages or hashes one
  for the host, one request after the other; and the two functions of \<open>mm/ksm.c\<close> that use it instead of the processor
  of the host. The properties join the two machines: what the host gets back is what it would have computed.
\<close>

section \<open>Definitions\<close>

subsection \<open>Comparing bytes\<close>

text \<open>
  \<open>memcmp\<close> of the C library on the server, and of the kernel on the host: only the sign of the answer is specified. The
  sign is that of the first difference; \<open>memcmp_diff\<close> returns this difference.
\<close>

fun memcmp_diff :: "u8 list \<Rightarrow> u8 list \<Rightarrow> int" where
  "memcmp_diff (x # xs) (y # ys) = (if x = y then memcmp_diff xs ys else uint x - uint y)"
| "memcmp_diff _ _ = 0"

locale memcmp_function =
  fixes memcmp :: "u8 list \<Rightarrow> u8 list \<Rightarrow> int"
  assumes memcmp_sign: "length xs = length ys \<Longrightarrow> sgn (memcmp xs ys) = sgn (memcmp_diff xs ys)"
    and memcmp_int: "- (2 ^ 31) \<le> memcmp xs ys" "memcmp xs ys < 2 ^ 31"
begin

lemma memcmp_zero: "length xs = length ys \<Longrightarrow> memcmp xs ys = 0 \<longleftrightarrow> memcmp_diff xs ys = 0"
  using memcmp_sign [of xs ys] by (simp add: sgn_if split: if_splits)

end

subsection \<open>The completion queue of the server\<close>

text \<open>
  What the server takes from its completion queue: a message that arrived, a finished read, a finished send, or a completion
  that failed. It polls until there is one; if there is none to come, for ever.
\<close>

datatype 'm completion = Received 'm | Read_Done | Send_Done | Bad_Completion

definition wait_cq_event_and_poll :: "'m completion list \<Rightarrow> ('m completion \<times> 'm completion list) res" where
  "wait_cq_event_and_poll cs =
     (case cs of
        [] \<Rightarrow> Inl Diverged
      | c # cs \<Rightarrow> rbind (guard_stop ''completion failed'' (c \<noteq> Bad_Completion)) (\<lambda>_. Inr (c, cs)))"

subsection \<open>One operation\<close>

text \<open>
  The libraries of the server, and the memory of the host as the device reads it: \<open>op_remote key addr n\<close> are \<open>n\<close> bytes.
\<close>

record op_env =
  op_memcmp :: "u8 list \<Rightarrow> u8 list \<Rightarrow> int"
  op_XXH64 :: "u8 list \<Rightarrow> u64 \<Rightarrow> u64"
  op_remote :: "u32 \<Rightarrow> u64 \<Rightarrow> nat \<Rightarrow> u8 list"

text \<open>The state of this mode; \<open>os_result_mr\<close>: whether \<open>single_op_result_mr\<close> is set.\<close>

record op_server =
  os_result_mr :: bool
  os_desc_rx :: operation_descriptor
  os_sent :: "operation_result list"
  os_recvs :: nat
  os_iteration :: nat

text \<open>The device writes a message into the one receive buffer, whatever the server waits for.\<close>

definition op_arrive :: "operation_descriptor completion \<Rightarrow> op_server \<Rightarrow> op_server" where
  "op_arrive c st =
     (case c of
        Received d \<Rightarrow> st\<lparr>os_desc_rx := d, os_recvs := os_recvs st - 1\<rparr>
      | _ \<Rightarrow> st)"

text \<open>The answers of the verbs during one turn of the loop.\<close>

record op_posts =
  op_read :: int
  op_send :: int
  op_recv :: int

definition rdma_read_memory ::
  "op_env \<Rightarrow> int \<Rightarrow> u32 \<Rightarrow> u64 \<Rightarrow> nat \<Rightarrow> u8 list \<Rightarrow> operation_descriptor completion list \<Rightarrow> op_server \<Rightarrow>
   (int \<times> u8 list \<times> operation_descriptor completion list \<times> op_server) res" where
  "rdma_read_memory E posted rkey addr len buf cs st =
     (if posted \<noteq> 0 then Inr (- 1, buf, cs, st)
      else rbind (wait_cq_event_and_poll cs) (\<lambda>(c, cs).
             Inr (0, if c = Read_Done then op_remote E rkey addr len else buf, cs, op_arrive c st)))"

definition rdma_read_page ::
  "op_env \<Rightarrow> int \<Rightarrow> u32 \<Rightarrow> u64 \<Rightarrow> u8 list \<Rightarrow> operation_descriptor completion list \<Rightarrow> op_server \<Rightarrow>
   (int \<times> u8 list \<times> operation_descriptor completion list \<times> op_server) res" where
  "rdma_read_page E posted rkey addr buf cs st = rdma_read_memory E posted rkey addr PAGE_SIZE buf cs st"

text \<open>An \<open>int\<close> stored into the \<open>value\<close> of a result that was zeroed before: the low half of its 64 bits.\<close>

definition op_value :: "int \<Rightarrow> u64" where
  "op_value v = ucast (word_of_int v :: u32)"

definition do_operation ::
  "op_env \<Rightarrow> int \<Rightarrow> operation_descriptor completion list \<Rightarrow> op_server \<Rightarrow>
   (u64 \<times> operation_descriptor completion list \<times> op_server) res" where
  "do_operation E posted cs st =
     (let rkey = ucast (od_rkey (os_desc_rx st)); iova = od_iova (os_desc_rx st); page_num = od_page_num (os_desc_rx st)
      in case od_cmd (os_desc_rx st) of
           PAGE_COMPARE \<Rightarrow>
             rbind (guard_stop ''[SINGLE] Invalid page cnt'' (page_num = 2)) (\<lambda>_.
             rbind (rdma_read_memory E posted rkey iova (PAGE_SIZE * 2) (replicate (PAGE_SIZE * 2) 0) cs st) (\<lambda>(ret, buf, cs, st).
             rbind (guard_stop ''rdma failed for dma addr'' (ret = 0)) (\<lambda>_.
               Inr (op_value (op_memcmp E (take PAGE_SIZE buf) (take PAGE_SIZE (drop PAGE_SIZE buf))), cs, st))))
         | PAGE_HASH \<Rightarrow>
             rbind (guard_stop ''[SINGLE] Invalid page cnt'' (page_num = 1)) (\<lambda>_.
             rbind (rdma_read_page E posted rkey iova (replicate PAGE_SIZE 0) cs st) (\<lambda>(ret, buf, cs, st).
             rbind (guard_stop ''rdma failed for dma addr'' (ret = 0)) (\<lambda>_.
               Inr (op_XXH64 E (take PAGE_SIZE buf) 0, cs, st)))))"

subsection \<open>The loop\<close>

text \<open>How a session of the server is left: it is still serving, it returned, or it returned after \<open>cleanup_rdma_cb\<close>.\<close>

datatype session = Serving | Returned | Cleaned_Up

definition op_turn ::
  "op_env \<Rightarrow> op_posts \<Rightarrow> operation_descriptor completion list \<Rightarrow> op_server \<Rightarrow>
   (session \<times> operation_descriptor completion list \<times> op_server) res" where
  "op_turn E p cs st =
     rbind (wait_cq_event_and_poll cs) (\<lambda>(c, cs).
     rbind (do_operation E (op_read p) cs (op_arrive c st)) (\<lambda>(x, cs, st).
       (let result = \<lparr>or_cmd = od_cmd (os_desc_rx st), or_id = od_id (os_desc_rx st), or_xxhash = x\<rparr>
        in if \<not> os_result_mr st then Inl Null_Deref
           else if op_send p \<noteq> 0 then Inr (Cleaned_Up, cs, st)
           else
             rbind (wait_cq_event_and_poll cs) (\<lambda>(c, cs).
               (let st = op_arrive c (st\<lparr>os_sent := os_sent st @ [result]\<rparr>)
                in if op_recv p \<noteq> 0 then Inr (Cleaned_Up, cs, st)
                   else Inr (Serving, cs, st\<lparr>os_recvs := os_recvs st + 1, os_iteration := os_iteration st + 1\<rparr>))))))"

primrec op_turns ::
  "op_env \<Rightarrow> op_posts list \<Rightarrow> operation_descriptor completion list \<Rightarrow> op_server \<Rightarrow>
   (session \<times> operation_descriptor completion list \<times> op_server) res" where
  "op_turns E [] cs st = Inr (Serving, cs, st)"
| "op_turns E (p # ps) cs st =
     rbind (op_turn E p cs st) (\<lambda>(session, cs, st). if session = Serving then op_turns E ps cs st else Inr (session, cs, st))"

text \<open>
  The answers while the buffers are set up. The function returns at once when one of them fails, with the connection still
  established.
\<close>

record op_setup =
  su_memcmp_buf :: bool
  su_memcmp_mr :: bool
  su_hash_buf :: bool
  su_hash_mr :: bool

definition on_established_ops_offload_mode ::
  "op_env \<Rightarrow> op_setup \<Rightarrow> op_posts list \<Rightarrow> operation_descriptor completion list \<Rightarrow> op_server \<Rightarrow>
   (session \<times> operation_descriptor completion list \<times> op_server) res" where
  "on_established_ops_offload_mode E su ps cs st =
     (if \<not> su_memcmp_buf su \<or> \<not> su_memcmp_mr su \<or> \<not> su_hash_buf su \<or> \<not> su_hash_mr su then Inr (Returned, cs, st)
      else op_turns E ps cs st)"

subsection \<open>The two functions of the host\<close>

text \<open>A page is its bytes. The functions of the kernel are arguments.\<close>

type_synonym 'a styx_result = "('a \<times> u64 \<times> schedule \<times> ksm_cb) res"

definition do_memcmp_pages ::
  "(u8 list \<Rightarrow> u8 list \<Rightarrow> int) \<Rightarrow> rdma_state \<Rightarrow> styx_try \<Rightarrow> u64 \<Rightarrow> schedule \<Rightarrow> ksm_cb \<Rightarrow> u8 list \<Rightarrow> u8 list \<Rightarrow> int styx_result" where
  "do_memcmp_pages memcmp_pages s so iteration ess cb page1 page2 =
     rbind (is_styx_offload s) (\<lambda>styx.
       if styx then ksm_rdma_styx_memcmp so iteration ess cb
       else Inr (memcmp_pages page1 page2, iteration, ess, cb))"

definition calc_checksum :: "(u8 list \<Rightarrow> u64 \<Rightarrow> u64) \<Rightarrow> u8 list \<Rightarrow> u32" where
  "calc_checksum xxhash page = ucast (xxhash page 0)"

definition do_calc_checksum ::
  "(u8 list \<Rightarrow> u64 \<Rightarrow> u64) \<Rightarrow> rdma_state \<Rightarrow> styx_try \<Rightarrow> u64 \<Rightarrow> schedule \<Rightarrow> ksm_cb \<Rightarrow> u8 list \<Rightarrow> u32 styx_result" where
  "do_calc_checksum xxhash s so iteration ess cb page =
     rbind (is_styx_offload s) (\<lambda>styx.
       if styx then rbind (ksm_rdma_styx_hash so iteration ess cb) (\<lambda>(hash, rest). Inr (ucast hash, rest))
       else Inr (calc_checksum xxhash page, iteration, ess, cb))"

section \<open>What the server answers\<close>

lemma memcmp_diff_int: "- 2147483648 \<le> memcmp_diff xs ys \<and> memcmp_diff xs ys < 2147483648"
proof (induction xs ys rule: memcmp_diff.induct)
  case (1 x xs y ys)
  have "uint x < 256" "uint y < 256" "0 \<le> uint x" "0 \<le> uint y" using uint_lt2p [of x] uint_lt2p [of y] by simp_all
  then have "- 2147483648 \<le> uint x - uint y \<and> uint x - uint y < 2147483648" by linarith
  then show ?case using 1 by simp
qed simp_all

interpretation bytes: memcmp_function memcmp_diff
  by unfold_locales (simp_all add: memcmp_diff_int)

lemma memcmp_diff_zero: "length xs = length ys \<Longrightarrow> memcmp_diff xs ys = 0 \<longleftrightarrow> xs = ys"
  by (induction xs ys rule: memcmp_diff.induct) (auto simp: word_uint_eq_iff)

definition op_valid :: "operation_descriptor \<Rightarrow> bool" where
  "op_valid d \<longleftrightarrow> od_page_num d = (case od_cmd d of PAGE_COMPARE \<Rightarrow> 2 | PAGE_HASH \<Rightarrow> 1)"

definition op_answer :: "op_env \<Rightarrow> operation_descriptor \<Rightarrow> operation_result" where
  "op_answer E d =
     \<lparr>or_cmd = od_cmd d, or_id = od_id d,
      or_xxhash = (case od_cmd d of
         PAGE_COMPARE \<Rightarrow>
           (let buf = op_remote E (ucast (od_rkey d)) (od_iova d) (PAGE_SIZE * 2)
            in op_value (op_memcmp E (take PAGE_SIZE buf) (take PAGE_SIZE (drop PAGE_SIZE buf))))
       | PAGE_HASH \<Rightarrow> op_XXH64 E (take PAGE_SIZE (op_remote E (ucast (od_rkey d)) (od_iova d) PAGE_SIZE)) 0)\<rparr>"

lemma op_answer_id [simp]: "or_id (op_answer E d) = od_id d"
  by (simp add: op_answer_def)

definition good_posts :: op_posts where
  "good_posts = \<lparr>op_read = 0, op_send = 0, op_recv = 0\<rparr>"

definition op_events :: "operation_descriptor \<Rightarrow> operation_descriptor completion list" where
  "op_events d = [Received d, Read_Done, Send_Done]"

definition answered :: "op_env \<Rightarrow> operation_descriptor \<Rightarrow> op_server \<Rightarrow> op_server" where
  "answered E d st =
     st\<lparr>os_desc_rx := d, os_sent := os_sent st @ [op_answer E d], os_recvs := os_recvs st - 1 + 1, os_iteration := os_iteration st + 1\<rparr>"

lemma answered_mr: "os_result_mr (answered E d st) = os_result_mr st"
  by (simp add: answered_def)

lemma op_turn_answers: "op_valid d \<Longrightarrow> os_result_mr st \<Longrightarrow> op_turn E good_posts (op_events d @ cs) st = Inr (Serving, cs, answered E d st)"
  by (cases "od_cmd d")
    (simp_all add: op_turn_def op_events_def good_posts_def wait_cq_event_and_poll_def do_operation_def rdma_read_page_def
      rdma_read_memory_def op_arrive_def op_valid_def op_answer_def answered_def Let_def)

lemma op_turns_answer:
  assumes "\<forall>d \<in> set ds. op_valid d" and "os_result_mr st"
  shows "op_turns E (replicate (length ds) good_posts) (concat (map op_events ds) @ cs) st = Inr (Serving, cs, fold (answered E) ds st)"
  using assms by (induction ds arbitrary: st) (simp_all add: op_turn_answers answered_mr)

lemma fold_answered:
  "os_sent (fold (answered E) ds st) = os_sent st @ map (op_answer E) ds"
  "1 \<le> os_recvs st \<Longrightarrow> os_recvs (fold (answered E) ds st) = os_recvs st"
  "os_iteration (fold (answered E) ds st) = os_iteration st + length ds"
  by (induction ds arbitrary: st) (simp_all add: answered_def)


text \<open>
  C30. The server answers every operation: whatever requests arrive one after the other, each is answered in the order of
  arrival with its own command and id, and with the comparison or the hash of the pages it names; a receive for the next
  request is posted again every time.
\<close>

theorem operations_are_served:
  assumes "\<forall>d \<in> set ds. op_valid d" and "os_result_mr st" and "1 \<le> os_recvs st"
  shows "\<exists>st'. on_established_ops_offload_mode E \<lparr>su_memcmp_buf = True, su_memcmp_mr = True, su_hash_buf = True, su_hash_mr = True\<rparr>
      (replicate (length ds) good_posts) (concat (map op_events ds)) st = Inr (Serving, [], st') \<and>
    os_sent st' = os_sent st @ map (op_answer E) ds \<and> os_recvs st' = os_recvs st \<and> os_iteration st' = os_iteration st + length ds"
  using op_turns_answer [OF assms(1,2), of E "[]"] fold_answered [where E = E and ds = ds and st = st] assms(3)
  by (simp add: on_established_ops_offload_mode_def)

definition sample_op_env :: op_env where
  "sample_op_env = \<lparr>op_memcmp = memcmp_diff, op_XXH64 = (\<lambda>bs seed. seed + (case bs of [] \<Rightarrow> 0 | b # _ \<Rightarrow> 0x9ABCDEF000000000 + ucast b)),
     op_remote = (\<lambda>rkey addr n. ucast rkey # replicate (n - 1) 9)\<rparr>"

definition sample_op_server :: op_server where
  "sample_op_server = \<lparr>os_result_mr = True, os_desc_rx = \<lparr>od_cmd = PAGE_COMPARE, od_id = 0, od_rkey = 0, od_iova = 0, od_page_num = 0\<rparr>,
     os_sent = [], os_recvs = 1, os_iteration = 0\<rparr>"

theorem operations_are_served_witness:
  "\<exists>st' r1 r2. on_established_ops_offload_mode sample_op_env
      \<lparr>su_memcmp_buf = True, su_memcmp_mr = True, su_hash_buf = True, su_hash_mr = True\<rparr> [good_posts, good_posts]
      (op_events \<lparr>od_cmd = PAGE_COMPARE, od_id = 4, od_rkey = 7, od_iova = 0x7000, od_page_num = 2\<rparr> @
       op_events \<lparr>od_cmd = PAGE_HASH, od_id = 5, od_rkey = 8, od_iova = 0x8000, od_page_num = 1\<rparr>) sample_op_server =
      Inr (Serving, [], st') \<and> os_sent st' = [r1, r2] \<and> or_id r1 = 4 \<and> or_id r2 = 5 \<and> or_xxhash r2 = 0x9ABCDEF000000008"
proof -
  let ?ds = "[\<lparr>od_cmd = PAGE_COMPARE, od_id = 4, od_rkey = 7, od_iova = 0x7000, od_page_num = 2\<rparr>,
    \<lparr>od_cmd = PAGE_HASH, od_id = 5, od_rkey = 8, od_iova = 0x8000, od_page_num = 1\<rparr>]"
  have hash: "or_xxhash (op_answer sample_op_env (?ds ! 1)) = 0x9ABCDEF000000008"
    by (simp add: op_answer_def sample_op_env_def PAGE_SIZE_def)
  have "\<forall>d \<in> set ?ds. op_valid d" by (simp add: op_valid_def)
  from operations_are_served [OF this, of sample_op_server sample_op_env] obtain st' where
    "on_established_ops_offload_mode sample_op_env \<lparr>su_memcmp_buf = True, su_memcmp_mr = True, su_hash_buf = True, su_hash_mr = True\<rparr>
      [good_posts, good_posts] (op_events (?ds ! 0) @ op_events (?ds ! 1)) sample_op_server = Inr (Serving, [], st')"
    "os_sent st' = [op_answer sample_op_env (?ds ! 0), op_answer sample_op_env (?ds ! 1)]"
    by (auto simp: sample_op_server_def numeral_2_eq_2)
  then show ?thesis using hash by (intro exI [of _ st'] exI [of _ "op_answer sample_op_env (?ds ! 0)"]
      exI [of _ "op_answer sample_op_env (?ds ! 1)"]) simp
qed

section \<open>The offloaded operations compute what the host would\<close>

text \<open>A 32-bit number comes back from the union as it was stored.\<close>

lemma or_value_op_value:
  assumes "- (2 ^ 31) \<le> v" "v < 2 ^ 31" "or_xxhash r = op_value v"
  shows "or_value r = v"
proof -
  have "(ucast (op_value v) :: u32) = word_of_int v" unfolding op_value_def by transfer (simp add: take_bit_take_bit)
  then have "or_value r = sint (word_of_int v :: u32)" by (simp add: or_value_def assms(3))
  also have "\<dots> = v" using assms(1,2) by (simp add: sint_sbintrunc' signed_take_bit_int_eq_self)
  finally show ?thesis .
qed

text \<open>The request that the host sends for its pages.\<close>

definition styx_request :: "operation_cmd \<Rightarrow> nat \<Rightarrow> styx_try \<Rightarrow> u64 \<Rightarrow> operation_descriptor" where
  "styx_request cmd page_num so iteration =
     \<lparr>od_cmd = cmd, od_id = ucast iteration, od_rkey = so_rkey so, od_iova = so_iova so, od_page_num = page_num\<rparr>"

lemma last_answered [simp]: "last (os_sent (answered E d st)) = op_answer E d"
  by (simp add: answered_def)

text \<open>
  C31. Comparing two pages on the SmartNIC agrees with comparing them on the host. The server answers the request that the
  host sends for the two pages; when this answer has arrived, \<open>do_memcmp_pages\<close> returns a number with the sign of the
  comparison by the host, and 0 exactly if the pages are equal, so the stable tree is searched and filled in the same order in both modes.
\<close>

theorem offloaded_comparison_agrees:
  assumes "memcmp_function (op_memcmp E)" and "memcmp_function memcmp_pages"
    and "op_remote E (ucast (so_rkey so)) (so_iova so) (PAGE_SIZE * 2) = page1 @ page2"
    and "length page1 = PAGE_SIZE" and "length page2 = PAGE_SIZE"
    and "op_works so" and "cb_cq cb = []" and "cb_qp cb" and "is_styx_offload s = Inr True" and "is_styx_offload s' = Inr False"
    and "os_result_mr st" and "op_turn E good_posts (op_events (styx_request PAGE_COMPARE 2 so iteration) @ cs) st = Inr (Serving, cs, st')"
    and "concat pre = op_received (last (os_sent st'))"
  shows "\<exists>v w rest rest' cb'. do_memcmp_pages memcmp_pages s so iteration (pre @ post) cb page1 page2 = Inr (v, iteration + 1, rest, cb') \<and>
      cb_single_op_desc cb' = styx_request PAGE_COMPARE 2 so iteration \<and>
      do_memcmp_pages memcmp_pages s' so iteration (pre @ post) cb page1 page2 = Inr (w, rest') \<and> sgn v = sgn w \<and> (v = 0 \<longleftrightarrow> page1 = page2)"
proof -
  let ?d = "styx_request PAGE_COMPARE 2 so iteration"
  let ?v = "op_memcmp E page1 page2"
  have "op_valid ?d" by (simp add: op_valid_def styx_request_def)
  then have st': "st' = answered E ?d st" using assms(11,12) op_turn_answers by simp
  have x: "or_xxhash (op_answer E ?d) = op_value ?v"
    using assms(3-5) by (simp add: op_answer_def styx_request_def Let_def)
  have c: "concat pre = op_received (op_answer E ?d)" using assms(13) st' by simp
  from styx_operation_ok [OF assms(6-8) c, of PAGE_COMPARE 2 iteration post] obtain ess' cb' where
    "styx_operation PAGE_COMPARE 2 so iteration (pre @ post) cb = Inr (Some (op_answer E ?d), iteration + 1, ess', cb')"
    "cb_single_op_desc cb' = ?d" unfolding styx_request_def by blast
  moreover have "or_value (op_answer E ?d) = ?v"
    by (rule or_value_op_value [OF memcmp_function.memcmp_int [OF assms(1)] x])
  moreover have "sgn ?v = sgn (memcmp_pages page1 page2)"
    using memcmp_function.memcmp_sign [OF assms(1), of page1 page2] memcmp_function.memcmp_sign [OF assms(2), of page1 page2] assms(4,5) by simp
  moreover have "?v = 0 \<longleftrightarrow> page1 = page2"
    using memcmp_function.memcmp_zero [OF assms(1), of page1 page2] memcmp_diff_zero [of page1 page2] assms(4,5) by simp
  ultimately show ?thesis using assms(9,10) by (simp add: do_memcmp_pages_def ksm_rdma_styx_memcmp_def)
qed

text \<open>
  C32. Hashing a page on the SmartNIC gives the checksum the host would compute, if \<open>xxhash\<close> of the kernel is XXH64 with the
  same seed, as it is on a 64-bit machine: although the client returns the hash through an \<open>int\<close>, the 32 bits that
  \<open>do_calc_checksum\<close> keeps are the same.
\<close>

theorem offloaded_checksum_agrees:
  assumes "\<And>bytes seed. length bytes = PAGE_SIZE \<Longrightarrow> xxhash bytes seed = op_XXH64 E bytes seed"
    and "op_remote E (ucast (so_rkey so)) (so_iova so) PAGE_SIZE = page" and "length page = PAGE_SIZE"
    and "op_works so" and "cb_cq cb = []" and "cb_qp cb" and "is_styx_offload s = Inr True" and "is_styx_offload s' = Inr False"
    and "os_result_mr st" and "op_turn E good_posts (op_events (styx_request PAGE_HASH 1 so iteration) @ cs) st = Inr (Serving, cs, st')"
    and "concat pre = op_received (last (os_sent st'))"
  shows "\<exists>checksum rest rest' cb'. do_calc_checksum xxhash s so iteration (pre @ post) cb page = Inr (checksum, iteration + 1, rest, cb') \<and>
      cb_single_op_desc cb' = styx_request PAGE_HASH 1 so iteration \<and>
      do_calc_checksum xxhash s' so iteration (pre @ post) cb page = Inr (checksum, rest')"
proof -
  let ?d = "styx_request PAGE_HASH 1 so iteration"
  have "op_valid ?d" by (simp add: op_valid_def styx_request_def)
  then have st': "st' = answered E ?d st" using assms(9,10) op_turn_answers by simp
  have x: "or_xxhash (op_answer E ?d) = op_XXH64 E page 0"
    using assms(2,3) by (simp add: op_answer_def styx_request_def Let_def)
  have c: "concat pre = op_received (op_answer E ?d)" using assms(11) st' by simp
  from styx_operation_ok [OF assms(4-6) c, of PAGE_HASH 1 iteration post] obtain ess' cb' where
    "styx_operation PAGE_HASH 1 so iteration (pre @ post) cb = Inr (Some (op_answer E ?d), iteration + 1, ess', cb')"
    "cb_single_op_desc cb' = ?d" unfolding styx_request_def by blast
  moreover have "(ucast (word_of_int (or_value (op_answer E ?d)) :: u64) :: u32) = calc_checksum xxhash page"
    unfolding or_value_def low_extended using x assms(1,3) by (simp add: calc_checksum_def)
  ultimately show ?thesis using assms(7,8) by (simp add: do_calc_checksum_def ksm_rdma_styx_hash_def)
qed


definition sample_styx :: styx_try where
  "sample_styx = \<lparr>so_sgt = True, so_mr = True, so_reg_posted = 0, so_reg = [wc_ok WR_REG_MR WC_REG_MR], so_posted = 0,
     so_post_recv = 0, so_inv_posted = 0, so_rkey = 7, so_iova = 0x7000\<rparr>"

lemma sample_op_works: "op_works sample_styx"
  by (simp add: op_works_def sample_styx_def)

definition sample_bytes :: "u8 \<Rightarrow> u8 list" where
  "sample_bytes b = b # replicate (PAGE_SIZE - 1) 9"

lemma sample_bytes_length [simp]: "length (sample_bytes b) = PAGE_SIZE"
  by (simp add: sample_bytes_def PAGE_SIZE_def)

lemma sample_op_remote:
  "op_remote sample_op_env 7 addr PAGE_SIZE = sample_bytes 7"
  "op_remote sample_op_env 7 addr (PAGE_SIZE * 2) = sample_bytes 7 @ sample_bytes 9"
proof -
  show "op_remote sample_op_env 7 addr PAGE_SIZE = sample_bytes 7" by (simp add: sample_op_env_def sample_bytes_def)
  have "replicate 8191 (9 :: u8) = replicate 4095 9 @ 9 # replicate 4095 9"
    using replicate_add [of 4095 4096 "9 :: u8"] replicate_Suc [of 4095 "9 :: u8"] by simp
  then show "op_remote sample_op_env 7 addr (PAGE_SIZE * 2) = sample_bytes 7 @ sample_bytes 9"
    by (simp add: sample_op_env_def sample_bytes_def PAGE_SIZE_def)
qed

lemma sample_memcmp: "memcmp_function (op_memcmp sample_op_env)"
  using bytes.memcmp_function_axioms by (simp add: sample_op_env_def)

lemma sample_mode:
  "is_styx_offload (decided_state SINGLE_OPERATION_OFFLOAD True None) = Inr True"
  "is_styx_offload (decided_state KSM_OFFLOAD True None) = Inr False"
  by (simp_all add: is_styx_offload_def decided_state_def)

text \<open>The first page starts with a 7, the second with a 9: the answer is negative.\<close>

theorem offloaded_comparison_agrees_witness:
  "\<exists>v rest. do_memcmp_pages memcmp_diff (decided_state SINGLE_OPERATION_OFFLOAD True None) sample_styx 1
      [op_received (op_answer sample_op_env (styx_request PAGE_COMPARE 2 sample_styx 1))] sample_cb (sample_bytes 7) (sample_bytes 9) =
      Inr (v, rest) \<and> v < 0"
proof -
  let ?d = "styx_request PAGE_COMPARE 2 sample_styx 1"
  have "op_turn sample_op_env good_posts (op_events ?d @ []) sample_op_server = Inr (Serving, [], answered sample_op_env ?d sample_op_server)"
    by (rule op_turn_answers) (simp_all add: op_valid_def styx_request_def sample_op_server_def)
  note a = offloaded_comparison_agrees [where s = "decided_state SINGLE_OPERATION_OFFLOAD True None" and s' = "decided_state KSM_OFFLOAD True None"
      and so = sample_styx and cb = sample_cb and pre = "[op_received (op_answer sample_op_env ?d)]" and post = "[]",
      OF sample_memcmp bytes.memcmp_function_axioms _ sample_bytes_length [of 7] sample_bytes_length [of 9] _ _ _ sample_mode _ this]
  have "op_works sample_styx" "op_remote sample_op_env (ucast (so_rkey sample_styx)) (so_iova sample_styx) (PAGE_SIZE * 2) = sample_bytes 7 @ sample_bytes 9"
    using sample_op_works sample_op_remote(2) by (simp_all add: sample_styx_def)
  with a obtain v w rest rest' where
    "do_memcmp_pages memcmp_diff (decided_state SINGLE_OPERATION_OFFLOAD True None) sample_styx 1
      [op_received (op_answer sample_op_env ?d)] sample_cb (sample_bytes 7) (sample_bytes 9) = Inr (v, rest)"
    "do_memcmp_pages memcmp_diff (decided_state KSM_OFFLOAD True None) sample_styx 1
      [op_received (op_answer sample_op_env ?d)] sample_cb (sample_bytes 7) (sample_bytes 9) = Inr (w, rest')" "sgn v = sgn w"
    by (auto simp: sample_cb_def sample_op_server_def)
  moreover from this(2) have "w < 0" by (simp add: do_memcmp_pages_def sample_mode sample_bytes_def)
  ultimately show ?thesis by (cases rest) (auto simp: sgn_if split: if_splits)
qed

theorem offloaded_checksum_agrees_witness:
  "\<exists>rest. do_calc_checksum (op_XXH64 sample_op_env) (decided_state SINGLE_OPERATION_OFFLOAD True None) sample_styx 1
      [op_received (op_answer sample_op_env (styx_request PAGE_HASH 1 sample_styx 1))] sample_cb (sample_bytes 7) = Inr (0x00000007, rest)"
proof -
  let ?d = "styx_request PAGE_HASH 1 sample_styx 1"
  have "op_turn sample_op_env good_posts (op_events ?d @ []) sample_op_server = Inr (Serving, [], answered sample_op_env ?d sample_op_server)"
    by (rule op_turn_answers) (simp_all add: op_valid_def styx_request_def sample_op_server_def)
  note a = offloaded_checksum_agrees [where s = "decided_state SINGLE_OPERATION_OFFLOAD True None" and s' = "decided_state KSM_OFFLOAD True None"
      and so = sample_styx and cb = sample_cb and pre = "[op_received (op_answer sample_op_env ?d)]" and post = "[]" and page = "sample_bytes 7",
      OF refl _ sample_bytes_length _ _ _ sample_mode _ this]
  have "op_works sample_styx" "op_remote sample_op_env (ucast (so_rkey sample_styx)) (so_iova sample_styx) PAGE_SIZE = sample_bytes 7"
    using sample_op_works sample_op_remote(1) by (simp_all add: sample_styx_def)
  with a obtain checksum rest rest' where
    "do_calc_checksum (op_XXH64 sample_op_env) (decided_state SINGLE_OPERATION_OFFLOAD True None) sample_styx 1
      [op_received (op_answer sample_op_env ?d)] sample_cb (sample_bytes 7) = Inr (checksum, rest)"
    "do_calc_checksum (op_XXH64 sample_op_env) (decided_state KSM_OFFLOAD True None) sample_styx 1
      [op_received (op_answer sample_op_env ?d)] sample_cb (sample_bytes 7) = Inr (checksum, rest')"
    by (auto simp: sample_cb_def sample_op_server_def)
  moreover from this(2) have "checksum = 7" by (simp add: do_calc_checksum_def calc_checksum_def sample_mode sample_bytes_def sample_op_env_def)
  ultimately show ?thesis by (cases rest) auto
qed

end
