(* ===== verification/Cmp_Old.thy ===== *)
theory Cmp_Old
  imports Server_Properties
begin

text \<open>
  The scan of a page without skipping and volatility (\<open>cmp_and_merge_one_old\<close> in \<open>server.c\<close>, chosen by the option \<open>old\<close>).
\<close>

section \<open>Definitions\<close>

definition seek_unstable_old ::
  "('t, 'h) server_env \<Rightarrow> hash_pair \<Rightarrow> addr \<Rightarrow> ('t, 'h) server \<Rightarrow> (int \<times> ('t, 'h) server) res" where
  "seek_unstable_old E curr_hash curr_item s =
     rbind (deref (items s) curr_item) (\<lambda>it.
     rbind (cmp_with_unstable E curr_item (set_item curr_item (it\<lparr>ri_old_hash := curr_hash\<rparr>) s)) (\<lambda>(partner, s).
       case partner of
         Some unstable_node \<Rightarrow>
           rbind (deref (items s) unstable_node) (\<lambda>uit.
           rbind (guard_stop ''Checksum mismatch'' (compare_hash_pair_equal (ri_old_hash uit) curr_hash)) (\<lambda>_.
             promote_unstable E curr_hash unstable_node curr_item s))
       | None \<Rightarrow> become_unstable E curr_hash curr_item s))"

text \<open>The stable nodes are searched for every page, also for one that has changed since its last scan.\<close>

definition scan_volatile_old ::
  "('t, 'h) server_env \<Rightarrow> hash_pair \<Rightarrow> addr \<Rightarrow> ('t, 'h) server \<Rightarrow> (int \<times> ('t, 'h) server) res" where
  "scan_volatile_old E curr_hash curr_item s =
     rbind (cmp_with_stable E curr_hash s) (\<lambda>found.
       case found of
         Some stable_node \<Rightarrow>
           rbind (deref (nodes s) stable_node) (\<lambda>nd.
           rbind (guard_stop ''Invalid shared count for stable node'' (\<not> sn_shared_cnt nd \<ge> MAX_PAGE_SHARING)) (\<lambda>_.
           rbind (join_stable E stable_node curr_item s) (\<lambda>s. Inr (0, s))))
       | None \<Rightarrow>
           rbind (deref (items s) curr_item) (\<lambda>it.
             if compare_hash_pair_equal (ri_old_hash it) curr_hash then seek_unstable_old E curr_hash curr_item s
             else Inr (0, set_item curr_item (it\<lparr>ri_old_hash := curr_hash\<rparr>) s)))"

text \<open>As in \<open>cmp_again\<close>, the fuel counts the passes through the label; the jump is taken at most once.\<close>

fun cmp_again_old ::
  "nat \<Rightarrow> ('t, 'h) server_env \<Rightarrow> hash_pair option \<Rightarrow> u8 list \<Rightarrow> addr \<Rightarrow> ('t, 'h) server \<Rightarrow> (int \<times> ('t, 'h) server) res" where
  "cmp_again_old 0 E pre page curr_item s = Inl Diverged"
| "cmp_again_old (Suc fuel) E pre page curr_item s =
     rbind (deref (items s) curr_item) (\<lambda>it.
       case ri_state it of
         Item_None \<Rightarrow> Inl (Stopped ''Invalid state for item'')
       | Unstable \<Rightarrow> Inl (Stopped ''Invalid state for item'')
       | Stable \<Rightarrow>
           (case ri_stable_node it of
              None \<Rightarrow> Inl Null_Deref
            | Some curr_node \<Rightarrow>
                rbind (deref (nodes s) curr_node) (\<lambda>nd.
                  if sn_pfn nd \<noteq> ri_pfn it then
                    rbind (detach_item E curr_node curr_item s) (cmp_again_old fuel E pre page curr_item)
                  else
                    rbind (refresh_stable E (calculate_hash_pair E pre page) curr_node curr_item s) (\<lambda>s. Inr (0, s))))
       | Volatile \<Rightarrow> scan_volatile_old E (calculate_hash_pair E pre page) curr_item s)"

definition cmp_and_merge_one_old ::
  "('t, 'h) server_env \<Rightarrow> hash_pair option \<Rightarrow> u8 list \<Rightarrow> addr \<Rightarrow> ('t, 'h) server \<Rightarrow> (int \<times> ('t, 'h) server) res" where
  "cmp_and_merge_one_old = cmp_again_old 2"

section \<open>Correctness\<close>

definition old_events ::
  "('t, 'h) server_env \<Rightarrow> hash_pair \<Rightarrow> rmap_item \<Rightarrow> ('t, 'h) server \<Rightarrow> ksm_event_log list" where
  "old_events E hash it s =
     (case cmp_with_stable E hash s of
        Inr (Some n) \<Rightarrow> (case nodes s n of Some nd \<Rightarrow> [stable_event it nd] | None \<Rightarrow> [])
      | _ \<Rightarrow> if ri_old_hash it = hash then waiting_events E hash it s else [])"

context server_runtime
begin

lemma seek_unstable_old_ok:
  assumes inv: "server_inv E s" and a: "items s a = Some it" "ri_state it = Volatile"
    and frame: "frame (item_key it) = ri_pfn it"
  shows "(\<exists>s'. seek_unstable_old E hash a s = Inr (0, s') \<and> advance E frame a (waiting_events E hash it s) s s') \<or>
    malloc_node E (nodes s) = None \<and> (\<exists>s'. seek_unstable_old E hash a s = Inr (- 1, s'))"
proof -
  let ?it = "it\<lparr>ri_old_hash := hash\<rparr>"
  define s1 where s1: "s1 = set_item a ?it s"
  have adv1: "advance E frame a [] s s1" unfolding s1
    by (rule advance_set_item [OF inv a(1)]) (use a(2) in \<open>simp_all add: item_key_def\<close>)
  have a1: "items s1 a = Some ?it" "ri_state ?it = Volatile" and m1: "nodes s1 = nodes s"
    and l1: "unstable_lookup E s1 = unstable_lookup E s"
    using a(2) by (simp_all add: s1)
  have f: "frame (item_key ?it) = ri_pfn ?it" using frame by (simp add: item_key_def)
  have run: "seek_unstable_old E hash a s = rbind (cmp_with_unstable E a s1) (\<lambda>(partner, s).
       case partner of
         Some unstable_node \<Rightarrow>
           rbind (deref (items s) unstable_node) (\<lambda>uit.
           rbind (guard_stop ''Checksum mismatch'' (compare_hash_pair_equal (ri_old_hash uit) hash)) (\<lambda>_.
             promote_unstable E hash unstable_node a s))
       | None \<Rightarrow> become_unstable E hash a s)"
    using a by (simp add: seek_unstable_old_def s1)
  consider "cmp_with_unstable E a s1 = Inr (None, s1)" "unstable_lookup E s1 hash = None"
    | u t uit where "cmp_with_unstable E a s1 = Inr (Some u, s1\<lparr>unstable_hash_table := t\<rparr>)"
       "meta_inv E {} {u} {} (s1\<lparr>unstable_hash_table := t\<rparr>)" "items s1 u = Some uit" "ri_state uit = Unstable"
       "unstable_lookup E s1 hash = Some u"
    using cmp_with_unstable_ok [OF advanceD(1) [OF adv1] a1(1)] by auto
  then show ?thesis
  proof cases
    case 1
    from become_unstable_ok [where frame = frame, OF advanceD(1) [OF adv1] a1 1(2)] obtain s' where
      2: "become_unstable E hash a s1 = Inr (0, s')" "advance E frame a [] s1 s'" by blast
    moreover have "waiting_events E hash it s = []" using 1(2) l1 by (simp add: waiting_events_def)
    ultimately show ?thesis using run 1(1) advance_trans [OF adv1 2(2)] by simp
  next
    case (2 u t uit)
    let ?s2 = "s1\<lparr>unstable_hash_table := t\<rparr>"
    have "u \<noteq> a" using 2(3,4) a1 by auto
    then have w: "waiting_events E hash it s = [unstable_event ?it uit]"
      using 2(3,5) l1 by (simp add: waiting_events_def s1 unstable_event_def)
    have "ri_old_hash uit = hash"
      using inv_unstable_lookupD [OF meta_invD(2) [OF server_invD [OF advanceD(1) [OF adv1]]] 2(5)] 2(3) by auto
    then have go: "seek_unstable_old E hash a s = promote_unstable E hash u a ?s2" using run 2(1,3) by simp
    show ?thesis
    proof (cases "malloc_node E (nodes s)")
      case None
      then show ?thesis using go m1 by (simp add: promote_unstable_def)
    next
      case (Some n)
      have "items ?s2 u = Some uit" "items ?s2 a = Some ?it" "malloc_node E (nodes ?s2) = Some n" using 2(3) a1 m1 Some by simp_all
      from promote_unstable_ok [where frame = frame, OF 2(2) this(1) 2(4) this(2) a1(2) f this(3), of hash] obtain s3 where
        3: "promote_unstable E hash u a ?s2 = Inr (0, s3)" "advance E frame a [unstable_event ?it uit] ?s2 s3" by blast
      have sh: "sharing E ?s2 = sharing E s1" by (intro sharing_cong frame_of_cong pfn_of_nodes) simp_all
      have "advance E frame a [unstable_event ?it uit] s1 s3" by (rule advance_from [OF 3(2)]) (use sh in simp_all)
      then show ?thesis using go 3(1) advance_trans [OF adv1] w by fastforce
    qed
  qed
qed

lemma scan_volatile_old_ok:
  assumes inv: "server_inv E s" and a: "items s a = Some it" "ri_state it = Volatile"
    and frame: "ri_old_hash it = hash \<Longrightarrow> frame (item_key it) = ri_pfn it"
  shows "(\<exists>s'. scan_volatile_old E hash a s = Inr (0, s') \<and> advance E frame a (old_events E hash it s) s s') \<or>
    malloc_node E (nodes s) = None \<and> ri_old_hash it = hash \<and> (\<exists>s'. scan_volatile_old E hash a s = Inr (- 1, s'))"
proof -
  obtain r where r: "cmp_with_stable E hash s = Inr r"
    "\<And>n. r = Some n \<Longrightarrow> \<exists>nd. nodes s n = Some nd \<and> sn_shared_cnt nd < MAX_PAGE_SHARING"
    using cmp_with_stable_ok [OF inv, of hash] by blast
  show ?thesis
  proof (cases r)
    case (Some n)
    then obtain nd where nd: "nodes s n = Some nd" "sn_shared_cnt nd < MAX_PAGE_SHARING" using r(2) by blast
    from join_stable_ok [where frame = frame, OF inv a nd] obtain s' where
      "join_stable E n a s = Inr s'" "advance E frame a [stable_event it nd] s s'" by blast
    then show ?thesis using r(1) Some nd by (simp add: scan_volatile_old_def old_events_def)
  next
    case None
    show ?thesis
    proof (cases "ri_old_hash it = hash")
      case True
      from seek_unstable_old_ok [where frame = frame and hash = hash, OF inv a frame [OF True]] show ?thesis
        using r(1) None a True by (simp add: scan_volatile_old_def old_events_def)
    next
      case False
      have "advance E frame a [] s (set_item a (it\<lparr>ri_old_hash := hash\<rparr>) s)"
        by (rule advance_set_item [OF inv a(1)]) (use a(2) in \<open>simp_all add: item_key_def\<close>)
      then show ?thesis using r(1) None a False by (simp add: scan_volatile_old_def old_events_def)
    qed
  qed
qed

lemma cmp_and_merge_one_old_ok:
  assumes inv: "server_inv E s" and a: "items s a = Some it" "ri_state it \<noteq> Unstable"
    and frame: "frame (item_key it) = ri_pfn it" and null: "calculate_hash_pair E pre page \<noteq> null_hash"
  shows "(\<exists>s' evs. cmp_and_merge_one_old E pre page a s = Inr (0, s') \<and> advance E frame a evs s s' \<and>
      (ri_state it = Volatile \<longrightarrow> evs = old_events E (calculate_hash_pair E pre page) it s)) \<or>
    malloc_node E (nodes s) = None \<and> (\<exists>s'. cmp_and_merge_one_old E pre page a s = Inr (- 1, s'))"
proof -
  let ?hash = "calculate_hash_pair E pre page"
  note d = meta_invD [OF server_invD [OF inv]]
  have "ri_state it \<noteq> Item_None" using inv_rmap_itemD [OF d(1) a(1)] by simp
  then consider (vol) "ri_state it = Volatile" | (st) "ri_state it = Stable"
    using a(2) by (cases "ri_state it") auto
  then show ?thesis
  proof cases
    case vol
    then have "cmp_and_merge_one_old E pre page a s = scan_volatile_old E ?hash a s"
      using a by (simp add: cmp_and_merge_one_old_def numeral_2_eq_2)
    then show ?thesis
      using scan_volatile_old_ok [where frame = frame and hash = ?hash, OF inv a(1) vol frame] by auto
  next
    case st
    from inv_itemsD [OF d(3) a(1) st] obtain n nd where
      n: "ri_stable_node it = Some n" "nodes s n = Some nd" by auto
    show ?thesis
    proof (cases "sn_pfn nd = ri_pfn it")
      case True
      from refresh_stable_ok [where frame = frame, OF inv a(1) st n(1), of ?hash] obtain s1 where
        "refresh_stable E ?hash n a s = Inr s1" "advance E frame a [] s s1" by blast
      then show ?thesis using a st n True by (auto simp: cmp_and_merge_one_old_def numeral_2_eq_2)
    next
      case False
      obtain s1 where s1: "detach_item E n a s = Inr s1" "detached E a it s s1"
        using detach_item_ok [OF inv a(1) st n(1)] by blast
      from detached_advance [OF s1(2)] obtain e where
        e: "advance E frame a [e] s s1" "items s1 a = Some (reset_item it)" by blast
      have it1: "ri_state (reset_item it) = Volatile" "ri_old_hash (reset_item it) = null_hash" by (simp_all add: reset_item_def)
      have "cmp_and_merge_one_old E pre page a s = scan_volatile_old E ?hash a s1"
        using a st n False s1 e it1 by (simp add: cmp_and_merge_one_old_def numeral_2_eq_2)
      moreover from scan_volatile_old_ok [where frame = frame and hash = ?hash, OF advanceD(1) [OF e(1)] e(2) it1(1)] it1(2) null
      obtain s' where "scan_volatile_old E ?hash a s1 = Inr (0, s')" "advance E frame a (old_events E ?hash (reset_item it) s1) s1 s'"
        by fastforce
      ultimately show ?thesis using advance_trans [OF e(1)] st by auto
    qed
  qed
qed

end

text \<open>
  C7. The older way of scanning a page keeps the metadata well formed too, and its log describes exactly how the sharing of pages
  changes. It differs in what it merges: a volatile page joins a stable node with its hash even when it has changed since its last scan,
  while it looks for a waiting page only when it has not.
\<close>

theorem older_scan_refines:
  assumes "server_runtime E" and "server_inv E s" and "items s a = Some it" and "ri_state it \<noteq> Unstable"
    and "frame (item_key it) = ri_pfn it" and "calculate_hash_pair E pre page \<noteq> null_hash"
  shows "(\<exists>s' evs. cmp_and_merge_one_old E pre page a s = Inr (0, s') \<and> server_inv E s' \<and>
      (realloc_never_fails E \<longrightarrow> logged (log_table s') = logged (log_table s) @ evs) \<and>
      sharing E s' = replay frame evs (sharing E s) \<and>
      (ri_state it = Volatile \<longrightarrow> evs = old_events E (calculate_hash_pair E pre page) it s)) \<or>
    malloc_node E (nodes s) = None \<and> (\<exists>s'. cmp_and_merge_one_old E pre page a s = Inr (- 1, s'))"
proof -
  have "log_wf (log_table s)" using assms(2) by (simp add: server_inv_def meta_inv_def)
  with server_runtime.cmp_and_merge_one_old_ok [where frame = frame, OF assms] show ?thesis
    unfolding advance_def told_def by blast
qed

text \<open>Item 3 has not been seen before, and has the contents of the shared frame 16: it is merged at once.\<close>

theorem older_scan_refines_witness:
  "(\<exists>s'. cmp_and_merge_one_old sample_env None (sample_page 7) 3 sample_shared = Inr (0, s') \<and> server_inv sample_env s' \<and>
      sharing sample_env s' = (sharing sample_env sample_shared)((2, 0x2000) \<mapsto> 16)) \<or>
    malloc_node sample_env (nodes sample_shared) = None"
proof -
  have it: "items sample_shared 3 = Some (the (items sample_shared 3))" by (simp add: sample_shared_def)
  have ev: "old_events sample_env (sample_hash_pair 7) (the (items sample_shared 3)) sample_shared =
      [stable_event (the (items sample_shared 3)) (the (nodes sample_shared 1))]"
    by (simp add: old_events_def cmp_with_stable_def sample_shared_def MAX_PAGE_SHARING_def)
  have st: "ri_state (the (items sample_shared 3)) = Volatile" by (simp add: sample_shared_def sample_item_def)
  from older_scan_refines [OF sample.server_runtime_axioms sample_shared_inv it, of "\<lambda>_. ri_pfn (the (items sample_shared 3))" None "sample_page 7"]
    st ev show ?thesis
    by (auto simp: sample_calculate_hash sample_hash_pair_null stable_event_def apply_event_def sample_shared_def sample_item_def)
qed

end
