(* ===== verification/Server_Conn.thy ===== *)
theory Server_Conn
  imports Server_Ops Cmp_Old
begin

text \<open>
  The life of the server process (\<open>server.c\<close>): it listens, accepts a connection, serves it in one of the two modes,
  and gives back what it holds (\<open>start_listening\<close>, \<open>on_connect_request\<close>, \<open>on_established\<close>, \<open>cleanup_rdma_cb\<close>,
  \<open>run_event_loop\<close>, \<open>main\<close>).
\<close>

section \<open>Definitions\<close>

subsection \<open>What the server holds\<close>

text \<open>
  \<open>struct rdma_cb\<close>: every pointer to an object of the RDMA libraries, whether the three tables and the log are there,
  and the metadata and the log themselves (\<open>cb_server\<close>).
\<close>

datatype resource =
    Event_Channel
  | Listen_Id
  | Conn_Id
  | Connection
  | Queue_Pair
  | Prot_Domain
  | Comp_Channel
  | Comp_Queue
  | Md_Desc_Mr
  | Ksm_Result_Mr
  | Single_Op_Desc_Mr
  | Single_Op_Result_Mr
  | Stable_Table
  | Unstable_Table
  | Rmap_Tree
  | Log_Entries

record ('t, 'h) rdma_cb =
  cb_holds :: "resource \<Rightarrow> addr option"
  cb_server :: "('t, 'h) server"
  cb_ops :: op_server
  cb_work :: worker_job
  cb_md_desc_rx :: metadata_descriptor
  cb_later :: bool
  cb_answers :: "(int \<times> ksm_event_log list) list"
  cb_released :: "(resource \<times> addr) list"

subsection \<open>Giving back\<close>

text \<open>A pointer that is set is released and cleared.\<close>

definition release :: "resource \<Rightarrow> ('t, 'h) rdma_cb \<Rightarrow> ('t, 'h) rdma_cb" where
  "release r cb =
     (case cb_holds cb r of
        None \<Rightarrow> cb
      | Some a \<Rightarrow> cb\<lparr>cb_holds := (cb_holds cb)(r := None), cb_released := cb_released cb @ [(r, a)]\<rparr>)"

text \<open>\<open>free_stable_node\<close>: the chain from a node on.\<close>

partial_function (option) server_free_stable_node ::
  "addr option \<Rightarrow> (addr \<Rightarrow> 't stable_node option) \<Rightarrow> (addr \<Rightarrow> 't stable_node option) res option" where
  "server_free_stable_node p h =
     (case p of
        None \<Rightarrow> Some (Inr h)
      | Some n \<Rightarrow>
          (case h n of
             None \<Rightarrow> Some (Inl Null_Deref)
           | Some nd \<Rightarrow> server_free_stable_node (sn_next nd) (h(n := None))))"

definition server_free_rmap_item :: "addr \<Rightarrow> (addr \<Rightarrow> rmap_item option) \<Rightarrow> (addr \<Rightarrow> rmap_item option) res" where
  "server_free_rmap_item a h = rbind (deref h a) (\<lambda>_. Inr (h(a := None)))"

definition free_nodes :: "('t, 'h) server_env \<Rightarrow> ('t, 'h) rdma_cb \<Rightarrow> ('t, 'h) rdma_cb res" where
  "free_nodes E cb =
     (if cb_holds cb Stable_Table = None then Inr cb
      else
        rbind (rfold (\<lambda>n h. loop_result (server_free_stable_node (Some n) h))
                 (map snd (g_entries (hash_ops E) (stable_hash_table (cb_server cb)))) (nodes (cb_server cb))) (\<lambda>h.
          Inr (cb\<lparr>cb_server := (cb_server cb)\<lparr>nodes := h\<rparr>\<rparr>)))"

definition free_items :: "('t, 'h) server_env \<Rightarrow> ('t, 'h) rdma_cb \<Rightarrow> ('t, 'h) rdma_cb res" where
  "free_items E cb =
     (if cb_holds cb Rmap_Tree = None then Inr cb
      else
        rbind (rfold server_free_rmap_item (map snd (g_entries (tree_ops E) (rmap_tree (cb_server cb)))) (items (cb_server cb))) (\<lambda>h.
          Inr (cb\<lparr>cb_server := (cb_server cb)\<lparr>items := h\<rparr>\<rparr>)))"

text \<open>The queue pair and the connection (\<open>rdma_disconnect\<close>) go only together with the identifier.\<close>

definition release_conn :: "('t, 'h) rdma_cb \<Rightarrow> ('t, 'h) rdma_cb" where
  "release_conn cb =
     (case cb_holds cb Conn_Id of
        None \<Rightarrow> cb
      | Some _ \<Rightarrow> release Conn_Id (release Connection (release Queue_Pair cb)))"

definition cleanup_rdma_cb :: "('t, 'h) server_env \<Rightarrow> ('t, 'h) rdma_cb \<Rightarrow> ('t, 'h) rdma_cb res" where
  "cleanup_rdma_cb E cb =
     rbind (free_nodes E (fold release [Listen_Id, Md_Desc_Mr, Ksm_Result_Mr] (release_conn cb))) (\<lambda>cb.
     rbind (free_items E (fold release [Stable_Table, Unstable_Table] cb)) (\<lambda>cb.
       Inr (fold release [Rmap_Tree, Log_Entries, Comp_Channel, Comp_Queue, Prot_Domain, Event_Channel] cb)))"

subsection \<open>Listening and connecting\<close>

text \<open>\<open>die\<close> ends the process: \<open>None\<close>.\<close>

record listen_try =
  ln_channel :: "addr option"
  ln_id :: "addr option"
  ln_pton :: bool
  ln_bind :: int
  ln_listen :: int

definition hold :: "resource \<Rightarrow> addr option \<Rightarrow> ('t, 'h) rdma_cb \<Rightarrow> ('t, 'h) rdma_cb" where
  "hold r a cb = cb\<lparr>cb_holds := (cb_holds cb)(r := a)\<rparr>"

definition start_listening :: "listen_try \<Rightarrow> ('t, 'h) rdma_cb \<Rightarrow> ('t, 'h) rdma_cb option" where
  "start_listening t cb =
     (if ln_channel t = None \<or> ln_id t = None \<or> \<not> ln_pton t \<or> ln_bind t \<noteq> 0 \<or> ln_listen t \<noteq> 0 then None
      else Some (hold Listen_Id (ln_id t) (hold Event_Channel (ln_channel t) cb)))"

text \<open>
  The answers to one connection request: the objects that are created, in order, and the results of posting the
  receive and of accepting.
\<close>

record connect_try =
  cn_child :: addr
  cn_pd :: "addr option"
  cn_comp_chan :: "addr option"
  cn_cq :: "addr option"
  cn_qp :: "addr option"
  cn_md_mr :: "addr option"
  cn_result_mr :: "addr option"
  cn_op_mr :: "addr option"
  cn_op_result_mr :: "addr option"
  cn_post_recv :: int
  cn_accept :: int

text \<open>
  The resources in the order in which they are created; the first that cannot be ends the function at \<open>err\<close>. The identifier of the
  connection is set together with the queue pair. \<open>single_op_result_mr\<close> is not checked: the code tests
  \<open>ksm_result_mr\<close> a second time.
\<close>

primrec acquire :: "(resource \<times> addr option) list \<Rightarrow> ('t, 'h) rdma_cb \<Rightarrow> bool \<times> ('t, 'h) rdma_cb" where
  "acquire [] cb = (True, cb)"
| "acquire (ra # ras) cb =
     (let cb = hold (fst ra) (snd ra) cb in if snd ra = None then (False, cb) else acquire ras cb)"

definition post_first_recv :: "offload_mode \<Rightarrow> int \<Rightarrow> ('t, 'h) rdma_cb \<Rightarrow> bool \<times> ('t, 'h) rdma_cb" where
  "post_first_recv mode posted cb =
     (case mode of
        SINGLE_OPERATION_OFFLOAD \<Rightarrow>
          if posted \<noteq> 0 then (False, cb) else (True, cb\<lparr>cb_ops := (cb_ops cb)\<lparr>os_recvs := os_recvs (cb_ops cb) + 1\<rparr>\<rparr>)
      | KSM_OFFLOAD \<Rightarrow> (posted = 0, cb)
      | NO_OFFLOAD \<Rightarrow> (True, cb))"

definition connect_resources :: "offload_mode \<Rightarrow> connect_try \<Rightarrow> ('t, 'h) rdma_cb \<Rightarrow> bool \<times> ('t, 'h) rdma_cb" where
  "connect_resources mode t cb =
     (let (ok, cb) = acquire [(Prot_Domain, cn_pd t), (Comp_Channel, cn_comp_chan t), (Comp_Queue, cn_cq t)] cb
      in if \<not> ok \<or> cn_qp t = None then (False, cb)
         else
           (let (ok, cb) = acquire [(Conn_Id, Some (cn_child t)), (Connection, Some (cn_child t)), (Queue_Pair, cn_qp t),
                  (Md_Desc_Mr, cn_md_mr t), (Ksm_Result_Mr, cn_result_mr t), (Single_Op_Desc_Mr, cn_op_mr t)] cb
            in if \<not> ok then (False, cb)
               else
                 (let cb = hold Single_Op_Result_Mr (cn_op_result_mr t) cb;
                      cb = cb\<lparr>cb_ops := (cb_ops cb)\<lparr>os_result_mr := cn_op_result_mr t \<noteq> None\<rparr>\<rparr>;
                      (ok, cb) = post_first_recv mode (cn_post_recv t) cb
                  in (ok \<and> cn_accept t = 0, cb))))"

definition on_connect_request :: "('t, 'h) server_env \<Rightarrow> offload_mode \<Rightarrow> connect_try \<Rightarrow> ('t, 'h) rdma_cb \<Rightarrow> ('t, 'h) rdma_cb res" where
  "on_connect_request E mode t cb =
     (let (ok, cb) = connect_resources mode t cb in if ok then Inr cb else cleanup_rdma_cb E cb)"

subsection \<open>Serving\<close>

text \<open>
  One turn of \<open>on_established\<close>: what \<open>server_round\<close> does between a request and its answer, with the completions the
  loop itself waits for and the answers of the verbs. The debug counters are reset a little earlier than in the code, where the log is
  registered in between.
\<close>

record ksm_turn =
  kt_io :: round_io
  kt_result_mr :: bool
  kt_send :: int
  kt_recv :: int

definition md_arrive :: "metadata_descriptor completion \<Rightarrow> ('t, 'h) rdma_cb \<Rightarrow> ('t, 'h) rdma_cb" where
  "md_arrive c cb = (case c of Received d \<Rightarrow> cb\<lparr>cb_md_desc_rx := d\<rparr> | _ \<Rightarrow> cb)"

definition ksm_serve ::
  "('t, 'h) server_env \<Rightarrow> ('t, 'h) ksm_ops \<Rightarrow> ksm_turn \<Rightarrow> metadata_descriptor completion list \<Rightarrow> ('t, 'h) rdma_cb \<Rightarrow>
   (session \<times> metadata_descriptor completion list \<times> ('t, 'h) rdma_cb) res" where
  "ksm_serve E ksm_ops t cs cb =
     rbind (wait_cq_event_and_poll cs) (\<lambda>(c, cs).
       (let cb = md_arrive c cb
        in rbind (server_round E ksm_ops (kt_io t) (cb_later cb) (cb_md_desc_rx cb) (cb_work cb) (cb_server cb)) (\<lambda>(r, work, s).
             (let cb = cb\<lparr>cb_work := work, cb_server := s\<rparr>
              in case r of
                   None \<Rightarrow> Inr (Cleaned_Up, cs, cb)
                 | Some answer \<Rightarrow>
                     if \<not> kt_result_mr t then Inr (Cleaned_Up, cs, cb)
                     else if kt_send t \<noteq> 0 then Inr (Cleaned_Up, cs, cb)
                     else
                       rbind (wait_cq_event_and_poll cs) (\<lambda>(c, cs).
                         (let cb = md_arrive c (cb\<lparr>cb_later := True, cb_answers := cb_answers cb @ [answer]\<rparr>)
                          in Inr (if kt_recv t \<noteq> 0 then Cleaned_Up else Serving, cs, cb)))))))"

primrec ksm_serves ::
  "('t, 'h) server_env \<Rightarrow> ('t, 'h) ksm_ops \<Rightarrow> ksm_turn list \<Rightarrow> metadata_descriptor completion list \<Rightarrow> ('t, 'h) rdma_cb \<Rightarrow>
   (session \<times> metadata_descriptor completion list \<times> ('t, 'h) rdma_cb) res" where
  "ksm_serves E ksm_ops [] cs cb = Inr (Serving, cs, cb)"
| "ksm_serves E ksm_ops (t # ts) cs cb =
     rbind (ksm_serve E ksm_ops t cs cb) (\<lambda>(session, cs, cb). if session = Serving then ksm_serves E ksm_ops ts cs cb else Inr (session, cs, cb))"

text \<open>The first wait can only be left with a completion; the page buffer and its registration come before.\<close>

definition on_established ::
  "('t, 'h) server_env \<Rightarrow> ('t, 'h) ksm_ops \<Rightarrow> bool \<Rightarrow> bool \<Rightarrow> ksm_turn list \<Rightarrow> metadata_descriptor completion list \<Rightarrow> ('t, 'h) rdma_cb \<Rightarrow>
   (session \<times> metadata_descriptor completion list \<times> ('t, 'h) rdma_cb) res" where
  "on_established E ksm_ops temp_buf temp_buf_mr ts cs cb =
     (if \<not> temp_buf \<or> \<not> temp_buf_mr then Inr (Cleaned_Up, cs, cb)
      else ksm_serves E ksm_ops ts cs (cb\<lparr>cb_later := False\<rparr>))"


subsection \<open>The event loop\<close>

text \<open>
  The events of the connection manager, each with the answers to what the server does then; an established connection with
  the answers and completions of the whole session, of which the handler that the mode of the server chooses reads its own.
  \<open>Get_Failed\<close> is an error of \<open>rdma_get_cm_event\<close>.
\<close>

record session_io =
  io_setup :: op_setup
  io_posts :: "op_posts list"
  io_ops :: "operation_descriptor completion list"
  io_temp_buf :: bool
  io_temp_mr :: bool
  io_turns :: "ksm_turn list"
  io_mds :: "metadata_descriptor completion list"

datatype server_event =
    Connect_Request connect_try
  | Established session_io
  | Disconnected
  | Timewait_Exit
  | Other_Event
  | Get_Failed

text \<open>
  A session that is still serving waits for ever; the loop goes on after one that has returned, with the event channel the
  clean-up has left. \<open>rdma_get_cm_event\<close> reads through the event channel.
\<close>

primrec run_event_loop ::
  "('t, 'h) server_env \<Rightarrow> op_env \<Rightarrow> ('t, 'h) ksm_ops \<Rightarrow> offload_mode \<Rightarrow> server_event list \<Rightarrow> ('t, 'h) rdma_cb \<Rightarrow> ('t, 'h) rdma_cb res" where
  "run_event_loop E OE ksm_ops mode [] cb = (if cb_holds cb Event_Channel = None then Inl Null_Deref else Inl Diverged)"
| "run_event_loop E OE ksm_ops mode (ev # evs) cb =
     (let go = run_event_loop E OE ksm_ops mode evs;
          after = (\<lambda>session cb. case session of
            Serving \<Rightarrow> Inl Diverged | Returned \<Rightarrow> go cb | Cleaned_Up \<Rightarrow> rbind (cleanup_rdma_cb E cb) go)
      in if cb_holds cb Event_Channel = None then Inl Null_Deref
         else
           (case ev of
              Connect_Request t \<Rightarrow> rbind (on_connect_request E mode t cb) go
            | Established io \<Rightarrow>
                (if mode = SINGLE_OPERATION_OFFLOAD then
                   rbind (on_established_ops_offload_mode OE (io_setup io) (io_posts io) (io_ops io) (cb_ops cb))
                     (\<lambda>(session, cs, st). after session (cb\<lparr>cb_ops := st\<rparr>))
                 else
                   rbind (on_established E ksm_ops (io_temp_buf io) (io_temp_mr io) (io_turns io) (io_mds io) cb)
                     (\<lambda>(session, cs, cb). after session cb))
            | Disconnected \<Rightarrow> cleanup_rdma_cb E cb
            | Timewait_Exit \<Rightarrow> cleanup_rdma_cb E cb
            | Other_Event \<Rightarrow> go cb
            | Get_Failed \<Rightarrow> Inr cb))"

text \<open>
  The state \<open>main\<close> starts from: tables and log allocated, everything else zero. The addresses of the four are the
  argument \<open>a\<close>. The clean-up at the end follows the one of the event loop.
\<close>

definition main_cb :: "('t, 'h) server_env \<Rightarrow> server_config \<Rightarrow> (resource \<Rightarrow> addr) \<Rightarrow> ('t, 'h) rdma_cb" where
  "main_cb E c a =
     \<lparr>cb_holds = (\<lambda>r. if r \<in> {Stable_Table, Unstable_Table, Rmap_Tree, Log_Entries} then Some (a r) else None),
      cb_server = init_server E c,
      cb_ops = \<lparr>os_result_mr = False, os_desc_rx = \<lparr>od_cmd = PAGE_COMPARE, od_id = 0, od_rkey = 0, od_iova = 0, od_page_num = 0\<rparr>,
        os_sent = [], os_recvs = 0, os_iteration = 0\<rparr>,
      cb_work = init_worker,
      cb_md_desc_rx = \<lparr>md_pt_cnt = 0, md_pt_descs = [], md_et_descs = \<lparr>et_total_cnt = 0, et_desc_cnt = 0, et_entries = []\<rparr>\<rparr>,
      cb_later = False, cb_answers = [], cb_released = []\<rparr>"

definition ksm_ops_of :: "('t, 'h) server_env \<Rightarrow> ksm_ops_choice \<Rightarrow> ('t, 'h) ksm_ops" where
  "ksm_ops_of E c = (case c of Cmp_and_merge_one \<Rightarrow> cmp_and_merge_one E | Cmp_and_merge_one_old \<Rightarrow> cmp_and_merge_one_old E)"

definition server_main ::
  "('t, 'h) server_env \<Rightarrow> op_env \<Rightarrow> string list \<Rightarrow> (resource \<Rightarrow> addr) \<Rightarrow> bool \<Rightarrow> listen_try \<Rightarrow>
   server_event list \<Rightarrow> ('t, 'h) rdma_cb option res" where
  "server_main E OE args a threads_ok ln evs =
     (let c = parse_args args
      in if \<not> threads_ok then Inr None
         else
           (case start_listening ln (main_cb E c a) of
              None \<Rightarrow> Inr None
            | Some cb \<Rightarrow>
                rbind (run_event_loop E OE (ksm_ops_of E (cfg_ksm_ops c)) (cfg_ksm_offload_mode c) evs cb) (\<lambda>cb.
                rbind (cleanup_rdma_cb E cb) (\<lambda>cb. Inr (Some cb)))))"

section \<open>Giving everything back\<close>

lemma release_other: "r \<noteq> r' \<Longrightarrow> cb_holds (release r cb) r' = cb_holds cb r'"
  by (simp add: release_def split: option.split)

lemma release_self [simp]: "cb_holds (release r cb) r = None"
  by (simp add: release_def split: option.split)

lemma release_fields [simp]:
  "cb_server (release r cb) = cb_server cb" "cb_ops (release r cb) = cb_ops cb" "cb_work (release r cb) = cb_work cb"
  "cb_md_desc_rx (release r cb) = cb_md_desc_rx cb" "cb_later (release r cb) = cb_later cb" "cb_answers (release r cb) = cb_answers cb"
  by (simp_all add: release_def split: option.split)

text \<open>What a list of pointers has been released to: each that was set, in the order of the list.\<close>

definition held_of :: "('t, 'h) rdma_cb \<Rightarrow> resource list \<Rightarrow> (resource \<times> addr) list" where
  "held_of cb rs = concat (map (\<lambda>r. case cb_holds cb r of None \<Rightarrow> [] | Some a \<Rightarrow> [(r, a)]) rs)"

lemma held_of_simps [simp]:
  "held_of cb [] = []" "held_of cb (xs @ ys) = held_of cb xs @ held_of cb ys"
  "held_of cb (r # rs) = (case cb_holds cb r of None \<Rightarrow> [] | Some a \<Rightarrow> [(r, a)]) @ held_of cb rs"
  by (simp_all add: held_of_def)

lemma held_of_cong: "(\<And>r. r \<in> set rs \<Longrightarrow> cb_holds cb' r = cb_holds cb r) \<Longrightarrow> held_of cb' rs = held_of cb rs"
  by (induction rs) simp_all

lemma fold_release:
  "cb_holds (fold release rs cb) r = (if r \<in> set rs then None else cb_holds cb r)"
  "distinct rs \<Longrightarrow> cb_released (fold release rs cb) = cb_released cb @ held_of cb rs"
  "cb_server (fold release rs cb) = cb_server cb"
proof -
  show "cb_holds (fold release rs cb) r = (if r \<in> set rs then None else cb_holds cb r)"
    by (induction rs arbitrary: cb) (auto simp: release_other)
  show "cb_server (fold release rs cb) = cb_server cb" by (induction rs arbitrary: cb) simp_all
  show "distinct rs \<Longrightarrow> cb_released (fold release rs cb) = cb_released cb @ held_of cb rs"
  proof (induction rs arbitrary: cb)
    case (Cons r rs)
    have "held_of (release r cb) rs = held_of cb rs" using Cons.prems by (intro held_of_cong release_other) auto
    then show ?case using Cons by (simp add: release_def split: option.split)
  qed simp
qed

lemma dseg_removed: "n \<notin> set ns \<Longrightarrow> dseg h p ns q \<Longrightarrow> dseg (h(n := None)) p ns q"
  by (subst dseg_cong [of ns "h(n := None)" h]) auto

lemma free_chain:
  "dseg h p ns None \<Longrightarrow> distinct ns \<Longrightarrow>
   server_free_stable_node (first_of ns None) h = Some (Inr (\<lambda>a. if a \<in> set ns then None else h a))"
proof (induction ns arbitrary: h p)
  case Nil
  then show ?case by (subst server_free_stable_node.simps) simp
next
  case (Cons n ns)
  then obtain nd where nd: "h n = Some nd" "sn_next nd = first_of ns None" by (auto simp: dnode_Some)
  have "dseg (h(n := None)) (Some n) ns None" using Cons.prems by (intro dseg_removed) auto
  from Cons.prems(2) have "distinct ns" by simp
  have "server_free_stable_node (first_of ns None) (h(n := None)) = Some (Inr (\<lambda>a. if a \<in> set ns then None else (h(n := None)) a))"
    by (rule Cons.IH) fact+
  also have "(\<lambda>a. if a \<in> set ns then None else (h(n := None)) a) = (\<lambda>a. if a \<in> set (n # ns) then None else h a)" by auto
  finally show ?case using nd by (subst server_free_stable_node.simps) (simp del: fun_upd_apply)
qed

text \<open>The nodes the stable table leads to.\<close>

definition table_nodes :: "('t, 'h) server_env \<Rightarrow> ('t, 'h) server \<Rightarrow> addr set" where
  "table_nodes E s = {n. \<exists>xs h. chain (nodes s) xs \<and> n \<in> set xs \<and> stable_lookup E s h = Some (hd xs)}"


lemma chain_without:
  assumes "chain h xs" and "h' = (\<lambda>a. if a \<in> set xs then None else h a)"
  shows "chain h' ys \<longleftrightarrow> chain h ys \<and> ys \<noteq> xs"
proof
  assume c: "chain h' ys"
  have live: "m \<notin> set xs" if "m \<in> set ys" for m using chain_mem_live [OF c that] assms(2) by (auto split: if_splits)
  then have "chain h ys" using chain_agree [OF c, of h] assms(2) by simp
  moreover have "ys \<noteq> xs" using live c by (auto simp: chain_def) (metis hd_in_set)
  ultimately show "chain h ys \<and> ys \<noteq> xs" ..
next
  assume c: "chain h ys \<and> ys \<noteq> xs"
  then have "m \<notin> set xs" if "m \<in> set ys" for m using chain_unique [OF assms(1) _ _ that] by blast
  then show "chain h' ys" using chain_agree [of h ys h'] c assms(2) by simp
qed

lemma free_chains:
  assumes "distinct ns" and "\<And>n. n \<in> set ns \<Longrightarrow> \<exists>xs. chain h xs \<and> hd xs = n"
  shows "rfold (\<lambda>n h. loop_result (server_free_stable_node (Some n) h)) ns h =
    Inr (\<lambda>a. if \<exists>xs. chain h xs \<and> a \<in> set xs \<and> hd xs \<in> set ns then None else h a)"
  using assms
proof (induction ns arbitrary: h)
  case (Cons n ns)
  obtain xs where xs: "chain h xs" "hd xs = n" using Cons.prems(2) [of n] by auto
  define h' where "h' = (\<lambda>a. if a \<in> set xs then None else h a)"
  note w = chain_without [OF xs(1) h'_def]
  have "dseg h None xs None" "distinct xs" "first_of xs None = Some n"
    using xs by (auto simp: chain_def neq_Nil_conv)
  then have f: "server_free_stable_node (Some n) h = Some (Inr h')" using free_chain [of h None xs] h'_def by simp
  have "\<exists>ys. chain h' ys \<and> hd ys = m" if m: "m \<in> set ns" for m
  proof -
    obtain ys where ys: "chain h ys" "hd ys = m" using Cons.prems(2) [of m] m by auto
    have "ys \<noteq> xs" using xs(2) ys(2) m Cons.prems(1) by auto
    then show ?thesis using ys w by blast
  qed
  from Cons.IH [OF _ this] Cons.prems(1)
  have r: "rfold (\<lambda>n h. loop_result (server_free_stable_node (Some n) h)) ns h' =
      Inr (\<lambda>a. if \<exists>ys. chain h' ys \<and> a \<in> set ys \<and> hd ys \<in> set ns then None else h' a)" by simp
  have "(\<lambda>a. if \<exists>ys. chain h' ys \<and> a \<in> set ys \<and> hd ys \<in> set ns then None else h' a) =
      (\<lambda>a. if \<exists>ys. chain h ys \<and> a \<in> set ys \<and> hd ys \<in> set (n # ns) then None else h a)"
  proof
    fix a
    have "a \<in> set xs \<or> (\<exists>ys. chain h' ys \<and> a \<in> set ys \<and> hd ys \<in> set ns) \<longleftrightarrow>
        (\<exists>ys. chain h ys \<and> a \<in> set ys \<and> hd ys \<in> set (n # ns))"
    proof
      assume "a \<in> set xs \<or> (\<exists>ys. chain h' ys \<and> a \<in> set ys \<and> hd ys \<in> set ns)"
      then show "\<exists>ys. chain h ys \<and> a \<in> set ys \<and> hd ys \<in> set (n # ns)" using xs w by auto
    next
      assume "\<exists>ys. chain h ys \<and> a \<in> set ys \<and> hd ys \<in> set (n # ns)"
      then obtain ys where ys: "chain h ys" "a \<in> set ys" "hd ys \<in> set (n # ns)" by blast
      show "a \<in> set xs \<or> (\<exists>ys. chain h' ys \<and> a \<in> set ys \<and> hd ys \<in> set ns)"
      proof (cases "ys = xs")
        case False
        have "hd ys \<in> set ys" using ys(1) by (simp add: chain_def)
        moreover have "n \<in> set xs" using xs by (auto simp: chain_def)
        ultimately have "hd ys \<noteq> n" using chain_unique [OF ys(1) xs(1)] False by auto
        then show ?thesis using ys w False by auto
      qed (use ys in simp)
    qed
    then show "(if \<exists>ys. chain h' ys \<and> a \<in> set ys \<and> hd ys \<in> set ns then None else h' a) =
        (if \<exists>ys. chain h ys \<and> a \<in> set ys \<and> hd ys \<in> set (n # ns) then None else h a)"
      by (auto simp: h'_def)
  qed
  then show ?case using f r by simp
qed simp

lemma free_all_items:
  assumes "distinct as" and "\<And>a. a \<in> set as \<Longrightarrow> h a \<noteq> None"
  shows "rfold server_free_rmap_item as h = Inr (\<lambda>a. if a \<in> set as then None else h a)"
  using assms
proof (induction as arbitrary: h)
  case (Cons a as)
  from Cons.prems(2) [of a] obtain it where "h a = Some it" by auto
  then have f: "server_free_rmap_item a h = Inr (h(a := None))" by (simp add: server_free_rmap_item_def)
  have "rfold server_free_rmap_item as (h(a := None)) = Inr (\<lambda>x. if x \<in> set as then None else (h(a := None)) x)"
    using Cons.prems by (intro Cons.IH) auto
  moreover have "(\<lambda>x. if x \<in> set as then None else (h(a := None)) x) = (\<lambda>x. if x \<in> set (a # as) then None else h x)" by auto
  ultimately show ?case using f by simp
qed simp

lemma distinct_values: "distinct (map fst es) \<Longrightarrow> (\<And>k v. (k, v) \<in> set es \<Longrightarrow> f v = Some k) \<Longrightarrow> distinct (map snd es)"
proof (induction es)
  case (Cons e es)
  have "snd e \<notin> snd ` set es"
  proof
    assume "snd e \<in> snd ` set es"
    then obtain k where k: "(k, snd e) \<in> set es" by (metis imageE prod.collapse)
    have "f (snd e) = Some k" "f (snd e) = Some (fst e)" using Cons.prems(2) [of k "snd e"] Cons.prems(2) [of "fst e" "snd e"] k by auto
    then show False using Cons.prems(1) k by (force simp: image_iff)
  qed
  moreover have "distinct (map snd es)" using Cons.prems by (intro Cons.IH) auto
  ultimately show ?case by simp
qed simp


context server_runtime
begin

lemma free_nodes_ok:
  assumes "server_inv E (cb_server cb)" and "cb_holds cb Stable_Table \<noteq> None"
  shows "free_nodes E cb =
    Inr (cb\<lparr>cb_server := (cb_server cb)\<lparr>nodes := (\<lambda>n. if n \<in> table_nodes E (cb_server cb) then None else nodes (cb_server cb) n)\<rparr>\<rparr>)"
proof -
  let ?s = "cb_server cb"
  let ?es = "g_entries (hash_ops E) (stable_hash_table ?s)"
  note c = meta_invD(5) [OF server_invD [OF assms(1)], unfolded inv_chain_def]
  note wf = c [THEN conjunct1] and head = c [THEN conjunct2, THEN conjunct1, rule_format] and on_chain = c [THEN conjunct2, THEN conjunct2, rule_format]
  have es: "(k, n) \<in> set ?es \<longleftrightarrow> stable_lookup E ?s k = Some n" for k n by (rule hash.entries_iff [OF wf])
  have key: "map_option sn_page_hash (nodes ?s n) = Some k" if "(k, n) \<in> set ?es" for k n
  proof -
    have "stable_lookup E ?s k = Some n" using \<open>(k, n) \<in> set ?es\<close> es by simp
    from head [OF this] show ?thesis by auto
  qed
  have "distinct (map snd ?es)" by (rule distinct_values [OF hash.entries_distinct [OF wf] key])
  moreover have "\<exists>xs. chain (nodes ?s) xs \<and> hd xs = n" if "n \<in> set (map snd ?es)" for n
  proof -
    obtain k where "stable_lookup E ?s k = Some n" using \<open>n \<in> set (map snd ?es)\<close> es by auto
    from head [OF this] obtain nd where nd: "nodes ?s n = Some nd" "sn_prev nd = None" by auto
    from on_chain [OF nd(1)] obtain xs where xs: "chain (nodes ?s) xs" "n \<in> set xs" by auto
    obtain as bs nd' where "xs = as @ n # bs" "nodes ?s n = Some nd'" "sn_prev nd' = last_of None as"
      by (rule chain_split [OF xs]) blast
    then have "xs = n # bs" using nd by simp
    then show ?thesis using xs(1) by auto
  qed
  ultimately have "rfold (\<lambda>n h. loop_result (server_free_stable_node (Some n) h)) (map snd ?es) (nodes ?s) =
      Inr (\<lambda>a. if \<exists>xs. chain (nodes ?s) xs \<and> a \<in> set xs \<and> hd xs \<in> set (map snd ?es) then None else nodes ?s a)"
    by (rule free_chains)
  moreover have "(\<exists>xs. chain (nodes ?s) xs \<and> a \<in> set xs \<and> hd xs \<in> set (map snd ?es)) \<longleftrightarrow> a \<in> table_nodes E ?s" for a
    using hash.values_iff [OF wf] by (auto simp: table_nodes_def)
  moreover obtain y where "cb_holds cb Stable_Table = Some y" using assms(2) by blast
  ultimately show ?thesis by (simp add: free_nodes_def)
qed

lemma free_items_ok:
  assumes "inv_rmap E (cb_server cb)" and "cb_holds cb Rmap_Tree \<noteq> None"
  shows "free_items E cb = Inr (cb\<lparr>cb_server := (cb_server cb)\<lparr>items := Map.empty\<rparr>\<rparr>)"
proof -
  let ?s = "cb_server cb"
  let ?es = "g_entries (tree_ops E) (rmap_tree ?s)"
  note r = assms(1) [unfolded inv_rmap_def]
  note wf = r [THEN conjunct1] and stored = r [THEN conjunct2, THEN conjunct1, rule_format] and listed = r [THEN conjunct2, THEN conjunct2, rule_format]
  have es: "(k, a) \<in> set ?es \<longleftrightarrow> rmap_lookup E ?s k = Some a" for k a by (rule tree.entries_iff [OF wf])
  have key: "map_option item_key (items ?s a) = Some k" if "(k, a) \<in> set ?es" for k a
  proof -
    have "rmap_lookup E ?s k = Some a" using \<open>(k, a) \<in> set ?es\<close> es by simp
    from stored [OF this] show ?thesis by auto
  qed
  have "distinct (map snd ?es)" by (rule distinct_values [OF tree.entries_distinct [OF wf] key])
  moreover have "items ?s a \<noteq> None" if "a \<in> set (map snd ?es)" for a
  proof -
    have "a \<in> snd ` set ?es" using \<open>a \<in> set (map snd ?es)\<close> by (simp only: set_map)
    then obtain k where "rmap_lookup E ?s k = Some a" unfolding tree.values_iff [OF wf] by (rule exE)
    from stored [OF this] show ?thesis by (elim exE conjE) simp
  qed
  ultimately have "rfold server_free_rmap_item (map snd ?es) (items ?s) = Inr (\<lambda>a. if a \<in> set (map snd ?es) then None else items ?s a)"
    by (rule free_all_items)
  moreover have "(\<lambda>a. if a \<in> set (map snd ?es) then None else items ?s a) = Map.empty"
  proof
    fix a
    show "(if a \<in> set (map snd ?es) then None else items ?s a) = None"
    proof (cases "items ?s a")
      case (Some it)
      from listed [OF this] have "rmap_lookup E ?s (item_key it) = Some a" by (rule conjunct1)
      then have "a \<in> snd ` set ?es" unfolding tree.values_iff [OF wf] by (rule exI)
      then show ?thesis by simp
    qed simp
  qed
  moreover obtain y where "cb_holds cb Rmap_Tree = Some y" using assms(2) by blast
  ultimately show ?thesis by (simp add: free_items_def)
qed

end

text \<open>A control block as the server keeps it while it runs.\<close>

definition cb_ok :: "('t, 'h) server_env \<Rightarrow> ('t, 'h) rdma_cb \<Rightarrow> bool" where
  "cb_ok E cb \<longleftrightarrow> server_inv E (cb_server cb) \<and> cb_holds cb Stable_Table \<noteq> None \<and> cb_holds cb Rmap_Tree \<noteq> None \<and>
     (cb_holds cb Conn_Id = None \<longrightarrow> cb_holds cb Queue_Pair = None \<and> cb_holds cb Connection = None)"

definition release_order :: "resource list" where
  "release_order = [Queue_Pair, Connection, Conn_Id, Listen_Id, Md_Desc_Mr, Ksm_Result_Mr, Stable_Table, Unstable_Table,
     Rmap_Tree, Log_Entries, Comp_Channel, Comp_Queue, Prot_Domain, Event_Channel]"

lemma release_conn_ok: "cb_ok E cb \<Longrightarrow> release_conn cb = fold release [Queue_Pair, Connection, Conn_Id] cb"
proof (cases "cb_holds cb Conn_Id")
  case None
  assume "cb_ok E cb"
  then have "cb_holds cb Queue_Pair = None" "cb_holds cb Connection = None" using None by (simp_all add: cb_ok_def)
  then show ?thesis using None by (simp add: release_conn_def release_def)
qed (simp add: release_conn_def)

lemma nothing_to_clean:
  assumes "\<And>r. r \<in> set release_order \<Longrightarrow> cb_holds cb r = None"
  shows "cleanup_rdma_cb E cb = Inr cb"
proof -
  have h: "cb_holds cb r = None" if "r \<noteq> Single_Op_Desc_Mr" "r \<noteq> Single_Op_Result_Mr" for r
    using that by (intro assms, cases r) (simp_all add: release_order_def)
  have "release r cb = cb" if "r \<noteq> Single_Op_Desc_Mr" "r \<noteq> Single_Op_Result_Mr" for r
    using h [OF that] by (simp add: release_def)
  then show ?thesis
    by (simp add: cleanup_rdma_cb_def release_conn_def free_nodes_def free_items_def h)
qed

lemma cleanup_ok:
  assumes "server_runtime E" and "cb_ok E cb"
  shows "cleanup_rdma_cb E cb = Inr ((fold release release_order cb)\<lparr>cb_server := (cb_server cb)
      \<lparr>nodes := (\<lambda>n. if n \<in> table_nodes E (cb_server cb) then None else nodes (cb_server cb) n), items := Map.empty\<rparr>\<rparr>)"
proof -
  note ok = assms(2) [unfolded cb_ok_def]
  define cb1 where "cb1 = fold release [Listen_Id, Md_Desc_Mr, Ksm_Result_Mr] (release_conn cb)"
  have cb1: "cb1 = fold release [Queue_Pair, Connection, Conn_Id, Listen_Id, Md_Desc_Mr, Ksm_Result_Mr] cb"
    by (simp add: cb1_def release_conn_ok [OF assms(2)])
  have "cb_server cb1 = cb_server cb" "cb_holds cb1 Stable_Table \<noteq> None" "cb_holds cb1 Rmap_Tree \<noteq> None"
    using ok by (simp_all add: cb1 release_other)
  define n' where "n' = (\<lambda>n. if n \<in> table_nodes E (cb_server cb) then None else nodes (cb_server cb) n)"
  have nodes: "free_nodes E cb1 = Inr (cb1\<lparr>cb_server := (cb_server cb)\<lparr>nodes := n'\<rparr>\<rparr>)"
    unfolding n'_def using server_runtime.free_nodes_ok [OF assms(1), of cb1, unfolded \<open>cb_server cb1 = cb_server cb\<close>]
      ok \<open>cb_holds cb1 Stable_Table \<noteq> None\<close> by blast
  define cb2 where "cb2 = fold release [Stable_Table, Unstable_Table] (cb1\<lparr>cb_server := (cb_server cb)\<lparr>nodes := n'\<rparr>\<rparr>)"
  have "cb_server cb2 = (cb_server cb)\<lparr>nodes := n'\<rparr>" "cb_holds cb2 Rmap_Tree \<noteq> None"
    using \<open>cb_holds cb1 Rmap_Tree \<noteq> None\<close> by (simp_all add: cb2_def release_other)
  moreover have "inv_rmap E ((cb_server cb)\<lparr>nodes := n'\<rparr>)"
    using meta_invD(1) [OF server_invD, of E "cb_server cb"] ok unfolding inv_rmap_def by simp
  ultimately have items: "free_items E cb2 = Inr (cb2\<lparr>cb_server := (cb_server cb)\<lparr>nodes := n', items := Map.empty\<rparr>\<rparr>)"
    using server_runtime.free_items_ok [OF assms(1), of cb2] by simp
  let ?last = "[Rmap_Tree, Log_Entries, Comp_Channel, Comp_Queue, Prot_Domain, Event_Channel]"
  have comm: "release r (cb\<lparr>cb_server := s\<rparr>) = (release r cb)\<lparr>cb_server := s\<rparr>" for r and cb :: "('a, 'b) rdma_cb" and s
    by (simp add: release_def split: option.split)
  have "cleanup_rdma_cb E cb = rbind (free_nodes E cb1) (\<lambda>cb.
      rbind (free_items E (fold release [Stable_Table, Unstable_Table] cb)) (\<lambda>cb. Inr (fold release ?last cb)))"
    by (simp only: cleanup_rdma_cb_def cb1_def)
  also have "\<dots> = rbind (free_items E cb2) (\<lambda>cb. Inr (fold release ?last cb))"
    by (simp only: nodes rbind_Inr cb2_def)
  also have "\<dots> = Inr (fold release ?last (cb2\<lparr>cb_server := (cb_server cb)\<lparr>nodes := n', items := Map.empty\<rparr>\<rparr>))"
    by (simp only: items rbind_Inr)
  also have "cb2 = (fold release [Stable_Table, Unstable_Table] cb1)\<lparr>cb_server := (cb_server cb)\<lparr>nodes := n'\<rparr>\<rparr>"
    by (simp add: cb2_def comm)
  finally show ?thesis by (simp add: cb1 comm release_order_def n'_def)
qed



lemma cleanup_no_channel:
  assumes "server_runtime E" and "cb_ok E cb"
  shows "\<exists>cb'. cleanup_rdma_cb E cb = Inr cb' \<and> cb_holds cb' Event_Channel = None"
  using cleanup_ok [OF assms] by (simp add: fold_release(1)) (simp add: release_order_def)

text \<open>Two pages that share a frame, and a pointer to every object.\<close>

definition sample_block :: "(sample_tree, sample_table) rdma_cb" where
  "sample_block = (main_cb sample_env default_config (\<lambda>_. 5))\<lparr>cb_holds := (\<lambda>_. Some 5), cb_server := sample_shared\<rparr>"

lemma sample_block_ok: "cb_ok sample_env sample_block"
  using sample_shared_inv by (simp add: cb_ok_def sample_block_def)


section \<open>Requests to connect\<close>

lemma acquire_ok:
  "fst (acquire ras cb) \<longleftrightarrow> None \<notin> snd ` set ras"
  "cb_server (snd (acquire ras cb)) = cb_server cb"
  "r \<notin> fst ` set ras \<Longrightarrow> cb_holds (snd (acquire ras cb)) r = cb_holds cb r"
  by (induction ras arbitrary: cb) (auto simp: hold_def Let_def)


lemma cb_ok_cong:
  assumes "cb_ok E cb" and "cb_server cb' = cb_server cb"
    and "\<And>r. r \<in> {Stable_Table, Rmap_Tree, Conn_Id, Queue_Pair, Connection} \<Longrightarrow> cb_holds cb' r = cb_holds cb r"
  shows "cb_ok E cb'"
  using assms(1) unfolding cb_ok_def assms(2) by (simp add: assms(3))

lemma post_first_recv_fields [simp]:
  "cb_holds (snd (post_first_recv mode posted cb)) = cb_holds cb" "cb_server (snd (post_first_recv mode posted cb)) = cb_server cb"
  by (simp_all add: post_first_recv_def split: offload_mode.split)

text \<open>What a request leaves behind can be cleaned up, whether it was accepted or not.\<close>

lemma connect_resources_ok:
  assumes "cb_ok E cb"
  shows "cb_ok E (snd (connect_resources mode t cb))"
proof -
  define cb1 where "cb1 = snd (acquire [(Prot_Domain, cn_pd t), (Comp_Channel, cn_comp_chan t), (Comp_Queue, cn_cq t)] cb)"
  have ok1: "cb_ok E cb1"
    by (rule cb_ok_cong [OF assms]) (auto simp: cb1_def acquire_ok simp del: acquire.simps)
  define cb2 where "cb2 = snd (acquire [(Conn_Id, Some (cn_child t)), (Connection, Some (cn_child t)), (Queue_Pair, cn_qp t),
                  (Md_Desc_Mr, cn_md_mr t), (Ksm_Result_Mr, cn_result_mr t), (Single_Op_Desc_Mr, cn_op_mr t)] cb1)"
  have "cb_server cb2 = cb_server cb1" by (simp add: cb2_def acquire_ok del: acquire.simps)
  moreover have "cb_holds cb2 Conn_Id = Some (cn_child t)" "cb_holds cb2 Stable_Table = cb_holds cb1 Stable_Table"
    "cb_holds cb2 Rmap_Tree = cb_holds cb1 Rmap_Tree"
    by (simp_all add: cb2_def hold_def Let_def)
  ultimately have ok2: "cb_ok E cb2" using ok1 unfolding cb_ok_def by simp
  show ?thesis
  proof (cases "snd (connect_resources mode t cb) = cb1 \<or> snd (connect_resources mode t cb) = cb2")
    case False
    then have "\<exists>cb3. snd (connect_resources mode t cb) = snd (post_first_recv mode (cn_post_recv t)
        (hold Single_Op_Result_Mr (cn_op_result_mr t) cb2\<lparr>cb_ops := cb3\<rparr>))"
      unfolding connect_resources_def cb2_def cb1_def by (auto simp: split_beta Let_def simp del: acquire.simps split: if_splits)
    then show ?thesis using ok2 by (auto simp: hold_def intro: cb_ok_cong)
  qed (use ok1 ok2 in auto)
qed

definition connect_fails :: "connect_try \<Rightarrow> bool" where
  "connect_fails t \<longleftrightarrow> None \<in> {cn_pd t, cn_comp_chan t, cn_cq t, cn_qp t, cn_md_mr t, cn_result_mr t, cn_op_mr t} \<or>
     cn_post_recv t \<noteq> 0 \<or> cn_accept t \<noteq> 0"

lemma connect_fails_iff: "mode \<noteq> NO_OFFLOAD \<Longrightarrow> fst (connect_resources mode t cb) \<longleftrightarrow> \<not> connect_fails t"
  by (cases mode) (auto simp: connect_resources_def connect_fails_def post_first_recv_def split_beta Let_def acquire_ok simp del: acquire.simps)

text \<open>
  C36. A failed connection ends the server. When any object for a connection cannot be created, the receive not be posted or the
  connection not be accepted, the clean-up gives back also what the server needs to go on: the event loop goes on with the event channel
  gone and crashes, whatever comes next.
\<close>

theorem failed_connection_ends_server:
  assumes "server_runtime E" and "cb_ok E cb" and "mode \<noteq> NO_OFFLOAD" and "connect_fails t"
  shows "run_event_loop E OE ksm_ops mode (Connect_Request t # evs) cb = Inl Null_Deref"
proof (cases "cb_holds cb Event_Channel = None")
  case False
  obtain ok cb' where c: "connect_resources mode t cb = (ok, cb')" by (cases "connect_resources mode t cb")
  have "\<not> ok" using connect_fails_iff [OF assms(3), of t cb] assms(4) c by simp
  have "cb_ok E cb'" using connect_resources_ok [OF assms(2), of mode t] c by simp
  from cleanup_no_channel [OF assms(1) this] obtain cb'' where
    "cleanup_rdma_cb E cb' = Inr cb''" "cb_holds cb'' Event_Channel = None" by blast
  moreover from this(2) have "run_event_loop E OE ksm_ops mode evs cb'' = Inl Null_Deref" by (cases evs) simp_all
  ultimately show ?thesis using False c \<open>\<not> ok\<close> by (simp add: on_connect_request_def Let_def)
qed (simp add: Let_def)

definition sample_connect :: connect_try where
  "sample_connect = \<lparr>cn_child = 6, cn_pd = Some 7, cn_comp_chan = Some 8, cn_cq = Some 9, cn_qp = Some 10, cn_md_mr = Some 11,
     cn_result_mr = Some 12, cn_op_mr = Some 13, cn_op_result_mr = Some 14, cn_post_recv = 0, cn_accept = - 1\<rparr>"

theorem failed_connection_ends_server_witness:
  "run_event_loop sample_env sample_op_env (cmp_and_merge_one sample_env) KSM_OFFLOAD [Connect_Request sample_connect, Disconnected]
     sample_block = Inl Null_Deref"
proof -
  have "connect_fails sample_connect" by (simp add: connect_fails_def sample_connect_def)
  from failed_connection_ends_server [OF sample.server_runtime_axioms sample_block_ok _ this] show ?thesis by simp
qed

section \<open>Sessions\<close>

text \<open>A session whose requests are valid each time they come, and whose verbs succeed.\<close>

primrec session_valid ::
  "('t, 'h) server_env \<Rightarrow> (metadata_descriptor \<times> ksm_turn) list \<Rightarrow> bool \<Rightarrow> worker_job \<Rightarrow> ('t, 'h) server \<Rightarrow> bool" where
  "session_valid E [] later work s \<longleftrightarrow> True"
| "session_valid E (dt # dts) later work s \<longleftrightarrow>
     kt_result_mr (snd dt) \<and> kt_send (snd dt) = 0 \<and> kt_recv (snd dt) = 0 \<and>
     (\<exists>frame es ptes. valid_request E (kt_io (snd dt)) frame later (fst dt) es ptes s) \<and>
     (\<forall>r work' s'. server_round E (cmp_and_merge_one E) (kt_io (snd dt)) later (fst dt) work s = Inr (Some r, work', s') \<longrightarrow>
        session_valid E dts True work' s')"

definition md_events :: "metadata_descriptor \<Rightarrow> metadata_descriptor completion list" where
  "md_events d = [Received d, Send_Done]"

lemma ksm_serves_ok:
  assumes "server_runtime E" and "realloc_never_fails E"
    and "server_reaches E (cb_later cb) (cb_work cb) (cb_server cb)" and "session_valid E dts (cb_later cb) (cb_work cb) (cb_server cb)"
  shows "(\<exists>cb'. ksm_serves E (cmp_and_merge_one E) (map snd dts) (concat (map (\<lambda>dt. md_events (fst dt)) dts)) cb = Inr (Serving, [], cb') \<and>
        map fst (cb_answers cb') = map fst (cb_answers cb) @ map (\<lambda>dt. int (requested_pages (fst dt))) dts \<and>
        server_reaches E (cb_later cb') (cb_work cb') (cb_server cb')) \<or>
    (\<exists>e. ksm_serves E (cmp_and_merge_one E) (map snd dts) (concat (map (\<lambda>dt. md_events (fst dt)) dts)) cb = Inl e \<and> out_of_memory E e)"
  using assms(3,4)
proof (induction dts arbitrary: cb)
  case Nil
  then show ?case by simp
next
  case (Cons dt dts)
  obtain d t where dt: "dt = (d, t)" by (cases dt)
  from Cons.prems(2) dt obtain frame es ptes where v: "valid_request E (kt_io t) frame (cb_later cb) d es ptes (cb_server cb)"
    and t: "kt_result_mr t" "kt_send t = 0" "kt_recv t = 0"
    and next_valid: "\<And>r work' s'. server_round E (cmp_and_merge_one E) (kt_io t) (cb_later cb) d (cb_work cb) (cb_server cb) = Inr (Some r, work', s') \<Longrightarrow>
        session_valid E dts True work' s'" by auto
  let ?rest = "concat (map (\<lambda>dt. md_events (fst dt)) dts)"
  consider (answer) log work' s' where
      "server_round E (cmp_and_merge_one E) (kt_io t) (cb_later cb) d (cb_work cb) (cb_server cb) = Inr (Some (int (requested_pages d), log), work', s')"
      "server_reaches E True work' s'"
    | (memory) e where "server_round E (cmp_and_merge_one E) (kt_io t) (cb_later cb) d (cb_work cb) (cb_server cb) = Inl e" "out_of_memory E e"
    using server_round_answers [OF assms(1,2) Cons.prems(1) v] by blast
  then show ?case
  proof cases
    case answer
    let ?cb = "cb\<lparr>cb_md_desc_rx := d, cb_work := work', cb_server := s', cb_later := True,
        cb_answers := cb_answers cb @ [(int (requested_pages d), log)]\<rparr>"
    have "ksm_serve E (cmp_and_merge_one E) t (md_events d @ ?rest) cb = Inr (Serving, ?rest, ?cb)"
      using answer(1) t by (simp add: ksm_serve_def md_events_def wait_cq_event_and_poll_def md_arrive_def Let_def)
    then have "ksm_serves E (cmp_and_merge_one E) (map snd (dt # dts)) (concat (map (\<lambda>dt. md_events (fst dt)) (dt # dts))) cb =
        ksm_serves E (cmp_and_merge_one E) (map snd dts) ?rest ?cb" by (simp add: dt)
    moreover have "server_reaches E (cb_later ?cb) (cb_work ?cb) (cb_server ?cb)" using answer(2) by simp
    moreover have "session_valid E dts (cb_later ?cb) (cb_work ?cb) (cb_server ?cb)" using next_valid [OF answer(1)] by simp
    ultimately show ?thesis using Cons.IH [of ?cb] by (simp add: dt)
  next
    case memory
    have "ksm_serve E (cmp_and_merge_one E) t (md_events d @ ?rest) cb = Inl e"
      using memory(1) by (simp add: ksm_serve_def md_events_def wait_cq_event_and_poll_def md_arrive_def Let_def)
    then show ?thesis using memory(2) by (simp add: dt)
  qed
qed



definition sample_turn :: ksm_turn where
  "sample_turn = \<lparr>kt_io = sample_io [], kt_result_mr = True, kt_send = 0, kt_recv = 0\<rparr>"


lemma ksm_serves_append:
  "ksm_serves E ksm_ops (ts @ ts') cs cb =
     rbind (ksm_serves E ksm_ops ts cs cb) (\<lambda>(session, cs, cb). if session = Serving then ksm_serves E ksm_ops ts' cs cb else Inr (session, cs, cb))"
proof (induction ts arbitrary: cs cb)
  case (Cons t ts)
  show ?case by (cases "ksm_serve E ksm_ops t cs cb") (auto simp: Cons)
qed simp

lemma op_turns_append:
  "op_turns E (ps @ ps') cs st =
     rbind (op_turns E ps cs st) (\<lambda>(session, cs, st). if session = Serving then op_turns E ps' cs st else Inr (session, cs, st))"
proof (induction ps arbitrary: cs st)
  case (Cons p ps)
  show ?case by (cases "op_turn E p cs st") (auto simp: Cons)
qed simp

text \<open>
  C35. The server does not notice that its client is gone. In both modes, after any number of requests, a completion with an error, as the
  device reports it for the posted receive when the connection breaks, makes the server spin for ever: whatever event follows, also
  \<open>RDMA_CM_EVENT_DISCONNECTED\<close>, is never handled and nothing is given back.
\<close>

theorem broken_connection_hangs_server:
  assumes "cb_holds cb Event_Channel \<noteq> None"
    and "ksm_serves E ksm_ops ts cs (cb\<lparr>cb_later := False\<rparr>) = Inr (Serving, Bad_Completion # rest, cb')"
    and "op_turns OE ps ocs (cb_ops cb) = Inr (Serving, Bad_Completion # orest, st')"
    and "su = \<lparr>su_memcmp_buf = True, su_memcmp_mr = True, su_hash_buf = True, su_hash_mr = True\<rparr>"
  shows "run_event_loop E OE ksm_ops mode
      (Established \<lparr>io_setup = su, io_posts = ps @ p # ps', io_ops = ocs, io_temp_buf = True, io_temp_mr = True,
         io_turns = ts @ t # ts', io_mds = cs\<rparr> # evs) cb = Inl (Stopped ''completion failed'')"
proof -
  have "ksm_serves E ksm_ops (ts @ t # ts') cs (cb\<lparr>cb_later := False\<rparr>) = Inl (Stopped ''completion failed'')"
    unfolding ksm_serves_append assms(2) by (simp add: ksm_serve_def wait_cq_event_and_poll_def)
  moreover have "op_turns OE (ps @ p # ps') ocs (cb_ops cb) = Inl (Stopped ''completion failed'')"
    unfolding op_turns_append assms(3) by (simp add: op_turn_def wait_cq_event_and_poll_def)
  ultimately show ?thesis
    using assms(1,4) by (auto simp: on_established_def on_established_ops_offload_mode_def Let_def)
qed

theorem broken_connection_hangs_server_witness:
  "run_event_loop sample_env sample_op_env (cmp_and_merge_one sample_env) KSM_OFFLOAD
     [Established \<lparr>io_setup = \<lparr>su_memcmp_buf = True, su_memcmp_mr = True, su_hash_buf = True, su_hash_mr = True\<rparr>,
        io_posts = [good_posts], io_ops = [Bad_Completion], io_temp_buf = True, io_temp_mr = True, io_turns = [sample_turn],
        io_mds = [Bad_Completion]\<rparr>, Disconnected] sample_block = Inl (Stopped ''completion failed'')"
proof -
  have "cb_holds sample_block Event_Channel \<noteq> None" by (simp add: sample_block_def)
  from broken_connection_hangs_server [OF this, where E = sample_env and OE = sample_op_env and ksm_ops = "cmp_and_merge_one sample_env"
      and ts = "[]" and cs = "[Bad_Completion]" and rest = "[]" and ps = "[]" and ocs = "[Bad_Completion]" and orest = "[]"
      and t = sample_turn and ts' = "[]" and p = good_posts and ps' = "[]" and evs = "[Disconnected]"]
  show ?thesis by (simp del: run_event_loop.simps)
qed

end
