(* ===== verification/Pre_Hash.thy ===== *)
theory Pre_Hash
  imports Server_Main
begin

text \<open>
  The thread of the server that hashes pages ahead of the scan (\<open>server.h\<close>: \<open>init_pre_hash_pair_table\<close>,
  \<open>start_pre_hash_pair_table\<close>, \<open>pre_hash_worker\<close>, \<open>lookup_pre_hash_pair\<close>), interleaved with the page worker that starts it and
  takes its hashes, and with the main thread that frees the pages.
\<close>

section \<open>Definitions\<close>

definition PRE_HASH_NUM :: nat where "PRE_HASH_NUM = 16384"

text \<open>
  Where the thread is in its loop: it polls the status, clears the table, checks for \<open>STOP\<close> before page \<open>i\<close>, hashes the two
  halves of the page, counts it, and reports that it is done.
\<close>

datatype pre_hash_at = Polling | Clearing | Checking nat | Hashing nat | Hashing_Second nat | Counting nat | Finishing

text \<open>
  The shared variables. \<open>ph_base\<close> are the pages from \<open>pre_hash_pair_table_base_ptr\<close> to the end of their buffer, \<open>ph_live\<close> whether the buffer
  is still allocated.
\<close>

record pre_hash =
  ph_status :: working_status
  ph_base :: "u8 list list"
  ph_live :: bool
  ph_max_idx :: nat
  ph_chunk :: "hash_pair list"
  ph_curr_idx :: nat
  ph_at :: pre_hash_at

text \<open>The table comes from \<open>malloc\<close>: what it returns is the argument. Without a table there is no thread, and \<open>main\<close> does not notice.\<close>

definition init_pre_hash_pair_table :: "hash_pair list option \<Rightarrow> int \<times> pre_hash" where
  "init_pre_hash_pair_table junk =
     (let ph = \<lparr>ph_status = NO_WORKER, ph_base = [], ph_live = False, ph_max_idx = 0, ph_chunk = [], ph_curr_idx = 0, ph_at = Polling\<rparr>
      in case junk of None \<Rightarrow> (- 1, ph) | Some chunk \<Rightarrow> (0, ph\<lparr>ph_chunk := chunk, ph_status := WORKER_READY\<rparr>))"

text \<open>One step of the thread: a section under the spin lock, or one access to the table or to a page.\<close>

definition worker_step :: "('t, 'h) server_env \<Rightarrow> pre_hash \<Rightarrow> pre_hash res" where
  "worker_step E ph =
     (case ph_at ph of
        Polling \<Rightarrow> Inr (if ph_status ph = DATA_READY then ph\<lparr>ph_status := IN_PROGRESS, ph_at := Clearing\<rparr> else ph)
      | Clearing \<Rightarrow> Inr (ph\<lparr>ph_chunk := replicate PRE_HASH_NUM null_hash, ph_at := Checking 0\<rparr>)
      | Checking i \<Rightarrow> Inr (ph\<lparr>ph_at := if i < ph_max_idx ph \<and> ph_status ph \<noteq> STOP then Hashing i else Finishing\<rparr>)
      | Hashing i \<Rightarrow>
          if \<not> ph_live ph then Inl Null_Deref
          else Inr (ph\<lparr>ph_chunk := (ph_chunk ph)[i := (ph_chunk ph ! i)\<lparr>first_hash := XXH3_128bits_withSeed E (take 2048 (ph_base ph ! i)) 0\<rparr>],
                 ph_at := Hashing_Second i\<rparr>)
      | Hashing_Second i \<Rightarrow>
          if \<not> ph_live ph then Inl Null_Deref
          else Inr (ph\<lparr>ph_chunk := (ph_chunk ph)[i := (ph_chunk ph ! i)\<lparr>second_hash :=
                   XXH3_128bits_withSeed E (take 2048 (drop 2048 (ph_base ph ! i))) 0\<rparr>],
                 ph_at := Counting i\<rparr>)
      | Counting i \<Rightarrow> Inr (ph\<lparr>ph_curr_idx := ph_curr_idx ph + 1, ph_at := Checking (i + 1)\<rparr>)
      | Finishing \<Rightarrow> Inr (ph\<lparr>ph_status := WORK_DONE, ph_at := Polling\<rparr>))"

primrec run_worker :: "('t, 'h) server_env \<Rightarrow> nat \<Rightarrow> pre_hash \<Rightarrow> pre_hash res" where
  "run_worker E 0 ph = Inr ph"
| "run_worker E (Suc n) ph = rbind (worker_step E ph) (run_worker E n)"

text \<open>
  The loop of \<open>start_pre_hash_pair_table\<close>: one look at the status under the lock; whether the job was handed over. The schedule lists how
  many steps of the thread happen before each look.
\<close>

definition try_start :: "u8 list list \<Rightarrow> nat \<Rightarrow> pre_hash \<Rightarrow> bool \<times> pre_hash" where
  "try_start pages max_idx ph =
     (if ph_status ph = WORKER_READY \<or> ph_status ph = WORK_DONE then
        (True, ph\<lparr>ph_base := pages, ph_live := True, ph_curr_idx := 0, ph_max_idx := max_idx, ph_status := DATA_READY\<rparr>)
      else if ph_status ph = IN_PROGRESS then (False, ph\<lparr>ph_status := STOP\<rparr>)
      else (False, ph))"

primrec start_pre_hash_pair_table :: "('t, 'h) server_env \<Rightarrow> nat list \<Rightarrow> u8 list list \<Rightarrow> nat \<Rightarrow> pre_hash \<Rightarrow> pre_hash res" where
  "start_pre_hash_pair_table E [] pages max_idx ph = Inl Diverged"
| "start_pre_hash_pair_table E (n # ns) pages max_idx ph =
     rbind (run_worker E n ph) (\<lambda>ph.
       (let (started, ph) = try_start pages max_idx ph
        in if started then Inr ph else start_pre_hash_pair_table E ns pages max_idx ph))"

text \<open>\<open>page_idx\<close> is the distance of the page from the start of the table, \<open>pre_hash_on\<close> the option \<open>PRE_HASH_ON\<close>.\<close>

definition lookup_pre_hash_pair :: "bool \<Rightarrow> nat \<Rightarrow> pre_hash \<Rightarrow> hash_pair option res" where
  "lookup_pre_hash_pair pre_hash_on page_idx ph =
     (if \<not> pre_hash_on then Inr None
      else
        rbind (guard_stop ''Invalid page idx for pre_hash_pair'' (page_idx < PRE_HASH_NUM)) (\<lambda>_.
          Inr (if page_idx < ph_curr_idx ph then Some (ph_chunk ph ! page_idx) else None)))"

text \<open>
  The loop of \<open>ksm_page_worker\<close> as far as hashes are concerned: every \<open>PRE_HASH_NUM\<close> pages the thread gets the next ones, and
  \<open>calculate_hash_pair\<close> takes the hash from its table or computes it. \<open>sched i\<close> says how many steps the thread makes before each
  look at the status and before the look into the table for page \<open>i\<close>.
\<close>

definition hash_one_page ::
  "('t, 'h) server_env \<Rightarrow> bool \<Rightarrow> u8 list list \<Rightarrow> (nat \<Rightarrow> nat list \<times> nat) \<Rightarrow> nat \<Rightarrow> pre_hash \<Rightarrow> (hash_pair \<times> pre_hash) res" where
  "hash_one_page E pre_hash_on pages sched i ph =
     rbind (if pre_hash_on \<and> i mod PRE_HASH_NUM = 0
            then start_pre_hash_pair_table E (fst (sched i)) (drop i pages)
                   (if PRE_HASH_NUM < length pages - i then PRE_HASH_NUM else length pages - i) ph
            else Inr ph) (\<lambda>ph.
     rbind (run_worker E (snd (sched i)) ph) (\<lambda>ph.
     rbind (lookup_pre_hash_pair pre_hash_on (i mod PRE_HASH_NUM) ph) (\<lambda>pre.
       Inr (calculate_hash_pair E pre (pages ! i), ph))))"

primrec hash_pages ::
  "('t, 'h) server_env \<Rightarrow> bool \<Rightarrow> u8 list list \<Rightarrow> (nat \<Rightarrow> nat list \<times> nat) \<Rightarrow> nat list \<Rightarrow> pre_hash \<Rightarrow> (hash_pair list \<times> pre_hash) res" where
  "hash_pages E pre_hash_on pages sched [] ph = Inr ([], ph)"
| "hash_pages E pre_hash_on pages sched (i # is) ph =
     rbind (hash_one_page E pre_hash_on pages sched i ph) (\<lambda>(h, ph).
     rbind (hash_pages E pre_hash_on pages sched is ph) (\<lambda>(hs, ph). Inr (h # hs, ph)))"

text \<open>The main thread frees the buffer of a batch that the page worker has finished.\<close>

definition free_pages :: "pre_hash \<Rightarrow> pre_hash" where
  "free_pages ph = ph\<lparr>ph_live := False\<rparr>"

text \<open>The states the three threads can reach.\<close>

inductive pre_hash_reaches :: "('t, 'h) server_env \<Rightarrow> pre_hash \<Rightarrow> bool" for E where
  init: "length junk = PRE_HASH_NUM \<Longrightarrow> init_pre_hash_pair_table (Some junk) = (0, ph) \<Longrightarrow> pre_hash_reaches E ph"
| worker: "pre_hash_reaches E ph \<Longrightarrow> worker_step E ph = Inr ph' \<Longrightarrow> pre_hash_reaches E ph'"
| start: "pre_hash_reaches E ph \<Longrightarrow> max_idx \<le> length pages \<Longrightarrow> max_idx \<le> PRE_HASH_NUM \<Longrightarrow>
    try_start pages max_idx ph = (started, ph') \<Longrightarrow> pre_hash_reaches E ph'"
| free: "pre_hash_reaches E ph \<Longrightarrow> pre_hash_reaches E (free_pages ph)"

section \<open>The invariant\<close>

definition at_ok :: "('t, 'h) server_env \<Rightarrow> pre_hash \<Rightarrow> bool" where
  "at_ok E ph \<longleftrightarrow>
     (case ph_at ph of
        Polling \<Rightarrow> ph_status ph \<in> {WORKER_READY, WORK_DONE} \<or> ph_status ph = DATA_READY \<and> ph_curr_idx ph = 0
      | Clearing \<Rightarrow> ph_status ph \<in> {IN_PROGRESS, STOP} \<and> ph_curr_idx ph = 0
      | Checking i \<Rightarrow> ph_status ph \<in> {IN_PROGRESS, STOP} \<and> ph_curr_idx ph = i
      | Hashing i \<Rightarrow> ph_status ph \<in> {IN_PROGRESS, STOP} \<and> ph_curr_idx ph = i \<and> i < ph_max_idx ph
      | Hashing_Second i \<Rightarrow> ph_status ph \<in> {IN_PROGRESS, STOP} \<and> ph_curr_idx ph = i \<and> i < ph_max_idx ph \<and>
          first_hash (ph_chunk ph ! i) = first_hash (hash_page E (ph_base ph ! i))
      | Counting i \<Rightarrow> ph_status ph \<in> {IN_PROGRESS, STOP} \<and> ph_curr_idx ph = i \<and> i < ph_max_idx ph \<and>
          ph_chunk ph ! i = hash_page E (ph_base ph ! i)
      | Finishing \<Rightarrow> ph_status ph = STOP \<or> ph_status ph = IN_PROGRESS \<and> ph_curr_idx ph = ph_max_idx ph)"

definition pre_hash_inv :: "('t, 'h) server_env \<Rightarrow> pre_hash \<Rightarrow> bool" where
  "pre_hash_inv E ph \<longleftrightarrow> length (ph_chunk ph) = PRE_HASH_NUM \<and> ph_max_idx ph \<le> length (ph_base ph) \<and> ph_max_idx ph \<le> PRE_HASH_NUM \<and>
     ph_curr_idx ph \<le> ph_max_idx ph \<and> at_ok E ph \<and> (\<forall>j < ph_curr_idx ph. ph_chunk ph ! j = hash_page E (ph_base ph ! j))"

lemma worker_step_inv:
  assumes "pre_hash_inv E ph" and "worker_step E ph = Inr ph'"
  shows "pre_hash_inv E ph'"
proof (cases "ph_at ph")
  case (Hashing_Second i)
  then have "i < PRE_HASH_NUM" using assms(1) by (simp add: pre_hash_inv_def at_ok_def)
  moreover have "(ph_chunk ph ! i)\<lparr>second_hash := XXH3_128bits_withSeed E (take 2048 (drop 2048 (ph_base ph ! i))) 0\<rparr> = hash_page E (ph_base ph ! i)"
    using Hashing_Second assms(1) by (simp add: pre_hash_inv_def at_ok_def hash_page_def)
  ultimately show ?thesis using Hashing_Second assms
    by (auto simp: worker_step_def pre_hash_inv_def at_ok_def nth_list_update split: if_splits)
qed (use assms in \<open>auto simp: worker_step_def pre_hash_inv_def at_ok_def hash_page_def nth_list_update less_Suc_eq split: if_splits\<close>)

lemma try_start_inv:
  assumes "pre_hash_inv E ph" and "max_idx \<le> length pages" and "max_idx \<le> PRE_HASH_NUM" and "try_start pages max_idx ph = (started, ph')"
  shows "pre_hash_inv E ph'"
proof (cases "ph_status ph = WORKER_READY \<or> ph_status ph = WORK_DONE")
  case True
  then have "ph_at ph = Polling" using assms(1) by (auto simp: pre_hash_inv_def at_ok_def split: pre_hash_at.splits)
  then show ?thesis using assms True by (auto simp: try_start_def pre_hash_inv_def at_ok_def)
next
  case False
  then show ?thesis using assms by (auto simp: try_start_def pre_hash_inv_def at_ok_def split: if_splits pre_hash_at.splits)
qed

lemma pre_hash_reaches_inv: "pre_hash_reaches E ph \<Longrightarrow> pre_hash_inv E ph"
proof (induction rule: pre_hash_reaches.induct)
  case (init junk ph)
  then show ?case by (auto simp: init_pre_hash_pair_table_def pre_hash_inv_def at_ok_def Let_def)
next
  case (worker ph ph')
  then show ?case using worker_step_inv by blast
next
  case (start ph max_idx pages started ph')
  then show ?case using try_start_inv by blast
next
  case (free ph)
  then show ?case by (simp add: free_pages_def pre_hash_inv_def at_ok_def cong: pre_hash_at.case_cong)
qed


section \<open>The thread does not stand in the way of the next job\<close>

text \<open>
  The pages of the job are still there, or there is no job. \<open>left\<close>: how many steps the thread makes at most after it was told to stop.
\<close>

definition runs :: "('t, 'h) server_env \<Rightarrow> pre_hash \<Rightarrow> bool" where
  "runs E ph \<longleftrightarrow> pre_hash_inv E ph \<and> (ph_live ph \<or> ph_at ph = Polling \<and> ph_status ph \<noteq> DATA_READY)"

abbreviation startable :: "pre_hash \<Rightarrow> bool" where
  "startable ph \<equiv> ph_status ph = WORKER_READY \<or> ph_status ph = WORK_DONE"

definition left :: "pre_hash \<Rightarrow> nat" where
  "left ph = (case ph_at ph of
     Polling \<Rightarrow> 0 | Clearing \<Rightarrow> 3 | Checking i \<Rightarrow> 2 | Hashing i \<Rightarrow> 5 | Hashing_Second i \<Rightarrow> 4 | Counting i \<Rightarrow> 3 | Finishing \<Rightarrow> 1)"

lemma left_le: "left ph \<le> 5"
  by (simp add: left_def split: pre_hash_at.split)

text \<open>How the thread changes the status.\<close>

definition moves :: "pre_hash \<Rightarrow> pre_hash \<Rightarrow> bool" where
  "moves ph ph' \<longleftrightarrow> ph_base ph' = ph_base ph \<and> ph_live ph' = ph_live ph \<and> ph_max_idx ph' = ph_max_idx ph \<and>
     (startable ph \<longrightarrow> startable ph') \<and> (ph_status ph = IN_PROGRESS \<longrightarrow> ph_status ph' = IN_PROGRESS \<or> startable ph') \<and>
     (ph_status ph = STOP \<longrightarrow> ph_status ph' = STOP \<and> left ph' < left ph \<or> startable ph')"

lemma worker_step_moves:
  assumes "runs E ph"
  shows "\<exists>ph'. worker_step E ph = Inr ph' \<and> runs E ph' \<and> moves ph ph' \<and>
    (ph_status ph = DATA_READY \<longrightarrow> ph_status ph' = IN_PROGRESS)"
proof -
  have i: "pre_hash_inv E ph" using assms by (simp add: runs_def)
  then have a: "at_ok E ph" by (simp add: pre_hash_inv_def)
  obtain ph' where s: "worker_step E ph = Inr ph'"
    using assms by (cases "ph_at ph") (simp_all add: runs_def worker_step_def)
  have "moves ph ph' \<and> (ph_status ph = DATA_READY \<longrightarrow> ph_status ph' = IN_PROGRESS) \<and>
      (ph_live ph' \<or> ph_at ph' = Polling \<and> ph_status ph' \<noteq> DATA_READY)"
    using s a assms by (cases "ph_at ph") (auto simp: worker_step_def moves_def runs_def at_ok_def left_def split: if_splits)
  then show ?thesis using s worker_step_inv [OF i s] by (auto simp: runs_def)
qed

lemma run_worker_runs:
  "runs E ph \<Longrightarrow> \<exists>ph'. run_worker E n ph = Inr ph' \<and> runs E ph' \<and> ph_base ph' = ph_base ph \<and> ph_live ph' = ph_live ph \<and> ph_max_idx ph' = ph_max_idx ph \<and>
     (startable ph \<longrightarrow> startable ph') \<and> (ph_status ph = IN_PROGRESS \<longrightarrow> ph_status ph' = IN_PROGRESS \<or> startable ph') \<and>
     (ph_status ph = DATA_READY \<longrightarrow> n = 0 \<or> ph_status ph' = IN_PROGRESS \<or> startable ph') \<and>
     (ph_status ph = STOP \<longrightarrow> ph_status ph' = STOP \<and> left ph' + n \<le> left ph \<or> startable ph')"
proof (induction n arbitrary: ph)
  case (Suc n)
  obtain ph1 where s: "worker_step E ph = Inr ph1" "runs E ph1" "moves ph ph1" "ph_status ph = DATA_READY \<longrightarrow> ph_status ph1 = IN_PROGRESS"
    using worker_step_moves [OF Suc.prems] by blast
  from Suc.IH [OF s(2)] obtain ph' where r: "run_worker E n ph1 = Inr ph'" "runs E ph'"
    "ph_base ph' = ph_base ph1" "ph_live ph' = ph_live ph1" "ph_max_idx ph' = ph_max_idx ph1" "startable ph1 \<longrightarrow> startable ph'"
    "ph_status ph1 = IN_PROGRESS \<longrightarrow> ph_status ph' = IN_PROGRESS \<or> startable ph'"
    "ph_status ph1 = STOP \<longrightarrow> ph_status ph' = STOP \<and> left ph' + n \<le> left ph1 \<or> startable ph'" by blast
  have "startable ph \<longrightarrow> startable ph'" using s(3) r(6) unfolding moves_def by blast
  moreover have "ph_status ph = IN_PROGRESS \<longrightarrow> ph_status ph' = IN_PROGRESS \<or> startable ph'"
    using s(3) r(6,7) unfolding moves_def by blast
  moreover have "ph_status ph = DATA_READY \<longrightarrow> ph_status ph' = IN_PROGRESS \<or> startable ph'" using s(4) r(7) by blast
  moreover have "ph_status ph' = STOP \<and> left ph' + Suc n \<le> left ph \<or> startable ph'" if st: "ph_status ph = STOP"
  proof (cases "startable ph1")
    case False
    then have "ph_status ph1 = STOP" "left ph1 < left ph" using s(3) st unfolding moves_def by blast+
    then show ?thesis using r(8) by auto
  qed (use r(6) in blast)
  ultimately show ?case using s(1,3) r(1-5) by (auto simp: moves_def)
qed simp

text \<open>
  A schedule under which \<open>start_pre_hash_pair_table\<close> returns: the thread is given one step before the second look, and five before
  the third. No more looks are needed.
\<close>

definition fair :: "nat list \<Rightarrow> bool" where
  "fair ns \<longleftrightarrow> 3 \<le> length ns \<and> 1 \<le> ns ! 1 \<and> 5 \<le> ns ! 2"

definition given :: "u8 list list \<Rightarrow> nat \<Rightarrow> pre_hash \<Rightarrow> pre_hash" where
  "given pages max_idx ph = ph\<lparr>ph_base := pages, ph_live := True, ph_curr_idx := 0, ph_max_idx := max_idx, ph_status := DATA_READY\<rparr>"

lemma try_start_startable: "startable ph \<Longrightarrow> try_start pages max_idx ph = (True, given pages max_idx ph)"
  by (auto simp: try_start_def given_def)

lemma try_start_busy:
  assumes "runs E ph" and "\<not> startable ph"
  shows "\<exists>ph'. try_start pages max_idx ph = (False, ph') \<and> runs E ph' \<and>
    ph_status ph' = (if ph_status ph = DATA_READY then DATA_READY else STOP)"
proof -
  have s: "ph_status ph = DATA_READY \<or> ph_status ph = IN_PROGRESS \<or> ph_status ph = STOP"
    using assms by (auto simp: runs_def pre_hash_inv_def at_ok_def split: pre_hash_at.splits)
  have "runs E (ph\<lparr>ph_status := STOP\<rparr>)" if "ph_status ph = IN_PROGRESS"
    using assms(1) that by (auto simp: runs_def pre_hash_inv_def at_ok_def split: pre_hash_at.splits)
  then show ?thesis using s assms(1) by (auto simp: try_start_def)
qed

lemma given_runs:
  assumes "runs E ph" and "startable ph" and "max_idx \<le> length pages" and "max_idx \<le> PRE_HASH_NUM"
  shows "runs E (given pages max_idx ph)"
proof -
  have "pre_hash_inv E (given pages max_idx ph)"
    using try_start_inv [where E = E, OF _ assms(3,4) try_start_startable [OF assms(2)]] assms(1) by (simp add: runs_def)
  then show ?thesis by (simp add: runs_def given_def)
qed

lemma fair_start:
  assumes "runs E ph" and "fair ns" and "max_idx \<le> length pages" and "max_idx \<le> PRE_HASH_NUM"
  shows "\<exists>ph'. start_pre_hash_pair_table E ns pages max_idx ph = Inr ph' \<and> runs E ph' \<and> ph_base ph' = pages \<and> ph_live ph'"
proof -
  have go: "\<exists>ph'. start_pre_hash_pair_table E (n # ns) pages max_idx ph = Inr ph' \<and> runs E ph' \<and> ph_base ph' = pages \<and> ph_live ph'"
    if "run_worker E n ph = Inr ph1" "runs E ph1" "startable ph1" for n ns ph ph1
    using that given_runs [OF that(2,3) assms(3,4)] by (simp add: try_start_startable) (simp add: given_def)
  obtain n0 n1 n2 rest where ns: "ns = n0 # n1 # n2 # rest" "1 \<le> n1" "5 \<le> n2"
    using assms(2) by (auto simp: fair_def numeral_3_eq_3 numeral_2_eq_2 Suc_le_length_iff)
  obtain ph1 where r1: "run_worker E n0 ph = Inr ph1" "runs E ph1" using run_worker_runs [OF assms(1)] by blast
  show ?thesis
  proof (cases "startable ph1")
    case False
    then obtain ph1' where t1: "try_start pages max_idx ph1 = (False, ph1')" "runs E ph1'"
      "ph_status ph1' = (if ph_status ph1 = DATA_READY then DATA_READY else STOP)" using try_start_busy [OF r1(2)] by blast
    from run_worker_runs [OF t1(2), of n1] obtain ph2 where r2: "run_worker E n1 ph1' = Inr ph2" "runs E ph2"
      "ph_status ph1' = DATA_READY \<longrightarrow> n1 = 0 \<or> ph_status ph2 = IN_PROGRESS \<or> startable ph2"
      "ph_status ph1' = STOP \<longrightarrow> ph_status ph2 = STOP \<and> left ph2 + n1 \<le> left ph1' \<or> startable ph2" by blast
    have s1: "start_pre_hash_pair_table E ns pages max_idx ph = start_pre_hash_pair_table E (n1 # n2 # rest) pages max_idx ph1'"
      using r1(1) t1(1) by (simp add: ns(1))
    show ?thesis
    proof (cases "startable ph2")
      case False
      have "ph_status ph2 \<noteq> DATA_READY" using r2(3,4) t1(3) False ns(2) by (auto split: if_splits)
      then obtain ph2' where t2: "try_start pages max_idx ph2 = (False, ph2')" "runs E ph2'" "ph_status ph2' = STOP"
        using try_start_busy [OF r2(2) False] by auto
      from run_worker_runs [OF t2(2), of n2] t2(3) obtain ph3 where r3: "run_worker E n2 ph2' = Inr ph3" "runs E ph3"
        "ph_status ph3 = STOP \<and> left ph3 + n2 \<le> left ph2' \<or> startable ph3" by blast
      have "startable ph3"
      proof (rule ccontr)
        assume "\<not> startable ph3"
        then have "ph_status ph3 = STOP" "left ph3 = 0" using r3(3) ns(3) left_le [of ph2'] by auto
        then show False using r3(2) by (auto simp: runs_def pre_hash_inv_def at_ok_def left_def split: pre_hash_at.splits)
      qed
      from go [OF r3(1,2) this, of rest] show ?thesis using s1 r2(1) t2(1) by simp
    qed (use go [OF r2(1,2), of "n2 # rest"] s1 in simp)
  qed (use go [OF r1, of "n1 # n2 # rest"] ns(1) in simp)
qed


section \<open>The hashes of a batch\<close>

lemma PRE_HASH_NUM_pos [simp]: "0 < PRE_HASH_NUM"
  by (simp add: PRE_HASH_NUM_def)

text \<open>Where the table stands before page \<open>i\<close>; without the option it is not looked at.\<close>

abbreviation based :: "bool \<Rightarrow> u8 list list \<Rightarrow> nat \<Rightarrow> pre_hash \<Rightarrow> bool" where
  "based pre_hash_on pages i ph \<equiv> pre_hash_on \<longrightarrow> ph_base ph = drop (i - i mod PRE_HASH_NUM) pages"

lemma lookup_ok:
  assumes "runs E ph" and "based on pages i ph" and "i < length pages"
  shows "\<exists>pre. lookup_pre_hash_pair on (i mod PRE_HASH_NUM) ph = Inr pre \<and> calculate_hash_pair E pre (pages ! i) = hash_page E (pages ! i)"
proof (cases on)
  case True
  have "ph_base ph ! (i mod PRE_HASH_NUM) = pages ! (i - i mod PRE_HASH_NUM + i mod PRE_HASH_NUM)"
    using assms(3) by (subst assms(2) [rule_format, OF True], subst nth_drop) simp_all
  then have "ph_base ph ! (i mod PRE_HASH_NUM) = pages ! i" by simp
  then have "ph_chunk ph ! (i mod PRE_HASH_NUM) = hash_page E (pages ! i)" if "i mod PRE_HASH_NUM < ph_curr_idx ph"
    using assms(1) that by (simp add: runs_def pre_hash_inv_def)
  then show ?thesis by (simp add: lookup_pre_hash_pair_def calculate_hash_pair_def)
qed (simp add: lookup_pre_hash_pair_def calculate_hash_pair_def)

lemma hash_one_page_ok:
  assumes "runs E ph" and "i < length pages" and "i mod PRE_HASH_NUM = 0 \<Longrightarrow> fair (fst (sched i))"
    and "i mod PRE_HASH_NUM \<noteq> 0 \<Longrightarrow> based on pages i ph"
  shows "\<exists>ph'. hash_one_page E on pages sched i ph = Inr (hash_page E (pages ! i), ph') \<and> runs E ph' \<and> based on pages i ph'"
proof -
  let ?max = "if PRE_HASH_NUM < length pages - i then PRE_HASH_NUM else length pages - i"
  obtain ph1 where 1: "(if on \<and> i mod PRE_HASH_NUM = 0 then start_pre_hash_pair_table E (fst (sched i)) (drop i pages) ?max ph else Inr ph) = Inr ph1"
    "runs E ph1" "based on pages i ph1"
  proof (cases "on \<and> i mod PRE_HASH_NUM = 0")
    case True
    have "?max \<le> length (drop i pages)" "?max \<le> PRE_HASH_NUM" by simp_all
    from fair_start [OF assms(1) assms(3) this] show ?thesis using True that by auto
  qed (use assms(1,4) that in auto)
  obtain ph2 where 2: "run_worker E (snd (sched i)) ph1 = Inr ph2" "runs E ph2" "ph_base ph2 = ph_base ph1"
    using run_worker_runs [OF 1(2)] by blast
  have b: "based on pages i ph2" using 1(3) 2(3) by simp
  from lookup_ok [OF 2(2) b assms(2)] obtain pre where
    "lookup_pre_hash_pair on (i mod PRE_HASH_NUM) ph2 = Inr pre" "calculate_hash_pair E pre (pages ! i) = hash_page E (pages ! i)" by auto
  then show ?thesis using 1(1) 2(1,2) b unfolding hash_one_page_def by simp
qed

lemma hash_pages_ok:
  assumes "runs E ph" and "k \<le> length pages" and "\<And>i. i < length pages \<Longrightarrow> i mod PRE_HASH_NUM = 0 \<Longrightarrow> fair (fst (sched i))"
    and "k mod PRE_HASH_NUM \<noteq> 0 \<Longrightarrow> based on pages k ph"
  shows "\<exists>ph'. hash_pages E on pages sched [k..<length pages] ph = Inr (map (hash_page E) (drop k pages), ph') \<and> runs E ph'"
  using assms(1,2,4)
proof (induction "length pages - k" arbitrary: k ph)
  case 0
  then show ?case by simp
next
  case (Suc n)
  then have k: "k < length pages" by simp
  from hash_one_page_ok [where pages = pages and sched = sched and i = k and on = on, OF Suc.prems(1) k assms(3) [OF k] Suc.prems(3)] obtain ph1 where
    1: "hash_one_page E on pages sched k ph = Inr (hash_page E (pages ! k), ph1)" "runs E ph1" "based on pages k ph1" by blast
  have "based on pages (Suc k) ph1" if "Suc k mod PRE_HASH_NUM \<noteq> 0"
    using 1(3) that by (simp add: mod_Suc split: if_splits)
  moreover have "n = length pages - Suc k" "Suc k \<le> length pages" using Suc.hyps(2) k by simp_all
  ultimately obtain ph' where
    "hash_pages E on pages sched [Suc k..<length pages] ph1 = Inr (map (hash_page E) (drop (Suc k) pages), ph')" "runs E ph'"
    using Suc.hyps(1) [OF _ 1(2)] by blast
  then show ?case using 1(1) k by (simp add: upt_conv_Cons Cons_nth_drop_Suc [symmetric])
qed


section \<open>Freed pages\<close>

lemma at_busy:
  assumes "pre_hash_inv E ph" and "ph_status ph = DATA_READY \<or> ph_status ph = IN_PROGRESS"
  shows "(ph_at ph = Polling \<and> ph_status ph = DATA_READY \<and> ph_curr_idx ph = 0) \<or>
    ph_status ph = IN_PROGRESS \<and> (ph_at ph = Clearing \<and> ph_curr_idx ph = 0 \<or> ph_at ph = Checking (ph_curr_idx ph) \<or> ph_at ph = Hashing (ph_curr_idx ph) \<or>
      ph_at ph = Hashing_Second (ph_curr_idx ph) \<or> ph_at ph = Counting (ph_curr_idx ph) \<or> ph_curr_idx ph = ph_max_idx ph)"
  using assms by (auto simp: pre_hash_inv_def at_ok_def split: pre_hash_at.splits)

text \<open>
  C29. Pages are freed under the hashing thread. The main thread frees the buffer of a batch when the page worker is done with it, but the
  thread may be behind, since the page worker computes the hashes it does not find: when at least two pages of the job are
  not counted yet and nobody stops the job, the thread reads freed memory after at most four more steps.
\<close>

theorem freed_pages_are_read:
  assumes "pre_hash_reaches E ph" and "ph_status ph = DATA_READY \<or> ph_status ph = IN_PROGRESS" and "ph_curr_idx ph + 1 < ph_max_idx ph"
  shows "run_worker E 4 (free_pages ph) = Inl Null_Deref"
proof -
  show ?thesis using at_busy [OF pre_hash_reaches_inv [OF assms(1)] assms(2)] assms(3)
    by (elim disjE conjE) (simp_all add: worker_step_def free_pages_def eval_nat_numeral)
qed


definition sample_pre_hash :: pre_hash where
  "sample_pre_hash = snd (init_pre_hash_pair_table (Some (replicate PRE_HASH_NUM null_hash)))"

lemma sample_pre_hash_reached: "pre_hash_reaches sample_env sample_pre_hash"
  by (rule pre_hash_reaches.init [of "replicate PRE_HASH_NUM null_hash"]) (simp_all add: sample_pre_hash_def init_pre_hash_pair_table_def)

lemma sample_pre_hash_idle: "ph_at sample_pre_hash = Polling" "ph_status sample_pre_hash = WORKER_READY"
  by (simp_all add: sample_pre_hash_def init_pre_hash_pair_table_def)


theorem freed_pages_are_read_witness:
  "\<exists>ph. pre_hash_reaches sample_env ph \<and> ph_status ph = DATA_READY \<and> run_worker sample_env 4 (free_pages ph) = Inl Null_Deref"
proof -
  have t: "try_start [[7], [9]] 2 sample_pre_hash = (True, given [[7], [9]] 2 sample_pre_hash)"
    by (rule try_start_startable) (simp add: sample_pre_hash_idle)
  have "pre_hash_reaches sample_env (given [[7], [9]] 2 sample_pre_hash)"
    by (rule pre_hash_reaches.start [OF sample_pre_hash_reached _ _ t]) (simp_all add: PRE_HASH_NUM_def)
  from freed_pages_are_read [OF this] this show ?thesis by (auto simp: given_def)
qed

section \<open>No table\<close>

lemma no_table_no_start:
  assumes "init_pre_hash_pair_table None = (r, ph)"
  shows "r = - 1 \<and> start_pre_hash_pair_table E ns pages max_idx ph = Inl Diverged"
proof -
  have r: "r = - 1" "ph_at ph = Polling" "ph_status ph = NO_WORKER"
    using assms by (auto simp: init_pre_hash_pair_table_def)
  have "worker_step E ph = Inr ph" using r by (simp add: worker_step_def)
  then have "run_worker E n ph = Inr ph" for n by (induction n) simp_all
  then have "start_pre_hash_pair_table E ns pages max_idx ph = Inl Diverged" using r by (induction ns) (simp_all add: try_start_def)
  then show ?thesis using r(1) by simp
qed

end
