(* ===== verification/Host_Descent.thy ===== *)
theory Host_Descent
  imports Server_Ops Host_Properties "HOL-Library.Tree"
begin

text \<open>
  The descent through the stable tree (\<open>mm/ksm.c\<close>: \<open>stable_node_dup\<close>, \<open>stable_node_dup_any\<close>, \<open>__stable_node_chain\<close>, \<open>chain\<close>
  and the loop of \<open>stable_tree_insert\<close>), which \<open>Host_State\<close> leaves open, and what the whole of \<open>stable_tree_insert\<close> then
  does to the tree: it stays sorted by the contents of the pages, with one entry for each contents.
\<close>

section \<open>Definitions\<close>

text \<open>
  Host_State keeps the nodes of the tree as \<open>h_tree\<close>; here the tree has its shape. Linking, replacing and erasing are written
  out; \<open>rb_insert_color\<close> and the rebalancing of \<open>rb_erase\<close> are \<open>lib/rbtree.c\<close> of Linux, and parameters. The contents of a
  frame are its bytes.
\<close>

record rb_ops =
  rb_insert_color :: "addr \<Rightarrow> addr tree \<Rightarrow> addr tree"
  rb_erase :: "addr \<Rightarrow> addr tree \<Rightarrow> addr tree"

definition page_opt :: "ksm_page \<Rightarrow> u64 option" where
  "page_opt p = (case p of Ksm_Page kpfn \<Rightarrow> Some kpfn | _ \<Rightarrow> None)"

text \<open>
  The loop of \<open>stable_node_dup\<close> over the nodes of the chain: the fullest that can take one more sharer, or the first such
  when not pruning; found with its page and its \<open>rmap_hlist_len\<close>.
\<close>

primrec pick_dup ::
  "host_env \<Rightarrow> bool \<Rightarrow> addr list \<Rightarrow> (addr \<times> u64 \<times> int) option \<Rightarrow> nat \<Rightarrow> host \<Rightarrow> ((addr \<times> u64 \<times> int) option \<times> nat \<times> host) res" where
  "pick_dup E prune [] best nr s = Inr (best, nr, s)"
| "pick_dup E prune (dup # dups) best nr s =
     rbind (get_ksm_page E GET_KSM_PAGE_NOLOCK dup s) (\<lambda>(page, s).
       case page_opt page of
         None \<Rightarrow> pick_dup E prune dups best nr s
       | Some p \<Rightarrow>
           rbind (deref (h_nodes s) dup) (\<lambda>nd.
             if is_page_sharing_candidate (he_max_page_sharing E) 0 nd \<and>
                (case best of None \<Rightarrow> True | Some (f, fp, len) \<Rightarrow> hn_rmap_hlist_len nd > len)
             then
               (let s = (case best of None \<Rightarrow> s | Some (f, fp, len) \<Rightarrow> put_page fp s);
                    best = Some (dup, p, hn_rmap_hlist_len nd)
                in if \<not> prune then Inr (best, nr + 1, s) else pick_dup E prune dups best (nr + 1) s)
             else pick_dup E prune dups best (nr + 1) (put_page p s)))"

text \<open>
  \<open>due\<close> is the test of \<open>chain_prune_time\<close>. The second part of the result is \<open>*_stable_node\<close>: when the chain is
  collapsed, the node found, which has taken its place in the tree.
\<close>

definition stable_node_dup :: "host_env \<Rightarrow> bool \<Rightarrow> bool \<Rightarrow> addr \<Rightarrow> host \<Rightarrow> (addr option \<times> addr \<times> u64 option \<times> host) res" where
  "stable_node_dup E due prune c s =
     (let prune = (prune \<and> due)
      in rbind (deref (h_nodes s) c) (\<lambda>ch.
         rbind (pick_dup E prune (hn_dups ch) None 0 s) (\<lambda>(best, nr, s).
           case best of
             None \<Rightarrow> Inr (None, c, None, s)
           | Some (f, page, len) \<Rightarrow>
               rbind (deref (h_nodes s) c) (\<lambda>ch.
               rbind (deref (h_nodes s) f) (\<lambda>fd.
                 if prune \<and> nr = 1 then
                   rbind (guard_stop ''BUG_ON'' (tl (hn_dups ch) = [])) (\<lambda>_.
                     (let s = upd_node f (\<lambda>nd. nd\<lparr>hn_place := Tree_Node\<rparr>) (s\<lparr>h_tree := map (\<lambda>x. if x = c then f else x) (h_tree s)\<rparr>);
                          s = free_stable_node c s
                      in Inr (Some f, f, Some page,
                           s\<lparr>stable_node_chains := stable_node_chains s - 1, stable_node_dups := stable_node_dups s - 1\<rparr>)))
                 else if take 1 (hn_dups ch) \<noteq> [f] \<and> is_page_sharing_candidate (he_max_page_sharing E) 1 fd then
                   Inr (Some f, c, Some page, upd_node c (\<lambda>ch. ch\<lparr>hn_dups := f # remove1 f (hn_dups ch)\<rparr>) s)
                 else Inr (Some f, c, Some page, s))))))"

definition free_stable_node_chain :: "addr \<Rightarrow> host \<Rightarrow> host" where
  "free_stable_node_chain c s =
     (let s = free_stable_node c (s\<lparr>h_tree := remove1 c (h_tree s)\<rparr>) in s\<lparr>stable_node_chains := stable_node_chains s - 1\<rparr>)"

definition stable_node_dup_any :: "addr \<Rightarrow> host \<Rightarrow> (addr option \<times> host) res" where
  "stable_node_dup_any m s =
     rbind (deref (h_nodes s) m) (\<lambda>nd.
       if \<not> is_stable_node_chain nd then Inr (Some m, s)
       else
         (case hn_dups nd of
            [] \<Rightarrow> Inr (None, free_stable_node_chain m s)
          | dup # dups \<Rightarrow> Inr (Some dup, s)))"

text \<open>\<open>__stable_node_chain\<close>, and \<open>chain\<close>, which does not prune.\<close>

definition stable_node_chain :: "host_env \<Rightarrow> bool \<Rightarrow> bool \<Rightarrow> addr \<Rightarrow> host \<Rightarrow> (addr option \<times> addr \<times> u64 option \<times> host) res" where
  "stable_node_chain E due prune m s =
     rbind (deref (h_nodes s) m) (\<lambda>nd.
       if \<not> is_stable_node_chain nd then
         (if is_page_sharing_candidate (he_max_page_sharing E) 0 nd then
            rbind (get_ksm_page E GET_KSM_PAGE_NOLOCK m s) (\<lambda>(page, s). Inr (Some m, m, page_opt page, s))
          else Inr (None, m, None, s))
       else stable_node_dup E due prune m s)"

definition chain_page :: "host_env \<Rightarrow> addr \<Rightarrow> host \<Rightarrow> (addr option \<times> u64 option \<times> host) res" where
  "chain_page E m s = rbind (stable_node_chain E False False m s) (\<lambda>(dup, node, page, s). Inr (dup, page, s))"

text \<open>The first half of a step of the loop: the page the node is compared by, with a reference. None goes back to \<open>again\<close>.\<close>

definition tree_page :: "host_env \<Rightarrow> addr \<Rightarrow> host \<Rightarrow> (u64 option \<times> host) res" where
  "tree_page E m s =
     rbind (chain_page E m s) (\<lambda>(dup, page, s).
       if dup \<noteq> None then Inr (page, s)
       else
         rbind (stable_node_dup_any m s) (\<lambda>(any, s).
           case any of
             None \<Rightarrow> Inr (None, s)
           | Some a \<Rightarrow> rbind (get_ksm_page E GET_KSM_PAGE_NOLOCK a s) (\<lambda>(page, s). Inr (page_opt page, s))))"

datatype direction = Go_Left | Go_Right

datatype place = Same_As addr | Below "direction list"

datatype descent = Again | Arrived place

primrec descend ::
  "host_env \<Rightarrow> (u8 list \<Rightarrow> u8 list \<Rightarrow> int) \<Rightarrow> (u64 \<Rightarrow> u8 list) \<Rightarrow> u64 \<Rightarrow> addr tree \<Rightarrow> direction list \<Rightarrow> host \<Rightarrow> (descent \<times> host) res" where
  "descend E cmp bytes kpage Leaf path s = Inr (Arrived (Below path), s)"
| "descend E cmp bytes kpage (Node l m r) path s =
     rbind (tree_page E m s) (\<lambda>(page, s).
       case page of
         None \<Rightarrow> Inr (Again, s)
       | Some p \<Rightarrow>
           (let ret = cmp (bytes kpage) (bytes p); s = put_page p s
            in if ret < 0 then descend E cmp bytes kpage l (path @ [Go_Left]) s
               else if ret > 0 then descend E cmp bytes kpage r (path @ [Go_Right]) s
               else Inr (Arrived (Same_As m), s)))"

text \<open>What left \<open>h_tree\<close> during a descent was erased from the tree.\<close>

definition erased :: "rb_ops \<Rightarrow> host \<Rightarrow> addr tree \<Rightarrow> addr tree" where
  "erased R s t = fold (rb_erase R) (filter (\<lambda>n. n \<notin> set (h_tree s)) (inorder t)) t"

partial_function (option) stable_place ::
  "rb_ops \<Rightarrow> host_env \<Rightarrow> (u8 list \<Rightarrow> u8 list \<Rightarrow> int) \<Rightarrow> (u64 \<Rightarrow> u8 list) \<Rightarrow> u64 \<Rightarrow> addr tree \<Rightarrow> host \<Rightarrow> (place \<times> addr tree \<times> host) res option" where
  "stable_place R E cmp bytes kpage t s =
     (case descend E cmp bytes kpage t [] s of
        Inl e \<Rightarrow> Some (Inl e)
      | Inr (step, s) \<Rightarrow>
          (case step of
             Arrived p \<Rightarrow> Some (Inr (p, t, s))
           | Again \<Rightarrow> stable_place R E cmp bytes kpage (erased R s t) s))"

fun link_node :: "direction list \<Rightarrow> addr \<Rightarrow> addr tree \<Rightarrow> addr tree" where
  "link_node path n Leaf = Node Leaf n Leaf"
| "link_node (Go_Left # path) n (Node l m r) = Node (link_node path n l) m r"
| "link_node (Go_Right # path) n (Node l m r) = Node l m (link_node path n r)"
| "link_node [] n (Node l m r) = Node l m r"

text \<open>
  The whole of \<open>stable_tree_insert\<close>: the descent, and what \<open>Host_State\<close> has behind it. A new chain takes the place of the
  node with the same contents; the new node is in it.
\<close>

definition stable_tree_insert_tree ::
  "rb_ops \<Rightarrow> host_env \<Rightarrow> (u8 list \<Rightarrow> u8 list \<Rightarrow> int) \<Rightarrow> (u64 \<Rightarrow> u8 list) \<Rightarrow> u64 \<Rightarrow> addr tree \<Rightarrow> host \<Rightarrow> (addr option \<times> addr tree \<times> host) res" where
  "stable_tree_insert_tree R E cmp bytes kpage t s =
     rbind (loop_result (stable_place R E cmp bytes kpage t s)) (\<lambda>(place, t, s).
     rbind (stable_tree_insert E (\<lambda>_. case place of Same_As m \<Rightarrow> Some m | Below path \<Rightarrow> None) kpage s) (\<lambda>(new, s).
       case new of
         None \<Rightarrow> Inr (None, t, s)
       | Some n \<Rightarrow>
           (case place of
              Below path \<Rightarrow> Inr (Some n, rb_insert_color R n (link_node path n t), s)
            | Same_As m \<Rightarrow>
                rbind (deref (h_nodes s) n) (\<lambda>nd.
                  Inr (Some n, case hn_place nd of Dup_Of c \<Rightarrow> map_tree (\<lambda>x. if x = m then c else x) t | _ \<Rightarrow> t, s)))))"


section \<open>The order of contents\<close>

abbreviation before :: "u8 list \<Rightarrow> u8 list \<Rightarrow> bool" where
  "before a b \<equiv> memcmp_diff a b < 0"

lemma memcmp_diff_swap: "memcmp_diff ys xs = - memcmp_diff xs ys"
  by (induction xs ys rule: memcmp_diff.induct) auto

lemma memcmp_diff_trans:
  "length xs = length ys \<Longrightarrow> length ys = length zs \<Longrightarrow> memcmp_diff xs ys < 0 \<Longrightarrow> memcmp_diff ys zs < 0 \<Longrightarrow> memcmp_diff xs zs < 0"
proof (induction xs arbitrary: ys zs)
  case (Cons x xs)
  obtain y ys' z zs' where yz: "ys = y # ys'" "zs = z # zs'" using Cons.prems(1,2) by (cases ys; cases zs) auto
  have len: "length xs = length ys'" "length ys' = length zs'" using Cons.prems(1,2) yz by simp_all
  have step: "memcmp_diff (a # as) (b # bs) < 0 \<longleftrightarrow> uint a < uint b \<or> a = b \<and> memcmp_diff as bs < 0" for a b :: u8 and as bs
    by simp
  have "uint x < uint y \<or> x = y \<and> memcmp_diff xs ys' < 0" "uint y < uint z \<or> y = z \<and> memcmp_diff ys' zs' < 0"
    using Cons.prems(3,4) unfolding yz step by blast+
  then have "uint x < uint z \<or> x = z \<and> memcmp_diff xs zs' < 0"
    using Cons.IH [OF len] by (elim disjE conjE) (auto intro: less_trans)
  then show ?case unfolding yz step .
qed simp

context memcmp_function
begin

lemma memcmp_less: "length xs = length ys \<Longrightarrow> memcmp xs ys < 0 \<longleftrightarrow> memcmp_diff xs ys < 0"
  using memcmp_sign [of xs ys] by (simp add: sgn_if split: if_splits)

lemma memcmp_greater: "length xs = length ys \<Longrightarrow> 0 < memcmp xs ys \<longleftrightarrow> memcmp_diff ys xs < 0"
  using memcmp_sign [of xs ys] memcmp_diff_swap [of ys xs] by (simp add: sgn_if split: if_splits)

end

section \<open>What the descent finds\<close>

text \<open>A node in use: its page points back to it.\<close>

definition fresh :: "host \<Rightarrow> addr \<Rightarrow> bool" where
  "fresh s d \<longleftrightarrow> (\<exists>nd. h_nodes s d = Some nd \<and> \<not> is_stable_node_chain nd \<and>
     pg_mapping (h_pages s (hn_kpfn nd)) = Ksm_Mapping (Some d) \<and> 0 < pg_count (h_pages s (hn_kpfn nd)))"

definition holds :: "(u64 \<Rightarrow> u8 list) \<Rightarrow> host \<Rightarrow> u8 list \<Rightarrow> addr \<Rightarrow> bool" where
  "holds bytes s k d \<longleftrightarrow> fresh s d \<and> (\<exists>nd. h_nodes s d = Some nd \<and> bytes (hn_kpfn nd) = k)"

text \<open>The nodes behind an entry of the tree, and an entry for pages with the contents \<open>k\<close>.\<close>

definition behind :: "host \<Rightarrow> addr \<Rightarrow> addr list" where
  "behind s m = (case h_nodes s m of None \<Rightarrow> [] | Some nd \<Rightarrow> if is_stable_node_chain nd then hn_dups nd else [m])"

definition entry :: "(u64 \<Rightarrow> u8 list) \<Rightarrow> host \<Rightarrow> addr \<Rightarrow> u8 list \<Rightarrow> bool" where
  "entry bytes s m k \<longleftrightarrow> h_nodes s m \<noteq> None \<and> behind s m \<noteq> [] \<and> distinct (behind s m) \<and> (\<forall>d \<in> set (behind s m). holds bytes s k d)"

text \<open>The tree is sorted by contents, and has one entry for each contents \<open>ks\<close>.\<close>

definition tree_ok :: "(u64 \<Rightarrow> u8 list) \<Rightarrow> host \<Rightarrow> addr tree \<Rightarrow> u8 list list \<Rightarrow> bool" where
  "tree_ok bytes s t ks \<longleftrightarrow> list_all2 (entry bytes s) (inorder t) ks \<and> sorted_wrt before ks"

text \<open>All the descent changes: the order of the nodes of a chain.\<close>

definition reorder_node :: "ksm_stable_node \<Rightarrow> ksm_stable_node \<Rightarrow> bool" where
  "reorder_node nd nd' \<longleftrightarrow> (\<exists>ds. nd' = nd\<lparr>hn_dups := ds\<rparr> \<and> mset ds = mset (hn_dups nd))"

definition reordered :: "host \<Rightarrow> host \<Rightarrow> bool" where
  "reordered s s' \<longleftrightarrow> (\<exists>N. s' = s\<lparr>h_nodes := N\<rparr> \<and> (\<forall>m. rel_option reorder_node (h_nodes s m) (N m)))"

lemma reorder_node_refl: "reorder_node nd nd"
  unfolding reorder_node_def by (rule exI [of _ "hn_dups nd"]) simp

lemma reordered_refl: "reordered s s"
  unfolding reordered_def by (rule exI [of _ "h_nodes s"]) (simp add: option.rel_refl reorder_node_refl)

lemma put_get_page_eq [simp]: "put_page p (get_page p s) = s"
  by (simp add: put_page_def get_page_def upd_page_def)

lemma get_fresh_page:
  assumes "fresh s d" and "flags \<noteq> GET_KSM_PAGE_TRYLOCK"
  obtains nd where "h_nodes s d = Some nd" "\<not> is_stable_node_chain nd"
    "get_ksm_page E flags d s = Inr (Ksm_Page (hn_kpfn nd), get_page (hn_kpfn nd) s)"
  using assms unfolding fresh_def get_ksm_page_def by (auto simp: deref_def Let_def)

lemma get_page_nodes [simp]: "h_nodes (get_page p s) = h_nodes s"
  by (simp add: get_page_def upd_page_def)

lemma upd_node_get_page: "upd_node c f (get_page p s) = get_page p (upd_node c f s)"
  by (simp add: get_page_def upd_page_def upd_node_def)

lemma pick_dup_fresh:
  assumes "\<forall>d \<in> set dups. fresh s d"
  shows "(\<exists>nr. pick_dup E False dups None n s = Inr (None, nr, s)) \<or>
    (\<exists>d nd nr. pick_dup E False dups None n s = Inr (Some (d, hn_kpfn nd, hn_rmap_hlist_len nd), nr, get_page (hn_kpfn nd) s) \<and>
       d \<in> set dups \<and> h_nodes s d = Some nd)"
  using assms
proof (induction dups arbitrary: n)
  case (Cons d dups)
  from get_fresh_page [of s d GET_KSM_PAGE_NOLOCK E] Cons.prems obtain nd where nd: "h_nodes s d = Some nd"
    "get_ksm_page E GET_KSM_PAGE_NOLOCK d s = Inr (Ksm_Page (hn_kpfn nd), get_page (hn_kpfn nd) s)" by auto
  show ?case
  proof (cases "is_page_sharing_candidate (he_max_page_sharing E) 0 nd")
    case True
    then have "pick_dup E False (d # dups) None n s =
        Inr (Some (d, hn_kpfn nd, hn_rmap_hlist_len nd), n + 1, get_page (hn_kpfn nd) s)"
      using nd by (simp add: page_opt_def deref_def)
    then show ?thesis using nd(1) by (intro disjI2 exI [of _ d] exI [of _ nd] exI [of _ "n + 1"]) simp
  next
    case False
    then have e: "pick_dup E False (d # dups) None n s = pick_dup E False dups None (n + 1) s"
      using nd by (simp add: page_opt_def deref_def)
    show ?thesis using Cons.IH [of "n + 1"] Cons.prems unfolding e by auto
  qed
qed simp

lemma reorder_node_trans: "reorder_node a b \<Longrightarrow> reorder_node b c \<Longrightarrow> reorder_node a c"
  unfolding reorder_node_def by auto

lemma reordered_trans:
  assumes "reordered s s1" and "reordered s1 s2"
  shows "reordered s s2"
proof -
  obtain N1 N2 where N: "s1 = s\<lparr>h_nodes := N1\<rparr>" "\<And>m. rel_option reorder_node (h_nodes s m) (N1 m)"
    "s2 = s1\<lparr>h_nodes := N2\<rparr>" "\<And>m. rel_option reorder_node (N1 m) (N2 m)"
    using assms unfolding reordered_def by auto
  have "rel_option reorder_node (h_nodes s m) (N2 m)" for m
    using N(2) [of m] N(4) [of m] by (cases "h_nodes s m"; cases "N1 m"; cases "N2 m") (auto intro: reorder_node_trans)
  then show ?thesis using N(1,3) unfolding reordered_def by (intro exI [of _ N2]) simp
qed

lemma reordered_pages: "reordered s s' \<Longrightarrow> h_pages s' = h_pages s"
  by (auto simp: reordered_def)

lemma reordered_node:
  assumes "reordered s s'" and "h_nodes s m = Some nd"
  obtains ds where "h_nodes s' m = Some (nd\<lparr>hn_dups := ds\<rparr>)" "mset ds = mset (hn_dups nd)"
proof -
  obtain N where N: "s' = s\<lparr>h_nodes := N\<rparr>" "rel_option reorder_node (h_nodes s m) (N m)"
    using assms(1) unfolding reordered_def by blast
  then show ?thesis using that assms(2) by (cases "N m") (auto simp: reorder_node_def)
qed

lemma is_chain_dups [simp]: "is_stable_node_chain (nd\<lparr>hn_dups := ds\<rparr>) = is_stable_node_chain nd"
  by (simp add: is_stable_node_chain_def)

lemma holds_reordered:
  assumes "reordered s s'" and "holds bytes s k d"
  shows "holds bytes s' k d"
proof -
  from assms(2) obtain nd where nd: "h_nodes s d = Some nd" "\<not> is_stable_node_chain nd" "bytes (hn_kpfn nd) = k"
    "pg_mapping (h_pages s (hn_kpfn nd)) = Ksm_Mapping (Some d)" "0 < pg_count (h_pages s (hn_kpfn nd))"
    by (auto simp: holds_def fresh_def)
  from reordered_node [OF assms(1) nd(1)] obtain ds where "h_nodes s' d = Some (nd\<lparr>hn_dups := ds\<rparr>)" .
  then show ?thesis using nd(2-) by (simp add: holds_def fresh_def reordered_pages [OF assms(1)])
qed

lemma behind_reordered:
  assumes "reordered s s'" and "h_nodes s m \<noteq> None"
  shows "mset (behind s' m) = mset (behind s m) \<and> h_nodes s' m \<noteq> None"
proof -
  obtain nd where nd: "h_nodes s m = Some nd" using assms(2) by blast
  from reordered_node [OF assms(1) nd] obtain ds where "h_nodes s' m = Some (nd\<lparr>hn_dups := ds\<rparr>)" "mset ds = mset (hn_dups nd)" .
  then show ?thesis using nd by (simp add: behind_def)
qed

lemma entry_reordered:
  assumes "reordered s s'" and "entry bytes s m k"
  shows "entry bytes s' m k"
proof -
  note e = assms(2) [unfolded entry_def]
  have b: "mset (behind s' m) = mset (behind s m)" "h_nodes s' m \<noteq> None" using behind_reordered [OF assms(1)] e by blast+
  have "set (behind s' m) = set (behind s m)" "distinct (behind s' m)" "behind s' m \<noteq> []"
    using e mset_eq_setD [OF b(1)] mset_eq_imp_distinct_iff [OF b(1)] by auto
  then show ?thesis using e b(2) holds_reordered [OF assms(1)] by (simp add: entry_def)
qed

lemma reordered_move:
  assumes "h_nodes s c = Some ch" and "f \<in> set (hn_dups ch)"
  shows "reordered s (upd_node c (\<lambda>ch. ch\<lparr>hn_dups := f # remove1 f (hn_dups ch)\<rparr>) s)"
  unfolding reordered_def
proof (intro exI conjI allI)
  let ?N = "(h_nodes s)(c := map_option (\<lambda>ch. ch\<lparr>hn_dups := f # remove1 f (hn_dups ch)\<rparr>) (h_nodes s c))"
  show "upd_node c (\<lambda>ch. ch\<lparr>hn_dups := f # remove1 f (hn_dups ch)\<rparr>) s = s\<lparr>h_nodes := ?N\<rparr>" by (simp add: upd_node_def)
  have "reorder_node ch (ch\<lparr>hn_dups := f # remove1 f (hn_dups ch)\<rparr>)"
    unfolding reorder_node_def using assms(2) by (intro exI [of _ "f # remove1 f (hn_dups ch)"]) simp
  then show "rel_option reorder_node (h_nodes s m) (?N m)" for m
    using assms(1) by (simp add: option.rel_refl reorder_node_refl)
qed

section \<open>A step of the descent\<close>

text \<open>The page a node is compared by has the contents of its entry; the reference is the only other change.\<close>

lemma tree_page_ok:
  assumes "entry bytes s m k"
  shows "\<exists>p s'. tree_page E m s = Inr (Some p, get_page p s') \<and> reordered s s' \<and> bytes p = k"
proof -
  note e = assms [unfolded entry_def]
  obtain nd where nd: "h_nodes s m = Some nd" using e by blast
  have fr: "fresh s d" "\<And>nd. h_nodes s d = Some nd \<Longrightarrow> bytes (hn_kpfn nd) = k" if "d \<in> set (behind s m)" for d
    using e that by (auto simp: holds_def)
  have page: "get_ksm_page E GET_KSM_PAGE_NOLOCK d s = Inr (Ksm_Page (hn_kpfn dn), get_page (hn_kpfn dn) s) \<and> bytes (hn_kpfn dn) = k"
    if "d \<in> set (behind s m)" "h_nodes s d = Some dn" for d dn
    using get_fresh_page [OF fr(1) [OF that(1)], of GET_KSM_PAGE_NOLOCK E] fr(2) [OF that] that(2) by fastforce
  show ?thesis
  proof (cases "is_stable_node_chain nd")
    case False
    then have b: "m \<in> set (behind s m)" using nd by (simp add: behind_def)
    from page [OF b nd] have "tree_page E m s = Inr (Some (hn_kpfn nd), get_page (hn_kpfn nd) s)"
      using nd False by (simp add: tree_page_def chain_page_def stable_node_chain_def stable_node_dup_any_def deref_def page_opt_def)
    then show ?thesis using page [OF b nd] reordered_refl by blast
  next
    case True
    then have b: "behind s m = hn_dups nd" using nd by (simp add: behind_def)
    then obtain d ds where ds: "hn_dups nd = d # ds" using e by (cases "hn_dups nd") auto
    have "\<forall>d \<in> set (hn_dups nd). fresh s d" using fr(1) b by simp
    from pick_dup_fresh [OF this, of E 0] show ?thesis
    proof (elim disjE exE conjE)
      fix nr assume "pick_dup E False (hn_dups nd) None 0 s = Inr (None, nr, s)"
      moreover obtain dn where dn: "h_nodes s d = Some dn" using fr(1) [of d] b ds by (auto simp: fresh_def)
      ultimately have "tree_page E m s = Inr (Some (hn_kpfn dn), get_page (hn_kpfn dn) s)"
        using nd True ds page [of d dn] b
        by (simp add: tree_page_def chain_page_def stable_node_chain_def stable_node_dup_def stable_node_dup_any_def deref_def page_opt_def)
      then show ?thesis using page [of d dn] b ds dn reordered_refl by fastforce
    next
      fix f fd nr assume f: "pick_dup E False (hn_dups nd) None 0 s =
          Inr (Some (f, hn_kpfn fd, hn_rmap_hlist_len fd), nr, get_page (hn_kpfn fd) s)" "f \<in> set (hn_dups nd)" "h_nodes s f = Some fd"
      let ?move = "take 1 (hn_dups nd) \<noteq> [f] \<and> is_page_sharing_candidate (he_max_page_sharing E) 1 fd"
      let ?s = "if ?move then upd_node m (\<lambda>ch. ch\<lparr>hn_dups := f # remove1 f (hn_dups ch)\<rparr>) s else s"
      have "tree_page E m s = Inr (Some (hn_kpfn fd), get_page (hn_kpfn fd) ?s)"
        using nd True f
        by (simp add: tree_page_def chain_page_def stable_node_chain_def stable_node_dup_def deref_def upd_node_get_page)
      moreover have "reordered s ?s" using reordered_move [OF nd f(2)] reordered_refl by simp
      moreover have "bytes (hn_kpfn fd) = k" using fr(2) b f(2,3) by simp
      ultimately show ?thesis by blast
    qed
  qed
qed

section \<open>The descent\<close>

lemma list_all2_entry_reordered:
  "reordered s s' \<Longrightarrow> list_all2 (entry bytes s) ms ks \<Longrightarrow> list_all2 (entry bytes s') ms ks"
  using entry_reordered by (metis list_all2_mono)

lemma entry_contents: "entry bytes s m k \<Longrightarrow> \<exists>p. k = bytes p"
  by (cases "behind s m") (auto simp: entry_def holds_def)

definition free_place :: "u8 list \<Rightarrow> addr list \<Rightarrow> u8 list list \<Rightarrow> (addr \<Rightarrow> addr list) \<Rightarrow> bool" where
  "free_place k ms ks linked \<longleftrightarrow> (\<exists>xs ys ks1 ks2. ms = xs @ ys \<and> ks = ks1 @ ks2 \<and> length xs = length ks1 \<and>
     (\<forall>n. linked n = xs @ n # ys) \<and> (\<forall>a \<in> set ks1. before a k) \<and> (\<forall>b \<in> set ks2. before k b))"

lemma free_place_left:
  assumes "free_place k ms ks linked" and "\<forall>b \<in> set (c # ks'). before k b"
  shows "free_place k (ms @ m # ms') (ks @ c # ks') (\<lambda>n. linked n @ m # ms')"
proof -
  from assms(1) obtain xs ys ks1 ks2 where "ms = xs @ ys" "ks = ks1 @ ks2" "length xs = length ks1"
    "\<forall>n. linked n = xs @ n # ys" "\<forall>a \<in> set ks1. before a k" "\<forall>b \<in> set ks2. before k b" unfolding free_place_def by blast
  then show ?thesis using assms(2) unfolding free_place_def
    by (intro exI [of _ xs] exI [of _ "ys @ m # ms'"] exI [of _ ks1] exI [of _ "ks2 @ c # ks'"]) auto
qed

lemma free_place_right:
  assumes "free_place k ms ks linked" and "\<forall>a \<in> set (ks' @ [c]). before a k" and "length ms' = length ks'"
  shows "free_place k (ms' @ m # ms) (ks' @ c # ks) (\<lambda>n. ms' @ m # linked n)"
proof -
  from assms(1) obtain xs ys ks1 ks2 where "ms = xs @ ys" "ks = ks1 @ ks2" "length xs = length ks1"
    "\<forall>n. linked n = xs @ n # ys" "\<forall>a \<in> set ks1. before a k" "\<forall>b \<in> set ks2. before k b" unfolding free_place_def by blast
  then show ?thesis using assms(2,3) unfolding free_place_def
    by (intro exI [of _ "ms' @ m # xs"] exI [of _ ys] exI [of _ "ks' @ c # ks1"] exI [of _ ks2]) auto
qed

lemma descend_ok:
  assumes "memcmp_function cmp" and len: "\<forall>p. length (bytes p) = PAGE_SIZE"
    and "list_all2 (entry bytes s) (inorder t) ks" and "sorted_wrt before ks"
  shows "\<exists>place s'. descend E cmp bytes kpage t path s = Inr (Arrived place, s') \<and> reordered s s' \<and>
    (case place of
       Same_As m \<Rightarrow> m \<in> set (inorder t) \<and> entry bytes s' m (bytes kpage)
     | Below p \<Rightarrow> \<exists>q. p = path @ q \<and> free_place (bytes kpage) (inorder t) ks (\<lambda>n. inorder (link_node q n t)))"
  using assms(3,4)
proof (induction t arbitrary: path s ks)
  case Leaf
  then show ?case using reordered_refl by (auto simp: free_place_def)
next
  case (Node l m r)
  note less_iff = memcmp_function.memcmp_less [OF assms(1)] and greater_iff = memcmp_function.memcmp_greater [OF assms(1)]
    and zero_iff = memcmp_function.memcmp_zero [OF assms(1)]
  let ?k = "bytes kpage"
  from Node.prems(1) obtain kl c kr where ks: "ks = kl @ c # kr" "list_all2 (entry bytes s) (inorder l) kl" "entry bytes s m c"
    "list_all2 (entry bytes s) (inorder r) kr" by (auto simp: list_all2_append1 list_all2_Cons1)
  from Node.prems(2) have sorted: "sorted_wrt before kl" "sorted_wrt before kr" "\<forall>a \<in> set kl. before a c" "\<forall>b \<in> set kr. before c b"
    unfolding ks(1) sorted_wrt_append by auto
  have lens: "length b = PAGE_SIZE" if "b \<in> set kl \<or> b \<in> set kr" for b
    using that ks(2,4) entry_contents len unfolding list_all2_conv_all_nth in_set_conv_nth by metis
  obtain p s1 where p: "tree_page E m s = Inr (Some p, get_page p s1)" "reordered s s1" "bytes p = c"
    using tree_page_ok [OF ks(3)] by blast
  have lc: "length ?k = length c" "length c = length ?k" using len p(3) by auto
  note IH_l = Node.IH(1) [OF list_all2_entry_reordered [OF p(2) ks(2)] sorted(1), of "path @ [Go_Left]"]
  note IH_r = Node.IH(2) [OF list_all2_entry_reordered [OF p(2) ks(4)] sorted(2), of "path @ [Go_Right]"]
  consider (less) "before ?k c" | (greater) "before c ?k" | (same) "?k = c"
    using memcmp_diff_zero [OF lc(1)] memcmp_diff_swap [of c ?k] by linarith
  then show ?case
  proof cases
    case less
    then have d: "descend E cmp bytes kpage (Node l m r) path s = descend E cmp bytes kpage l (path @ [Go_Left]) s1"
      using p less_iff [OF lc(1)] by simp
    have "\<forall>b \<in> set (c # kr). before ?k b" using less sorted(4) memcmp_diff_trans [of ?k c] lens lc len by auto
    note left = free_place_left [OF _ this]
    from IH_l obtain place s' where "descend E cmp bytes kpage l (path @ [Go_Left]) s1 = Inr (Arrived place, s')" "reordered s1 s'"
      "case place of Same_As m \<Rightarrow> m \<in> set (inorder l) \<and> entry bytes s' m ?k
       | Below p \<Rightarrow> \<exists>q. p = (path @ [Go_Left]) @ q \<and> free_place ?k (inorder l) kl (\<lambda>n. inorder (link_node q n l))" by blast
    note d = d [unfolded this(1)] and r = reordered_trans [OF p(2) this(2)] and pl = this(3)
    show ?thesis
    proof (cases place)
      case (Same_As x)
      then show ?thesis using d r pl by auto
    next
      case (Below p')
      then obtain q where q: "p' = path @ Go_Left # q" "free_place ?k (inorder l) kl (\<lambda>n. inorder (link_node q n l))" using pl by auto
      have "free_place ?k (inorder (Node l m r)) ks (\<lambda>n. inorder (link_node (Go_Left # q) n (Node l m r)))"
        using left [OF q(2), of m] by (simp add: ks(1))
      then show ?thesis using d r q(1) Below by auto
    qed
  next
    case greater
    then have d: "descend E cmp bytes kpage (Node l m r) path s = descend E cmp bytes kpage r (path @ [Go_Right]) s1"
      using p greater_iff [OF lc(1)] less_iff [OF lc(1)] memcmp_diff_swap [of c ?k] by simp
    have "\<forall>a \<in> set (kl @ [c]). before a ?k" using greater sorted(3) memcmp_diff_trans [of _ c ?k] lens lc len by auto
    note right = free_place_right [OF _ this list_all2_lengthD [OF ks(2)]]
    from IH_r obtain place s' where "descend E cmp bytes kpage r (path @ [Go_Right]) s1 = Inr (Arrived place, s')" "reordered s1 s'"
      "case place of Same_As m \<Rightarrow> m \<in> set (inorder r) \<and> entry bytes s' m ?k
       | Below p \<Rightarrow> \<exists>q. p = (path @ [Go_Right]) @ q \<and> free_place ?k (inorder r) kr (\<lambda>n. inorder (link_node q n r))" by blast
    note d = d [unfolded this(1)] and r = reordered_trans [OF p(2) this(2)] and pl = this(3)
    show ?thesis
    proof (cases place)
      case (Same_As x)
      then show ?thesis using d r pl by auto
    next
      case (Below p')
      then obtain q where q: "p' = path @ Go_Right # q" "free_place ?k (inorder r) kr (\<lambda>n. inorder (link_node q n r))" using pl by auto
      have "free_place ?k (inorder (Node l m r)) ks (\<lambda>n. inorder (link_node (Go_Right # q) n (Node l m r)))"
        using right [OF q(2), of m] by (simp add: ks(1))
      then show ?thesis using d r q(1) Below by auto
    qed
  next
    case same
    then have "descend E cmp bytes kpage (Node l m r) path s = Inr (Arrived (Same_As m), s1)"
      using p zero_iff [OF lc(1)] memcmp_diff_zero [OF lc(1)] by simp
    then show ?thesis using p(2) entry_reordered [OF p(2) ks(3)] same by auto
  qed
qed

section \<open>The descent returns\<close>

text \<open>Going back to \<open>again\<close> has removed a node, whatever the tree looks like.\<close>

lemma drop_sharers_nodes: "drop_sharers as s = Inr s' \<Longrightarrow> h_nodes s' = h_nodes s"
  by (induction as arbitrary: s) (auto simp: upd_item_def Let_def rbind_eq_Inr split: if_splits)

lemma upd_node_dom [simp]: "dom (h_nodes (upd_node n f s)) = dom (h_nodes s)"
  by (auto simp: upd_node_def)

lemma remove_node_dom:
  assumes "remove_node_from_stable_tree n s = Inr s'"
  shows "n \<in> dom (h_nodes s) \<and> dom (h_nodes s') = dom (h_nodes s) - {n}"
proof -
  from assms obtain nd s1 where n: "h_nodes s n = Some nd" "drop_sharers (hn_hlist nd) s = Inr s1" and
    s': "s' = free_stable_node n (if hn_place nd = Migrate_Node then s1\<lparr>h_migrate := remove1 n (h_migrate s1)\<rparr> else stable_node_dup_del n nd s1)"
    by (auto simp: remove_node_from_stable_tree_def rbind_eq_Inr deref_eq_Inr)
  have "dom (h_nodes (stable_node_dup_del n nd s1)) = dom (h_nodes s1)"
    by (simp add: stable_node_dup_del_def split: node_place.split)
  then have "dom (h_nodes s') = dom (h_nodes s1) - {n}" unfolding s' by (simp add: free_stable_node_def)
  then show ?thesis using n(1) drop_sharers_nodes [OF n(2)] by auto
qed

lemma get_ksm_page_dom:
  assumes "get_ksm_page E GET_KSM_PAGE_NOLOCK n s = Inr (p, s')"
  shows "n \<in> dom (h_nodes s) \<and> dom (h_nodes s') = (if page_opt p = None then dom (h_nodes s) - {n} else dom (h_nodes s))"
proof -
  obtain nd where nd: "h_nodes s n = Some nd" using assms by (auto simp: get_ksm_page_def rbind_eq_Inr deref_eq_Inr)
  have remove: "n \<in> dom (h_nodes s) \<and> p = Ksm_Gone \<and> dom (h_nodes s') = dom (h_nodes s) - {n}"
    if "stale_ksm_page E n kpfn s = Inr (p, s')" for kpfn
  proof -
    from that obtain s1 where s1: "remove_node_from_stable_tree n s = Inr s1"
      "(if h_offload s1 then
          rbind (insert_error_log (he_alloc E (h_errors s1)) (he_junk E) HOST_STALE_STABLE_NODE
            ((he_junk E)\<lparr>ev_type := HOST_STALE_STABLE_NODE, ev_w1 := kpfn\<rparr>) (h_errors s1)) (\<lambda>(err, tbl). Inr (Ksm_Gone, s1\<lparr>h_errors := tbl\<rparr>))
        else Inr (Ksm_Gone, s1)) = Inr (p, s')"
      unfolding stale_ksm_page_def rbind_eq_Inr by blast
    have "p = Ksm_Gone \<and> h_nodes s' = h_nodes s1"
      using s1(2) by (cases "h_offload s1") (auto simp: rbind_eq_Inr)
    then show ?thesis using remove_node_dom [OF s1(1)] by simp
  qed
  consider (stale) kpfn where "stale_ksm_page E n kpfn s = Inr (p, s')" | (live) kpfn where "p = Ksm_Page kpfn" "s' = get_page kpfn s"
    using assms nd by (auto simp: get_ksm_page_def Let_def split: if_splits)
  then show ?thesis
  proof cases
    case stale
    then show ?thesis using remove [OF stale] by (simp add: page_opt_def)
  next
    case live
    then show ?thesis using nd by (auto simp: page_opt_def)
  qed
qed

lemma put_page_nodes [simp]: "h_nodes (put_page p s) = h_nodes s"
  by (simp add: put_page_def upd_page_def)

definition live_nodes :: "host \<Rightarrow> addr set" where
  "live_nodes s = dom (h_nodes s)"

lemma live_put_page [simp]: "live_nodes (put_page p s) = live_nodes s"
  by (simp add: live_nodes_def)

lemma get_ksm_page_live:
  assumes "get_ksm_page E GET_KSM_PAGE_NOLOCK n s = Inr (p, s')"
  shows "live_nodes s' \<subseteq> live_nodes s" "page_opt p = None \<Longrightarrow> live_nodes s' \<subset> live_nodes s"
  using get_ksm_page_dom [OF assms] by (auto simp: live_nodes_def split: if_splits)

lemma pick_dup_live: "pick_dup E prune dups best nr s = Inr (best', nr', s') \<Longrightarrow> live_nodes s' \<subseteq> live_nodes s"
proof (induction dups arbitrary: best nr s)
  case (Cons d dups)
  from Cons.prems obtain p s1 where p: "get_ksm_page E GET_KSM_PAGE_NOLOCK d s = Inr (p, s1)" by (auto simp: rbind_eq_Inr)
  have IH: ?case if "pick_dup E prune dups b k s2 = Inr (best', nr', s')" "live_nodes s2 = live_nodes s1" for b k s2
    using Cons.IH [OF that(1)] that(2) get_ksm_page_live(1) [OF p] by simp
  show ?case
  proof (cases "page_opt p")
    case None
    then show ?thesis using Cons.prems p IH [of best nr s1] by simp
  next
    case (Some x)
    then obtain nd where nd: "h_nodes s1 d = Some nd" using Cons.prems p by (auto simp: rbind_eq_Inr deref_eq_Inr)
    let ?s = "case best of None \<Rightarrow> s1 | Some (f, fp, len) \<Rightarrow> put_page fp s1"
    have l: "live_nodes ?s = live_nodes s1" by (simp split: option.split)
    show ?thesis
    proof (cases "is_page_sharing_candidate (he_max_page_sharing E) 0 nd \<and>
        (case best of None \<Rightarrow> True | Some (f, fp, len) \<Rightarrow> hn_rmap_hlist_len nd > len)")
      case True
      then show ?thesis using Cons.prems p Some nd IH [of "Some (d, x, hn_rmap_hlist_len nd)" "nr + 1" ?s] l get_ksm_page_live(1) [OF p]
        by (cases prune) auto
    next
      case False
      then have "pick_dup E prune dups best (nr + 1) (put_page x s1) = Inr (best', nr', s')" using Cons.prems p Some nd
        by (simp only: pick_dup.simps rbind_Inr split_conv option.case deref_Some if_False)
      then show ?thesis using IH by simp
    qed
  qed
qed simp

lemma chain_page_live:
  assumes "chain_page E m s = Inr (dup, page, s')"
  shows "live_nodes s' \<subseteq> live_nodes s" "dup \<noteq> None \<Longrightarrow> page = None \<Longrightarrow> live_nodes s' \<subset> live_nodes s"
proof -
  obtain nd where nd: "h_nodes s m = Some nd"
    using assms by (auto simp: chain_page_def stable_node_chain_def rbind_eq_Inr deref_eq_Inr)
  have "live_nodes s' \<subseteq> live_nodes s \<and> (dup \<noteq> None \<longrightarrow> page = None \<longrightarrow> live_nodes s' \<subset> live_nodes s)"
  proof (cases "is_stable_node_chain nd")
    case False
    show ?thesis
    proof (cases "is_page_sharing_candidate (he_max_page_sharing E) 0 nd")
      case True
      with False nd assms obtain p where "get_ksm_page E GET_KSM_PAGE_NOLOCK m s = Inr (p, s')" "page = page_opt p"
        by (auto simp: chain_page_def stable_node_chain_def rbind_eq_Inr)
      then show ?thesis using get_ksm_page_live [of E m s p s'] by auto
    next
      case no: False
      then show ?thesis using False nd assms by (simp add: chain_page_def stable_node_chain_def)
    qed
  next
    case True
    then obtain best nr s1 where b: "pick_dup E False (hn_dups nd) None 0 s = Inr (best, nr, s1)"
      using assms nd by (auto simp: chain_page_def stable_node_chain_def stable_node_dup_def rbind_eq_Inr)
    have u: "live_nodes (upd_node m f s1) = live_nodes s1" for f by (simp add: live_nodes_def)
    from True assms nd b have "live_nodes s' = live_nodes s1 \<and> (dup \<noteq> None \<longrightarrow> page \<noteq> None)"
      by (cases best) (auto simp: chain_page_def stable_node_chain_def stable_node_dup_def rbind_eq_Inr u split: if_splits)
    then show ?thesis using pick_dup_live [OF b] by blast
  qed
  then show "live_nodes s' \<subseteq> live_nodes s" "dup \<noteq> None \<Longrightarrow> page = None \<Longrightarrow> live_nodes s' \<subset> live_nodes s" by blast+
qed

lemma tree_page_live:
  assumes "tree_page E m s = Inr (page, s')"
  shows "live_nodes s' \<subseteq> live_nodes s" "page = None \<Longrightarrow> live_nodes s' \<subset> live_nodes s"
proof -
  from assms obtain dup page1 s1 where c: "chain_page E m s = Inr (dup, page1, s1)" by (auto simp: tree_page_def rbind_eq_Inr)
  note d = chain_page_live [OF c]
  have "live_nodes s' \<subseteq> live_nodes s \<and> (page = None \<longrightarrow> live_nodes s' \<subset> live_nodes s)"
  proof (cases dup)
    case None
    with assms c obtain any s2 where a: "stable_node_dup_any m s1 = Inr (any, s2)"
      "(case any of None \<Rightarrow> Inr (None, s2) | Some a \<Rightarrow> rbind (get_ksm_page E GET_KSM_PAGE_NOLOCK a s2) (\<lambda>(page, s). Inr (page_opt page, s))) = Inr (page, s')"
      by (auto simp: tree_page_def rbind_eq_Inr)
    show ?thesis
    proof (cases any)
      case none: None
      then have "live_nodes s2 \<subset> live_nodes s1" using a(1)
        by (auto simp: stable_node_dup_any_def rbind_eq_Inr deref_eq_Inr free_stable_node_chain_def free_stable_node_def Let_def live_nodes_def
            split: if_splits list.splits)
      then show ?thesis using a(2) none d(1) by auto
    next
      case (Some x)
      then have "s2 = s1" using a(1)
        by (auto simp: stable_node_dup_any_def rbind_eq_Inr split: if_splits list.splits)
      then obtain p where "get_ksm_page E GET_KSM_PAGE_NOLOCK x s1 = Inr (p, s')" "page = page_opt p"
        using a(2) Some by (auto simp: rbind_eq_Inr)
      note l = get_ksm_page_live [OF this(1)]
      show ?thesis
      proof (cases "page = None")
        case True
        then show ?thesis using l(2) \<open>page = page_opt p\<close> d(1) by auto
      next
        case False
        then show ?thesis using l(1) d(1) by auto
      qed
    qed
  next
    case (Some x)
    then have "page = page1" "s' = s1" using assms c by (simp_all add: tree_page_def)
    then show ?thesis using d Some by blast
  qed
  then show "live_nodes s' \<subseteq> live_nodes s" "page = None \<Longrightarrow> live_nodes s' \<subset> live_nodes s" by blast+
qed

lemma descend_live:
  "descend E cmp bytes kpage t path s = Inr (step, s') \<Longrightarrow>
   live_nodes s' \<subseteq> live_nodes s \<and> (step = Again \<longrightarrow> live_nodes s' \<subset> live_nodes s)"
proof (induction t arbitrary: path s)
  case (Node l m r)
  from Node.prems obtain page s1 where p: "tree_page E m s = Inr (page, s1)" by (auto simp: rbind_eq_Inr)
  note d = tree_page_live [OF p]
  show ?case
  proof (cases page)
    case None
    then show ?thesis using Node.prems p d by auto
  next
    case (Some q)
    let ?P = "live_nodes s' \<subseteq> live_nodes s1 \<and> (step = Again \<longrightarrow> live_nodes s' \<subset> live_nodes s1)"
    have "descend E cmp bytes kpage l (path @ [Go_Left]) (put_page q s1) = Inr (step, s') \<or>
        descend E cmp bytes kpage r (path @ [Go_Right]) (put_page q s1) = Inr (step, s') \<or> step = Arrived (Same_As m) \<and> s' = put_page q s1"
      using Node.prems p Some by (auto simp: Let_def split: if_splits)
    then have ?P using Node.IH [of _ "put_page q s1"] by (elim disjE conjE) (simp_all, blast+)
    then show ?thesis using d(1) by blast
  qed
qed auto

lemma stable_place_returns:
  assumes "finite (live_nodes s)"
  shows "\<exists>r. stable_place R E cmp bytes kpage t s = Some r"
  using assms
proof (induction "card (live_nodes s)" arbitrary: s t rule: less_induct)
  case less
  show ?case
  proof (cases "descend E cmp bytes kpage t [] s")
    case (Inl e)
    then show ?thesis by (subst stable_place.simps) simp
  next
    case (Inr x)
    obtain step s' where x: "x = (step, s')" by (cases x)
    show ?thesis
    proof (cases step)
      case Again
      then have "live_nodes s' \<subset> live_nodes s" using descend_live Inr x by blast
      then have "card (live_nodes s') < card (live_nodes s)" "finite (live_nodes s')"
        using less.prems by (auto intro: psubset_card_mono finite_subset)
      from less.hyps [OF this] show ?thesis using Inr x Again by (subst stable_place.simps) simp
    next
      case (Arrived p)
      then show ?thesis using Inr x by (subst stable_place.simps) simp
    qed
  qed
qed

section \<open>Inserting\<close>

lemma stable_place_ok:
  assumes "memcmp_function cmp" and "\<forall>p. length (bytes p) = PAGE_SIZE" and "tree_ok bytes s t ks"
  shows "\<exists>place s'. stable_place R E cmp bytes kpage t s = Some (Inr (place, t, s')) \<and> reordered s s' \<and>
    (case place of
       Same_As m \<Rightarrow> m \<in> set (inorder t) \<and> entry bytes s' m (bytes kpage)
     | Below p \<Rightarrow> free_place (bytes kpage) (inorder t) ks (\<lambda>n. inorder (link_node p n t)))"
proof -
  from descend_ok [OF assms(1,2), where s = s and t = t and ks = ks and E = E and kpage = kpage and path = "[]"] assms(3) obtain place s' where
    "descend E cmp bytes kpage t [] s = Inr (Arrived place, s')" and r: "reordered s s'" "case place of
       Same_As m \<Rightarrow> m \<in> set (inorder t) \<and> entry bytes s' m (bytes kpage)
     | Below p \<Rightarrow> free_place (bytes kpage) (inorder t) ks (\<lambda>n. inorder (link_node p n t))"
    unfolding tree_ok_def by (simp cong: place.case_cong) blast
  then have "stable_place R E cmp bytes kpage t s = Some (Inr (place, t, s'))"
    by (subst stable_place.simps) simp
  then show ?thesis using r by blast
qed

lemma entry_unique: "entry bytes s m k \<Longrightarrow> entry bytes s m k' \<Longrightarrow> k = k'"
  by (cases "behind s m") (auto simp: entry_def holds_def)

abbreviation node_kind :: "host \<Rightarrow> addr \<Rightarrow> (bool \<times> u64) option" where
  "node_kind s d \<equiv> map_option (\<lambda>nd. (is_stable_node_chain nd, hn_kpfn nd)) (h_nodes s d)"

lemma holds_kept:
  assumes "holds bytes s k d" and "pg_mapping (h_pages s kpage) = Ksm_Mapping None"
    and "\<And>p. p \<noteq> kpage \<Longrightarrow> h_pages s' p = h_pages s p" and "node_kind s' d = node_kind s d"
  shows "holds bytes s' k d"
proof -
  from assms(1) obtain nd where nd: "h_nodes s d = Some nd" "\<not> is_stable_node_chain nd" "bytes (hn_kpfn nd) = k"
    "pg_mapping (h_pages s (hn_kpfn nd)) = Ksm_Mapping (Some d)" "0 < pg_count (h_pages s (hn_kpfn nd))"
    by (auto simp: holds_def fresh_def)
  moreover have "hn_kpfn nd \<noteq> kpage" using nd(4) assms(2) by auto
  moreover obtain nd' where "h_nodes s' d = Some nd'" "\<not> is_stable_node_chain nd'" "hn_kpfn nd' = hn_kpfn nd"
    using assms(4) nd(1,2) by auto
  ultimately show ?thesis using assms(3) by (auto simp: holds_def fresh_def)
qed

lemma entry_kept:
  assumes "entry bytes s m k" and "pg_mapping (h_pages s kpage) = Ksm_Mapping None"
    and "\<And>p. p \<noteq> kpage \<Longrightarrow> h_pages s' p = h_pages s p" and "\<And>d. h_nodes s d \<noteq> None \<Longrightarrow> node_kind s' d = node_kind s d"
    and "behind s' m = behind s m"
  shows "entry bytes s' m k"
proof -
  have "holds bytes s' k d" if "d \<in> set (behind s m)" for d
  proof (rule holds_kept [OF _ assms(2,3)])
    show h: "holds bytes s k d" using assms(1) that by (simp add: entry_def)
    then show "node_kind s' d = node_kind s d" by (intro assms(4)) (auto simp: holds_def)
  qed
  moreover have "h_nodes s' m \<noteq> None" using assms(1) assms(4) [of m] by (auto simp: entry_def)
  ultimately show ?thesis using assms(1,5) by (simp add: entry_def)
qed

text \<open>What the part of \<open>stable_tree_insert\<close> behind the descent does to the entries.\<close>

definition nodes_kept :: "u64 \<Rightarrow> host \<Rightarrow> host \<Rightarrow> bool" where
  "nodes_kept kpage s s' \<longleftrightarrow> (\<forall>p. p \<noteq> kpage \<longrightarrow> h_pages s' p = h_pages s p) \<and>
     (\<forall>d. h_nodes s d \<noteq> None \<longrightarrow> node_kind s' d = node_kind s d)"

definition behind_kept :: "addr set \<Rightarrow> host \<Rightarrow> host \<Rightarrow> bool" where
  "behind_kept but s s' \<longleftrightarrow> (\<forall>m. m \<notin> but \<longrightarrow> h_nodes s m \<noteq> None \<longrightarrow> behind s' m = behind s m)"

definition node_made :: "u64 \<Rightarrow> addr option \<Rightarrow> addr \<Rightarrow> host \<Rightarrow> host \<Rightarrow> bool" where
  "node_made kpage slot n s s' \<longleftrightarrow> h_nodes s n = None \<and>
     h_pages s' kpage = (h_pages s kpage)\<lparr>pg_mapping := Ksm_Mapping (Some n)\<rparr> \<and>
     (\<exists>nd. h_nodes s' n = Some nd \<and> \<not> is_stable_node_chain nd \<and> hn_kpfn nd = kpage \<and>
        (case slot of
           None \<Rightarrow> behind_kept {} s s'
         | Some m \<Rightarrow> \<exists>c. hn_place nd = Dup_Of c \<and> (c = m \<or> h_nodes s c = None) \<and> h_nodes s' c \<noteq> None \<and>
             behind s' c = n # behind s m \<and> behind_kept {m} s s'))"

lemma stable_tree_insert_makes:
  assumes "host_runtime E" and "\<forall>m. slot = Some m \<longrightarrow> h_nodes s m \<noteq> None"
  shows "\<exists>new s'. stable_tree_insert E (\<lambda>_. slot) kpage s = Inr (new, s') \<and> nodes_kept kpage s s' \<and>
    (case new of None \<Rightarrow> behind_kept {} s s' \<and> (\<exists>N. he_new_node E N = None) | Some n \<Rightarrow> node_made kpage slot n s s')"
proof (cases "he_new_node E (h_nodes s)")
  case None
  then show ?thesis by (auto simp: stable_tree_insert_def nodes_kept_def behind_kept_def)
next
  case (Some n)
  note new = Some
  note new_node = host_runtime.new_node [OF assms(1)]
  have n: "h_nodes s n = None" using new_node [OF Some] .
  let ?nd = "\<lparr>hn_hlist = [], hn_dups = [], hn_kpfn = kpage, hn_rmap_hlist_len = 0, hn_place = Tree_Node\<rparr>"
  let ?s = "set_page_stable_node kpage (Some n) (s\<lparr>h_nodes := (h_nodes s)(n \<mapsto> ?nd)\<rparr>)"
  have nc: "\<not> is_stable_node_chain ?nd" by (simp add: is_stable_node_chain_def STABLE_NODE_CHAIN_def)
  note defs = stable_tree_insert_def set_page_stable_node_def upd_page_def nodes_kept_def behind_kept_def node_made_def behind_def
  show ?thesis
  proof (cases slot)
    case None
    have "stable_tree_insert E (\<lambda>_. slot) kpage s = Inr (Some n, ?s\<lparr>h_tree := n # h_tree ?s\<rparr>)"
      using Some None by (simp add: stable_tree_insert_def Let_def)
    moreover have "nodes_kept kpage s (?s\<lparr>h_tree := n # h_tree ?s\<rparr>)" "node_made kpage slot n s (?s\<lparr>h_tree := n # h_tree ?s\<rparr>)"
      using n nc None by (auto simp: defs)
    ultimately show ?thesis by auto
  next
    case (Some m)
    then obtain md where md: "h_nodes s m = Some md" using assms(2) by blast
    have mn: "m \<noteq> n" using md n by auto
    note sdefs = stable_node_chain_add_dup_def upd_node_def alloc_stable_node_chain_def
    show ?thesis
    proof (cases "is_stable_node_chain md")
      case True
      let ?t = "stable_node_chain_add_dup n m ?s"
      have "stable_tree_insert E (\<lambda>_. slot) kpage s = Inr (Some n, ?t)"
        using new Some md mn True by (simp add: stable_tree_insert_def deref_def set_page_stable_node_def upd_page_def Let_def)
      moreover have "nodes_kept kpage s ?t"
        using n by (auto simp: nodes_kept_def sdefs set_page_stable_node_def upd_page_def is_stable_node_chain_def)
      moreover have "node_made kpage slot n s ?t"
        using n nc Some md mn True unfolding node_made_def behind_kept_def behind_def
        by (auto simp: sdefs set_page_stable_node_def upd_page_def is_stable_node_chain_def)
      ultimately show ?thesis by auto
    next
      case False
      show ?thesis
      proof (cases "he_new_node E (h_nodes ?s)")
        case None
        have "stable_tree_insert E (\<lambda>_. slot) kpage s = Inr (None, free_stable_node n ?s)"
          using new Some md mn False None
          by (simp add: stable_tree_insert_def alloc_stable_node_chain_def deref_def set_page_stable_node_def upd_page_def Let_def)
        moreover have "nodes_kept kpage s (free_stable_node n ?s)" "behind_kept {} s (free_stable_node n ?s)"
          using n by (auto simp: nodes_kept_def behind_kept_def behind_def free_stable_node_def set_page_stable_node_def upd_page_def)
        ultimately show ?thesis using None by (auto intro: exI [of _ "h_nodes ?s"])
      next
        case (Some c)
        have c: "h_nodes ?s c = None" using new_node [OF Some] .
        then have cm: "c \<noteq> m" "c \<noteq> n" "h_nodes s c = None" using md mn
          by (auto simp: set_page_stable_node_def upd_page_def split: if_splits)
        let ?t = "stable_node_chain_add_dup n c (snd (alloc_stable_node_chain E m ?s))"
        have "stable_tree_insert E (\<lambda>_. slot) kpage s = Inr (Some n, ?t)"
          using new \<open>slot = Some m\<close> md mn False Some
          by (simp add: stable_tree_insert_def alloc_stable_node_chain_def deref_def set_page_stable_node_def upd_page_def Let_def)
        moreover have "nodes_kept kpage s ?t"
          using n Some cm md by (auto simp: nodes_kept_def sdefs set_page_stable_node_def upd_page_def is_stable_node_chain_def Let_def)
        moreover have "node_made kpage slot n s ?t"
          using n nc Some cm md mn False \<open>slot = Some m\<close> unfolding node_made_def behind_kept_def behind_def
          by (auto simp: sdefs set_page_stable_node_def upd_page_def is_stable_node_chain_def STABLE_NODE_CHAIN_def Let_def)
        ultimately show ?thesis by auto
      qed
    qed
  qed
qed

lemma entry_after:
  assumes "entry bytes s x k" and "pg_mapping (h_pages s kpage) = Ksm_Mapping None" and "nodes_kept kpage s s'"
    and "behind_kept but s s'" and "x \<notin> but"
  shows "entry bytes s' x k" "behind s' x = behind s x"
proof -
  show b: "behind s' x = behind s x" using assms(1,4,5) by (auto simp: behind_kept_def entry_def)
  show "entry bytes s' x k" by (rule entry_kept [OF assms(1,2) _ _ b]) (use assms(3) in \<open>auto simp: nodes_kept_def\<close>)
qed

lemma node_made_holds:
  "node_made kpage slot n s s' \<Longrightarrow> 0 < pg_count (h_pages s kpage) \<Longrightarrow> holds bytes s' (bytes kpage) n"
  by (auto simp: node_made_def holds_def fresh_def)

definition tree_nodes :: "host \<Rightarrow> addr tree \<Rightarrow> addr set" where
  "tree_nodes s t = (\<Union>m \<in> set (inorder t). set (behind s m))"

lemma tree_ok_reordered:
  assumes "reordered s s'" and "tree_ok bytes s t ks"
  shows "tree_ok bytes s' t ks" "tree_nodes s' t = tree_nodes s t"
proof -
  show "tree_ok bytes s' t ks" using assms list_all2_entry_reordered by (simp add: tree_ok_def)
  have "set (behind s' m) = set (behind s m)" if "m \<in> set (inorder t)" for m
  proof -
    have "\<exists>k. entry bytes s m k" using that assms(2) unfolding tree_ok_def list_all2_conv_all_nth in_set_conv_nth by blast
    then show ?thesis using behind_reordered [OF assms(1), of m] mset_eq_setD by (auto simp: entry_def)
  qed
  then show "tree_nodes s' t = tree_nodes s t" unfolding tree_nodes_def by (rule SUP_cong [OF refl])
qed

lemma linked_tree:
  assumes ok: "tree_ok bytes s t ks" and place: "free_place (bytes kpage) (inorder t) ks linked" and t': "inorder t' = linked n"
    and page: "pg_mapping (h_pages s kpage) = Ksm_Mapping None" "0 < pg_count (h_pages s kpage)"
    and made: "nodes_kept kpage s s'" "node_made kpage None n s s'"
  shows "\<exists>ks'. tree_ok bytes s' t' ks' \<and> set ks' = insert (bytes kpage) (set ks) \<and> tree_nodes s' t' = insert n (tree_nodes s t)"
proof -
  let ?k = "bytes kpage"
  from place obtain xs ys ks1 ks2 where p: "inorder t = xs @ ys" "ks = ks1 @ ks2" "length xs = length ks1"
    "linked n = xs @ n # ys" "\<forall>a \<in> set ks1. before a ?k" "\<forall>b \<in> set ks2. before ?k b" unfolding free_place_def by blast
  have kept: "behind_kept {} s s'" and n: "behind s' n = [n]" "h_nodes s' n \<noteq> None" using made(2) by (auto simp: node_made_def behind_def)
  have all2: "list_all2 (entry bytes s) xs ks1" "list_all2 (entry bytes s) ys ks2"
    using ok p(1-3) by (auto simp: tree_ok_def list_all2_append)
  have step: "entry bytes s' x k" if "entry bytes s x k" for x k using entry_after(1) [OF that page(1) made(1) kept] by simp
  have "entry bytes s' n ?k" using n node_made_holds [OF made(2) page(2)] by (simp add: entry_def)
  moreover have "list_all2 (entry bytes s') xs ks1" "list_all2 (entry bytes s') ys ks2"
    using all2 step by (metis list_all2_mono)+
  moreover have "sorted_wrt before (ks1 @ ?k # ks2)" using ok p(2,5,6) by (auto simp: tree_ok_def sorted_wrt_append)
  ultimately have "tree_ok bytes s' t' (ks1 @ ?k # ks2)" using t' p(4) by (simp add: tree_ok_def list_all2_appendI)
  moreover have "behind s' x = behind s x" if "x \<in> set (inorder t)" for x
  proof -
    have "\<exists>k. entry bytes s x k" using that ok unfolding tree_ok_def list_all2_conv_all_nth in_set_conv_nth by blast
    then show ?thesis using entry_after(2) [OF _ page(1) made(1) kept] by blast
  qed
  then have "tree_nodes s' t' = insert n (tree_nodes s t)" using n(1) by (simp add: tree_nodes_def t' p(1,4))
  ultimately show ?thesis using p(2) by (intro exI [of _ "ks1 @ ?k # ks2"]) auto
qed

lemma chained_tree:
  assumes ok: "tree_ok bytes s t ks" and m: "m \<in> set (inorder t)" "entry bytes s m (bytes kpage)"
    and page: "pg_mapping (h_pages s kpage) = Ksm_Mapping None" "0 < pg_count (h_pages s kpage)"
    and made: "nodes_kept kpage s s'" "node_made kpage (Some m) n s s'"
  shows "\<exists>nd c. h_nodes s' n = Some nd \<and> hn_place nd = Dup_Of c \<and> tree_ok bytes s' (map_tree (\<lambda>x. if x = m then c else x) t) ks \<and>
    bytes kpage \<in> set ks \<and> tree_nodes s' (map_tree (\<lambda>x. if x = m then c else x) t) = insert n (tree_nodes s t)"
proof -
  let ?k = "bytes kpage"
  from made(2) obtain nd c where nd: "h_nodes s n = None" "h_nodes s' n = Some nd" "hn_place nd = Dup_Of c"
    "h_nodes s' c \<noteq> None" "behind s' c = n # behind s m" "behind_kept {m} s s'"
    by (auto simp: node_made_def)
  let ?f = "\<lambda>x. if x = m then c else x"
  have new: "n \<notin> set (behind s m)" using m(2) nd(1) by (auto simp: entry_def holds_def)
  have "holds bytes s' ?k d" if d: "d \<in> set (behind s m)" for d
  proof (rule holds_kept [OF _ page(1)])
    show h: "holds bytes s ?k d" using m(2) d by (simp add: entry_def)
    show "node_kind s' d = node_kind s d" using made(1) h by (auto simp: nodes_kept_def holds_def)
  qed (use made(1) in \<open>simp add: nodes_kept_def\<close>)
  then have c: "entry bytes s' c ?k" using m(2) nd(4,5) new node_made_holds [OF made(2) page(2)] by (simp add: entry_def)
  have step: "entry bytes s' (?f x) k" if "entry bytes s x k" for x k
    using entry_after(1) [OF that page(1) made(1) nd(6)] entry_unique [OF m(2), of k] that c by auto
  have all: "list_all2 (entry bytes s) (inorder t) ks" "sorted_wrt before ks" using ok by (simp_all add: tree_ok_def)
  have i: "inorder (map_tree ?f t) = map ?f (inorder t)" by (simp add: inorder_map)
  have "list_all2 (entry bytes s') (map ?f (inorder t)) ks"
    unfolding list_all2_map1 using all(1) step by (rule list_all2_mono)
  then have ok': "tree_ok bytes s' (map_tree ?f t) ks" using all(2) by (simp add: tree_ok_def i)
  have ex: "\<exists>k \<in> set ks. entry bytes s x k" if "x \<in> set (inorder t)" for x
    using that all(1) unfolding list_all2_conv_all_nth in_set_conv_nth by (metis nth_mem)
  have k: "?k \<in> set ks" using ex [OF m(1)] entry_unique [OF m(2)] by auto
  have b: "set (behind s' (?f x)) = (if x = m then insert n (set (behind s m)) else set (behind s x))" if "x \<in> set (inorder t)" for x
    using ex [OF that] entry_after(2) [OF _ page(1) made(1) nd(6), of bytes x] nd(5) by auto
  have "tree_nodes s' (map_tree ?f t) = (\<Union>x \<in> set (inorder t). set (behind s' (?f x)))" by (simp only: tree_nodes_def i set_map image_image)
  also have "\<dots> = (\<Union>x \<in> set (inorder t). if x = m then insert n (set (behind s m)) else set (behind s x))"
    by (rule SUP_cong [OF refl b])
  also have "\<dots> = insert n (tree_nodes s t)" using m(1) by (auto simp: tree_nodes_def split: if_splits)
  finally show ?thesis using nd(2,3) ok' k by blast
qed

lemma tree_entry: "tree_ok bytes s t ks \<Longrightarrow> x \<in> set (inorder t) \<Longrightarrow> \<exists>k. entry bytes s x k"
  unfolding tree_ok_def list_all2_conv_all_nth in_set_conv_nth by blast

lemma kept_tree:
  assumes "tree_ok bytes s t ks" and "pg_mapping (h_pages s kpage) = Ksm_Mapping None" and "nodes_kept kpage s s'" and "behind_kept {} s s'"
  shows "tree_ok bytes s' t ks" "tree_nodes s' t = tree_nodes s t"
proof -
  note after = entry_after [OF _ assms(2-4), simplified]
  show "tree_ok bytes s' t ks" using assms(1) after(1) unfolding tree_ok_def by (metis list_all2_mono)
  show "tree_nodes s' t = tree_nodes s t"
    using tree_entry [OF assms(1)] after(2) unfolding tree_nodes_def by (intro SUP_cong refl) metis
qed

lemma tree_nodes_live:
  assumes "tree_ok bytes s t ks" and "h_nodes s n = None"
  shows "n \<notin> tree_nodes s t"
proof -
  have "h_nodes s d \<noteq> None" if d: "d \<in> set (behind s x)" and x: "x \<in> set (inorder t)" for d x
  proof -
    obtain k where "entry bytes s x k" using tree_entry [OF assms(1) x] by blast
    then have "holds bytes s k d" using d by (simp add: entry_def)
    then show ?thesis by (auto simp: holds_def)
  qed
  then show ?thesis using assms(2) unfolding tree_nodes_def by blast
qed

text \<open>The insertion at the place the descent has found.\<close>

definition insertion_ok ::
  "host_env \<Rightarrow> (u64 \<Rightarrow> u8 list) \<Rightarrow> u64 \<Rightarrow> host \<Rightarrow> addr tree \<Rightarrow> u8 list list \<Rightarrow> addr option \<Rightarrow> addr tree \<Rightarrow> host \<Rightarrow> u8 list list \<Rightarrow> bool" where
  "insertion_ok E bytes kpage s t ks new t' s' ks' \<longleftrightarrow> tree_ok bytes s' t' ks' \<and>
    (case new of
       None \<Rightarrow> ks' = ks \<and> tree_nodes s' t' = tree_nodes s t \<and> (\<exists>N. he_new_node E N = None)
     | Some n \<Rightarrow> n \<notin> tree_nodes s t \<and> tree_nodes s' t' = insert n (tree_nodes s t) \<and> holds bytes s' (bytes kpage) n \<and>
         set ks' = insert (bytes kpage) (set ks))"

lemma insert_at_place:
  assumes place: "stable_place R E cmp bytes kpage t s0 = Some (Inr (place, t, s))"
      "case place of Same_As m \<Rightarrow> m \<in> set (inorder t) \<and> entry bytes s m (bytes kpage)
       | Below p \<Rightarrow> free_place (bytes kpage) (inorder t) ks (\<lambda>n. inorder (link_node p n t))"
    and E: "host_runtime E" and R: "\<forall>n t. inorder (rb_insert_color R n t) = inorder t" and ok: "tree_ok bytes s t ks"
    and page: "pg_mapping (h_pages s kpage) = Ksm_Mapping None" "0 < pg_count (h_pages s kpage)"
  shows "\<exists>new t' s' ks'. stable_tree_insert_tree R E cmp bytes kpage t s0 = Inr (new, t', s') \<and>
    insertion_ok E bytes kpage s t ks new t' s' ks'"
proof -
  let ?slot = "case place of Same_As m \<Rightarrow> Some m | Below path \<Rightarrow> None"
  have "\<forall>m. ?slot = Some m \<longrightarrow> h_nodes s m \<noteq> None" using place(2) by (auto simp: entry_def split: place.splits)
  from stable_tree_insert_makes [OF E this, of kpage] obtain new s' where
    i: "stable_tree_insert E (\<lambda>_. ?slot) kpage s = Inr (new, s')" "nodes_kept kpage s s'" and
    n: "case new of None \<Rightarrow> behind_kept {} s s' \<and> (\<exists>N. he_new_node E N = None) | Some n \<Rightarrow> node_made kpage ?slot n s s'" by blast
  show ?thesis
  proof (cases new)
    case None
    then show ?thesis using kept_tree [OF ok page(1) i(2)] n place(1) i(1)
      by (auto simp: stable_tree_insert_tree_def loop_result_def insertion_ok_def)
  next
    case (Some n)
    note made = n [unfolded Some option.case]
    have fresh: "n \<notin> tree_nodes s t" "holds bytes s' (bytes kpage) n"
      using tree_nodes_live [OF ok] node_made_holds [OF made page(2)] made by (auto simp: node_made_def)
    show ?thesis
    proof (cases place)
      case (Below p)
      let ?t = "rb_insert_color R n (link_node p n t)"
      have "free_place (bytes kpage) (inorder t) ks (\<lambda>n. inorder (link_node p n t))" "node_made kpage None n s s'"
        using place(2) made Below by simp_all
      from linked_tree [OF ok this(1) _ page i(2) this(2), of ?t] R obtain ks' where
        "tree_ok bytes s' ?t ks'" "set ks' = insert (bytes kpage) (set ks)" "tree_nodes s' ?t = insert n (tree_nodes s t)" by blast
      moreover have "stable_tree_insert_tree R E cmp bytes kpage t s0 = Inr (Some n, ?t, s')"
        using Below place(1) i(1) Some by (simp add: stable_tree_insert_tree_def loop_result_def)
      ultimately show ?thesis using fresh
        by (intro exI [of _ "Some n"] exI [of _ ?t] exI [of _ s'] exI [of _ ks']) (simp add: insertion_ok_def)
    next
      case (Same_As m)
      then have "m \<in> set (inorder t)" "entry bytes s m (bytes kpage)" "node_made kpage (Some m) n s s'" using place(2) made by simp_all
      from chained_tree [OF ok this(1,2) page i(2) this(3)] obtain nd c where
        c: "h_nodes s' n = Some nd" "hn_place nd = Dup_Of c" and
        t': "tree_ok bytes s' (map_tree (\<lambda>x. if x = m then c else x) t) ks" "bytes kpage \<in> set ks"
          "tree_nodes s' (map_tree (\<lambda>x. if x = m then c else x) t) = insert n (tree_nodes s t)" by blast
      have "stable_tree_insert_tree R E cmp bytes kpage t s0 = Inr (Some n, map_tree (\<lambda>x. if x = m then c else x) t, s')"
        using Same_As place(1) i(1) Some c by (simp add: stable_tree_insert_tree_def loop_result_def deref_def)
      then show ?thesis using t' fresh
        by (intro exI [of _ "Some n"] exI [of _ "map_tree (\<lambda>x. if x = m then c else x) t"] exI [of _ s'] exI [of _ ks])
          (simp add: insertion_ok_def insert_absorb)
    qed
  qed
qed


text \<open>Frame 7, just made a KSM page, has the same contents as frame 16 of node 5, the only one of the tree.\<close>

definition sample_same_page :: host where
  "sample_same_page = sample_host_shared\<lparr>h_pages := (h_pages sample_host_shared)(7 := anon_page\<lparr>pg_mapping := Ksm_Mapping None\<rparr>)\<rparr>"

definition sample_bytes :: "u64 \<Rightarrow> u8 list" where
  "sample_bytes p = replicate PAGE_SIZE (if p = 7 \<or> p = 16 then 1 else 0)"

definition sample_rb :: rb_ops where
  "sample_rb = \<lparr>rb_insert_color = (\<lambda>n t. t), rb_erase = (\<lambda>n t. if t = Node Leaf n Leaf then Leaf else t)\<rparr>"


end
