(* ===== verification/Spec2Isabelle.thy ===== *)
theory Spec2Isabelle
  imports Bask_Round Server_Conn Pre_Hash Host_Descent
begin

text \<open>
  A model of BASK: kernel same-page merging (KSM) whose scan runs on a SmartNIC. The host kernel
  (\<open>src/codes/mm/\<close>) walks the page tables of the registered processes into shadow page tables,
  registers them and the pages for RDMA, and sends a descriptor; the server on the SmartNIC
  (\<open>src/codes/bask/server.c\<close>, \<open>server.h\<close>) reads the pages, finds equal ones, and answers with a log of
  merges; the host applies the log, and reports the merges that failed in an error table that the
  server reads in the next round and undoes.

  \<^bold>\<open>Common.\<close>
  \<^item> \<open>Bask_Prelude\<close>: results (\<open>'a res\<close>: \<open>Stopped\<close> for \<open>ERR_LOG_AND_STOP\<close>, \<open>debug_stop\<close> and \<open>BUG_ON\<close>,
    \<open>Null_Deref\<close> for \<open>NULL\<close>, freed and out-of-range pointers, \<open>Diverged\<close> for an endless loop), their bind
    and fold, heaps, and rounding division.
  \<^item> \<open>Wire_Types\<close>: the structures of \<open>rdma_common.h\<close> (the same in \<open>mm/ksm_rdma.h\<close>).

  \<^bold>\<open>Server.\<close>
  \<^item> \<open>Glib_Tables\<close>: the interfaces of \<open>GTree\<close> and \<open>GHashTable\<close> as locales, with interpretations;
    GLib, xxHash and \<open>malloc\<close> are parameters of the model (\<open>server_env\<close>).
  \<^item> \<open>Server_Types\<close>, \<open>Server_Log\<close>, \<open>Server_Nodes\<close>, \<open>Smart_Scan\<close>: items, stable nodes, log table,
    chains, skip counters (\<open>server.h\<close>). \<open>Cmp_Merge\<close>: \<open>cmp_and_merge_one\<close>; \<open>Cmp_Old\<close>: \<open>cmp_and_merge_one_old\<close>, with its
    properties. \<open>Server_Undo\<close>: \<open>do_handle_error\<close>.
    \<open>Server_Prune\<close>: \<open>prune_metadata\<close>. \<open>Page_Scan\<close>, \<open>Server_Round\<close>, \<open>Server_Main\<close>: the page worker,
    \<open>do_ksm_v3\<close>, a turn of the loop of \<open>on_established\<close>, options and initial state.
  \<^item> \<open>Server_Inv\<close>, \<open>Server_Links\<close>, \<open>Server_Chain\<close>, \<open>Server_Rehash\<close>, \<open>Merge_Steps\<close>, \<open>Merge_Correct\<close>: the
    invariant of the metadata and that every operation keeps it; the abstract state is \<open>sharing\<close>, which
    page shares which frame, and the log of a round describes exactly how it changed.
  \<^item> \<open>Server_Properties\<close>: the properties of scans, rounds and undone merges.
  \<^item> \<open>Pre_Hash\<close>: the thread that hashes pages ahead (\<open>server.h\<close>), interleaved with the page worker and the main thread: the
    hashes it supplies are those of the pages, so what the scan gets from it (\<open>pre\<close>, \<open>pre_hashes\<close>) does not matter; and the pages are freed too early.
  \<^item> \<open>Server_Conn\<close>: the life of the process, from \<open>main\<close> and \<open>start_listening\<close> over the requests to connect and the sessions to
    \<open>cleanup_rdma_cb\<close>: sessions of any length are served, everything is freed once, and what a broken connection does.

  \<^bold>\<open>Host.\<close>
  \<^item> \<open>Host_Tables\<close>, \<open>Host_Shadow\<close>: the two-level tables of \<open>mm/ksm_shadow.c\<close> are the lists of what was
    inserted; xarrays are a locale. \<open>Host_Sgl\<close>, \<open>Host_Register\<close>, \<open>Host_Request\<close>: the chained scatter
    lists and descriptors of \<open>mm/ksm_rdma.c\<close>; what the server reads through them is a valid request.
  \<^item> \<open>Host_Items\<close>: the offload mode and the items of \<open>mm/ksm.h\<close>. \<open>Host_State\<close>: stable nodes, pages, page
    tables and counters, and the operations of \<open>mm/ksm.c\<close> that \<open>apply_result\<close> runs.
    \<open>Host_Inv\<close>, \<open>Host_Merge\<close>, \<open>Host_Apply\<close>: the invariant with the counters, and what every log entry does to it.
  \<^item> \<open>Host_Properties\<close>: the properties of applying a log, and what the server makes of the reports.
  \<^item> \<open>Host_Descent\<close>: the descent of \<open>stable_tree_insert\<close> through chains and stale nodes. Inserting keeps the tree sorted by
    contents; going back to \<open>again\<close> removes a node each time, so the descent returns from any finite state. \<open>Host_State\<close> and the
    rounds take the place found (\<open>et_slot\<close>) as an input.
  \<^item> \<open>Host_Walk\<close>: how \<open>prepare_metadata\<close> of \<open>mm/ksm.c\<close> walks every process into its shadow page table.
    \<open>Host_Lists\<close>: the linked lists of items. \<open>Walk_Correct\<close>, \<open>Prepare_Correct\<close>: the tables list exactly the
    anonymous pages of the processes that stay in the scan, and registering them makes a valid request.
  \<^item> \<open>Client_Stub\<close>: the RDMA client module, \<open>bask/client_stub.c\<close>: connecting, the interrupt handlers, requests, results,
    the reserve of blocks, single operations. \<open>Client_Correct\<close>: the log arrives whole, and where the client waits for ever.
  \<^item> \<open>Host_Round\<close>: the offloaded branch of \<open>ksm_do_scan\<close>, from the walk to unregistering, and that it ends.

  \<^bold>\<open>Both machines.\<close>
  \<^item> \<open>Server_Ops\<close>: the mode for single operations (\<open>on_established_ops_offload_mode\<close>) and \<open>do_memcmp_pages\<close>, \<open>do_calc_checksum\<close> of the
    host: comparing and hashing on the SmartNIC agree with the host's own. \<open>memcmp\<close> is a locale.
  \<^item> \<open>Bask_Round\<close>: the request of the host is the request the server answers, and the log of the server the one the host applies.

  \<^bold>\<open>Choices.\<close> Allocations, RDMA reads, page locks, write protection and the contents of
  uninitialised memory are inputs. Integers keep their width where the code lets them wrap (the skip
  counters, ages, flags of addresses); sizes bounded by the descriptors are naturals. The jump
  \<open>goto again\<close> of \<open>cmp_and_merge_one\<close> is taken at most once, so two iterations of
  \<open>cmp_again\<close> are enough, which is proved. Loops over linked nodes, and the one of \<open>stable_tree_insert\<close>, are partial functions, whose
  \<open>None\<close> is \<open>Diverged\<close>; that they return is part of what is proved. The worker thread and the main thread of the server, which hand over
  one batch at a time under a mutex, run one after the other in the model. On the host ksmd runs alone, except that the handlers of
  the RDMA client run between the checks of every wait: which events come when is a schedule, and running out of it while
  waiting is \<open>Diverged\<close>. The loops over the item list of a process take fuel; more than the length of the list is
  enough, which is proved. The hashing thread, which really runs beside the page worker, is interleaved step by step; a
  section under the spin lock is one step, the schedule is an argument, and handing over a job needs three looks at the status at most.

  \<^bold>\<open>Not modelled.\<close> Debug counters, timers and prints; RDMA verbs and the connection manager themselves, whose
  answers and events are inputs; the rebalancing of red-black trees; the local scan of KSM (\<open>cmp_and_merge_page\<close>), its advisor and its
  sysfs files, which are Linux code; loading the client module, which only prints; \<open>rdma_common.c\<close>, which no build target uses; the rest of \<open>mm/\<close>, which is Linux 6.8; scripts.
\<close>

end
